(* ===== verification/Quintet_Prelude.thy ===== *)
theory Quintet_Prelude
  imports Main "HOL-Library.Word"
begin

text \<open>
  The part of the library that does not mention Raft: the collections of facts the
  component theories extend, a model of \<open>std::vector::resize\<close> and of the decimal
  printing of \<open>std::to_string\<close>, facts about lists cut by index, and the fact that two
  majorities of one finite set meet.

  \<^item> \<open>quintet_simps\<close> collects the equations that rewrite an operation's effect on a field;
  \<^item> \<open>keeps_intros\<close> collects the lemmas by which an operation keeps an invariant.
\<close>

named_theorems quintet_simps \<open>effect of an operation on one field of the state\<close>
named_theorems keeps_intros \<open>operations that keep an invariant\<close>

section \<open>Vectors\<close>

text \<open>
  \<open>std::vector<T>::resize(n)\<close>: the first \<open>n\<close> elements, filled up with value-initialised
  ones (\<open>d\<close>) when the vector is shorter.
\<close>

definition vec_resize :: "nat \<Rightarrow> 'a \<Rightarrow> 'a list \<Rightarrow> 'a list" where
  "vec_resize n d xs = take n xs @ replicate (n - length xs) d"

lemma length_vec_resize [simp]: "length (vec_resize n d xs) = n"
  by (simp add: vec_resize_def)

lemma vec_resize_shrink: "n \<le> length xs \<Longrightarrow> vec_resize n d xs = take n xs"
  by (simp add: vec_resize_def)

text \<open>The elements of a vector at the positions \<open>i, \<dots>, j - 1\<close> (an iterator range).\<close>

definition slice :: "nat \<Rightarrow> nat \<Rightarrow> 'a list \<Rightarrow> 'a list" where
  "slice i j xs = drop i (take j xs)"

lemma length_slice: "j \<le> length xs \<Longrightarrow> length (slice i j xs) = j - i"
  by (simp add: slice_def)

lemma nth_slice: "i + k < j \<Longrightarrow> j \<le> length xs \<Longrightarrow> slice i j xs ! k = xs ! (i + k)"
  by (simp add: slice_def)

lemma take_slice: "i \<le> j \<Longrightarrow> take i xs @ slice i j xs = take j xs"
  by (metis append_take_drop_id min.absorb1 slice_def take_take)

lemma slice_append_slice: "i \<le> j \<Longrightarrow> j \<le> k \<Longrightarrow> slice i j xs @ slice j k xs = slice i k xs"
  by (rule nth_equalityI)
    (auto simp: slice_def nth_append add.commute less_diff_conv min_def)

lemma slice_cong: "take j xs = take j ys \<Longrightarrow> slice i j xs = slice i j ys"
  by (simp add: slice_def)

lemma nth_take_eq: "take n xs = take n ys \<Longrightarrow> k < n \<Longrightarrow> xs ! k = ys ! k"
  by (metis nth_take)

lemma take_eq_mono: "take n xs = take n ys \<Longrightarrow> m \<le> n \<Longrightarrow> take m xs = take m ys"
  by (metis min.absorb1 take_take)

lemma distinct_map_filter_one:
  "distinct (map f xs) \<Longrightarrow> k \<in> f ` set xs \<Longrightarrow> length (filter (\<lambda>x. f x = k) xs) = 1"
proof (induction xs)
  case (Cons x xs)
  show ?case
  proof (cases "f x = k")
    case True
    with Cons.prems(1) have "filter (\<lambda>x. f x = k) xs = []" by (auto simp: filter_empty_conv) (metis imageI)
    with True show ?thesis by simp
  next
    case False
    with Cons show ?thesis by auto
  qed
qed simp

section \<open>Decimal numerals\<close>

text \<open>\<open>std::to_string\<close> of an unsigned integer: its decimal digits, most significant first.\<close>

definition digit_char :: "nat \<Rightarrow> char" where
  "digit_char d = char_of (48 + d)"

fun to_string :: "nat \<Rightarrow> string" where
  "to_string n = (if n < 10 then [digit_char n]
     else to_string (n div 10) @ [digit_char (n mod 10)])"

declare to_string.simps [simp del]

lemma of_char_digit: "d < 10 \<Longrightarrow> of_char (digit_char d) = 48 + d"
  by (simp add: digit_char_def)

lemma digit_char_inj: "d < 10 \<Longrightarrow> e < 10 \<Longrightarrow> digit_char d = digit_char e \<Longrightarrow> d = e"
  by (metis add_left_cancel of_char_digit)

lemma to_string_nonempty [simp]: "to_string n \<noteq> []" "[] \<noteq> to_string n"
  by (simp_all add: to_string.simps [of n])

lemma to_string_chars: "c \<in> set (to_string n) \<Longrightarrow> \<exists>d<10. c = digit_char d"
proof (induction n rule: to_string.induct)
  case (1 n)
  have "n mod 10 < 10" by simp
  with 1 show ?case
    by (cases "n < 10") (auto simp: to_string.simps [of n] simp del: mod_less_divisor)
qed

lemma to_string_inj: "to_string m = to_string n \<Longrightarrow> m = n"
proof (induction m arbitrary: n rule: to_string.induct)
  case (1 m)
  consider "m < 10" "n < 10" | "m < 10" "\<not> n < 10" | "\<not> m < 10" "n < 10"
    | "\<not> m < 10" "\<not> n < 10" by blast
  then show ?case
  proof cases
    case 1
    with "1.prems" show ?thesis by (auto simp: to_string.simps dest: digit_char_inj)
  next
    case 2
    with "1.prems" show ?thesis by (simp add: to_string.simps [of m] to_string.simps [of n])
  next
    case 3
    with "1.prems" show ?thesis by (simp add: to_string.simps [of m] to_string.simps [of n])
  next
    case 4
    with "1.prems" have "to_string (m div 10) = to_string (n div 10)"
      and "digit_char (m mod 10) = digit_char (n mod 10)"
      by (simp_all add: to_string.simps [of m] to_string.simps [of n])
    with 4 have "m div 10 = n div 10" and "m mod 10 = n mod 10"
      using "1.IH" by (auto intro: digit_char_inj [OF mod_less_divisor mod_less_divisor])
    then show ?thesis by (metis div_mult_mod_eq)
  qed
qed

text \<open>Extraction of a number from a stream, and that it reads back what was printed.\<close>

definition is_space :: "char \<Rightarrow> bool" where
  "is_space c \<longleftrightarrow> c \<in> set [CHR '' '', CHR 0x09, CHR 0x0A, CHR 0x0B, CHR 0x0C, CHR 0x0D]"

definition is_digit :: "char \<Rightarrow> bool" where
  "is_digit c \<longleftrightarrow> 48 \<le> (of_char c :: nat) \<and> (of_char c :: nat) \<le> 57"

definition digits_value :: "string \<Rightarrow> nat" where
  "digits_value s = foldl (\<lambda>n c. 10 * n + (of_char c - 48)) 0 s"

text \<open>Extraction of an unsigned number below \<open>bound\<close> and what is left of the stream.\<close>

definition read_number :: "nat \<Rightarrow> string \<Rightarrow> (nat \<times> string) option" where
  "read_number bound s = (let s = dropWhile is_space s; d = takeWhile is_digit s in
     if d = [] \<or> bound \<le> digits_value d then None else Some (digits_value d, dropWhile is_digit s))"

lemma is_digit_digit_char: "d < 10 \<Longrightarrow> is_digit (digit_char d)"
  by (simp add: is_digit_def of_char_digit)

lemma is_digit_to_string: "c \<in> set (to_string n) \<Longrightarrow> is_digit c"
  using to_string_chars is_digit_digit_char by metis

lemma is_space_not_digit: "is_space c \<Longrightarrow> \<not> is_digit c"
  by (auto simp: is_space_def is_digit_def)

lemma digits_value_append: "digits_value (s @ [c]) = 10 * digits_value s + (of_char c - 48)"
  by (simp add: digits_value_def)

lemma digits_value_to_string: "digits_value (to_string n) = n"
proof (induction n rule: to_string.induct)
  case (1 n)
  show ?case
  proof (cases "n < 10")
    case True
    then show ?thesis by (simp add: to_string.simps [of n] digits_value_def of_char_digit)
  next
    case False
    with 1 show ?thesis
      by (simp add: to_string.simps [of n] digits_value_append of_char_digit)
  qed
qed

lemma read_number_token:
  assumes "n < bound" "rest = [] \<or> \<not> is_digit (hd rest)" "sp = [] \<or> sp = '' ''"
  shows "read_number bound (sp @ to_string n @ rest) = Some (n, rest)"
proof -
  have digits: "\<forall>c \<in> set (to_string n). is_digit c" by (simp add: is_digit_to_string)
  obtain d ds where ds: "to_string n = d # ds" by (cases "to_string n") simp_all
  with digits have "\<not> is_space d" using is_space_not_digit by auto
  moreover have "is_space CHR '' ''" by (simp add: is_space_def)
  ultimately have "dropWhile is_space (sp @ to_string n @ rest) = to_string n @ rest"
    using assms(3) ds by auto
  moreover have "takeWhile is_digit (to_string n @ rest) = to_string n" "dropWhile is_digit (to_string n @ rest) = rest"
    using digits assms(2) by (cases rest; simp add: takeWhile_append2 dropWhile_append2)+
  ultimately show ?thesis
    using assms(1) by (simp add: read_number_def Let_def digits_value_to_string)
qed

lemma read_number_to_string:
  assumes "n < bound"
  shows "read_number bound (to_string n) = Some (n, [])" "read_number bound ('' '' @ to_string n) = Some (n, [])"
  using read_number_token [OF assms, of "[]" "[]"] read_number_token [OF assms, of "[]" "'' ''"] by simp_all

section \<open>Words\<close>

lemma word_less_succ: "x \<noteq> - 1 \<Longrightarrow> x < x + 1" for x :: "'a::len word"
  by (metis inc_less_eq_triv_imp not_le)

section \<open>Majorities\<close>

lemma majorities_meet:
  assumes "finite A" "B \<subseteq> A" "C \<subseteq> A"
    and "card A div 2 < card B" "card A div 2 < card C"
  shows "\<exists>x. x \<in> B \<and> x \<in> C"
proof (rule ccontr)
  assume "\<nexists>x. x \<in> B \<and> x \<in> C"
  then have "B \<inter> C = {}" by blast
  moreover have "finite B" "finite C" using assms(1-3) by (auto dest: finite_subset)
  ultimately have "card B + card C = card (B \<union> C)" by (simp add: card_Un_disjoint)
  also have "\<dots> \<le> card A" using assms(1-3) by (intro card_mono) auto
  finally show False using assms(4,5) by linarith
qed

end
