(* ===== verification/Quintet_Types.thy ===== *)
theory Quintet_Types
  imports Quintet_Prelude
begin

text \<open>
  The data of the program: server ids, log entries, the messages and replies of the three
  RPCs, the persistent and volatile state of a server and its configuration
  (\<open>QuintetDefs.h\<close>, \<open>RaftDefs.h\<close>, \<open>RpcDefs.h\<close>, \<open>ServerState.h\<close>, \<open>ServerInfo.h\<close>).

  A \<open>Term\<close> and a \<open>PrmIdx\<close> are 64-bit words, a \<open>Port\<close> a 16-bit word. An \<open>Index\<close>
  (\<open>std::size_t\<close>) is a natural number: the code only ever compares one with the size of a
  vector or counts up to one, and \<open>Conversion\<close> writes out its 64-bit form on the wire.
\<close>

section \<open>Server ids\<close>

type_synonym raft_term = "64 word"
type_synonym prm_idx = "64 word"
type_synonym port_no = "16 word"
type_synonym index = nat

record ServerId =
  addr :: string
  port :: port_no

definition NullServerId :: ServerId where
  "NullServerId = \<lparr>addr = [], port = 0\<rparr>"

definition toString :: "string \<Rightarrow> ServerId \<Rightarrow> string" where
  "toString separator sid = addr sid @ separator @ to_string (unat (port sid))"

text \<open>\<open>operator==\<close>, \<open>operator!=\<close> and the hash of an id, with the hash of strings as a parameter.\<close>

definition server_eq :: "ServerId \<Rightarrow> ServerId \<Rightarrow> bool" where
  "server_eq lhs rhs \<longleftrightarrow> addr lhs = addr rhs \<and> port lhs = port rhs"

definition server_neq :: "ServerId \<Rightarrow> ServerId \<Rightarrow> bool" where
  "server_neq lhs rhs \<longleftrightarrow> \<not> server_eq lhs rhs"

definition server_hash :: "(string \<Rightarrow> 64 word) \<Rightarrow> ServerId \<Rightarrow> 64 word" where
  "server_hash string_hash i = string_hash (toString '':'' i)"

section \<open>Identities\<close>

datatype ServerIdentityNo = Follower | Candidate | Leader | Bogus | Down | Error

definition IdentityNum :: nat where
  "IdentityNum = 5"

definition InvalidTerm :: raft_term where
  "InvalidTerm = 0"

fun identity_ord :: "ServerIdentityNo \<Rightarrow> nat" where
  "identity_ord Follower = 0"
| "identity_ord Candidate = 1"
| "identity_ord Leader = 2"
| "identity_ord Bogus = 3"
| "identity_ord Down = 4"
| "identity_ord Error = 5"

text \<open>The enumeration is ordered by its integer values, as the casts in \<open>Raft.cpp\<close> use it.\<close>

lemma identity_ord_inj: "identity_ord a = identity_ord b \<Longrightarrow> a = b"
  by (cases a; cases b) simp_all

instantiation ServerIdentityNo :: linorder
begin

definition less_eq_ServerIdentityNo :: "ServerIdentityNo \<Rightarrow> ServerIdentityNo \<Rightarrow> bool" where
  "less_eq_ServerIdentityNo a b \<longleftrightarrow> identity_ord a \<le> identity_ord b"

definition less_ServerIdentityNo :: "ServerIdentityNo \<Rightarrow> ServerIdentityNo \<Rightarrow> bool" where
  "less_ServerIdentityNo a b \<longleftrightarrow> identity_ord a < identity_ord b"

instance
  by standard
    (auto simp: less_eq_ServerIdentityNo_def less_ServerIdentityNo_def intro: identity_ord_inj)

end

definition IdentityNames :: "string list" where
  "IdentityNames = [''Follower'', ''Candidate'', ''Leader'', ''Bogus'', ''Down'']"

text \<open>
  The identities an array of \<open>IdentityNum\<close> elements has a slot for: all but \<open>Error\<close>.
\<close>

lemma identity_slot: "identity_ord i < IdentityNum \<longleftrightarrow> i < Error"
  by (cases i) (simp_all add: IdentityNum_def less_ServerIdentityNo_def)

section \<open>Log entries\<close>

record LogEntry =
  le_term :: raft_term
  le_opName :: string
  le_args :: string
  le_prmIdx :: prm_idx
  le_srvId :: ServerId

text \<open>
  \<open>LogEntry()\<close>, the sentinel at index 0. The class has no constructor of its own, so the
  value-initialisation \<open>LogEntry()\<close> zeroes \<open>prmIdx\<close>, which has no initialiser.
\<close>

definition LogEntry0 :: LogEntry where
  "LogEntry0 = \<lparr>le_term = InvalidTerm, le_opName = [], le_args = [], le_prmIdx = 0,
     le_srvId = \<lparr>addr = [], port = 0\<rparr>\<rparr>"

record BasicLogEntry =
  be_opName :: string
  be_args :: string
  be_prmIdx :: prm_idx
  be_srvId :: ServerId

section \<open>Messages and replies\<close>

type_synonym Reply = "raft_term \<times> bool"

record AppendEntriesMessage =
  ae_term :: raft_term
  ae_leaderId :: ServerId
  ae_prevLogIdx :: index
  ae_prevLogTerm :: raft_term
  ae_logEntries :: "LogEntry list"
  ae_commitIdx :: index

record RequestVoteMessage =
  rv_term :: raft_term
  rv_candidateId :: ServerId
  rv_lastLogIdx :: index
  rv_lastLogTerm :: raft_term

record AddLogMessage =
  al_opName :: string
  al_args :: string
  al_prmIdx :: prm_idx
  al_srvId :: ServerId

record AddLogReply =
  ar_success :: bool
  ar_leaderId :: ServerId

section \<open>Server state and configuration\<close>

record ServerState =
  currentTerm :: raft_term
  votedFor :: ServerId
  entries :: "LogEntry list"
  commitIdx :: index
  lastApplied :: index

definition ServerState0 :: ServerState where
  "ServerState0 = \<lparr>currentTerm = InvalidTerm, votedFor = NullServerId, entries = [LogEntry0],
     commitIdx = 0, lastApplied = 0\<rparr>"

text \<open>The accessors, which read one field under its own lock.\<close>

definition get_currentTerm :: "ServerState \<Rightarrow> raft_term" where
  [simp]: "get_currentTerm s = currentTerm s"

definition get_commitIdx :: "ServerState \<Rightarrow> index" where
  [simp]: "get_commitIdx s = commitIdx s"

record ServerInfo =
  local :: ServerId
  srvList :: "ServerId list"
  electionTimeout :: nat

section \<open>The printed form of a server id identifies it\<close>

lemma digit_char_not_colon: "d < 10 \<Longrightarrow> digit_char d \<noteq> CHR '':''"
proof
  assume "d < 10" "digit_char d = CHR '':''"
  then have "48 + d = of_char (CHR '':'')" by (metis of_char_digit)
  with \<open>d < 10\<close> show False by simp
qed

lemma colon_not_in_to_string: "CHR '':'' \<notin> set (to_string n)"
  using to_string_chars digit_char_not_colon by metis

lemma split_at_last_colon:
  assumes "as @ CHR '':'' # bs = cs @ CHR '':'' # ds"
    and "CHR '':'' \<notin> set bs" "CHR '':'' \<notin> set ds"
  shows "as = cs \<and> bs = ds"
proof -
  have "rev bs @ CHR '':'' # rev as = rev ds @ CHR '':'' # rev cs"
    using arg_cong [OF assms(1), of rev] by simp
  moreover have "rev bs = takeWhile (\<lambda>c. c \<noteq> CHR '':'') (rev bs @ CHR '':'' # rev as)"
    using assms(2) by (subst takeWhile_append2) auto
  moreover have "rev ds = takeWhile (\<lambda>c. c \<noteq> CHR '':'') (rev ds @ CHR '':'' # rev cs)"
    using assms(3) by (subst takeWhile_append2) auto
  ultimately have "rev bs = rev ds" by metis
  with assms(1) show ?thesis by simp
qed

lemma printed_once: "toString '':'' a = toString '':'' b \<Longrightarrow> a = b"
proof -
  assume "toString '':'' a = toString '':'' b"
  then have "addr a = addr b \<and> to_string (unat (port a)) = to_string (unat (port b))"
    by (intro split_at_last_colon) (simp_all add: toString_def colon_not_in_to_string)
  then show "a = b" by (cases a, cases b) (auto dest!: to_string_inj simp: word_unat_eq_iff)
qed

text \<open>
  \<open>ServerId::toString\<close> with its default separator is injective, so the hash of an id,
  the channel target built from it and the log file named after it belong to one server.
\<close>

theorem toString_inj: "toString '':'' a = toString '':'' b \<Longrightarrow> a = b"
  by (rule printed_once)

theorem toString_inj_witness:
  "\<lparr>addr = ''::1'', port = 7\<rparr> = (\<lparr>addr = ''::1'', port = 7\<rparr> :: ServerId)"
  by (rule toString_inj) simp

text \<open>
  Ids are keys of hash tables: two ids are equal to the table exactly when they are the same id, equal
  ids have equal hashes, and with an injective hash of strings different ids have different ones.
\<close>

theorem server_keys:
  "(server_eq a b \<longleftrightarrow> a = b) \<and> (server_neq a b \<longleftrightarrow> a \<noteq> b) \<and>
   (server_eq a b \<longrightarrow> server_hash h a = server_hash h b) \<and>
   (inj h \<longrightarrow> server_hash h a = server_hash h b \<longrightarrow> server_eq a b)"
proof -
  have eq: "server_eq a b \<longleftrightarrow> a = b" by (cases a, cases b) (simp add: server_eq_def)
  moreover have "a = b" if "inj h" "server_hash h a = server_hash h b"
    using that printed_once [of a b] by (auto simp: server_hash_def dest: injD)
  ultimately show ?thesis by (auto simp: server_neq_def server_hash_def)
qed

end
