(* ===== verification/Append_Log.thy ===== *)
theory Append_Log
  imports Quintet_Types
begin

text \<open>
  What the default handlers do to the log, as functions on the vector \<open>entries\<close> and on
  \<open>ServerState\<close> (\<open>identity/IdentityBaseImpl.cpp\<close>): the comparison of a candidate's log with
  the local one, the merge of the entries of an AppendEntries message (steps 3 and 4), and
  the update of the commit index (step 5), with the lemmas on the merge that the handlers
  rest on: it agrees with the message behind \<open>prevLogIdx\<close>, keeps everything in front of the
  first conflict, is idempotent and computes the textbook merge of logs that match.
\<close>

section \<open>Definitions\<close>

definition upToDate :: "LogEntry list \<Rightarrow> index \<Rightarrow> raft_term \<Rightarrow> bool option" where
  "upToDate es lastLogIdx lastLogTerm =
     (if es = [] then None
      else if le_term (last es) < lastLogTerm then Some True
      else Some (le_term (last es) = lastLogTerm \<and> length es - 1 \<le> lastLogIdx))"

text \<open>
  Steps 3 and 4 of AppendEntries: \<open>idxOffset\<close> runs over the entries of the message while
  they agree in their terms with what the log holds behind \<open>prevLogIdx\<close>.
\<close>

function matchOffset :: "LogEntry list \<Rightarrow> LogEntry list \<Rightarrow> index \<Rightarrow> index \<Rightarrow> index" where
  "matchOffset es new prev off =
     (if off < length new \<and> prev + off + 1 < length es \<and>
         le_term (es ! (prev + off + 1)) = le_term (new ! off)
      then matchOffset es new prev (off + 1) else off)"
  by pat_completeness auto
termination by (relation "measure (\<lambda>(es, new, prev, off). length new - off)") auto

declare matchOffset.simps [simp del]

definition appendLog :: "LogEntry list \<Rightarrow> index \<Rightarrow> LogEntry list \<Rightarrow> LogEntry list" where
  "appendLog es prev new = (let off = matchOffset es new prev 0 in
     if off \<noteq> length new then vec_resize (prev + off + 1) LogEntry0 es @ drop off new else es)"

definition updateCommit :: "index \<Rightarrow> ServerState \<Rightarrow> ServerState option" where
  "updateCommit leaderCommit s =
     (if leaderCommit > commitIdx s
      then if entries s = [] then None
           else Some (s\<lparr>commitIdx := min leaderCommit (length (entries s) - 1)\<rparr>)
      else Some s)"

section \<open>The merge of a log with the entries of a message\<close>

lemma matchOffset_bounds:
  "off \<le> length new \<Longrightarrow> off \<le> matchOffset es new prev off \<and> matchOffset es new prev off \<le> length new"
proof (induction es new prev off rule: matchOffset.induct)
  case (1 es new prev off)
  then show ?case by (subst (1 2) matchOffset.simps [of es new prev off]) auto
qed

lemma matchOffset_matched:
  "off \<le> k \<Longrightarrow> k < matchOffset es new prev off \<Longrightarrow>
     prev + k + 1 < length es \<and> le_term (es ! (prev + k + 1)) = le_term (new ! k)"
proof (induction es new prev off rule: matchOffset.induct)
  case (1 es new prev off)
  show ?case
  proof (cases "off < length new \<and> prev + off + 1 < length es \<and>
      le_term (es ! (prev + off + 1)) = le_term (new ! off)")
    case True
    with "1.prems" "1.IH" show ?thesis
      by (cases "k = off") (auto simp: matchOffset.simps [of es new prev off])
  next
    case False
    with "1.prems" show ?thesis by (auto simp: matchOffset.simps [of es new prev off])
  qed
qed

lemma matchOffset_stop:
  "matchOffset es new prev off < length new \<Longrightarrow> off \<le> length new \<Longrightarrow>
     \<not> (prev + matchOffset es new prev off + 1 < length es \<and>
        le_term (es ! (prev + matchOffset es new prev off + 1)) =
        le_term (new ! matchOffset es new prev off))"
proof (induction es new prev off rule: matchOffset.induct)
  case (1 es new prev off)
  show ?case
  proof (cases "off < length new \<and> prev + off + 1 < length es \<and>
      le_term (es ! (prev + off + 1)) = le_term (new ! off)")
    case True
    with "1.prems" "1.IH" show ?thesis by (simp add: matchOffset.simps [of es new prev off])
  next
    case False
    with "1.prems" show ?thesis by (auto simp: matchOffset.simps [of es new prev off])
  qed
qed

lemma matchOffset_fits:
  "prev < length es \<Longrightarrow> prev + matchOffset es new prev 0 + 1 \<le> length es"
  using matchOffset_matched [of 0 "matchOffset es new prev 0 - 1" es new prev]
  by (cases "matchOffset es new prev 0") auto

text \<open>The three facts that describe the merge: what it keeps, and what it agrees with.\<close>

lemma appendLog_alt:
  assumes "prev < length es"
  shows "appendLog es prev new = (let off = matchOffset es new prev 0 in
    if off = length new then es else take (prev + off + 1) es @ drop off new)"
  using matchOffset_fits [OF assms, of new]
  by (simp add: appendLog_def Let_def vec_resize_shrink)

lemma appendLog_keeps:
  assumes "prev < length es"
  shows "take (prev + matchOffset es new prev 0 + 1) (appendLog es prev new) =
    take (prev + matchOffset es new prev 0 + 1) es"
  using matchOffset_fits [OF assms, of new]
  by (simp add: appendLog_alt [OF assms] Let_def)

lemma appendLog_length:
  assumes "prev < length es"
  shows "prev + length new < length (appendLog es prev new)"
  using matchOffset_fits [OF assms, of new] matchOffset_bounds [of 0 new es prev]
  by (auto simp: appendLog_alt [OF assms] Let_def)

lemma appendLog_terms:
  assumes "prev < length es" "k < length new"
  shows "le_term (appendLog es prev new ! (prev + k + 1)) = le_term (new ! k)"
proof (cases "k < matchOffset es new prev 0")
  case True
  then have "appendLog es prev new ! (prev + k + 1) = es ! (prev + k + 1)"
    using nth_take_eq [OF appendLog_keeps [OF assms(1), of new]] by simp
  with True matchOffset_matched [of 0 k es new prev] show ?thesis by simp
next
  case False
  let ?off = "matchOffset es new prev 0"
  have "length (take (prev + ?off + 1) es) = prev + ?off + 1"
    using matchOffset_fits [OF assms(1), of new] by simp
  moreover have "?off \<noteq> length new" using False assms(2) by auto
  ultimately have "appendLog es prev new ! (prev + k + 1) = drop ?off new ! (k - ?off)"
    using False by (simp add: appendLog_alt [OF assms(1)] Let_def nth_append Suc_diff_le)
  with False assms(2) show ?thesis by simp
qed

text \<open>
  The merge stated for itself, entry by entry: as long as the terms agree an entry stays, and from the
  first that differs or is missing the rest is that of the message; a message that ends first leaves
  the rest of the log.
\<close>

fun mergeTail :: "LogEntry list \<Rightarrow> LogEntry list \<Rightarrow> LogEntry list" where
  "mergeTail es [] = es"
| "mergeTail [] new = new"
| "mergeTail (e # es) (n # new) = (if le_term e = le_term n then e # mergeTail es new else n # new)"

lemma mergeTail_split:
  assumes "\<And>k. k < off \<Longrightarrow> k < length es \<and> le_term (es ! k) = le_term (new ! k)" "off \<le> length new"
    and "off < length new \<Longrightarrow> \<not> (off < length es \<and> le_term (es ! off) = le_term (new ! off))"
  shows "mergeTail es new = (if off = length new then es else take off es @ drop off new)"
  using assms
proof (induction es new arbitrary: off rule: mergeTail.induct)
  case (3 e es n new)
  show ?case
  proof (cases off)
    case 0
    with 3(4) show ?thesis by simp
  next
    case (Suc m)
    have e: "le_term e = le_term n" using 3(2) [of 0] Suc by simp
    have "mergeTail es new = (if m = length new then es else take m es @ drop m new)"
    proof (rule 3(1) [OF e])
      show "k < length es \<and> le_term (es ! k) = le_term (new ! k)" if "k < m" for k
        using 3(2) [of "Suc k"] that Suc by simp
    qed (use 3(3,4) Suc in auto)
    with e Suc show ?thesis by simp
  qed
next
  case (2 n new)
  then show ?case by (cases off) auto
qed simp

lemma appendLog_mergeTail:
  assumes "prev < length es"
  shows "appendLog es prev new = take (prev + 1) es @ mergeTail (drop (prev + 1) es) new"
proof -
  let ?off = "matchOffset es new prev 0" and ?ds = "drop (prev + 1) es"
  have fits: "prev + ?off + 1 \<le> length es" by (rule matchOffset_fits [OF assms])
  have "mergeTail ?ds new = (if ?off = length new then ?ds else take ?off ?ds @ drop ?off new)"
  proof (rule mergeTail_split)
    show "k < length ?ds \<and> le_term (?ds ! k) = le_term (new ! k)" if "k < ?off" for k
      using matchOffset_matched [of 0 k es new prev] that by auto
    show "?off \<le> length new" using matchOffset_bounds [of 0 new es prev] by simp
    show "\<not> (?off < length ?ds \<and> le_term (?ds ! ?off) = le_term (new ! ?off))" if "?off < length new"
      using matchOffset_stop [of es new prev 0] that by auto
  qed
  moreover have "take (prev + ?off + 1) es = take (prev + 1) es @ take ?off ?ds"
    by (metis add.assoc add.commute take_add)
  ultimately show ?thesis by (simp add: appendLog_alt [OF assms] Let_def)
qed

lemma appendLog_nonempty: "prev < length es \<Longrightarrow> appendLog es prev new \<noteq> []"
  using appendLog_length [of prev es new] by (cases "appendLog es prev new = []") auto

lemma matchOffset_all:
  assumes "off \<le> length new" and "\<And>k. off \<le> k \<Longrightarrow> k < length new \<Longrightarrow>
    prev + k + 1 < length es \<and> le_term (es ! (prev + k + 1)) = le_term (new ! k)"
  shows "matchOffset es new prev off = length new"
  using matchOffset_stop [of es new prev off] matchOffset_bounds [of off new es prev] assms
  by (metis le_neq_implies_less)

lemma appendLog_present:
  assumes "\<And>k. k < length new \<Longrightarrow>
    prev + k + 1 < length es \<and> le_term (es ! (prev + k + 1)) = le_term (new ! k)"
  shows "appendLog es prev new = es"
  using matchOffset_all [of 0 new prev es] assms by (simp add: appendLog_def)

text \<open>
  Receiving the same AppendEntries message again does not change the log a second time.
\<close>

theorem appendLog_idempotent:
  assumes "prev < length es"
  shows "appendLog (appendLog es prev new) prev new = appendLog es prev new"
proof (rule appendLog_present)
  fix k assume "k < length new"
  with appendLog_terms [OF assms this] appendLog_length [OF assms, of new]
  show "prev + k + 1 < length (appendLog es prev new) \<and>
      le_term (appendLog es prev new ! (prev + k + 1)) = le_term (new ! k)" by simp
qed

theorem appendLog_idempotent_witness:
  "appendLog (appendLog [LogEntry0] 0 [LogEntry0, LogEntry0]) 0 [LogEntry0, LogEntry0] =
     appendLog [LogEntry0] 0 [LogEntry0, LogEntry0]"
  by (rule appendLog_idempotent) simp

text \<open>
  The committed prefix survives a message that does not contradict it.
\<close>

lemma appendLog_prefix:
  assumes "prev < length es" "c < length es"
    and safe: "\<And>k. k < length new \<Longrightarrow> prev + k + 1 \<le> c \<Longrightarrow>
      le_term (es ! (prev + k + 1)) = le_term (new ! k)"
  shows "take (c + 1) (appendLog es prev new) = take (c + 1) es"
proof (cases "matchOffset es new prev 0 = length new")
  case True
  then show ?thesis by (simp add: appendLog_def)
next
  case False
  let ?off = "matchOffset es new prev 0"
  have lt: "?off < length new" using False matchOffset_bounds [of 0 new es prev] by simp
  have "c < prev + ?off + 1"
  proof (rule ccontr)
    assume "\<not> c < prev + ?off + 1"
    with safe [OF lt] assms(2) matchOffset_stop [of es new prev 0] lt show False by auto
  qed
  then show ?thesis by (intro take_eq_mono [OF appendLog_keeps [OF assms(1)]]) simp
qed

text \<open>
  The textbook merge: nothing changes when the log already holds the entries of the message,
  otherwise everything behind \<open>prevLogIdx\<close> is replaced by them.
\<close>

definition mergeSpec :: "LogEntry list \<Rightarrow> index \<Rightarrow> LogEntry list \<Rightarrow> LogEntry list" where
  "mergeSpec es prev new =
     (if map le_term (take (length new) (drop (prev + 1) es)) = map le_term new then es
      else take (prev + 1) es @ new)"

text \<open>
  The Log Matching Property between the log and the message: at an index where both have an
  entry of the same term, they have the same entry.
\<close>

definition logsMatch :: "LogEntry list \<Rightarrow> index \<Rightarrow> LogEntry list \<Rightarrow> bool" where
  "logsMatch es prev new \<longleftrightarrow> (\<forall>k \<in> {..<length new}. prev + k + 1 < length es \<longrightarrow>
     le_term (es ! (prev + k + 1)) = le_term (new ! k) \<longrightarrow> es ! (prev + k + 1) = new ! k)"

lemma terms_present_iff:
  "map le_term (take (length new) (drop (prev + 1) es)) = map le_term new \<longleftrightarrow>
     (\<forall>k<length new. prev + k + 1 < length es \<and>
        le_term (es ! (prev + k + 1)) = le_term (new ! k))"
  (is "?l = ?r \<longleftrightarrow> _")
proof
  assume eq: "?l = ?r"
  show "\<forall>k<length new. prev + k + 1 < length es \<and>
      le_term (es ! (prev + k + 1)) = le_term (new ! k)"
  proof (intro allI impI)
    fix k assume k: "k < length new"
    from arg_cong [OF eq, of length] have "length new \<le> length es - (prev + 1)" by simp
    moreover have "?l ! k = ?r ! k" using eq by simp
    ultimately show "prev + k + 1 < length es \<and>
        le_term (es ! (prev + k + 1)) = le_term (new ! k)"
      using k by simp
  qed
next
  assume all: "\<forall>k<length new. prev + k + 1 < length es \<and>
      le_term (es ! (prev + k + 1)) = le_term (new ! k)"
  have "length new \<le> length es - (prev + 1)"
    using all [THEN spec, of "length new - 1"] by (cases new) auto
  then show "?l = ?r" using all by (intro nth_equalityI) auto
qed

text \<open>
  C8. Steps 3 and 4 of AppendEntries compute the textbook merge whenever log and message
  satisfy the Log Matching Property.
\<close>

theorem appendLog_mergeSpec:
  assumes prev: "prev < length es" and lm: "logsMatch es prev new"
  shows "appendLog es prev new = mergeSpec es prev new"
proof (cases "\<forall>k<length new. prev + k + 1 < length es \<and>
    le_term (es ! (prev + k + 1)) = le_term (new ! k)")
  case True
  then show ?thesis
    using terms_present_iff [of new prev es] by (simp add: mergeSpec_def appendLog_present)
next
  case False
  let ?off = "matchOffset es new prev 0"
  have off: "?off \<noteq> length new" using False matchOffset_matched [of 0 _ es new prev] by auto
  have fits: "prev + ?off + 1 \<le> length es" by (rule matchOffset_fits [OF prev])
  have le: "?off \<le> length new" using matchOffset_bounds [of 0 new es prev] by simp
  have "drop (prev + 1) (take (prev + ?off + 1) es) = take ?off new"
  proof (rule nth_equalityI)
    show "length (drop (prev + 1) (take (prev + ?off + 1) es)) = length (take ?off new)"
      using fits le by simp
    fix k assume "k < length (drop (prev + 1) (take (prev + ?off + 1) es))"
    then have k: "k < ?off" using fits by simp
    then have "es ! (prev + k + 1) = new ! k"
      using matchOffset_matched [of 0 k es new prev] lm le by (simp add: logsMatch_def)
    with k fits show "drop (prev + 1) (take (prev + ?off + 1) es) ! k = take ?off new ! k"
      by simp
  qed
  then have "take (prev + ?off + 1) es = take (prev + 1) es @ take ?off new"
    using fits by (metis append_take_drop_id le_add1 min.absorb1 take_take add.commute add.left_commute)
  with off False show ?thesis
    using terms_present_iff [of new prev es] by (auto simp: appendLog_alt [OF prev] mergeSpec_def)
qed

theorem appendLog_mergeSpec_witness:
  "appendLog [LogEntry0, LogEntry0\<lparr>le_term := 1\<rparr>, LogEntry0\<lparr>le_term := 1\<rparr>] 0
      [LogEntry0\<lparr>le_term := 1\<rparr>, LogEntry0\<lparr>le_term := 2\<rparr>] =
    mergeSpec [LogEntry0, LogEntry0\<lparr>le_term := 1\<rparr>, LogEntry0\<lparr>le_term := 1\<rparr>] 0
      [LogEntry0\<lparr>le_term := 1\<rparr>, LogEntry0\<lparr>le_term := 2\<rparr>]"
  by (rule appendLog_mergeSpec) (auto simp: logsMatch_def LogEntry0_def less_Suc_eq)

end
