(* ===== verification/Event_Queue.thy ===== *)
theory Event_Queue
  imports Quintet_Prelude
begin

text \<open>
  The event queue (\<open>misc/EventQueue.cpp\<close>): a mutex-protected FIFO queue whose single worker
  thread takes the front event, releases the mutex, runs the event and goes back to waiting
  on the condition variable. Pausing stops the worker from taking a further event,
  \<open>stop\<close> drains the queue, interrupts the worker and joins it.

  Each operation that holds the mutex is one function on the queue's state; the thread
  steps (take, finish, exit) and the steps of a caller inside \<open>stop\<close> are the rules of the
  step relation, whose interleavings are the executions. An event is a value of the type
  parameter \<open>'e\<close>; running it is the business of the component that owns the queue.
\<close>

section \<open>The contract of a first-in first-out queue\<close>

text \<open>Taking the front event up to \<open>n\<close> times.\<close>

fun pops :: "('q \<Rightarrow> ('e \<times> 'q) option) \<Rightarrow> nat \<Rightarrow> 'q \<Rightarrow> 'e list \<times> 'q" where
  "pops pop 0 s = ([], s)"
| "pops pop (Suc n) s = (case pop s of None \<Rightarrow> ([], s)
     | Some (e, s') \<Rightarrow> (let (es, s'') = pops pop n s' in (e # es, s'')))"

locale fifo =
  fixes push :: "'e \<Rightarrow> 'q \<Rightarrow> 'q"
    and pop :: "'q \<Rightarrow> ('e \<times> 'q) option"
    and items :: "'q \<Rightarrow> 'e list"
    and ready :: "'q \<Rightarrow> bool"
  assumes items_push: "items (push e s) = items s @ [e]"
    and pop_Some: "pop s = Some (e, s') \<Longrightarrow> items s = e # items s'"
    and pop_None: "pop s = None \<Longrightarrow> ready s \<Longrightarrow> items s = []"
    and ready_push: "ready (push e s) = ready s"
    and ready_pop: "pop s = Some (e, s') \<Longrightarrow> ready s'"
begin

lemma items_push_all: "items (fold push es s) = items s @ es"
  by (induction es arbitrary: s) (simp_all add: items_push)

lemma ready_push_all: "ready (fold push es s) = ready s"
  by (induction es arbitrary: s) (simp_all add: ready_push)

lemma pops_items: "pops pop n s = (es, s') \<Longrightarrow> items s = es @ items s'"
  by (induction n arbitrary: s es s')
    (auto split: option.splits prod.splits dest!: pop_Some)

lemma pops_all: "ready s \<Longrightarrow> length (items s) \<le> n \<Longrightarrow> \<exists>s'. pops pop n s = (items s, s') \<and> items s' = []"
proof (induction n arbitrary: s)
  case 0
  then show ?case by simp
next
  case (Suc n)
  show ?case
  proof (cases "pop s")
    case None
    with Suc.prems pop_None show ?thesis by auto
  next
    case (Some p)
    obtain e s1 where p: "p = (e, s1)" by fastforce
    with Some Suc.prems have "ready s1" "length (items s1) \<le> n" "items s = e # items s1"
      using ready_pop pop_Some by auto
    with Suc.IH obtain s' where "pops pop n s1 = (items s1, s')" "items s' = []" by blast
    with Some p \<open>items s = _\<close> show ?thesis by auto
  qed
qed

text \<open>Events come out in the order in which they went in, after what was already waiting.\<close>

lemma push_all_pops_all:
  assumes "ready s" "items s = []" "length es \<le> n"
  shows "fst (pops pop n (fold push es s)) = es"
proof -
  have "items (fold push es s) = es" "ready (fold push es s)"
    using assms by (simp_all add: items_push_all ready_push_all)
  with assms(3) pops_all [of "fold push es s" n] show ?thesis by auto
qed

end

section \<open>State and operations\<close>

datatype worker = NoThread | Executing | Returned

record 'e EventQueue =
  eq_q :: "(nat \<times> 'e) list"
  eq_curIdx :: nat
  eq_paused :: bool
  eq_event :: "'e option"
  eq_thread :: worker
  eq_interrupted :: bool

text \<open>The state of a new queue, whose constructor starts the worker.\<close>

definition EventQueue0 :: "'e EventQueue" where
  "EventQueue0 = \<lparr>eq_q = [], eq_curIdx = 0, eq_paused = False, eq_event = None,
     eq_thread = Executing, eq_interrupted = False\<rparr>"

definition addEvent :: "'e \<Rightarrow> 'e EventQueue \<Rightarrow> 'e EventQueue" where
  "addEvent e s = (let i = eq_curIdx s + 1
     in s\<lparr>eq_curIdx := i, eq_q := eq_q s @ [(i, e)]\<rparr>)"

definition eq_pause :: "'e EventQueue \<Rightarrow> 'e EventQueue" where
  "eq_pause s = s\<lparr>eq_paused := True\<rparr>"

definition eq_resume :: "'e EventQueue \<Rightarrow> 'e EventQueue" where
  "eq_resume s = s\<lparr>eq_paused := False\<rparr>"

text \<open>\<open>wait\<close> returns as soon as its predicate holds: the queue is empty.\<close>

definition eq_wait_done :: "'e EventQueue \<Rightarrow> bool" where
  "eq_wait_done s \<longleftrightarrow> eq_q s = []"

text \<open>
  The worker's loop: its wait ends when the predicate \<open>!paused && !q.empty()\<close> holds; it then
  takes the front node, and is back at the wait after running it. An interruption reaches it
  only while the predicate is false, and makes it return.
\<close>

definition eq_can_take :: "'e EventQueue \<Rightarrow> bool" where
  "eq_can_take s \<longleftrightarrow> \<not> eq_paused s \<and> eq_q s \<noteq> []"

definition eq_take :: "'e EventQueue \<Rightarrow> 'e EventQueue option" where
  "eq_take s = (if eq_thread s = Executing \<and> eq_event s = None \<and> eq_can_take s
     then Some (s\<lparr>eq_event := Some (snd (hd (eq_q s))), eq_q := tl (eq_q s)\<rparr>) else None)"

definition eq_finish :: "'e EventQueue \<Rightarrow> 'e EventQueue" where
  "eq_finish s = s\<lparr>eq_event := None\<rparr>"

definition eq_exit :: "'e EventQueue \<Rightarrow> 'e EventQueue option" where
  "eq_exit s = (if eq_thread s = Executing \<and> eq_event s = None \<and> eq_interrupted s \<and> \<not> eq_can_take s
     then Some (s\<lparr>eq_thread := Returned, eq_interrupted := False\<rparr>) else None)"

definition eq_interrupt :: "'e EventQueue \<Rightarrow> 'e EventQueue" where
  "eq_interrupt s = (if eq_thread s = Executing then s\<lparr>eq_interrupted := True\<rparr> else s)"

definition eq_join :: "'e EventQueue \<Rightarrow> 'e EventQueue option" where
  "eq_join s = (if eq_thread s = Executing then None else Some (s\<lparr>eq_thread := NoThread\<rparr>))"

definition eq_start :: "'e EventQueue \<Rightarrow> 'e EventQueue" where
  "eq_start s = (if eq_thread s \<noteq> NoThread then s
     else s\<lparr>eq_thread := Executing, eq_interrupted := False\<rparr>)"

text \<open>The events waiting in the queue, and one turn of the worker: take, run, finish.\<close>

definition eq_events :: "'e EventQueue \<Rightarrow> 'e list" where
  "eq_events s = map snd (eq_q s)"

definition eq_exec1 :: "'e EventQueue \<Rightarrow> ('e \<times> 'e EventQueue) option" where
  "eq_exec1 s = (case eq_take s of None \<Rightarrow> None
     | Some s' \<Rightarrow> (case eq_event s' of None \<Rightarrow> None | Some e \<Rightarrow> Some (e, eq_finish s')))"

definition eq_idle :: "'e EventQueue \<Rightarrow> bool" where
  "eq_idle s \<longleftrightarrow> eq_thread s = Executing \<and> eq_event s = None \<and> \<not> eq_paused s"

lemma eq_events_addEvent [simp]: "eq_events (addEvent e s) = eq_events s @ [e]"
  by (simp add: eq_events_def addEvent_def Let_def)

lemma addEvent_frame [simp]:
  "eq_event (addEvent e s) = eq_event s" "eq_thread (addEvent e s) = eq_thread s"
  "eq_paused (addEvent e s) = eq_paused s" "eq_interrupted (addEvent e s) = eq_interrupted s"
  by (simp_all add: addEvent_def Let_def)

lemma eq_exec1_Some:
  "eq_exec1 s = Some (e, s') \<longleftrightarrow> eq_idle s \<and> eq_q s \<noteq> [] \<and> e = snd (hd (eq_q s)) \<and>
     s' = s\<lparr>eq_q := tl (eq_q s), eq_event := None\<rparr>"
  by (auto simp: eq_exec1_def eq_take_def eq_idle_def eq_can_take_def eq_finish_def)

lemma eq_exec1_None: "eq_exec1 s = None \<longleftrightarrow> \<not> eq_idle s \<or> eq_q s = []"
  by (auto simp: eq_exec1_def eq_take_def eq_idle_def eq_can_take_def)

interpretation eq: fifo addEvent eq_exec1 eq_events eq_idle
proof unfold_locales
  fix s s' :: "'e EventQueue" and e
  show "eq_events (addEvent e s) = eq_events s @ [e]" by simp
  show "eq_exec1 s = Some (e, s') \<Longrightarrow> eq_events s = e # eq_events s'"
    by (auto simp: eq_exec1_Some eq_events_def simp flip: map_tl)
      (metis list.exhaust_sel list.simps(9) map_tl)
  show "eq_exec1 s = None \<Longrightarrow> eq_idle s \<Longrightarrow> eq_events s = []"
    by (simp add: eq_exec1_None eq_events_def)
  show "eq_idle (addEvent e s) = eq_idle s" by (simp add: eq_idle_def)
  show "eq_exec1 s = Some (e, s') \<Longrightarrow> eq_idle s'"
    by (auto simp: eq_exec1_Some eq_idle_def)
qed

lemma eq_exec1_events:
  assumes "eq_idle q" "eq_events q = e # es"
  obtains q' where "eq_exec1 q = Some (e, q')" "eq_events q' = es" "eq_idle q'"
proof -
  have "eq_exec1 q \<noteq> None" using assms by (auto simp: eq_exec1_None eq_events_def)
  then obtain e' q' where "eq_exec1 q = Some (e', q')" by auto
  then show ?thesis using that eq.pop_Some [of q e' q'] eq.ready_pop [of q e' q'] assms by simp
qed

section \<open>Executions\<close>

text \<open>How far the (single) call of \<open>stop\<close> has come: it has resumed the queue, its wait has
  returned, it has interrupted the worker, it has joined it.\<close>

datatype stop_pc = NotStopping | Resumed | Drained | Interrupting | Joined

datatype 'e eq_label = AddL 'e | PauseL | ResumeL | TakeL 'e | FinishL 'e | ExitL | StopL stop_pc

inductive eq_step ::
  "'e EventQueue \<times> stop_pc \<Rightarrow> 'e eq_label \<Rightarrow> 'e EventQueue \<times> stop_pc \<Rightarrow> bool" where
  add: "eq_step (s, pc) (AddL e) (addEvent e s, pc)"
| pause: "eq_step (s, pc) PauseL (eq_pause s, pc)"
| resume: "eq_step (s, pc) ResumeL (eq_resume s, pc)"
| take: "eq_take s = Some s' \<Longrightarrow> eq_event s' = Some e \<Longrightarrow> eq_step (s, pc) (TakeL e) (s', pc)"
| finish: "eq_event s = Some e \<Longrightarrow> eq_step (s, pc) (FinishL e) (eq_finish s, pc)"
| exit: "eq_exit s = Some s' \<Longrightarrow> eq_step (s, pc) ExitL (s', pc)"
| stop_resume: "eq_step (s, NotStopping) (StopL Resumed) (eq_resume s, Resumed)"
| stop_wait: "eq_wait_done s \<Longrightarrow> eq_step (s, Resumed) (StopL Drained) (s, Drained)"
| stop_interrupt: "eq_step (s, Drained) (StopL Interrupting) (eq_interrupt s, Interrupting)"
| stop_join: "eq_join s = Some s' \<Longrightarrow> eq_step (s, Interrupting) (StopL Joined) (s', Joined)"

text \<open>An execution from the constructed queue, with the labels of its steps in order.\<close>

inductive eq_run :: "'e eq_label list \<Rightarrow> 'e EventQueue \<times> stop_pc \<Rightarrow> bool" where
  start: "eq_run [] (EventQueue0, NotStopping)"
| step: "eq_run ls c \<Longrightarrow> eq_step c l c' \<Longrightarrow> eq_run (ls @ [l]) c'"

inductive_simps eq_step_simps [simp]:
  "eq_step (s, pc) (AddL e) c'" "eq_step (s, pc) PauseL c'" "eq_step (s, pc) ResumeL c'"
  "eq_step (s, pc) (TakeL e) c'" "eq_step (s, pc) (FinishL e) c'" "eq_step (s, pc) ExitL c'"
  "eq_step (s, pc) (StopL pc') c'"

inductive_cases eq_run_snocE: "eq_run (ls @ [l]) c"

definition added :: "'e eq_label list \<Rightarrow> 'e list" where
  "added ls = concat (map (\<lambda>l. case l of AddL e \<Rightarrow> [e] | _ \<Rightarrow> []) ls)"

definition taken :: "'e eq_label list \<Rightarrow> 'e list" where
  "taken ls = concat (map (\<lambda>l. case l of TakeL e \<Rightarrow> [e] | _ \<Rightarrow> []) ls)"

definition finished :: "'e eq_label list \<Rightarrow> 'e list" where
  "finished ls = concat (map (\<lambda>l. case l of FinishL e \<Rightarrow> [e] | _ \<Rightarrow> []) ls)"

lemma trace_simps [simp]:
  "added [] = []" "taken [] = []" "finished [] = []"
  "added (ls @ ls') = added ls @ added ls'" "taken (ls @ ls') = taken ls @ taken ls'"
  "finished (ls @ ls') = finished ls @ finished ls'"
  "added (l # ls) = (case l of AddL e \<Rightarrow> [e] | _ \<Rightarrow> []) @ added ls"
  "taken (l # ls) = (case l of TakeL e \<Rightarrow> [e] | _ \<Rightarrow> []) @ taken ls"
  "finished (l # ls) = (case l of FinishL e \<Rightarrow> [e] | _ \<Rightarrow> []) @ finished ls"
  by (simp_all add: added_def taken_def finished_def)

lemmas eq_op_defs = eq_pause_def eq_resume_def eq_finish_def eq_interrupt_def

lemma eq_take_Some:
  "eq_take s = Some s' \<longleftrightarrow> eq_thread s = Executing \<and> eq_event s = None \<and> eq_can_take s \<and>
     s' = s\<lparr>eq_event := Some (snd (hd (eq_q s))), eq_q := tl (eq_q s)\<rparr>"
  by (auto simp: eq_take_def)

lemma eq_exit_Some:
  "eq_exit s = Some s' \<longleftrightarrow> eq_thread s = Executing \<and> eq_event s = None \<and> eq_interrupted s \<and>
     \<not> eq_can_take s \<and> s' = s\<lparr>eq_thread := Returned, eq_interrupted := False\<rparr>"
  by (auto simp: eq_exit_def)

lemma eq_join_Some:
  "eq_join s = Some s' \<longleftrightarrow> eq_thread s \<noteq> Executing \<and> s' = s\<lparr>eq_thread := NoThread\<rparr>"
  by (auto simp: eq_join_def)

text \<open>
  The invariant of an execution: every event added has been taken or still waits, in the
  order of the additions; the taken ones have finished but for the one that runs; a worker
  that is not executing runs no event.
\<close>

definition eq_inv :: "'e eq_label list \<Rightarrow> 'e EventQueue \<times> stop_pc \<Rightarrow> bool" where
  "eq_inv ls c \<longleftrightarrow> (let s = fst c in
     added ls = taken ls @ eq_events s \<and>
     taken ls = finished ls @ (case eq_event s of None \<Rightarrow> [] | Some e \<Rightarrow> [e]) \<and>
     (eq_thread s \<noteq> Executing \<longrightarrow> eq_event s = None) \<and>
     map fst (eq_q s) = [eq_curIdx s + 1 - length (eq_q s) ..< eq_curIdx s + 1] \<and>
     length (eq_q s) \<le> eq_curIdx s)"

lemma upt_drop1: "i < j \<Longrightarrow> tl [i..<j] = [Suc i..<j]"
  by (simp add: upt_conv_Cons)

lemma eq_inv_take:
  assumes inv: "eq_inv ls (s, pc)" and s': "eq_take s = Some s'" "eq_event s' = Some e"
  shows "eq_inv (ls @ [TakeL e]) (s', pc)"
proof -
  obtain n rest where q: "eq_q s = n # rest"
    using s' by (cases "eq_q s") (auto simp: eq_take_Some eq_can_take_def)
  have "[eq_curIdx s + 1 - length (eq_q s) ..< eq_curIdx s + 1] =
      (eq_curIdx s - length rest) # [eq_curIdx s + 1 - length rest ..< eq_curIdx s + 1]"
    using inv q by (subst upt_conv_Cons) (auto simp: eq_inv_def Suc_diff_le)
  then show ?thesis
    using inv s' q by (auto simp: eq_inv_def eq_take_Some eq_events_def)
qed

lemma eq_inv_step: "eq_step c l c' \<Longrightarrow> eq_inv ls c \<Longrightarrow> eq_inv (ls @ [l]) c'"
proof (induction rule: eq_step.induct)
  case (take s s' e pc)
  then show ?case by (blast intro: eq_inv_take)
next
  case (add s pc e)
  then show ?case
    by (auto simp: eq_inv_def addEvent_def Let_def eq_events_def Suc_diff_le)
qed (auto simp: eq_inv_def eq_op_defs eq_events_def eq_exit_Some eq_join_Some Let_def)

lemma eq_run_inv: "eq_run ls c \<Longrightarrow> eq_inv ls c"
proof (induction rule: eq_run.induct)
  case start
  show ?case by (simp add: eq_inv_def EventQueue0_def eq_events_def)
qed (rule eq_inv_step)

lemma eq_run_appendD: "eq_run (ls @ ls') c \<Longrightarrow> \<exists>c0. eq_run ls c0"
proof (induction ls' arbitrary: c rule: rev_induct)
  case (snoc l ls')
  then have "eq_run ((ls @ ls') @ [l]) c" by simp
  then show ?case using snoc.IH by (blast elim: eq_run_snocE)
qed auto

lemma eq_run_StopL: "eq_run (ls @ [StopL pc]) (s, pc') \<Longrightarrow> pc' = pc"
  by (auto elim!: eq_run_snocE)

lemma eq_run_joined: "eq_run ls (s, Joined) \<Longrightarrow> eq_thread s = NoThread"
proof (induction ls "(s, Joined)" arbitrary: s rule: eq_run.induct)
  case (step ls c l)
  from step(3) step.hyps(2) show ?case
    by cases (auto simp: addEvent_def eq_op_defs eq_take_Some eq_exit_Some eq_join_Some Let_def)
qed

text \<open>
  C22. The event queue is first-in first-out and runs one event at a time: in every execution
  the events taken are, in order, the first ones added, what is left of the additions waits in
  the queue, and at most the last event taken has not finished.
\<close>

theorem event_queue_fifo:
  assumes "eq_run ls (s, pc)"
  shows "added ls = taken ls @ eq_events s \<and>
    taken ls = finished ls @ (case eq_event s of None \<Rightarrow> [] | Some e \<Rightarrow> [e])"
  using eq_run_inv [OF assms] by (simp_all add: eq_inv_def Let_def)

text \<open>The step relation is deterministic in its label; this function computes it.\<close>

fun eq_apply :: "'e eq_label \<Rightarrow> 'e EventQueue \<times> stop_pc \<Rightarrow> ('e EventQueue \<times> stop_pc) option" where
  "eq_apply (AddL e) (s, pc) = Some (addEvent e s, pc)"
| "eq_apply PauseL (s, pc) = Some (eq_pause s, pc)"
| "eq_apply ResumeL (s, pc) = Some (eq_resume s, pc)"
| "eq_apply (TakeL e) (s, pc) = (case eq_take s of None \<Rightarrow> None
     | Some s' \<Rightarrow> if eq_event s' = Some e then Some (s', pc) else None)"
| "eq_apply (FinishL e) (s, pc) = (if eq_event s = Some e then Some (eq_finish s, pc) else None)"
| "eq_apply ExitL (s, pc) = map_option (\<lambda>s'. (s', pc)) (eq_exit s)"
| "eq_apply (StopL Resumed) (s, pc) =
     (if pc = NotStopping then Some (eq_resume s, Resumed) else None)"
| "eq_apply (StopL Drained) (s, pc) =
     (if pc = Resumed \<and> eq_wait_done s then Some (s, Drained) else None)"
| "eq_apply (StopL Interrupting) (s, pc) =
     (if pc = Drained then Some (eq_interrupt s, Interrupting) else None)"
| "eq_apply (StopL Joined) (s, pc) =
     (if pc = Interrupting then map_option (\<lambda>s'. (s', Joined)) (eq_join s) else None)"
| "eq_apply (StopL NotStopping) (s, pc) = None"

fun eq_replay :: "'e eq_label list \<Rightarrow> 'e EventQueue \<times> stop_pc \<Rightarrow> ('e EventQueue \<times> stop_pc) option" where
  "eq_replay [] c = Some c"
| "eq_replay (l # ls) c = Option.bind (eq_apply l c) (eq_replay ls)"

lemma eq_apply_step: "eq_apply l c = Some c' \<Longrightarrow> eq_step c l c'"
  by (cases "(l, c)" rule: eq_apply.cases)
    (auto split: option.splits if_splits intro: eq_step.intros)

lemma eq_step_apply: "eq_step c l c' \<Longrightarrow> eq_apply l c = Some c'"
  by (induction rule: eq_step.induct) simp_all

lemma eq_replay_run: "eq_run ls c \<Longrightarrow> eq_replay ls' c = Some c' \<Longrightarrow> eq_run (ls @ ls') c'"
proof (induction ls' arbitrary: ls c)
  case (Cons l ls')
  then obtain c1 where c1: "eq_apply l c = Some c1" "eq_replay ls' c1 = Some c'"
    by (auto simp: Option.bind_eq_Some_conv)
  then have "eq_run (ls @ [l]) c1" using Cons.prems(1) eq_apply_step eq_run.step by blast
  from Cons.IH [OF this c1(2)] show ?case by simp
qed simp

lemma eq_replay_start: "eq_replay ls (EventQueue0, NotStopping) = Some c \<Longrightarrow> eq_run ls c"
  using eq_replay_run [OF eq_run.start, of ls c] by simp

lemmas eq_eval = EventQueue0_def addEvent_def eq_take_def eq_exit_def eq_join_def eq_can_take_def
  eq_wait_done_def eq_op_defs Let_def

theorem event_queue_fifo_witness:
  "added [AddL (7::nat), AddL 8, TakeL 7] = taken [AddL (7::nat), AddL 8, TakeL 7] @ [8]"
  using event_queue_fifo [OF eq_replay_start [of "[AddL (7::nat), AddL 8, TakeL 7]"]]
  by (simp add: eq_eval eq_events_def)

text \<open>
  A completed \<open>stop\<close> is graceful: every event added before its wait returned has been
  run to its end, in order.
\<close>

theorem event_queue_stop_graceful:
  assumes "eq_run (ls1 @ StopL Drained # ls2) (s, Joined)"
  shows "\<exists>rest. finished (ls1 @ StopL Drained # ls2) = added ls1 @ rest"
proof -
  let ?ls = "ls1 @ StopL Drained # ls2"
  from assms have "eq_run ((ls1 @ [StopL Drained]) @ ls2) (s, Joined)" by simp
  from eq_run_appendD [OF this] obtain s1 pc1
    where r1: "eq_run (ls1 @ [StopL Drained]) (s1, pc1)" by auto
  then have "eq_wait_done s1" by (auto elim!: eq_run_snocE)
  then have "added ls1 = taken ls1"
    using eq_run_inv [OF r1] by (simp add: eq_inv_def eq_wait_done_def eq_events_def Let_def)
  moreover have "taken ?ls = finished ?ls"
    using eq_run_inv [OF assms] eq_run_joined [OF assms] by (simp add: eq_inv_def Let_def)
  ultimately show ?thesis by (metis trace_simps(5))
qed

theorem event_queue_stop_graceful_witness:
  "\<exists>rest. finished [AddL (7::nat), StopL Resumed, TakeL 7, StopL Drained, FinishL 7,
     StopL Interrupting, ExitL, StopL Joined] = added [AddL 7, StopL Resumed, TakeL 7] @ rest"
proof -
  have "\<exists>s. eq_replay ([AddL (7::nat), StopL Resumed, TakeL 7] @ StopL Drained #
      [FinishL 7, StopL Interrupting, ExitL, StopL Joined]) (EventQueue0, NotStopping) =
      Some (s, Joined)"
    by (simp add: eq_eval)
  then obtain s where "eq_run ([AddL (7::nat), StopL Resumed, TakeL 7] @ StopL Drained #
      [FinishL 7, StopL Interrupting, ExitL, StopL Joined]) (s, Joined)"
    using eq_replay_start by blast
  from event_queue_stop_graceful [OF this] show ?thesis by simp
qed

text \<open>
  \<open>EventQueue::wait\<close> does not wait for the last event: in a reachable state its predicate
  holds while an event still runs.
\<close>

theorem event_queue_wait_early:
  "\<exists>ls s pc. eq_run ls (s, pc) \<and> eq_wait_done s \<and> eq_event s = Some (7::nat) \<and> finished ls = []"
proof -
  let ?ls = "[AddL (7::nat), TakeL 7]"
  have "\<exists>s pc. eq_replay ?ls (EventQueue0, NotStopping) = Some (s, pc) \<and>
      eq_wait_done s \<and> eq_event s = Some 7"
    by (simp add: eq_eval)
  then obtain s pc where "eq_run ?ls (s, pc)" "eq_wait_done s" "eq_event s = Some 7"
    using eq_replay_start by blast
  moreover have "finished ?ls = []" by simp
  ultimately show ?thesis by blast
qed

end
