(* ===== verification/Transformer.thy ===== *)
theory Transformer
  imports Quintet_Types
begin

text \<open>
  The identity transformer (\<open>service/IdentityTransformer.cpp\<close>): a gate in front of the
  server's transformations. It remembers the term of the last transformation it let through
  and lets a further one through only for a greater term (or while it has seen no valid
  term). The bound slot \<open>triggerTransform\<close> is an argument, a function on the state \<open>'s\<close> of
  its owner.
\<close>

section \<open>The contract of a gate that opens once per term\<close>

text \<open>The requests, in order, that a gate \<open>g\<close> lets through.\<close>

fun gate_accepts :: "('a \<Rightarrow> raft_term \<Rightarrow> 'g \<Rightarrow> bool \<times> 'g) \<Rightarrow> ('a \<times> raft_term) list \<Rightarrow> 'g \<Rightarrow> ('a \<times> raft_term) list" where
  "gate_accepts gate [] g = []"
| "gate_accepts gate ((a, t) # rs) g = (case gate a t g of (ok, g') \<Rightarrow>
     (if ok then [(a, t)] else []) @ gate_accepts gate rs g')"

locale term_gate =
  fixes gate :: "'a \<Rightarrow> raft_term \<Rightarrow> 'g \<Rightarrow> bool \<times> 'g"
    and last_term :: "'g \<Rightarrow> raft_term"
  assumes gate_opens: "fst (gate a t g) \<longleftrightarrow> last_term g = InvalidTerm \<or> last_term g < t"
    and gate_open: "fst (gate a t g) \<Longrightarrow> last_term (snd (gate a t g)) = t"
    and gate_shut: "\<not> fst (gate a t g) \<Longrightarrow> snd (gate a t g) = g"
begin

lemma last_term_mono: "last_term g \<le> last_term (snd (gate a t g))"
  by (cases "fst (gate a t g)")
    (auto simp: gate_open gate_shut gate_opens InvalidTerm_def word_less_eq_iff_unsigned)

lemma shut_while_term_small:
  "last_term g \<noteq> InvalidTerm \<Longrightarrow> (\<And>a t. (a, t) \<in> set rs \<Longrightarrow> t \<le> last_term g) \<Longrightarrow>
     gate_accepts gate rs g = []"
proof (induction rs)
  case (Cons r rs)
  obtain a t where r: "r = (a, t)" by fastforce
  have "t \<le> last_term g" by (rule Cons.prems(2) [of a]) (simp add: r)
  with Cons.prems(1) have shut: "\<not> fst (gate a t g)" by (auto simp: gate_opens)
  then have "gate a t g = (False, g)" by (simp add: gate_shut prod_eq_iff)
  moreover have "gate_accepts gate rs g = []" using Cons.prems by (intro Cons.IH) auto
  ultimately show ?case by (simp add: r)
qed simp

lemma accepts_above:
  "(a, t) \<in> set (gate_accepts gate rs g) \<Longrightarrow> last_term g = InvalidTerm \<or> last_term g < t"
proof (induction rs arbitrary: g)
  case (Cons r rs)
  obtain b u where r: "r = (b, u)" by fastforce
  obtain ok g' where g': "gate b u g = (ok, g')" by fastforce
  have mono: "last_term g \<le> last_term g'" using last_term_mono [of g b u] g' by simp
  from Cons.prems r g' consider "ok" "(a, t) = (b, u)" | "(a, t) \<in> set (gate_accepts gate rs g')"
    by (auto split: if_splits)
  then show ?case
  proof cases
    case 1
    then show ?thesis using gate_opens [of b u g] g' by simp
  next
    case 2
    from Cons.IH [OF this] mono show ?thesis
      by (auto simp: InvalidTerm_def dest: le_less_trans)
  qed
qed simp

lemma accepts_increase:
  "sorted_wrt (\<lambda>r r'. snd r = InvalidTerm \<or> snd r < snd r') (gate_accepts gate rs g)"
proof (induction rs arbitrary: g)
  case (Cons r rs)
  obtain b u where r: "r = (b, u)" by fastforce
  obtain ok g' where g': "gate b u g = (ok, g')" by fastforce
  have "ok \<Longrightarrow> last_term g' = u" using gate_open [of b u g] g' by simp
  with accepts_above [of _ _ rs g'] Cons.IH [of g'] r g' show ?case by auto
qed simp

lemma accepts_once_per_term:
  "t \<noteq> InvalidTerm \<Longrightarrow> length (filter (\<lambda>r. snd r = t) (gate_accepts gate rs g)) \<le> 1"
proof -
  assume t: "t \<noteq> InvalidTerm"
  have "sorted_wrt R rs' \<Longrightarrow> \<forall>r r'. R r r' \<longrightarrow> snd r = t \<longrightarrow> snd r' \<noteq> t \<Longrightarrow>
      length (filter (\<lambda>r. snd r = t) rs') \<le> 1" for R and rs' :: "('a \<times> raft_term) list"
    by (induction rs') (auto simp: filter_empty_conv Suc_le_eq)
  from this [OF accepts_increase] t show ?thesis by auto
qed

end

section \<open>State and operation\<close>

record IdentityTransformer =
  termTriggered :: raft_term

definition IdentityTransformer0 :: IdentityTransformer where
  "IdentityTransformer0 = \<lparr>termTriggered = InvalidTerm\<rparr>"

text \<open>
  \<open>IdentityTransformer::notify\<close>: whether the transformation was triggered, the transformer,
  and the owner's state, on which the slot has run when it was.
\<close>

definition notify ::
  "(ServerIdentityNo \<Rightarrow> 's \<Rightarrow> 's) \<Rightarrow> ServerIdentityNo \<Rightarrow> raft_term \<Rightarrow> IdentityTransformer \<times> 's
     \<Rightarrow> bool \<times> IdentityTransformer \<times> 's" where
  "notify triggerTransform target curTerm = (\<lambda>(tr, s).
     if termTriggered tr = InvalidTerm \<or> termTriggered tr < curTerm
     then (True, tr\<lparr>termTriggered := curTerm\<rparr>, triggerTransform target s)
     else (False, tr, s))"

interpretation notify: term_gate "notify trigger" "\<lambda>(tr, s). termTriggered tr"
  by unfold_locales (auto simp: notify_def split: prod.splits if_splits)

lemma notify_cases:
  "notify trig target t (tr, s) = (True, \<lparr>termTriggered = t\<rparr>, trig target s) \<and>
     (termTriggered tr = InvalidTerm \<or> termTriggered tr < t)
   \<or> notify trig target t (tr, s) = (False, tr, s) \<and>
     termTriggered tr \<noteq> InvalidTerm \<and> t \<le> termTriggered tr"
  by (cases tr) (auto simp: notify_def)

text \<open>
  The transformer lets at most one transformation through per valid term, whatever the
  order in which the timers, the vote threads and the RPC handlers notify it.
\<close>

theorem notify_once_per_term:
  "t \<noteq> InvalidTerm \<Longrightarrow>
     length (filter (\<lambda>r. snd r = t) (gate_accepts (notify trigger) requests (tr, s))) \<le> 1"
  by (rule notify.accepts_once_per_term)

theorem notify_once_per_term_witness:
  "length (filter (\<lambda>r. snd r = 3) (gate_accepts (notify (#))
     [(Follower, 3), (Candidate, 3), (Leader, 4)] (IdentityTransformer0, []))) \<le> 1"
  by (rule notify_once_per_term) (simp add: InvalidTerm_def)

text \<open>
  Once a transformation has been let through for a valid term, every later request with
  no greater term is dropped for good: a server that stepped down to follower in a term can
  no longer start an election when its timer expires in that same term.
\<close>

theorem notify_dropped:
  assumes "t \<noteq> InvalidTerm" and "notify trigger target t (tr, s) = (True, tr', s')"
    and "\<And>a u. (a, u) \<in> set requests \<Longrightarrow> u \<le> t"
  shows "gate_accepts (notify trigger) requests (tr', s'') = []"
proof -
  have "termTriggered tr' = t"
    using notify.gate_open [of trigger target t "(tr, s)"] assms(2) by simp
  with assms show ?thesis using notify.shut_while_term_small [of "(tr', s'')"] by simp
qed

theorem notify_dropped_witness:
  "gate_accepts (notify (#)) [(Candidate, 5), (Candidate, 5)] (\<lparr>termTriggered = 5\<rparr>, [Follower]) = []"
  by (rule notify_dropped [of 5 "(#)" Follower IdentityTransformer0 "[]" _ "[Follower]"])
    (auto simp: InvalidTerm_def notify_def IdentityTransformer0_def)

end
