(* ===== verification/Heart_Beat.thy ===== *)
theory Heart_Beat
  imports Quintet_Prelude
begin

text \<open>
  The heart beat controller (\<open>service/HeartBeatController.cpp\<close>), the timer behind the
  election timeouts and the leader's heart beats: a thread that calls the bound function
  after each period until it is interrupted.

  The bound function is a value of the type parameter \<open>'f\<close>, the name of a closure of the
  program. The mutex \<open>m\<close> is moved into the thread's closure, so it is released when that
  closure is destroyed; whether Boost does so when the thread function returns or only when
  the thread is joined is the parameter \<open>early\<close> of \<open>beat_return\<close>. Joining a handle
  that holds no thread does nothing, which the program relies on in \<open>restart\<close> and in the
  destructor.
\<close>

section \<open>State and operations\<close>

record 'f beat =
  bt_immediate :: bool
  bt_repeat :: bool
  bt_period :: nat
  bt_func :: 'f
  bt_returned :: bool

record 'f HeartBeatController =
  hb_func :: "'f option"
  hb_period :: nat
  hb_th :: "'f beat option"
  hb_locked :: bool
  hb_immediateCache :: bool
  hb_repeatCache :: bool

definition HeartBeatController0 :: "'f HeartBeatController" where
  "HeartBeatController0 = \<lparr>hb_func = None, hb_period = 0, hb_th = None, hb_locked = False,
     hb_immediateCache = False, hb_repeatCache = False\<rparr>"

definition hb_bind :: "nat \<Rightarrow> 'f \<Rightarrow> 'f HeartBeatController \<Rightarrow> 'f HeartBeatController" where
  "hb_bind periodMs f h = h\<lparr>hb_func := Some f, hb_period := periodMs\<rparr>"

text \<open>
  \<open>start\<close>: \<open>None\<close> is a failed assertion (\<open>period\<close> is zero, the handle still holds a thread)
  or a thread started with no function bound; otherwise the result says whether a beat was
  started.
\<close>

definition hb_start :: "bool \<Rightarrow> bool \<Rightarrow> 'f HeartBeatController \<Rightarrow> (bool \<times> 'f HeartBeatController) option" where
  "hb_start immediate rep h =
     (if hb_period h = 0 then None
      else if hb_locked h then Some (False, h)
      else if hb_th h \<noteq> None then None
      else (case hb_func h of None \<Rightarrow> None
        | Some f \<Rightarrow> Some (True, h\<lparr>hb_immediateCache := immediate, hb_repeatCache := rep,
            hb_th := Some \<lparr>bt_immediate = immediate, bt_repeat = rep, bt_period = hb_period h,
              bt_func = f, bt_returned = False\<rparr>,
            hb_locked := True\<rparr>)))"

definition hb_stop :: "'f HeartBeatController \<Rightarrow> 'f HeartBeatController" where
  "hb_stop h = (case hb_th h of None \<Rightarrow> h | Some b \<Rightarrow> h\<lparr>hb_th := None, hb_locked := False\<rparr>)"

definition hb_restart :: "'f HeartBeatController \<Rightarrow> 'f HeartBeatController option" where
  "hb_restart h = map_option snd (hb_start (hb_immediateCache h) (hb_repeatCache h) (hb_stop h))"

text \<open>The thread function returns by itself.\<close>

definition beat_return :: "bool \<Rightarrow> 'f HeartBeatController \<Rightarrow> 'f HeartBeatController" where
  "beat_return early h = (case hb_th h of None \<Rightarrow> h
     | Some b \<Rightarrow> h\<lparr>hb_th := Some (b\<lparr>bt_returned := True\<rparr>), hb_locked := (hb_locked h \<and> \<not> early)\<rparr>)"

text \<open>
  The thread function itself: \<open>sleeps\<close> says of each sleep whether it lasted its period
  (\<open>True\<close>) or was interrupted; the result is the number of calls of the bound function, and
  whether the function has returned. With no sleep outcome left the thread still sleeps.
\<close>

fun beat_loop :: "bool \<Rightarrow> bool list \<Rightarrow> nat \<times> bool" where
  "beat_loop rep [] = (0, False)"
| "beat_loop rep (False # sleeps) = (0, True)"
| "beat_loop rep (True # sleeps) =
     (if rep then (case beat_loop rep sleeps of (n, r) \<Rightarrow> (Suc n, r)) else (1, True))"

definition beat_thread :: "bool \<Rightarrow> bool \<Rightarrow> bool list \<Rightarrow> nat \<times> bool" where
  "beat_thread immediate rep sleeps =
     (if immediate then
        (if \<not> rep then (1, True) else (case beat_loop rep sleeps of (n, r) \<Rightarrow> (Suc n, r)))
      else beat_loop rep sleeps)"

section \<open>Properties\<close>

text \<open>The mutex is held only while the handle holds a thread.\<close>

definition hb_inv :: "'f HeartBeatController \<Rightarrow> bool" where
  "hb_inv h \<longleftrightarrow> (hb_locked h \<longrightarrow> hb_th h \<noteq> None)"

definition hb_bound :: "'f HeartBeatController \<Rightarrow> bool" where
  "hb_bound h \<longleftrightarrow> hb_func h \<noteq> None \<and> 0 < hb_period h"

lemma hb_inv0: "hb_inv HeartBeatController0"
  by (simp add: hb_inv_def HeartBeatController0_def)

lemma hb_inv_bind [keeps_intros]: "hb_inv h \<Longrightarrow> hb_inv (hb_bind p f h)"
  by (simp add: hb_inv_def hb_bind_def)

lemma hb_inv_stop [keeps_intros]: "hb_inv h \<Longrightarrow> hb_inv (hb_stop h)"
  by (auto simp: hb_inv_def hb_stop_def split: option.splits)

lemma hb_inv_start [keeps_intros]: "hb_inv h \<Longrightarrow> hb_start i r h = Some (ok, h') \<Longrightarrow> hb_inv h'"
  by (auto simp: hb_inv_def hb_start_def split: if_splits option.splits)

lemma hb_inv_return [keeps_intros]: "hb_inv h \<Longrightarrow> hb_inv (beat_return early h)"
  by (auto simp: hb_inv_def beat_return_def split: option.splits)

lemma hb_stop_th [simp]: "hb_th (hb_stop h) = None"
  by (simp add: hb_stop_def split: option.splits)

lemma hb_stop_unlocked: "hb_inv h \<Longrightarrow> \<not> hb_locked (hb_stop h)"
  by (auto simp: hb_inv_def hb_stop_def split: option.splits)

lemma hb_stop_frame [simp]:
  "hb_func (hb_stop h) = hb_func h" "hb_period (hb_stop h) = hb_period h"
  "hb_immediateCache (hb_stop h) = hb_immediateCache h"
  "hb_repeatCache (hb_stop h) = hb_repeatCache h"
  by (simp_all add: hb_stop_def split: option.splits)

lemma hb_bound_stop [simp]: "hb_bound (hb_stop h) = hb_bound h"
  by (simp add: hb_bound_def)

text \<open>Starting a stopped controller that has been bound succeeds.\<close>

lemma hb_start_stopped:
  assumes "hb_inv h" "hb_bound h" "hb_th h = None"
  shows "\<exists>h' f. hb_start i r h = Some (True, h') \<and> hb_inv h' \<and> hb_bound h' \<and> hb_func h = Some f \<and>
    hb_th h' = Some \<lparr>bt_immediate = i, bt_repeat = r, bt_period = hb_period h, bt_func = f,
      bt_returned = False\<rparr>"
  using assms by (auto simp: hb_start_def hb_inv_def hb_bound_def)

lemma hb_start_bound: "hb_start i r h = Some (ok, h') \<Longrightarrow> hb_bound h' = hb_bound h"
  by (auto simp: hb_start_def hb_bound_def split: if_splits option.splits)

text \<open>
  \<open>restart\<close> never trips an assertion and always leaves one fresh, running beat with the
  parameters of the last successful start, whether or not the old beat had already ended.
\<close>

theorem hb_restart_fresh:
  assumes "hb_inv h" "hb_bound h"
  shows "\<exists>h' f. hb_restart h = Some h' \<and> hb_func h = Some f \<and>
    hb_th h' = Some \<lparr>bt_immediate = hb_immediateCache h, bt_repeat = hb_repeatCache h,
      bt_period = hb_period h, bt_func = f, bt_returned = False\<rparr>"
  using hb_start_stopped [of "hb_stop h" "hb_immediateCache h" "hb_repeatCache h"] assms
  by (auto simp: hb_restart_def hb_inv_stop)

lemma hb_restart_keeps [keeps_intros]:
  "hb_inv h \<Longrightarrow> hb_restart h = Some h' \<Longrightarrow> hb_inv h'"
  by (auto simp: hb_restart_def intro: keeps_intros)

lemma hb_restart_bound: "hb_restart h = Some h' \<Longrightarrow> hb_bound h' = hb_bound h"
  by (auto simp: hb_restart_def dest: hb_start_bound)

theorem hb_restart_fresh_witness:
  "\<exists>h' f. hb_restart (hb_bind 5 ''tick'' HeartBeatController0) = Some h' \<and>
    hb_func (hb_bind 5 ''tick'' HeartBeatController0) = Some f \<and>
    hb_th h' = Some \<lparr>bt_immediate = hb_immediateCache (hb_bind 5 ''tick'' HeartBeatController0),
      bt_repeat = hb_repeatCache (hb_bind 5 ''tick'' HeartBeatController0),
      bt_period = hb_period (hb_bind 5 ''tick'' HeartBeatController0), bt_func = f,
      bt_returned = False\<rparr>"
  by (rule hb_restart_fresh)
    (simp_all add: hb_inv_bind hb_inv0, simp add: hb_bound_def hb_bind_def)

text \<open>Starting a controller that is already beating is refused and changes nothing.\<close>

lemma hb_start_beating:
  "hb_period h \<noteq> 0 \<Longrightarrow> hb_locked h \<Longrightarrow> hb_start i r h = Some (False, h)"
  by (simp add: hb_start_def)

lemma beat_loop_repeat:
  "beat_loop True sleeps = (length (takeWhile id sleeps), \<exists>b\<in>set sleeps. \<not> b)"
proof (induction sleeps)
  case (Cons b sleeps)
  then show ?case by (cases b) simp_all
qed simp

text \<open>
  How often a beat calls its function, for all four settings of the parameters: once at
  the start when \<open>immediate\<close>, then once per full period slept before the interruption, and
  exactly once in all when \<open>repeat\<close> is off and the beat was not interrupted in its first sleep.
\<close>

theorem beat_thread_calls:
  "fst (beat_thread immediate rep sleeps) =
     (if rep then (if immediate then 1 else 0) + length (takeWhile id sleeps)
      else if immediate \<or> (sleeps \<noteq> [] \<and> hd sleeps) then 1 else 0)"
proof (cases rep)
  case True
  then show ?thesis by (simp add: beat_thread_def beat_loop_repeat)
next
  case False
  then show ?thesis
    by (cases sleeps; cases "hd sleeps") (simp_all add: beat_thread_def)
qed

end
