(* ===== verification/Identity_Base.thy ===== *)
theory Identity_Base
  imports Append_Log Event_Queue Transformer Heart_Beat "HOL-Library.Monad_Syntax"
begin

text \<open>
  What the identities share (\<open>identity/IdentityBaseImpl.cpp\<close>): the default handlers of the
  three RPCs, the term check and the deferred application of committed entries, on the state
  they all refer to (\<open>ServerState\<close>, \<open>ServerInfo\<close>, \<open>ServerService\<close>).

  A handler is a function from the message and the server to \<open>Some (reply, server)\<close>, or to
  \<open>None\<close> where the code fails an assertion, throws \<open>std::out_of_range\<close> or forms an iterator
  past the end of a vector. Handlers run to completion: the RPC service holds one mutex
  around each call. The objects whose destructors run at scope exit (\<open>defer\<close>) are run after
  the reply has been computed, as in the code.
\<close>

section \<open>The server as the identities see it\<close>

text \<open>The three closures bound to the heart beat controller.\<close>

datatype HeartBeatFunc = FollowerTimeout | CandidateTimeout | LeaderHeartBeat

record Server =
  sv_state :: ServerState
  sv_info :: ServerInfo
  sv_heartBeat :: "HeartBeatFunc HeartBeatController"
  sv_transformer :: IdentityTransformer
  sv_applyQueue :: "BasicLogEntry EventQueue"
  sv_eventQueue :: "ServerIdentityNo EventQueue"

text \<open>
  Notifying the transformer: its slot is \<open>Raft::triggerTransformation\<close>, which adds an event
  to the server's event queue.
\<close>

definition sv_notify :: "ServerIdentityNo \<Rightarrow> raft_term \<Rightarrow> Server \<Rightarrow> Server" where
  "sv_notify target t sv =
     (case notify addEvent target t (sv_transformer sv, sv_eventQueue sv) of
        (_, tr, evq) \<Rightarrow> sv\<lparr>sv_transformer := tr, sv_eventQueue := evq\<rparr>)"

definition sv_restart :: "Server \<Rightarrow> Server option" where
  "sv_restart sv = map_option (\<lambda>h. sv\<lparr>sv_heartBeat := h\<rparr>) (hb_restart (sv_heartBeat sv))"

definition basicEntry :: "LogEntry \<Rightarrow> BasicLogEntry" where
  "basicEntry e = \<lparr>be_opName = le_opName e, be_args = le_args e,
     be_prmIdx = le_prmIdx e, be_srvId = le_srvId e\<rparr>"

text \<open>\<open>Apply::operator()\<close>: one event of the apply queue per entry.\<close>

definition sv_apply :: "LogEntry list \<Rightarrow> Server \<Rightarrow> Server" where
  "sv_apply es sv = sv\<lparr>sv_applyQueue := fold addEvent (map basicEntry es) (sv_applyQueue sv)\<rparr>"

section \<open>The default handlers\<close>

definition checkRpcTerm :: "raft_term \<Rightarrow> ServerIdentityNo \<Rightarrow> Server \<Rightarrow> bool \<times> Server" where
  "checkRpcTerm t identity sv =
     (if currentTerm (sv_state sv) > t
      then (let sv' = sv\<lparr>sv_state := (sv_state sv)\<lparr>currentTerm := t\<rparr>\<rparr>
            in (True, if identity \<noteq> Follower then sv_notify Follower t sv' else sv'))
      else (False, sv))"

definition applyReadyEntries :: "Server \<Rightarrow> Server option" where
  "applyReadyEntries sv = (let s = sv_state sv in
     if lastApplied s \<ge> commitIdx s then Some sv
     else if commitIdx s + 1 > length (entries s) then None
     else Some (sv_apply (slice (lastApplied s + 1) (commitIdx s + 1) (entries s))
       (sv\<lparr>sv_state := s\<lparr>lastApplied := commitIdx s\<rparr>\<rparr>)))"

definition defaultAddLog :: "AddLogMessage \<Rightarrow> AddLogReply" where
  "defaultAddLog msg = \<lparr>ar_success = False, ar_leaderId = NullServerId\<rparr>"

definition requestVote_body ::
  "RequestVoteMessage \<Rightarrow> ServerIdentityNo \<Rightarrow> Server \<Rightarrow> (Reply \<times> Server) option" where
  "requestVote_body msg identity sv = (let s = sv_state sv in
     if rv_term msg < currentTerm s then Some ((currentTerm s, False), sv)
     else if rv_term msg > currentTerm s then do {
       let sv1 = sv\<lparr>sv_state := s\<lparr>votedFor := rv_candidateId msg, currentTerm := rv_term msg\<rparr>\<rparr>;
       sv2 \<leftarrow> (if identity \<noteq> Follower then Some (sv_notify Follower (rv_term msg) sv1)
              else sv_restart sv1);
       Some ((currentTerm (sv_state sv2), True), sv2)
     }
     else do {
       ok \<leftarrow> (if votedFor s = NullServerId \<or> votedFor s = rv_candidateId msg
             then upToDate (entries s) (rv_lastLogIdx msg) (rv_lastLogTerm msg)
             else Some False);
       if ok then do {
         let sv1 = sv\<lparr>sv_state := s\<lparr>votedFor := rv_candidateId msg\<rparr>\<rparr>;
         sv2 \<leftarrow> (if identity = Follower then sv_restart sv1 else Some sv1);
         Some ((currentTerm (sv_state sv2), True), sv2)
       }
       else Some ((currentTerm s, False), sv)
     })"

definition defaultRPCRequestVote ::
  "RequestVoteMessage \<Rightarrow> ServerIdentityNo \<Rightarrow> Server \<Rightarrow> (Reply \<times> Server) option" where
  "defaultRPCRequestVote msg identity sv = do {
     (r, sv') \<leftarrow> requestVote_body msg identity (snd (checkRpcTerm (rv_term msg) identity sv));
     sv'' \<leftarrow> applyReadyEntries sv';
     Some (r, sv'')
   }"

definition appendEntries_body ::
  "AppendEntriesMessage \<Rightarrow> Server \<Rightarrow> (Reply \<times> Server) option" where
  "appendEntries_body msg sv = (let s = sv_state sv; curTerm = currentTerm s in
     if ae_term msg < curTerm then Some ((curTerm, False), sv)
     else if length (entries s) \<le> ae_prevLogIdx msg \<or>
         le_term (entries s ! ae_prevLogIdx msg) \<noteq> ae_prevLogTerm msg
     then Some ((curTerm, False), sv)
     else do {
       let s1 = s\<lparr>entries := appendLog (entries s) (ae_prevLogIdx msg) (ae_logEntries msg)\<rparr>;
       s2 \<leftarrow> updateCommit (ae_commitIdx msg) s1;
       Some ((curTerm, True), sv\<lparr>sv_state := s2\<rparr>)
     })"

definition defaultRPCAppendEntries ::
  "AppendEntriesMessage \<Rightarrow> ServerIdentityNo \<Rightarrow> Server \<Rightarrow> (Reply \<times> Server) option" where
  "defaultRPCAppendEntries msg identity sv = do {
     (r, sv') \<leftarrow> appendEntries_body msg (snd (checkRpcTerm (ae_term msg) identity sv));
     sv'' \<leftarrow> applyReadyEntries sv';
     Some (r, sv'')
   }"

section \<open>What the helpers change\<close>

lemma sv_notify_frame [simp]:
  "sv_state (sv_notify i t sv) = sv_state sv" "sv_info (sv_notify i t sv) = sv_info sv"
  "sv_heartBeat (sv_notify i t sv) = sv_heartBeat sv"
  "sv_applyQueue (sv_notify i t sv) = sv_applyQueue sv"
  by (simp_all add: sv_notify_def split: prod.splits)

lemma sv_notify_events:
  "eq_events (sv_eventQueue (sv_notify i t sv)) = eq_events (sv_eventQueue sv) @
     (if termTriggered (sv_transformer sv) = InvalidTerm \<or> termTriggered (sv_transformer sv) < t
      then [i] else [])"
  by (cases "sv_transformer sv") (simp add: sv_notify_def notify_def)

lemma sv_notify_idle [simp]: "eq_idle (sv_eventQueue (sv_notify i t sv)) = eq_idle (sv_eventQueue sv)"
  using notify_cases [of addEvent i t "sv_transformer sv" "sv_eventQueue sv"]
  by (auto simp: sv_notify_def eq_idle_def)

lemma sv_restart_Some:
  "sv_restart sv = Some sv' \<longleftrightarrow> (\<exists>h. hb_restart (sv_heartBeat sv) = Some h \<and> sv' = sv\<lparr>sv_heartBeat := h\<rparr>)"
  by (auto simp: sv_restart_def)

lemma sv_apply_frame [simp]:
  "sv_state (sv_apply es sv) = sv_state sv" "sv_info (sv_apply es sv) = sv_info sv"
  "sv_heartBeat (sv_apply es sv) = sv_heartBeat sv"
  "sv_transformer (sv_apply es sv) = sv_transformer sv"
  "sv_eventQueue (sv_apply es sv) = sv_eventQueue sv"
  by (simp_all add: sv_apply_def)

lemma sv_apply_events [simp]:
  "eq_events (sv_applyQueue (sv_apply es sv)) = eq_events (sv_applyQueue sv) @ map basicEntry es"
  by (simp add: sv_apply_def eq.items_push_all)

lemma sv_apply_Nil [simp]: "sv_apply [] sv = sv"
  by (simp add: sv_apply_def)

abbreviation checked :: "raft_term \<Rightarrow> ServerIdentityNo \<Rightarrow> Server \<Rightarrow> Server" where
  "checked t i sv \<equiv> snd (checkRpcTerm t i sv)"

lemma checkRpcTerm_state [simp]:
  "sv_state (checked t i sv) = (sv_state sv)\<lparr>currentTerm := min (currentTerm (sv_state sv)) t\<rparr>"
  by (auto simp: checkRpcTerm_def Let_def min_def)

lemma checkRpcTerm_frame [simp]:
  "sv_info (checked t i sv) = sv_info sv" "sv_heartBeat (checked t i sv) = sv_heartBeat sv"
  "sv_applyQueue (checked t i sv) = sv_applyQueue sv"
  "eq_idle (sv_eventQueue (checked t i sv)) = eq_idle (sv_eventQueue sv)"
  by (simp_all add: checkRpcTerm_def Let_def)

lemma checkRpcTerm_fresh: "currentTerm (sv_state sv) \<le> t \<Longrightarrow> checked t i sv = sv"
  by (simp add: checkRpcTerm_def)

text \<open>Applying what is committed, as a total function where the code has no undefined range.\<close>

definition apply_defined :: "ServerState \<Rightarrow> bool" where
  "apply_defined s \<longleftrightarrow> commitIdx s \<le> lastApplied s \<or> commitIdx s < length (entries s)"

definition appliedServer :: "Server \<Rightarrow> Server" where
  "appliedServer sv = (let s = sv_state sv in
     sv_apply (slice (lastApplied s + 1) (commitIdx s + 1) (entries s))
       (sv\<lparr>sv_state := s\<lparr>lastApplied := max (lastApplied s) (commitIdx s)\<rparr>\<rparr>))"

lemma slice_empty [simp]: "j \<le> i \<Longrightarrow> slice i j xs = []"
  by (simp add: slice_def)

lemma applyReadyEntries_alt:
  "apply_defined (sv_state sv) \<Longrightarrow> applyReadyEntries sv = Some (appliedServer sv)"
  by (auto simp: applyReadyEntries_def appliedServer_def apply_defined_def Let_def max_def)

lemma applyReadyEntries_undefined:
  "applyReadyEntries sv = None \<longleftrightarrow> \<not> apply_defined (sv_state sv)"
  by (auto simp: applyReadyEntries_def apply_defined_def Let_def)

lemma applyReadyEntries_frame:
  "applyReadyEntries sv = Some sv' \<Longrightarrow> sv_info sv' = sv_info sv \<and> sv_heartBeat sv' = sv_heartBeat sv \<and>
     sv_eventQueue sv' = sv_eventQueue sv \<and> votedFor (sv_state sv') = votedFor (sv_state sv) \<and>
     currentTerm (sv_state sv') = currentTerm (sv_state sv) \<and> entries (sv_state sv') = entries (sv_state sv) \<and>
     commitIdx (sv_state sv') = commitIdx (sv_state sv) \<and> commitIdx (sv_state sv') \<le> lastApplied (sv_state sv')"
  by (auto simp: applyReadyEntries_def Let_def split: if_splits)

lemma appliedServer_frame [simp]:
  "sv_info (appliedServer sv) = sv_info sv" "sv_heartBeat (appliedServer sv) = sv_heartBeat sv"
  "sv_transformer (appliedServer sv) = sv_transformer sv"
  "sv_eventQueue (appliedServer sv) = sv_eventQueue sv"
  by (simp_all add: appliedServer_def Let_def)

lemma appliedServer_state [simp]:
  "sv_state (appliedServer sv) = (sv_state sv)\<lparr>lastApplied :=
     max (lastApplied (sv_state sv)) (commitIdx (sv_state sv))\<rparr>"
  by (simp add: appliedServer_def Let_def)

lemma appliedServer_events [simp]:
  "eq_events (sv_applyQueue (appliedServer sv)) = eq_events (sv_applyQueue sv) @
     map basicEntry (slice (lastApplied (sv_state sv) + 1) (commitIdx (sv_state sv) + 1)
       (entries (sv_state sv)))"
  by (simp add: appliedServer_def Let_def)

section \<open>The invariant that keeps the handlers from failing\<close>

text \<open>
  Between two handlers the log holds its sentinel, everything committed has been handed to
  the apply queue, the heart beat controller has been bound (by the \<open>init\<close> of the current
  identity), and the worker of the server's event queue is up.
\<close>

definition sv_ok :: "Server \<Rightarrow> bool" where
  "sv_ok sv \<longleftrightarrow> entries (sv_state sv) \<noteq> [] \<and> commitIdx (sv_state sv) \<le> lastApplied (sv_state sv) \<and>
     hb_inv (sv_heartBeat sv) \<and> hb_bound (sv_heartBeat sv) \<and> eq_idle (sv_eventQueue sv)"

lemma sv_ok_appliedServer [keeps_intros]:
  "entries (sv_state sv) \<noteq> [] \<Longrightarrow> hb_inv (sv_heartBeat sv) \<Longrightarrow> hb_bound (sv_heartBeat sv) \<Longrightarrow>
     eq_idle (sv_eventQueue sv) \<Longrightarrow> sv_ok (appliedServer sv)"
  by (simp add: sv_ok_def)

lemma sv_ok_notify [keeps_intros]: "sv_ok sv \<Longrightarrow> sv_ok (sv_notify i t sv)"
  by (simp add: sv_ok_def)

lemma sv_ok_checked [keeps_intros]: "sv_ok sv \<Longrightarrow> sv_ok (checked t i sv)"
  by (simp add: sv_ok_def)

lemma sv_ok_defined: "sv_ok sv \<Longrightarrow> apply_defined (sv_state sv)"
  by (simp add: sv_ok_def apply_defined_def)

lemma sv_restart_ok:
  assumes "hb_inv (sv_heartBeat sv)" "hb_bound (sv_heartBeat sv)"
  obtains h where "sv_restart sv = Some (sv\<lparr>sv_heartBeat := h\<rparr>)" "hb_inv h" "hb_bound h"
proof -
  obtain h where h: "hb_restart (sv_heartBeat sv) = Some h"
    using hb_start_stopped [of "hb_stop (sv_heartBeat sv)"] assms
    by (fastforce simp: hb_restart_def intro: keeps_intros)
  moreover have "hb_inv h" "hb_bound h"
    using hb_restart_keeps [OF assms(1) h] hb_restart_bound [OF h] assms(2) by simp_all
  ultimately show ?thesis using that by (simp add: sv_restart_def)
qed

section \<open>A server to evaluate on\<close>

text \<open>One of three servers \<open>a\<close>, \<open>b\<close>, \<open>c\<close> in term 1, with two entries of which one is committed.\<close>

definition sample_id :: "string \<Rightarrow> ServerId" where
  "sample_id name = \<lparr>addr = name, port = 9000\<rparr>"

definition sample_entry :: "raft_term \<Rightarrow> prm_idx \<Rightarrow> LogEntry" where
  "sample_entry t p = \<lparr>le_term = t, le_opName = ''op'', le_args = [], le_prmIdx = p,
     le_srvId = sample_id ''a''\<rparr>"

definition sample_server :: Server where
  "sample_server = \<lparr>
     sv_state = \<lparr>currentTerm = 1, votedFor = NullServerId,
       entries = [LogEntry0, sample_entry 1 1, sample_entry 1 2], commitIdx = 1, lastApplied = 1\<rparr>,
     sv_info = \<lparr>local = sample_id ''a'', srvList = [sample_id ''a'', sample_id ''b'', sample_id ''c''],
       electionTimeout = 200\<rparr>,
     sv_heartBeat = hb_bind 100 FollowerTimeout HeartBeatController0,
     sv_transformer = IdentityTransformer0, sv_applyQueue = EventQueue0, sv_eventQueue = EventQueue0\<rparr>"

definition sample_vote :: "raft_term \<Rightarrow> string \<Rightarrow> RequestVoteMessage" where
  "sample_vote t name = \<lparr>rv_term = t, rv_candidateId = sample_id name, rv_lastLogIdx = 2,
     rv_lastLogTerm = 1\<rparr>"

definition sample_append :: "raft_term \<Rightarrow> AppendEntriesMessage" where
  "sample_append t = \<lparr>ae_term = t, ae_leaderId = sample_id ''b'', ae_prevLogIdx = 1,
     ae_prevLogTerm = 1, ae_logEntries = [sample_entry 2 7], ae_commitIdx = 2\<rparr>"

lemmas sample_defs = sample_id_def sample_entry_def sample_vote_def sample_append_def
  NullServerId_def LogEntry0_def InvalidTerm_def

lemma sample_server_ok: "sv_ok sample_server"
  by (simp add: sv_ok_def sample_server_def hb_inv_def hb_bound_def hb_bind_def HeartBeatController0_def
      EventQueue0_def eq_idle_def)

section \<open>RequestVote\<close>

definition logUpToDate :: "LogEntry list \<Rightarrow> RequestVoteMessage \<Rightarrow> bool" where
  "logUpToDate es msg \<longleftrightarrow> le_term (last es) < rv_lastLogTerm msg \<or>
     le_term (last es) = rv_lastLogTerm msg \<and> length es - 1 \<le> rv_lastLogIdx msg"

lemma upToDate_alt:
  "es \<noteq> [] \<Longrightarrow> upToDate es (rv_lastLogIdx msg) (rv_lastLogTerm msg) = Some (logUpToDate es msg)"
  by (simp add: upToDate_def logUpToDate_def)

definition grantsVote :: "RequestVoteMessage \<Rightarrow> ServerState \<Rightarrow> bool" where
  "grantsVote msg s \<longleftrightarrow> currentTerm s < rv_term msg \<or>
     (votedFor s = NullServerId \<or> votedFor s = rv_candidateId msg) \<and> logUpToDate (entries s) msg"

text \<open>The state after a RequestVote message, whoever receives it.\<close>

definition votedState :: "RequestVoteMessage \<Rightarrow> ServerState \<Rightarrow> ServerState" where
  "votedState msg s = s\<lparr>currentTerm := rv_term msg,
     votedFor := (if grantsVote msg s then rv_candidateId msg else votedFor s)\<rparr>"

lemma requestVote_body_spec:
  assumes "sv_ok sv" "currentTerm (sv_state sv) \<le> rv_term msg"
  shows "\<exists>sv'. requestVote_body msg i sv = Some ((rv_term msg, grantsVote msg (sv_state sv)), sv') \<and>
    sv_ok sv' \<and> sv_state sv' = votedState msg (sv_state sv) \<and> sv_info sv' = sv_info sv \<and>
    sv_applyQueue sv' = sv_applyQueue sv"
proof -
  from assms(1) have e: "entries (sv_state sv) \<noteq> []"
    and hb: "hb_inv (sv_heartBeat sv)" "hb_bound (sv_heartBeat sv)" by (simp_all add: sv_ok_def)
  have restart: "\<exists>h. sv_restart (sv\<lparr>sv_state := s\<rparr>) = Some (sv\<lparr>sv_state := s, sv_heartBeat := h\<rparr>) \<and>
      hb_inv h \<and> hb_bound h" for s
    using sv_restart_ok [of "sv\<lparr>sv_state := s\<rparr>"] hb by (metis Server.select_convs(3) Server.surjective Server.update_convs(1))
  show ?thesis
  proof (cases "currentTerm (sv_state sv) < rv_term msg")
    case True
    then show ?thesis
      using restart [of "(sv_state sv)\<lparr>votedFor := rv_candidateId msg, currentTerm := rv_term msg\<rparr>"] assms(1)
      by (auto simp: requestVote_body_def Let_def votedState_def grantsVote_def sv_ok_def)
  next
    case False
    with assms(2) have "currentTerm (sv_state sv) = rv_term msg" by simp
    then show ?thesis
      using restart [of "(sv_state sv)\<lparr>votedFor := rv_candidateId msg\<rparr>"] assms(1) e
      by (auto simp: requestVote_body_def Let_def votedState_def grantsVote_def sv_ok_def upToDate_alt)
  qed
qed

lemma grantsVote_min [simp]:
  "grantsVote msg (s\<lparr>currentTerm := min (currentTerm s) (rv_term msg)\<rparr>) = grantsVote msg s"
  by (simp add: grantsVote_def min_less_iff_disj)

lemma votedState_min [simp]:
  "votedState msg (s\<lparr>currentTerm := min (currentTerm s) (rv_term msg)\<rparr>) = votedState msg s"
  by (simp add: votedState_def)

lemma votedState_frame [simp]:
  "entries (votedState msg s) = entries s" "commitIdx (votedState msg s) = commitIdx s"
  "lastApplied (votedState msg s) = lastApplied s" "currentTerm (votedState msg s) = rv_term msg"
  by (simp_all add: votedState_def)

lemma requestVote_returns:
  assumes "sv_ok sv"
  shows "\<exists>sv'. defaultRPCRequestVote msg i sv =
      Some ((rv_term msg, grantsVote msg (sv_state sv)), sv') \<and> sv_ok sv' \<and>
    sv_state sv' = votedState msg (sv_state sv) \<and> sv_info sv' = sv_info sv \<and>
    eq_events (sv_applyQueue sv') = eq_events (sv_applyQueue sv)"
proof -
  let ?sv = "checked (rv_term msg) i sv"
  have "sv_ok ?sv" "currentTerm (sv_state ?sv) \<le> rv_term msg"
    using assms by (simp_all add: keeps_intros)
  from requestVote_body_spec [OF this, of i] obtain sv' where
    b: "requestVote_body msg i ?sv = Some ((rv_term msg, grantsVote msg (sv_state sv)), sv')"
      "sv_ok sv'" "sv_state sv' = votedState msg (sv_state sv)" "sv_info sv' = sv_info sv"
      "sv_applyQueue sv' = sv_applyQueue sv" by auto
  moreover have "applyReadyEntries sv' = Some (appliedServer sv')" "sv_ok (appliedServer sv')"
    using b(2) by (auto simp: applyReadyEntries_alt sv_ok_defined sv_ok_def)
  ultimately show ?thesis
    using assms by (auto simp: defaultRPCRequestVote_def sv_ok_def max_absorb1)
qed

text \<open>
  C6. The default RequestVote handler, whatever the identity: it never fails; it always
  replies with the term of the message; it grants the vote exactly when the message's term is
  greater than its own, or when it has not voted for another candidate and the candidate's log
  is up to date; its term becomes that of the message; log and commit index stay.
\<close>

theorem requestVote_spec:
  assumes "sv_ok sv"
  shows "\<exists>sv'. defaultRPCRequestVote msg i sv =
      Some ((rv_term msg, grantsVote msg (sv_state sv)), sv') \<and> sv_ok sv' \<and>
    sv_state sv' = votedState msg (sv_state sv) \<and> sv_info sv' = sv_info sv \<and>
    eq_events (sv_applyQueue sv') = eq_events (sv_applyQueue sv)"
  using assms by (rule requestVote_returns)

theorem requestVote_spec_witness:
  "\<exists>sv'. defaultRPCRequestVote (sample_vote 1 ''b'') Follower sample_server =
      Some ((1, True), sv') \<and> votedFor (sv_state sv') = sample_id ''b''"
  using requestVote_spec [OF sample_server_ok, of "sample_vote 1 ''b''" Follower]
  by (auto simp: sample_server_def sample_defs grantsVote_def logUpToDate_def votedState_def)

lemma requestVote_SomeD:
  assumes "sv_ok sv" "defaultRPCRequestVote msg i sv = Some (r, sv')"
  shows "r = (rv_term msg, grantsVote msg (sv_state sv))" "sv_ok sv'"
    "sv_state sv' = votedState msg (sv_state sv)" "sv_info sv' = sv_info sv"
  using requestVote_returns [OF assms(1), of msg i] assms(2) by auto

text \<open>
  The term of a server is not monotone: a RequestVote message of an older term makes the
  receiver go back to that older term (the comparison in \<open>checkRpcTerm\<close> is the wrong way
  round), although the vote it cast in the newer term stays recorded.
\<close>

theorem requestVote_lowers_term:
  assumes "sv_ok sv" "rv_term msg < currentTerm (sv_state sv)"
    and "defaultRPCRequestVote msg i sv = Some (r, sv')"
  shows "currentTerm (sv_state sv') = rv_term msg \<and> currentTerm (sv_state sv') < currentTerm (sv_state sv)"
  using requestVote_SomeD [OF assms(1,3)] assms(2) by simp

theorem requestVote_lowers_term_witness:
  "currentTerm (sv_state (snd (the (defaultRPCRequestVote (sample_vote 0 ''b'') Leader sample_server)))) = 0"
proof -
  have "case defaultRPCRequestVote (sample_vote 0 ''b'') Leader sample_server of
      None \<Rightarrow> False | Some _ \<Rightarrow> True" by code_simp
  then obtain r sv' where run: "defaultRPCRequestVote (sample_vote 0 ''b'') Leader sample_server = Some (r, sv')"
    by (auto split: option.splits)
  from requestVote_lowers_term [OF sample_server_ok _ this] run show ?thesis
    by (simp add: sample_server_def sample_defs)
qed

text \<open>A run of RequestVote messages, with the answers.\<close>

fun rv_run :: "(ServerIdentityNo \<times> RequestVoteMessage) list \<Rightarrow> Server \<Rightarrow>
    ((RequestVoteMessage \<times> bool) list \<times> Server) option" where
  "rv_run [] sv = Some ([], sv)"
| "rv_run ((i, m) # ms) sv = do {
     (r, sv1) \<leftarrow> defaultRPCRequestVote m i sv;
     (rs, sv2) \<leftarrow> rv_run ms sv1;
     Some ((m, snd r) # rs, sv2)
   }"

lemma rv_run_ConsE:
  assumes "rv_run ((i, m) # ms) sv = Some (rs, sv2)" "sv_ok sv"
  obtains sv1 rs1 where "rv_run ms sv1 = Some (rs1, sv2)" "sv_ok sv1"
    "rs = (m, grantsVote m (sv_state sv)) # rs1" "sv_state sv1 = votedState m (sv_state sv)"
  using assms requestVote_SomeD [OF assms(2)]
  by (auto simp: Option.bind_eq_Some_conv)

lemma rv_run_voted:
  assumes "rv_run ms sv = Some (rs, sv2)" "sv_ok sv" "votedFor (sv_state sv) \<noteq> NullServerId"
    and "sorted (map (rv_term \<circ> snd) ms)" "\<And>i m. (i, m) \<in> set ms \<Longrightarrow> currentTerm (sv_state sv) \<le> rv_term m"
    and "(m, True) \<in> set rs" "rv_term m = currentTerm (sv_state sv)"
  shows "rv_candidateId m = votedFor (sv_state sv)"
  using assms
proof (induction ms arbitrary: sv rs)
  case (Cons p ms)
  obtain i m0 where p: "p = (i, m0)" by fastforce
  obtain sv1 rs1 where
    r: "rv_run ms sv1 = Some (rs1, sv2)" "sv_ok sv1" "rs = (m0, grantsVote m0 (sv_state sv)) # rs1"
    and s1: "sv_state sv1 = votedState m0 (sv_state sv)"
    using Cons.prems(1,2) unfolding p by (rule rv_run_ConsE)
  have le: "currentTerm (sv_state sv) \<le> rv_term m0" using Cons.prems(5) [of i m0] p by simp
  have tail: "rv_term m0 \<le> rv_term m'" if "(j, m') \<in> set ms" for j m'
    using Cons.prems(4) p that by force
  from Cons.prems(6) r(3) consider "m = m0" "grantsVote m0 (sv_state sv)" | "(m, True) \<in> set rs1"
    by auto
  then show ?case
  proof cases
    case 1
    with Cons.prems(3,7) show ?thesis by (auto simp: grantsVote_def)
  next
    case 2
    have "\<exists>j. (j, m) \<in> set ms"
      using r(1) 2 r(2)
    proof (induction ms arbitrary: sv1 rs1)
      case (Cons q ms)
      then show ?case by (cases q) (fastforce elim!: rv_run_ConsE)
    qed simp
    with tail have "rv_term m0 \<le> rv_term m" by blast
    with le Cons.prems(7) have eq: "rv_term m0 = currentTerm (sv_state sv)" by simp
    then have "votedFor (sv_state sv1) = votedFor (sv_state sv)"
      using Cons.prems(3) s1 by (auto simp: votedState_def grantsVote_def)
    moreover have "currentTerm (sv_state sv1) = rv_term m0" using s1 by simp
    ultimately show ?thesis
      using Cons.IH [OF r(1,2)] 2 tail Cons.prems(3,4,7) eq by auto
  qed
qed simp

text \<open>
  As long as the messages reach a server in the order of their terms, it votes at most
  once per term: all the candidates it grants its vote to in one term are the same.
\<close>

theorem vote_once_in_order:
  assumes "rv_run ms sv = Some (rs, sv')" "sv_ok sv"
    and "sorted (map (rv_term \<circ> snd) ms)"
    and "\<And>i m. (i, m) \<in> set ms \<Longrightarrow> currentTerm (sv_state sv) \<le> rv_term m \<and> rv_candidateId m \<noteq> NullServerId"
    and "(m, True) \<in> set rs" "(m', True) \<in> set rs" "rv_term m = rv_term m'"
  shows "rv_candidateId m = rv_candidateId m'"
  using assms
proof (induction ms arbitrary: sv rs)
  case (Cons p ms)
  obtain i m0 where p: "p = (i, m0)" by fastforce
  obtain sv1 rs1 where
    r: "rv_run ms sv1 = Some (rs1, sv')" "sv_ok sv1" "rs = (m0, grantsVote m0 (sv_state sv)) # rs1"
    and s1: "sv_state sv1 = votedState m0 (sv_state sv)"
    using Cons.prems(1,2) unfolding p by (rule rv_run_ConsE)
  have tail: "rv_term m0 \<le> rv_term m1" "rv_candidateId m1 \<noteq> NullServerId" if "(j, m1) \<in> set ms" for j m1
    using Cons.prems(3,4) p that by force+
  have null: "rv_candidateId m0 \<noteq> NullServerId" using Cons.prems(4) p by auto
  have srt: "sorted (map (rv_term \<circ> snd) ms)" using Cons.prems(3) by (simp add: comp_def)
  have first: "rv_candidateId m0 = rv_candidateId m1"
    if "grantsVote m0 (sv_state sv)" "(m1, True) \<in> set rs1" "rv_term m1 = rv_term m0" for m1
  proof -
    have "votedFor (sv_state sv1) = rv_candidateId m0" "currentTerm (sv_state sv1) = rv_term m0"
      using that(1) s1 by (simp_all add: votedState_def)
    with rv_run_voted [OF r(1,2) _ srt, of m1] tail that(2,3) null show ?thesis by auto
  qed
  have rest: ?case if "(m, True) \<in> set rs1" "(m', True) \<in> set rs1"
    using Cons.IH [OF r(1,2) srt] that tail s1 Cons.prems(7) by auto
  from Cons.prems(5,6) r(3) consider
      "(m, True) \<in> set rs1" "(m', True) \<in> set rs1"
    | "m = m0" "grantsVote m0 (sv_state sv)" "(m', True) \<in> set rs1"
    | "m' = m0" "grantsVote m0 (sv_state sv)" "(m, True) \<in> set rs1"
    | "m = m0" "m' = m0" by auto
  then show ?case
  proof cases
    case 1
    then show ?thesis by (rule rest)
  next
    case 2
    with first [of m'] Cons.prems(7) show ?thesis by simp
  next
    case 3
    with first [of m] Cons.prems(7) show ?thesis by simp
  qed simp
qed simp

theorem vote_once_in_order_witness:
  "(sample_vote 2 ''b'', True) \<in> set (fst (the (rv_run
      [(Follower, sample_vote 2 ''b''), (Follower, sample_vote 2 ''c'')] sample_server))) \<and>
    (sample_vote 2 ''c'', True) \<notin> set (fst (the (rv_run
      [(Follower, sample_vote 2 ''b''), (Follower, sample_vote 2 ''c'')] sample_server)))"
proof -
  let ?run = "rv_run [(Follower, sample_vote 2 ''b''), (Follower, sample_vote 2 ''c'')] sample_server"
  have "case ?run of None \<Rightarrow> False | Some (rs, _) \<Rightarrow> (sample_vote 2 ''b'', True) \<in> set rs"
    by code_simp
  then obtain rs sv' where run: "?run = Some (rs, sv')" and b: "(sample_vote 2 ''b'', True) \<in> set rs"
    by (auto split: option.splits)
  show ?thesis
  proof (rule conjI)
    show "(sample_vote 2 ''b'', True) \<in> set (fst (the ?run))" using run b by simp
    have "currentTerm (sv_state sample_server) \<le> rv_term m \<and> rv_candidateId m \<noteq> NullServerId"
      if "(i, m) \<in> set [(Follower, sample_vote 2 ''b''), (Follower, sample_vote 2 ''c'')]" for i m
      using that by (auto simp: sample_server_def sample_defs)
    from vote_once_in_order [OF run sample_server_ok _ this b, where m' = "sample_vote 2 ''c''"]
    show "(sample_vote 2 ''c'', True) \<notin> set (fst (the ?run))"
      using run by (auto simp: sample_defs)
  qed
qed

text \<open>
  A stale message breaks the rule of one vote per term: after voting for \<open>a\<close> in term \<open>t\<close>,
  one RequestVote message of an older term is enough for a server to vote for another
  candidate \<open>b\<close> in the same term \<open>t\<close>.
\<close>

theorem stale_message_double_vote:
  assumes "sv_ok sv" "currentTerm (sv_state sv) < rv_term ma" "rv_term mb = rv_term ma"
    and "rv_term stale < rv_term ma" "rv_candidateId ma \<noteq> rv_candidateId stale"
    and "rv_candidateId ma \<noteq> NullServerId" "rv_candidateId mb \<noteq> rv_candidateId ma"
  shows "\<exists>sv'. rv_run [(i, ma), (i, stale), (i, mb)] sv =
    Some ([(ma, True), (stale, False), (mb, True)], sv')"
proof -
  obtain s1 where s1: "defaultRPCRequestVote ma i sv = Some ((rv_term ma, True), s1)" "sv_ok s1"
    "sv_state s1 = votedState ma (sv_state sv)" "grantsVote ma (sv_state sv)"
    using requestVote_returns [OF assms(1), of ma i] assms(2) by (auto simp: grantsVote_def)
  have "\<not> grantsVote stale (sv_state s1)"
    using assms(4-6) s1(3,4) by (simp add: grantsVote_def votedState_def)
  then obtain s2 where s2: "defaultRPCRequestVote stale i s1 = Some ((rv_term stale, False), s2)"
    "sv_ok s2" "sv_state s2 = votedState stale (sv_state s1)"
    using requestVote_returns [OF s1(2), of stale i] by auto
  have "grantsVote mb (sv_state s2)" using assms(3,4) s2(3) by (simp add: grantsVote_def)
  then obtain s3 where "defaultRPCRequestVote mb i s2 = Some ((rv_term mb, True), s3)"
    using requestVote_returns [OF s2(2), of mb i] by auto
  with s1(1) s2(1) show ?thesis by simp
qed

theorem stale_message_double_vote_witness:
  "\<exists>sv'. rv_run [(Follower, sample_vote 3 ''b''), (Follower, sample_vote 2 ''c''), (Follower, sample_vote 3 ''c'')]
      sample_server = Some ([(sample_vote 3 ''b'', True), (sample_vote 2 ''c'', False), (sample_vote 3 ''c'', True)], sv')"
  by (rule stale_message_double_vote [OF sample_server_ok]) (simp_all add: sample_server_def sample_defs)

section \<open>AppendEntries\<close>

definition matchesPrev :: "AppendEntriesMessage \<Rightarrow> ServerState \<Rightarrow> bool" where
  "matchesPrev msg s \<longleftrightarrow> ae_prevLogIdx msg < length (entries s) \<and>
     le_term (entries s ! ae_prevLogIdx msg) = ae_prevLogTerm msg"

text \<open>The state after an AppendEntries message, before the application of what it commits.\<close>

definition mergedState :: "AppendEntriesMessage \<Rightarrow> ServerState \<Rightarrow> ServerState" where
  "mergedState msg s = (if matchesPrev msg s
     then (let es = appendLog (entries s) (ae_prevLogIdx msg) (ae_logEntries msg)
       in s\<lparr>currentTerm := min (currentTerm s) (ae_term msg), entries := es,
            commitIdx := (if ae_commitIdx msg > commitIdx s
              then min (ae_commitIdx msg) (length es - 1) else commitIdx s)\<rparr>)
     else s\<lparr>currentTerm := min (currentTerm s) (ae_term msg)\<rparr>)"

definition appendedState :: "AppendEntriesMessage \<Rightarrow> ServerState \<Rightarrow> ServerState" where
  "appendedState msg s = (let s' = mergedState msg s
     in s'\<lparr>lastApplied := max (lastApplied s') (commitIdx s')\<rparr>)"

lemma matchesPrev_term [simp]: "matchesPrev msg (s\<lparr>currentTerm := t\<rparr>) = matchesPrev msg s"
  by (simp add: matchesPrev_def)

lemma mergedState_nonempty: "entries s \<noteq> [] \<Longrightarrow> entries (mergedState msg s) \<noteq> []"
  by (auto simp: mergedState_def matchesPrev_def Let_def appendLog_nonempty)

lemma mergedState_defined:
  assumes "entries s \<noteq> []" "commitIdx s \<le> lastApplied s"
  shows "apply_defined (mergedState msg s)"
proof (cases "matchesPrev msg s")
  case True
  then have "0 < length (appendLog (entries s) (ae_prevLogIdx msg) (ae_logEntries msg))"
    by (simp add: matchesPrev_def appendLog_nonempty)
  with True assms(2) show ?thesis by (auto simp: mergedState_def Let_def apply_defined_def)
next
  case False
  with assms(2) show ?thesis by (simp add: mergedState_def apply_defined_def)
qed

lemma appendEntries_body_spec:
  assumes "entries (sv_state sv) \<noteq> []"
  shows "appendEntries_body msg (checked (ae_term msg) i sv) =
    Some ((min (currentTerm (sv_state sv)) (ae_term msg), matchesPrev msg (sv_state sv)),
      (checked (ae_term msg) i sv)\<lparr>sv_state := mergedState msg (sv_state sv)\<rparr>)"
proof -
  let ?s = "sv_state sv"
  have lt: "\<not> ae_term msg < min (currentTerm ?s) (ae_term msg)"
    by (simp add: min_less_iff_disj)
  show ?thesis
  proof (cases "matchesPrev msg ?s")
    case True
    then have prev: "\<not> length (entries ?s) \<le> ae_prevLogIdx msg"
        "le_term (entries ?s ! ae_prevLogIdx msg) = ae_prevLogTerm msg"
      and ne: "appendLog (entries ?s) (ae_prevLogIdx msg) (ae_logEntries msg) \<noteq> []"
      by (simp_all add: matchesPrev_def appendLog_nonempty)
    show ?thesis
      by (simp add: appendEntries_body_def Let_def lt prev ne updateCommit_def mergedState_def True)
  next
    case False
    then have "length (entries ?s) \<le> ae_prevLogIdx msg \<or>
        le_term (entries ?s ! ae_prevLogIdx msg) \<noteq> ae_prevLogTerm msg"
      by (auto simp: matchesPrev_def)
    moreover have "(checked (ae_term msg) i sv)\<lparr>sv_state := mergedState msg ?s\<rparr> =
        checked (ae_term msg) i sv"
      by (rule Server.equality) (simp_all add: mergedState_def False)
    ultimately show ?thesis
      by (simp add: appendEntries_body_def Let_def lt False)
  qed
qed

lemma appendEntries_returns:
  assumes "sv_ok sv"
  shows "\<exists>sv'. defaultRPCAppendEntries msg i sv =
      Some ((min (currentTerm (sv_state sv)) (ae_term msg), matchesPrev msg (sv_state sv)), sv') \<and>
    sv_ok sv' \<and> sv_state sv' = appendedState msg (sv_state sv) \<and> sv_info sv' = sv_info sv \<and>
    eq_events (sv_applyQueue sv') = eq_events (sv_applyQueue sv) @
      map basicEntry (slice (lastApplied (sv_state sv) + 1)
        (commitIdx (mergedState msg (sv_state sv)) + 1) (entries (mergedState msg (sv_state sv))))"
proof -
  let ?sv = "(checked (ae_term msg) i sv)\<lparr>sv_state := mergedState msg (sv_state sv)\<rparr>"
  from assms have ok: "entries (sv_state sv) \<noteq> []" "commitIdx (sv_state sv) \<le> lastApplied (sv_state sv)"
    "hb_inv (sv_heartBeat sv)" "hb_bound (sv_heartBeat sv)" "eq_idle (sv_eventQueue sv)"
    by (simp_all add: sv_ok_def)
  have "applyReadyEntries ?sv = Some (appliedServer ?sv)"
    using mergedState_defined [OF ok(1,2)] by (simp add: applyReadyEntries_alt)
  then have "defaultRPCAppendEntries msg i sv =
      Some ((min (currentTerm (sv_state sv)) (ae_term msg), matchesPrev msg (sv_state sv)), appliedServer ?sv)"
    unfolding defaultRPCAppendEntries_def appendEntries_body_spec [OF ok(1)] by simp
  moreover have "lastApplied (mergedState msg (sv_state sv)) = lastApplied (sv_state sv)"
    by (simp add: mergedState_def Let_def)
  moreover have "sv_ok (appliedServer ?sv)"
    using ok mergedState_nonempty by (intro sv_ok_appliedServer) simp_all
  ultimately show ?thesis
    by (intro exI [of _ "appliedServer ?sv"] conjI) (simp_all add: appendedState_def Let_def)
qed

text \<open>The state after the message, stated with the merge that goes entry by entry.\<close>

definition appendedSpec :: "AppendEntriesMessage \<Rightarrow> ServerState \<Rightarrow> ServerState" where
  "appendedSpec msg s = (let t = min (currentTerm s) (ae_term msg); p = ae_prevLogIdx msg + 1 in
     if ae_prevLogIdx msg < length (entries s) \<and> le_term (entries s ! ae_prevLogIdx msg) = ae_prevLogTerm msg
     then (let es = take p (entries s) @ mergeTail (drop p (entries s)) (ae_logEntries msg);
         c = (if commitIdx s < ae_commitIdx msg then min (ae_commitIdx msg) (length es - 1) else commitIdx s)
       in s\<lparr>currentTerm := t, entries := es, commitIdx := c, lastApplied := max (lastApplied s) c\<rparr>)
     else s\<lparr>currentTerm := t, lastApplied := max (lastApplied s) (commitIdx s)\<rparr>)"

lemma appendedSpec_merged:
  "appendedState msg s = appendedSpec msg s" "commitIdx (mergedState msg s) = commitIdx (appendedSpec msg s)"
  "entries (mergedState msg s) = entries (appendedSpec msg s)"
  by (simp_all add: appendedState_def mergedState_def appendedSpec_def matchesPrev_def appendLog_mergeTail Let_def)

text \<open>
  C5. The default AppendEntries handler, whatever the identity: it never fails; it succeeds
  exactly when its log holds an entry with the message's previous term at the message's
  previous index; it then keeps the entries whose terms agree with those of the message, replaces the
  log from the first that does not, and keeps what a message that ends first leaves behind; it raises
  the commit index to the leader's but not past its last entry, and applies what became committed. The
  reply and the new term are the smaller of its own term and the message's: a greater term is not
  adopted.
\<close>

theorem appendEntries_spec:
  assumes "sv_ok sv"
  shows "\<exists>sv'. defaultRPCAppendEntries msg i sv =
      Some ((min (currentTerm (sv_state sv)) (ae_term msg), matchesPrev msg (sv_state sv)), sv') \<and>
    sv_ok sv' \<and> sv_state sv' = appendedSpec msg (sv_state sv) \<and> sv_info sv' = sv_info sv \<and>
    eq_events (sv_applyQueue sv') = eq_events (sv_applyQueue sv) @
      map basicEntry (slice (lastApplied (sv_state sv) + 1)
        (commitIdx (appendedSpec msg (sv_state sv)) + 1) (entries (appendedSpec msg (sv_state sv))))"
  using appendEntries_returns [OF assms] unfolding appendedSpec_merged .

theorem appendEntries_spec_witness:
  "\<exists>sv'. defaultRPCAppendEntries (sample_append 2) Follower sample_server = Some ((1, True), sv') \<and>
    entries (sv_state sv') = [LogEntry0, sample_entry 1 1, sample_entry 2 7] \<and>
    commitIdx (sv_state sv') = 2 \<and> eq_events (sv_applyQueue sv') = [basicEntry (sample_entry 2 7)]"
proof -
  have "appendedSpec (sample_append 2) (sv_state sample_server) = (sv_state sample_server)
      \<lparr>entries := [LogEntry0, sample_entry 1 1, sample_entry 2 7], commitIdx := 2, lastApplied := 2\<rparr>"
    "matchesPrev (sample_append 2) (sv_state sample_server)"
    "min (currentTerm (sv_state sample_server)) (ae_term (sample_append 2)) = 1"
    by code_simp+
  then show ?thesis
    using appendEntries_spec [OF sample_server_ok, of "sample_append 2" Follower]
    by (auto simp: sample_server_def slice_def EventQueue0_def eq_events_def
        numeral_2_eq_2)
qed

lemma appendEntries_SomeD:
  assumes "sv_ok sv" "defaultRPCAppendEntries msg i sv = Some (r, sv')"
  shows "r = (min (currentTerm (sv_state sv)) (ae_term msg), matchesPrev msg (sv_state sv))"
    "sv_ok sv'" "sv_state sv' = appendedState msg (sv_state sv)" "sv_info sv' = sv_info sv"
    "eq_events (sv_applyQueue sv') = eq_events (sv_applyQueue sv) @
      map basicEntry (slice (lastApplied (sv_state sv) + 1)
        (commitIdx (mergedState msg (sv_state sv)) + 1) (entries (mergedState msg (sv_state sv))))"
  using appendEntries_returns [OF assms(1), of msg i] assms(2) by auto

section \<open>What is committed stays, and is applied once, in order\<close>

text \<open>Between two handlers: all that is committed is in the log and has been applied.\<close>

definition committed_ok :: "ServerState \<Rightarrow> bool" where
  "committed_ok s \<longleftrightarrow> lastApplied s = commitIdx s \<and> commitIdx s < length (entries s)"

text \<open>The message does not contradict a committed entry (what Raft's Leader Completeness
  Property gives for a message of a properly elected leader).\<close>

definition ae_safe :: "AppendEntriesMessage \<Rightarrow> ServerState \<Rightarrow> bool" where
  "ae_safe msg s \<longleftrightarrow> (\<forall>k \<in> {..<length (ae_logEntries msg)}. ae_prevLogIdx msg + k + 1 \<le> commitIdx s \<longrightarrow>
     le_term (entries s ! (ae_prevLogIdx msg + k + 1)) = le_term (ae_logEntries msg ! k))"

lemma mergedState_prefix:
  assumes "committed_ok s" "ae_safe msg s"
  shows "take (commitIdx s + 1) (entries (mergedState msg s)) = take (commitIdx s + 1) (entries s)"
  using assms appendLog_prefix [of "ae_prevLogIdx msg" "entries s" "commitIdx s" "ae_logEntries msg"]
  by (auto simp: mergedState_def Let_def matchesPrev_def committed_ok_def ae_safe_def)

lemma mergedState_commit:
  assumes "committed_ok s" "ae_safe msg s"
  shows "commitIdx s \<le> commitIdx (mergedState msg s) \<and>
    commitIdx (mergedState msg s) < length (entries (mergedState msg s))"
proof -
  have "length (take (commitIdx s + 1) (entries (mergedState msg s))) = commitIdx s + 1"
    using mergedState_prefix [OF assms] assms(1) by (simp add: committed_ok_def)
  then have "commitIdx s < length (entries (mergedState msg s))" by (simp add: min_def split: if_splits)
  then show ?thesis by (auto simp: mergedState_def Let_def split: if_splits)
qed

text \<open>
  State Machine Safety for one server: an AppendEntries message that does not contradict
  the committed entries leaves them in place, never moves the commit index back or past the
  end of the log, and leaves everything committed applied.
\<close>

theorem appendEntries_commit_safe:
  assumes "sv_ok sv" "committed_ok (sv_state sv)" "ae_safe msg (sv_state sv)"
    and "defaultRPCAppendEntries msg i sv = Some (r, sv')"
  shows "committed_ok (sv_state sv') \<and> commitIdx (sv_state sv) \<le> commitIdx (sv_state sv') \<and>
    take (commitIdx (sv_state sv) + 1) (entries (sv_state sv')) =
      take (commitIdx (sv_state sv) + 1) (entries (sv_state sv))"
proof -
  have "lastApplied (mergedState msg (sv_state sv)) = commitIdx (sv_state sv)"
    using assms(2) by (simp add: mergedState_def Let_def committed_ok_def)
  then show ?thesis
    using appendEntries_SomeD(3) [OF assms(1,4)] mergedState_prefix [OF assms(2,3)]
      mergedState_commit [OF assms(2,3)]
    by (auto simp: appendedState_def Let_def committed_ok_def)
qed

lemma sample_append_safe: "committed_ok (sv_state sample_server)" "ae_safe (sample_append 2) (sv_state sample_server)"
  by (simp_all add: committed_ok_def ae_safe_def sample_server_def sample_defs)

lemma sample_append_runs:
  obtains r sv' where "defaultRPCAppendEntries (sample_append 2) Follower sample_server = Some (r, sv')"
  using appendEntries_returns [OF sample_server_ok] by blast

theorem appendEntries_commit_safe_witness:
  "committed_ok (sv_state (snd (the (defaultRPCAppendEntries (sample_append 2) Follower sample_server)))) \<and>
   take 2 (entries (sv_state (snd (the (defaultRPCAppendEntries (sample_append 2) Follower sample_server))))) =
     [LogEntry0, sample_entry 1 1]"
proof -
  obtain r sv' where run: "defaultRPCAppendEntries (sample_append 2) Follower sample_server = Some (r, sv')"
    by (rule sample_append_runs)
  from appendEntries_commit_safe [OF sample_server_ok sample_append_safe run] run show ?thesis
    by (simp add: sample_server_def numeral_2_eq_2)
qed

text \<open>The entries handed to the apply queue, those already run (\<open>hist\<close>) included.\<close>

definition applied_inv :: "BasicLogEntry list \<Rightarrow> Server \<Rightarrow> bool" where
  "applied_inv hist sv \<longleftrightarrow> hist @ eq_events (sv_applyQueue sv) =
     map basicEntry (slice 1 (lastApplied (sv_state sv) + 1) (entries (sv_state sv)))"

text \<open>
  C12. One AppendEntries message that contradicts no committed entry keeps the following: what has
  been handed to the apply queue since the start is the log from its first entry to the last
  applied one, every committed entry once, in the order of the log, none skipped.
\<close>

theorem appendEntries_applies_in_order:
  assumes "sv_ok sv" "committed_ok (sv_state sv)" "ae_safe msg (sv_state sv)"
    and "defaultRPCAppendEntries msg i sv = Some (r, sv')" "applied_inv hist sv"
  shows "applied_inv hist sv'"
proof -
  let ?s = "sv_state sv" and ?m = "mergedState msg (sv_state sv)"
  have la: "lastApplied ?m = commitIdx ?s" "lastApplied ?s = commitIdx ?s"
    using assms(2) by (simp_all add: mergedState_def Let_def committed_ok_def)
  have "slice 1 (commitIdx ?s + 1) (entries ?s) = slice 1 (commitIdx ?s + 1) (entries ?m)"
    by (rule slice_cong) (simp only: mergedState_prefix [OF assms(2,3)])
  then have "hist @ eq_events (sv_applyQueue sv') = map basicEntry
      (slice 1 (commitIdx ?s + 1) (entries ?m) @ slice (commitIdx ?s + 1) (commitIdx ?m + 1) (entries ?m))"
    using appendEntries_SomeD(5) [OF assms(1,4)] assms(5) la by (simp add: applied_inv_def)
  also have "\<dots> = map basicEntry (slice 1 (commitIdx ?m + 1) (entries ?m))"
    using mergedState_commit [OF assms(2,3)] by (subst slice_append_slice) simp_all
  finally show ?thesis
    using appendEntries_SomeD(3) [OF assms(1,4)] mergedState_commit [OF assms(2,3)] la
    by (simp add: applied_inv_def appendedState_def Let_def max_absorb2)
qed

theorem appendEntries_applies_in_order_witness:
  "applied_inv [basicEntry (sample_entry 1 1)]
     (snd (the (defaultRPCAppendEntries (sample_append 2) Follower sample_server)))"
proof -
  obtain r sv' where run: "defaultRPCAppendEntries (sample_append 2) Follower sample_server = Some (r, sv')"
    by (rule sample_append_runs)
  have "applied_inv [basicEntry (sample_entry 1 1)] sample_server"
    by (simp add: applied_inv_def sample_server_def slice_def EventQueue0_def eq_events_def)
  from appendEntries_applies_in_order [OF sample_server_ok sample_append_safe run this] run
  show ?thesis by simp
qed

section \<open>The interface of an identity\<close>

text \<open>
  What \<open>Raft.cpp\<close> relies on when it forwards an RPC to the current identity
  (\<open>identity/IdentityBase.h\<close>): on a server in order, each handler returns and leaves the
  server in order. \<open>'s\<close> is the state the identity works on.
\<close>

locale identity =
  fixes rpcAppendEntries :: "AppendEntriesMessage \<Rightarrow> 's \<Rightarrow> (Reply \<times> 's) option"
    and rpcRequestVote :: "RequestVoteMessage \<Rightarrow> 's \<Rightarrow> (Reply \<times> 's) option"
    and rpcAddLog :: "AddLogMessage \<Rightarrow> 's \<Rightarrow> AddLogReply \<times> 's"
    and ok :: "'s \<Rightarrow> bool"
  assumes appendEntries_total: "ok s \<Longrightarrow> \<exists>r s'. rpcAppendEntries ae s = Some (r, s') \<and> ok s'"
    and requestVote_total: "ok s \<Longrightarrow> \<exists>r s'. rpcRequestVote rv s = Some (r, s') \<and> ok s'"
    and addLog_ok: "ok s \<Longrightarrow> ok (snd (rpcAddLog al s))"

text \<open>A call of one of the three RPCs, and a run of such calls on one identity.\<close>

datatype RpcCall = CallAppendEntries AppendEntriesMessage | CallRequestVote RequestVoteMessage
  | CallAddLog AddLogMessage

fun rpc_call ::
  "(AppendEntriesMessage \<Rightarrow> 's \<Rightarrow> (Reply \<times> 's) option) \<Rightarrow> (RequestVoteMessage \<Rightarrow> 's \<Rightarrow> (Reply \<times> 's) option)
     \<Rightarrow> (AddLogMessage \<Rightarrow> 's \<Rightarrow> AddLogReply \<times> 's) \<Rightarrow> RpcCall \<Rightarrow> 's \<Rightarrow> 's option" where
  "rpc_call ae rv al (CallAppendEntries m) s = map_option snd (ae m s)"
| "rpc_call ae rv al (CallRequestVote m) s = map_option snd (rv m s)"
| "rpc_call ae rv al (CallAddLog m) s = Some (snd (al m s))"

fun rpc_calls ::
  "(AppendEntriesMessage \<Rightarrow> 's \<Rightarrow> (Reply \<times> 's) option) \<Rightarrow> (RequestVoteMessage \<Rightarrow> 's \<Rightarrow> (Reply \<times> 's) option)
     \<Rightarrow> (AddLogMessage \<Rightarrow> 's \<Rightarrow> AddLogReply \<times> 's) \<Rightarrow> RpcCall list \<Rightarrow> 's \<Rightarrow> 's option" where
  "rpc_calls ae rv al [] s = Some s"
| "rpc_calls ae rv al (c # cs) s = Option.bind (rpc_call ae rv al c s) (rpc_calls ae rv al cs)"

context identity
begin

lemma rpc_call_total: "ok s \<Longrightarrow> \<exists>s'. rpc_call rpcAppendEntries rpcRequestVote rpcAddLog c s = Some s' \<and> ok s'"
  using appendEntries_total requestVote_total addLog_ok by (cases c) fastforce+

lemma rpc_calls_total:
  "ok s \<Longrightarrow> \<exists>s'. rpc_calls rpcAppendEntries rpcRequestVote rpcAddLog cs s = Some s' \<and> ok s'"
proof (induction cs arbitrary: s)
  case (Cons c cs)
  obtain s1 where "rpc_call rpcAppendEntries rpcRequestVote rpcAddLog c s = Some s1" "ok s1"
    using rpc_call_total [OF Cons.prems] by blast
  then show ?case using Cons.IH by simp
qed simp

end

end
