(* ===== verification/Identities.thy ===== *)
theory Identities
  imports Identity_Base
begin

text \<open>
  The identities without a log of their own to replicate: the follower
  (\<open>identity/IdentityFollower.cpp\<close>), the candidate (\<open>identity/IdentityCandidate.cpp\<close>) and the
  bogus identity of the tests (\<open>identity/IdentityBogus.cpp\<close>). Each interprets the interface
  \<open>identity\<close>. The random election timeout that \<open>init\<close> draws is an argument.
\<close>

section \<open>Follower\<close>

definition follower_init :: "nat \<Rightarrow> Server \<Rightarrow> Server option" where
  "follower_init timeout sv = map_option (\<lambda>(_, h). sv\<lparr>sv_heartBeat := h\<rparr>)
     (hb_start False False (hb_bind timeout FollowerTimeout (sv_heartBeat sv)))"

definition follower_leave :: "Server \<Rightarrow> Server" where
  "follower_leave sv = sv\<lparr>sv_heartBeat := hb_stop (sv_heartBeat sv)\<rparr>"

text \<open>The closure bound to the timer: start an election.\<close>

definition follower_timeout :: "Server \<Rightarrow> Server" where
  "follower_timeout sv = sv_notify Candidate (currentTerm (sv_state sv)) sv"

definition follower_appendEntries ::
  "AppendEntriesMessage \<Rightarrow> Server \<Rightarrow> (Reply \<times> Server) option" where
  "follower_appendEntries msg sv = (let curTerm = currentTerm (sv_state sv) in
     if ae_term msg < curTerm then Some ((curTerm, False), sv)
     else do {
       sv' \<leftarrow> sv_restart sv;
       defaultRPCAppendEntries msg Follower sv'
     })"

definition follower_requestVote ::
  "RequestVoteMessage \<Rightarrow> Server \<Rightarrow> (Reply \<times> Server) option" where
  "follower_requestVote msg sv = defaultRPCRequestVote msg Follower sv"

definition follower_addLog :: "AddLogMessage \<Rightarrow> Server \<Rightarrow> AddLogReply \<times> Server" where
  "follower_addLog msg sv = (defaultAddLog msg, sv)"

lemma follower_appendEntries_fresh:
  assumes "sv_ok sv" "currentTerm (sv_state sv) \<le> ae_term msg"
  obtains h where "follower_appendEntries msg sv =
      defaultRPCAppendEntries msg Follower (sv\<lparr>sv_heartBeat := h\<rparr>)"
    "sv_ok (sv\<lparr>sv_heartBeat := h\<rparr>)"
proof -
  obtain h where "sv_restart sv = Some (sv\<lparr>sv_heartBeat := h\<rparr>)" "hb_inv h" "hb_bound h"
    using assms(1) by (auto simp: sv_ok_def intro: sv_restart_ok)
  moreover have "\<not> ae_term msg < currentTerm (sv_state sv)" using assms(2) by simp
  ultimately show ?thesis using that assms(1) by (simp add: follower_appendEntries_def sv_ok_def)
qed

lemma follower_appendEntries_total:
  assumes "sv_ok sv"
  shows "\<exists>r sv'. follower_appendEntries msg sv = Some (r, sv') \<and> sv_ok sv'"
proof (cases "currentTerm (sv_state sv) \<le> ae_term msg")
  case True
  then obtain h where "follower_appendEntries msg sv =
      defaultRPCAppendEntries msg Follower (sv\<lparr>sv_heartBeat := h\<rparr>)" "sv_ok (sv\<lparr>sv_heartBeat := h\<rparr>)"
    using assms by (auto intro: follower_appendEntries_fresh)
  then show ?thesis using appendEntries_returns [of "sv\<lparr>sv_heartBeat := h\<rparr>" msg Follower] by auto
next
  case False
  with assms show ?thesis by (auto simp: follower_appendEntries_def Let_def not_le)
qed

interpretation follower: identity follower_appendEntries follower_requestVote follower_addLog sv_ok
proof unfold_locales
  fix s :: Server assume ok: "sv_ok s"
  show "\<exists>r s'. follower_appendEntries ae s = Some (r, s') \<and> sv_ok s'" for ae
    using ok by (rule follower_appendEntries_total)
  show "\<exists>r s'. follower_requestVote rv s = Some (r, s') \<and> sv_ok s'" for rv
    using requestVote_returns [OF ok, of rv Follower] by (auto simp: follower_requestVote_def)
  show "sv_ok (snd (follower_addLog al s))" for al using ok by (simp add: follower_addLog_def)
qed

section \<open>Candidate\<close>

text \<open>A vote request: the peer, the message, whether its thread has finished.\<close>

record Request =
  rq_srv :: ServerId
  rq_msg :: RequestVoteMessage
  rq_done :: bool

record CandidateImpl =
  votesReceived :: nat
  requests :: "Request list"

definition CandidateImpl0 :: CandidateImpl where
  "CandidateImpl0 = \<lparr>votesReceived = 0, requests = []\<rparr>"

definition voteMessage :: "Server \<Rightarrow> RequestVoteMessage" where
  "voteMessage sv = (let s = sv_state sv in
     \<lparr>rv_term = currentTerm s, rv_candidateId = local (sv_info sv),
      rv_lastLogIdx = length (entries s) - 1, rv_lastLogTerm = le_term (last (entries s))\<rparr>)"

definition peers :: "ServerInfo \<Rightarrow> ServerId list" where
  "peers cfg = filter (\<lambda>srv. srv \<noteq> local cfg) (srvList cfg)"

definition requestVotes :: "Server \<times> CandidateImpl \<Rightarrow> (Server \<times> CandidateImpl) option" where
  "requestVotes = (\<lambda>(sv, c).
     if peers (sv_info sv) \<noteq> [] \<and> entries (sv_state sv) = [] then None
     else Some (sv, c\<lparr>requests := requests c @
       map (\<lambda>srv. \<lparr>rq_srv = srv, rq_msg = voteMessage sv, rq_done = False\<rparr>) (peers (sv_info sv))\<rparr>))"

definition wins :: "nat \<Rightarrow> ServerInfo \<Rightarrow> bool" where
  "wins votes cfg \<longleftrightarrow> votes > length (srvList cfg) div 2"

definition candidate_init :: "nat \<Rightarrow> Server \<times> CandidateImpl \<Rightarrow> (Server \<times> CandidateImpl) option" where
  "candidate_init timeout = (\<lambda>(sv, c). do {
     let s = (sv_state sv)\<lparr>currentTerm := currentTerm (sv_state sv) + 1,
                            votedFor := local (sv_info sv)\<rparr>;
     let sv1 = sv\<lparr>sv_state := s\<rparr>;
     let c1 = c\<lparr>votesReceived := 1\<rparr>;
     let sv2 = (if wins (votesReceived c1) (sv_info sv1) then sv_notify Leader (currentTerm s) sv1 else sv1);
     (sv3, c2) \<leftarrow> requestVotes (sv2, c1);
     (_, h) \<leftarrow> hb_start False False (hb_bind timeout CandidateTimeout (sv_heartBeat sv3));
     Some (sv3\<lparr>sv_heartBeat := h\<rparr>, c2)
   })"

definition candidate_leave :: "Server \<times> CandidateImpl \<Rightarrow> Server \<times> CandidateImpl" where
  "candidate_leave = (\<lambda>(sv, c). (sv\<lparr>sv_heartBeat := hb_stop (sv_heartBeat sv)\<rparr>, c\<lparr>requests := []\<rparr>))"

definition candidate_timeout :: "Server \<Rightarrow> Server" where
  "candidate_timeout sv = sv_notify Candidate (currentTerm (sv_state sv)) sv"

text \<open>
  The thread of one request once its call has come back: the call returns a reply, or throws
  \<open>RpcError\<close>, or is interrupted; the retry loop of the code never turns a second time.
\<close>

datatype RpcResult = Replied Reply | RpcError | Interrupted

definition vote_thread ::
  "RequestVoteMessage \<Rightarrow> RpcResult \<Rightarrow> Server \<times> CandidateImpl \<Rightarrow> Server \<times> CandidateImpl" where
  "vote_thread msg result = (\<lambda>(sv, c). (case result of
     Replied (termReceived, res) \<Rightarrow>
       if termReceived \<noteq> rv_term msg \<or> \<not> res then (sv, c)
       else (let c' = c\<lparr>votesReceived := votesReceived c + 1\<rparr> in
         (if wins (votesReceived c') (sv_info sv) then sv_notify Leader (rv_term msg) sv else sv, c'))
   | RpcError \<Rightarrow> (sv, c)
   | Interrupted \<Rightarrow> (sv, c)))"

definition candidate_appendEntries ::
  "AppendEntriesMessage \<Rightarrow> Server \<Rightarrow> (Reply \<times> Server) option" where
  "candidate_appendEntries msg sv = (let curTerm = currentTerm (sv_state sv);
     sv' = (if ae_term msg = curTerm then sv_notify Follower curTerm sv else sv)
     in defaultRPCAppendEntries msg Candidate sv')"

definition candidate_requestVote ::
  "RequestVoteMessage \<Rightarrow> Server \<Rightarrow> (Reply \<times> Server) option" where
  "candidate_requestVote msg sv = defaultRPCRequestVote msg Candidate sv"

definition candidate_addLog :: "AddLogMessage \<Rightarrow> Server \<Rightarrow> AddLogReply \<times> Server" where
  "candidate_addLog msg sv = (defaultAddLog msg, sv)"

interpretation candidate: identity candidate_appendEntries candidate_requestVote candidate_addLog sv_ok
proof unfold_locales
  fix s :: Server assume ok: "sv_ok s"
  then have "sv_ok (if b then sv_notify Follower t s else s)" for b t by (simp add: keeps_intros)
  from appendEntries_returns [OF this] show "\<exists>r s'. candidate_appendEntries ae s = Some (r, s') \<and> sv_ok s'" for ae
    by (fastforce simp: candidate_appendEntries_def Let_def)
  show "\<exists>r s'. candidate_requestVote rv s = Some (r, s') \<and> sv_ok s'" for rv
    using requestVote_returns [OF ok, of rv Candidate] by (auto simp: candidate_requestVote_def)
  show "sv_ok (snd (candidate_addLog al s))" for al using ok by (simp add: candidate_addLog_def)
qed

section \<open>Bogus\<close>

definition bogus_appendEntries ::
  "AppendEntriesMessage \<Rightarrow> Server \<Rightarrow> (Reply \<times> Server) option" where
  "bogus_appendEntries msg sv = Some ((0, False), sv)"

definition bogus_requestVote ::
  "RequestVoteMessage \<Rightarrow> Server \<Rightarrow> (Reply \<times> Server) option" where
  "bogus_requestVote msg sv = Some ((0, False), sv)"

definition bogus_addLog :: "AddLogMessage \<Rightarrow> Server \<Rightarrow> AddLogReply \<times> Server" where
  "bogus_addLog msg sv = (\<lparr>ar_success = False, ar_leaderId = NullServerId\<rparr>, sv)"

interpretation bogus: identity bogus_appendEntries bogus_requestVote bogus_addLog sv_ok
  by unfold_locales (auto simp: bogus_appendEntries_def bogus_requestVote_def bogus_addLog_def)

end
