(* ===== verification/Identity_Leader.thy ===== *)
theory Identity_Leader
  imports Identities
begin

text \<open>
  The leader (\<open>identity/IdentityLeader.cpp\<close>): the admission of new log entries, the messages
  it sends, and \<open>tryAppendEntries\<close>, the thread that brings one follower up to date and then
  counts replicas and commits.

  \<open>tryAppendEntries\<close> blocks on an RPC between building a message and looking at the reply, and
  handlers run meanwhile; it is split there: \<open>ta_build\<close> (what it sends), \<open>ta_reply\<close> (what it
  does with the reply) and \<open>ta_commit\<close> (the loop over \<open>logStates\<close> and the application), each
  one uninterrupted section. \<open>tryAppendEntries\<close> composes them for given results of its calls.
  \<open>None\<close> is a failed assertion, an \<open>at\<close> out of range, or a read past the end of a vector.
\<close>

section \<open>State\<close>

record FollowerNode =
  nextIdx :: index
  matchIdx :: index

definition FollowerNode0 :: FollowerNode where
  "FollowerNode0 = \<lparr>nextIdx = 1, matchIdx = 0\<rparr>"

text \<open>\<open>logStates\<close> holds the replica count (\<open>replicateNum\<close>) of each log entry.\<close>

record LeaderImpl =
  followerNodes :: "ServerId \<Rightarrow> FollowerNode option"
  logStates :: "nat list"

definition LeaderImpl0 :: LeaderImpl where
  "LeaderImpl0 = \<lparr>followerNodes = (\<lambda>_. None), logStates = []\<rparr>"

section \<open>RPC handlers\<close>

definition newEntry :: "AddLogMessage \<Rightarrow> Server \<Rightarrow> LogEntry" where
  "newEntry msg sv = \<lparr>le_term = currentTerm (sv_state sv), le_opName = al_opName msg,
     le_args = al_args msg, le_prmIdx = al_prmIdx msg, le_srvId = al_srvId msg\<rparr>"

definition sameRequest :: "AddLogMessage \<Rightarrow> LogEntry \<Rightarrow> bool" where
  "sameRequest msg e \<longleftrightarrow> le_srvId e = al_srvId msg \<and> le_prmIdx e = al_prmIdx msg"

definition leader_addLog ::
  "AddLogMessage \<Rightarrow> Server \<times> LeaderImpl \<Rightarrow> AddLogReply \<times> Server \<times> LeaderImpl" where
  "leader_addLog msg = (\<lambda>(sv, ld). (let s = sv_state sv;
       reply = \<lparr>ar_success = True, ar_leaderId = local (sv_info sv)\<rparr> in
     if (\<exists>e \<in> set (rev (entries s)). sameRequest msg e) then (reply, sv, ld)
     else (reply, sv\<lparr>sv_state := s\<lparr>entries := entries s @ [newEntry msg sv]\<rparr>\<rparr>,
       ld\<lparr>logStates := logStates ld @ [1]\<rparr>)))"

definition leader_appendEntries ::
  "AppendEntriesMessage \<Rightarrow> Server \<times> LeaderImpl \<Rightarrow> (Reply \<times> Server \<times> LeaderImpl) option" where
  "leader_appendEntries msg = (\<lambda>(sv, ld). do {
     (r, sv') \<leftarrow> defaultRPCAppendEntries msg Leader sv;
     Some (r, sv', ld)
   })"

definition leader_requestVote ::
  "RequestVoteMessage \<Rightarrow> Server \<times> LeaderImpl \<Rightarrow> (Reply \<times> Server \<times> LeaderImpl) option" where
  "leader_requestVote msg = (\<lambda>(sv, ld). do {
     (r, sv') \<leftarrow> defaultRPCRequestVote msg Leader sv;
     Some (r, sv', ld)
   })"

section \<open>Replication\<close>

definition createAppendEntriesMessage :: "Server \<Rightarrow> index \<Rightarrow> AppendEntriesMessage option" where
  "createAppendEntriesMessage sv start = (let s = sv_state sv in
     if start = 0 then None
     else if length (entries s) \<le> start - 1 then None
     else Some \<lparr>ae_term = currentTerm s, ae_leaderId = local (sv_info sv), ae_prevLogIdx = start - 1,
       ae_prevLogTerm = le_term (entries s ! (start - 1)), ae_logEntries = drop start (entries s),
       ae_commitIdx = commitIdx s\<rparr>)"

definition ta_build :: "ServerId \<Rightarrow> Server \<times> LeaderImpl \<Rightarrow> AppendEntriesMessage option" where
  "ta_build target = (\<lambda>(sv, ld). do {
     node \<leftarrow> followerNodes ld target;
     createAppendEntriesMessage sv (nextIdx node)
   })"

datatype ta_next = TaSucceeded | TaReturn | TaRetry

definition ta_reply :: "ServerId \<Rightarrow> AppendEntriesMessage \<Rightarrow> Reply \<Rightarrow> Server \<times> LeaderImpl
    \<Rightarrow> (ta_next \<times> Server \<times> LeaderImpl) option" where
  "ta_reply target msg res = (\<lambda>(sv, ld). do {
     node \<leftarrow> followerNodes ld target;
     let s = sv_state sv;
     if snd res then
       (let n = nextIdx node + length (ae_logEntries msg) in
        Some (TaSucceeded, sv, ld\<lparr>followerNodes :=
          (followerNodes ld)(target \<mapsto> node\<lparr>nextIdx := n, matchIdx := n - 1\<rparr>)\<rparr>))
     else if fst res > currentTerm s then
       Some (TaReturn, sv_notify Follower (fst res) (sv\<lparr>sv_state := s\<lparr>currentTerm := fst res\<rparr>\<rparr>), ld)
     else if nextIdx node = 1 then Some (TaReturn, sv, ld)
     else Some (TaRetry, sv, ld\<lparr>followerNodes :=
          (followerNodes ld)(target \<mapsto> node\<lparr>nextIdx := nextIdx node - 1\<rparr>)\<rparr>)
   })"

text \<open>One turn of the loop over \<open>logStates\<close>, for the index \<open>i\<close>.\<close>

definition ta_count :: "index \<Rightarrow> Server \<times> LeaderImpl \<Rightarrow> Server \<times> LeaderImpl" where
  "ta_count i = (\<lambda>(sv, ld). (let n = logStates ld ! i + 1; s = sv_state sv in
     (if n > length (srvList (sv_info sv)) div 2
      then sv\<lparr>sv_state := s\<lparr>commitIdx := max (commitIdx s) i\<rparr>\<rparr> else sv,
      ld\<lparr>logStates := (logStates ld)[i := n]\<rparr>)))"

definition ta_commit :: "index \<Rightarrow> Server \<times> LeaderImpl \<Rightarrow> (Server \<times> LeaderImpl) option" where
  "ta_commit oldMatchIdx = (\<lambda>(sv, ld).
     case fold ta_count [oldMatchIdx + 1 ..< length (logStates ld)] (sv, ld) of
       (sv', ld') \<Rightarrow> map_option (\<lambda>sv''. (sv'', ld')) (applyReadyEntries sv'))"

text \<open>
  The loop of \<open>tryAppendEntries\<close> for the results of its successive calls: whether it left the
  loop by a success. An interruption, or the end of the list, ends the thread.
\<close>

fun ta_loop :: "ServerId \<Rightarrow> nat \<Rightarrow> RpcResult list \<Rightarrow> Server \<times> LeaderImpl
    \<Rightarrow> (bool \<times> Server \<times> LeaderImpl) option" where
  "ta_loop target retryTimes [] st = Some (False, st)"
| "ta_loop target retryTimes (r # rs) st = (case r of
     Interrupted \<Rightarrow> Some (False, st)
   | RpcError \<Rightarrow> (case ta_build target st of None \<Rightarrow> None
       | Some msg \<Rightarrow> if retryTimes + 1 > 2 then Some (False, st)
           else ta_loop target (retryTimes + 1) rs st)
   | Replied res \<Rightarrow> (case ta_build target st of None \<Rightarrow> None
       | Some msg \<Rightarrow> (case ta_reply target msg res st of None \<Rightarrow> None
         | Some (TaSucceeded, st') \<Rightarrow> Some (True, st')
         | Some (TaReturn, st') \<Rightarrow> Some (False, st')
         | Some (TaRetry, st') \<Rightarrow> ta_loop target retryTimes rs st')))"

definition tryAppendEntries :: "ServerId \<Rightarrow> RpcResult list \<Rightarrow> Server \<times> LeaderImpl
    \<Rightarrow> (Server \<times> LeaderImpl) option" where
  "tryAppendEntries target results st = do {
     node \<leftarrow> followerNodes (snd st) target;
     (succeeded, st') \<leftarrow> ta_loop target 0 results st;
     if succeeded then ta_commit (matchIdx node) st' else Some st'
   }"

abbreviation log_of :: "Server \<times> LeaderImpl \<Rightarrow> LogEntry list" where
  "log_of st \<equiv> entries (sv_state (fst st))"

abbreviation nodes_of :: "Server \<times> LeaderImpl \<Rightarrow> ServerId \<Rightarrow> FollowerNode option" where
  "nodes_of st \<equiv> followerNodes (snd st)"

abbreviation commit_of :: "Server \<times> LeaderImpl \<Rightarrow> index" where
  "commit_of st \<equiv> commitIdx (sv_state (fst st))"

section \<open>Entering and leaving\<close>

definition reinitStates :: "Server \<times> LeaderImpl \<Rightarrow> Server \<times> LeaderImpl" where
  "reinitStates = (\<lambda>(sv, ld). (sv, ld\<lparr>
     followerNodes := fold (\<lambda>srv m. if m srv = None then m(srv \<mapsto> FollowerNode0) else m)
       (peers (sv_info sv)) (followerNodes ld),
     logStates := replicate (length (entries (sv_state sv))) 1\<rparr>))"

definition leader_init :: "bool \<Rightarrow> Server \<times> LeaderImpl \<Rightarrow> (Server \<times> LeaderImpl) option" where
  "leader_init heartBeatEnabled st = (case reinitStates st of (sv, ld) \<Rightarrow>
     (let h = hb_bind (electionTimeout (sv_info sv) div 2) LeaderHeartBeat (sv_heartBeat sv) in
      if heartBeatEnabled
      then map_option (\<lambda>(_, h'). (sv\<lparr>sv_heartBeat := h'\<rparr>, ld)) (hb_start True True h)
      else Some (sv\<lparr>sv_heartBeat := h\<rparr>, ld)))"

text \<open>
  The state in which \<open>leave\<close> returns, its threads joined. It blocks before in \<open>service.apply.wait()\<close>,
  until the worker of the apply queue has taken what is queued; that wait is a step of
  \<open>Leader_Threads\<close>, which has the worker as a thread. Here the queue keeps what has been handed over
  until the worker's own step (\<open>Call_Path\<close>) takes it.
\<close>

definition leader_leave :: "Server \<times> LeaderImpl \<Rightarrow> Server \<times> LeaderImpl" where
  "leader_leave = (\<lambda>(sv, ld). (sv\<lparr>sv_heartBeat := hb_stop (sv_heartBeat sv)\<rparr>,
     ld\<lparr>followerNodes := (\<lambda>_. None), logStates := []\<rparr>))"

lemma reinit_nodes:
  "nodes_of (reinitStates (sv, LeaderImpl0)) = (\<lambda>s. if s \<in> set (peers (sv_info sv)) then Some FollowerNode0 else None)"
proof -
  have "fold (\<lambda>srv m. if m srv = None then m(srv \<mapsto> FollowerNode0) else m) ss m =
      (\<lambda>s. if m s = None \<and> s \<in> set ss then Some FollowerNode0 else m s)" for ss m
    by (induction ss arbitrary: m) (auto simp: fun_eq_iff)
  note this [simp]
  show ?thesis by (auto simp: reinitStates_def LeaderImpl0_def fun_eq_iff)
qed

lemma reinit_frame [simp]:
  "fst (reinitStates st) = fst st" "logStates (snd (reinitStates st)) = replicate (length (log_of st)) 1"
  by (cases st; simp add: reinitStates_def)+

interpretation leader: identity leader_appendEntries leader_requestVote leader_addLog
  "\<lambda>(sv, ld). sv_ok sv"
proof unfold_locales
  fix s :: "Server \<times> LeaderImpl" assume ok: "case s of (sv, ld) \<Rightarrow> sv_ok sv"
  obtain sv ld where s: "s = (sv, ld)" by fastforce
  with ok have ok': "sv_ok sv" by simp
  show "\<exists>r s'. leader_appendEntries ae s = Some (r, s') \<and> (case s' of (sv, ld) \<Rightarrow> sv_ok sv)" for ae
    using appendEntries_returns [OF ok', of ae Leader] s by (fastforce simp: leader_appendEntries_def)
  show "\<exists>r s'. leader_requestVote rv s = Some (r, s') \<and> (case s' of (sv, ld) \<Rightarrow> sv_ok sv)" for rv
    using requestVote_returns [OF ok', of rv Leader] s by (fastforce simp: leader_requestVote_def)
  show "case snd (leader_addLog al s) of (sv, ld) \<Rightarrow> sv_ok sv" for al
    using s ok' by (simp add: leader_addLog_def Let_def sv_ok_def)
qed

section \<open>A leader to evaluate on\<close>

definition sample_leader :: "Server \<times> LeaderImpl" where
  "sample_leader = reinitStates (sample_server, LeaderImpl0)"

definition sample_request :: "prm_idx \<Rightarrow> AddLogMessage" where
  "sample_request p = \<lparr>al_opName = ''op'', al_args = [], al_prmIdx = p, al_srvId = sample_id ''a''\<rparr>"

section \<open>The log holds every request once\<close>

definition requestKey :: "LogEntry \<Rightarrow> ServerId \<times> prm_idx" where
  "requestKey e = (le_srvId e, le_prmIdx e)"

definition addLogs :: "AddLogMessage list \<Rightarrow> Server \<times> LeaderImpl \<Rightarrow> Server \<times> LeaderImpl" where
  "addLogs msgs st = fold (\<lambda>m st. snd (leader_addLog m st)) msgs st"

lemma leader_addLog_log:
  "log_of (snd (leader_addLog m st)) =
     (if (al_srvId m, al_prmIdx m) \<in> requestKey ` set (log_of st) then log_of st
      else log_of st @ [newEntry m (fst st)])"
  by (cases st) (force simp: leader_addLog_def Let_def sameRequest_def requestKey_def)

lemma leader_addLog_reply:
  "fst (leader_addLog m st) = \<lparr>ar_success = True, ar_leaderId = local (sv_info (fst st))\<rparr>"
  by (cases st) (simp add: leader_addLog_def Let_def)

lemma newEntry_key [simp]: "requestKey (newEntry m sv) = (al_srvId m, al_prmIdx m)"
  by (simp add: requestKey_def newEntry_def)

lemma addLogs_keys:
  "distinct (map requestKey (log_of st)) \<Longrightarrow> distinct (map requestKey (log_of (addLogs ms st))) \<and>
     requestKey ` set (log_of (addLogs ms st)) =
     requestKey ` set (log_of st) \<union> (\<lambda>m. (al_srvId m, al_prmIdx m)) ` set ms"
proof (induction ms arbitrary: st)
  case (Cons m ms)
  have "distinct (map requestKey (log_of (snd (leader_addLog m st))))"
    using Cons.prems by (auto simp: leader_addLog_log)
  from Cons.IH [OF this] show ?case by (auto simp: addLogs_def leader_addLog_log)
qed (simp add: addLogs_def)

text \<open>
  C13. However often clients resend a request, the leader's log holds it exactly once: after
  any sequence of AddLog messages every request of the sequence is the request of exactly one
  log entry (the first index of the sequence included).
\<close>

theorem addLog_exactly_once:
  assumes "distinct (map requestKey (log_of st))" "m \<in> set ms"
  shows "length (filter (\<lambda>e. requestKey e = (al_srvId m, al_prmIdx m)) (log_of (addLogs ms st))) = 1"
proof (rule distinct_map_filter_one)
  show "distinct (map requestKey (log_of (addLogs ms st)))" using addLogs_keys [OF assms(1)] by blast
  show "(al_srvId m, al_prmIdx m) \<in> requestKey ` set (log_of (addLogs ms st))"
    using addLogs_keys [OF assms(1), of ms] assms(2) by auto
qed

theorem addLog_exactly_once_witness:
  "length (filter (\<lambda>e. requestKey e = (sample_id ''a'', 2))
     (log_of (addLogs [sample_request 5, sample_request 2, sample_request 5] sample_leader))) = 1"
  using addLog_exactly_once [of sample_leader "sample_request 2"
      "[sample_request 5, sample_request 2, sample_request 5]"]
  by (simp add: sample_leader_def sample_request_def reinitStates_def sample_server_def sample_defs
      requestKey_def)

text \<open>
  A request with the null server id and promise 0 is acknowledged and never logged: its
  key is that of the sentinel at index 0, which the duplicate check does not leave out.
\<close>

theorem addLog_sentinel:
  assumes "entries (sv_state sv) = LogEntry0 # es" "al_srvId m = NullServerId" "al_prmIdx m = 0"
  shows "leader_addLog m (sv, ld) =
    (\<lparr>ar_success = True, ar_leaderId = local (sv_info sv)\<rparr>, sv, ld)"
  using assms by (simp add: leader_addLog_def Let_def sameRequest_def LogEntry0_def NullServerId_def)

theorem addLog_sentinel_witness:
  "snd (leader_addLog \<lparr>al_opName = ''op'', al_args = ''x'', al_prmIdx = 0, al_srvId = NullServerId\<rparr>
     sample_leader) = sample_leader"
  using addLog_sentinel [of sample_server _ "\<lparr>al_opName = ''op'', al_args = ''x'', al_prmIdx = 0,
      al_srvId = NullServerId\<rparr>" "snd sample_leader"]
  by (simp add: sample_leader_def reinitStates_def sample_server_def)

lemma tryAppendEntries_Some:
  assumes "tryAppendEntries t rs st = Some st'"
  obtains node b st1 where "followerNodes (snd st) t = Some node" "ta_loop t 0 rs st = Some (b, st1)"
    "(if b then ta_commit (matchIdx node) st1 else Some st1) = Some st'"
  using assms by (auto simp: tryAppendEntries_def Option.bind_eq_Some_conv)

section \<open>The loop of tryAppendEntries ends\<close>

lemma ta_reply_retry:
  "ta_reply target msg res st = Some (TaRetry, st') \<Longrightarrow>
     \<exists>n. followerNodes (snd st) target = Some n \<and> nextIdx n \<noteq> 1 \<and>
       followerNodes (snd st') target = Some (n\<lparr>nextIdx := nextIdx n - 1\<rparr>)"
  by (cases st) (auto simp: ta_reply_def Let_def Option.bind_eq_Some_conv split: if_splits)

text \<open>
  \<open>tryAppendEntries\<close> makes at most \<open>nextIdx + 2\<close> calls, whatever they return: three
  transport errors end it, and every refused message lowers \<open>nextIdx\<close>, which is at least 1.
\<close>

theorem ta_loop_bounded:
  assumes "followerNodes (snd st) target = Some n" "1 \<le> nextIdx n" "retry \<le> 2"
    and "nextIdx n + 2 - retry \<le> length rs"
  shows "ta_loop target retry (rs @ extra) st = ta_loop target retry rs st"
  using assms
proof (induction target retry rs st arbitrary: n rule: ta_loop.induct)
  case (2 target retry r rs st)
  show ?case
  proof (cases r)
    case Interrupted
    then show ?thesis by simp
  next
    case RpcError
    show ?thesis
    proof (cases "ta_build target st")
      case (Some msg)
      with RpcError "2.prems" "2.IH"(2) [OF RpcError Some] show ?thesis
        by (cases "retry + 1 > 2") auto
    qed (simp add: RpcError)
  next
    case (Replied res)
    show ?thesis
    proof (cases "ta_build target st")
      case msg: (Some msg)
      show ?thesis
      proof (cases "ta_reply target msg res st")
        case (Some p)
        obtain nx st' where p: "p = (nx, st')" by (cases p)
        show ?thesis
        proof (cases nx)
          case TaRetry
          with Some p ta_reply_retry [of target msg res st st'] "2.prems"(1,2)
          have "followerNodes (snd st') target = Some (n\<lparr>nextIdx := nextIdx n - 1\<rparr>)" "1 \<le> nextIdx n - 1"
            by (auto split: if_splits)
          moreover from this(2) "2.prems"(4) have "nextIdx n - 1 + 2 - retry \<le> length rs" by simp
          ultimately have "ta_loop target retry (rs @ extra) st' = ta_loop target retry rs st'"
            using "2.IH"(1) [OF Replied msg Some p [symmetric] TaRetry] "2.prems"(3) by simp
          with Replied msg Some p TaRetry show ?thesis by simp
        qed (simp_all add: Replied msg Some p)
      qed (simp add: Replied msg)
    qed (simp add: Replied)
  qed
qed simp

theorem ta_loop_bounded_witness:
  "ta_loop (sample_id ''b'') 0 ([RpcError, RpcError, RpcError] @ [Replied (1, True)]) sample_leader =
   ta_loop (sample_id ''b'') 0 [RpcError, RpcError, RpcError] sample_leader"
  by (rule ta_loop_bounded [where n = FollowerNode0])
    (simp_all add: sample_leader_def reinitStates_def sample_server_def sample_defs peers_def FollowerNode0_def
      LeaderImpl0_def)

section \<open>Counting replicas and committing\<close>

text \<open>How many followers are known to hold the entry at index \<open>i\<close>.\<close>

definition matched :: "LeaderImpl \<Rightarrow> index \<Rightarrow> nat" where
  "matched ld i = card {s. \<exists>n. followerNodes ld s = Some n \<and> i \<le> matchIdx n}"

text \<open>
  The leader's bookkeeping in order: one replica count per log entry, and behind the sentinel
  each is one (the leader itself) more than the number of followers that hold the entry.
\<close>

definition counts_ok :: "Server \<times> LeaderImpl \<Rightarrow> bool" where
  "counts_ok st \<longleftrightarrow> (let ld = snd st; len = length (log_of st) in
     length (logStates ld) = len \<and> finite (dom (followerNodes ld)) \<and>
     (\<forall>s n. followerNodes ld s = Some n \<longrightarrow> matchIdx n < nextIdx n \<and> nextIdx n \<le> len) \<and>
     (\<forall>i. 1 \<le> i \<longrightarrow> i < len \<longrightarrow> logStates ld ! i = 1 + matched ld i))"

lemma sample_leader_ok: "counts_ok sample_leader"
  by (auto simp: counts_ok_def sample_leader_def reinitStates_def sample_server_def sample_defs peers_def
      FollowerNode0_def LeaderImpl0_def matched_def Let_def less_Suc_eq nth_Cons' split: if_splits)

definition bumps :: "nat list \<Rightarrow> nat list \<Rightarrow> nat list" where
  "bumps is ls = fold (\<lambda>i l. l[i := l ! i + 1]) is ls"

lemma length_bumps [simp]: "length (bumps is ls) = length ls"
  by (induction "is" arbitrary: ls) (simp_all add: bumps_def)

lemma nth_bumps:
  "distinct is \<Longrightarrow> k < length ls \<Longrightarrow> bumps is ls ! k = ls ! k + (if k \<in> set is then 1 else 0)"
proof (induction "is" arbitrary: ls)
  case (Cons i "is")
  then have "bumps is (ls[i := ls ! i + 1]) ! k =
      ls[i := ls ! i + 1] ! k + (if k \<in> set is then 1 else 0)" by simp
  with Cons.prems show ?case by (cases "i = k") (auto simp: bumps_def)
qed (simp add: bumps_def)

text \<open>The loop in closed form.\<close>

lemma fold_ta_count:
  "distinct is \<Longrightarrow> set is \<subseteq> {..<length (logStates ld)} \<Longrightarrow>
   fold ta_count is (sv, ld) =
     (sv\<lparr>sv_state := (sv_state sv)\<lparr>commitIdx := fold max
        (filter (\<lambda>i. wins (logStates ld ! i + 1) (sv_info sv)) is) (commitIdx (sv_state sv))\<rparr>\<rparr>,
      ld\<lparr>logStates := bumps is (logStates ld)\<rparr>)"
proof (induction "is" arbitrary: sv ld)
  case (Cons i "is")
  let ?ls = "logStates ld"
  have same: "filter (\<lambda>j. wins (?ls[i := Suc (?ls ! i)] ! j + 1) c) is =
      filter (\<lambda>j. wins (?ls ! j + 1) c) is" for c
  proof (rule filter_cong [OF refl])
    fix x assume "x \<in> set is"
    with Cons.prems(1) have "x \<noteq> i" by auto
    then show "wins (?ls[i := Suc (?ls ! i)] ! x + 1) c = wins (?ls ! x + 1) c" by simp
  qed
  show ?case
    using Cons.prems Cons.IH [of "snd (ta_count i (sv, ld))" "fst (ta_count i (sv, ld))"] same
    by (auto simp: ta_count_def Let_def wins_def bumps_def max.commute)
qed (simp add: bumps_def)

lemma fold_max_cases: "fold max xs c = (c :: nat) \<or> fold max xs c \<in> set xs"
proof (induction xs arbitrary: c)
  case (Cons x xs)
  from Cons [of "max x c"] show ?case by (auto simp: max_def split: if_splits)
qed simp

lemma fold_max_ge: "(c :: nat) \<le> fold max xs c \<and> (\<forall>x\<in>set xs. x \<le> fold max xs c)"
proof (induction xs arbitrary: c)
  case (Cons x xs)
  from Cons [of "max x c"] show ?case by auto
qed simp

text \<open>The commit index after the loop: not smaller, and if greater, an index that has won.\<close>

lemma ta_commit_Some:
  assumes "ta_commit old (sv, ld) = Some (sv', ld')"
  shows "commitIdx (sv_state sv) \<le> commitIdx (sv_state sv')"
    and "logStates ld' = bumps [old + 1 ..< length (logStates ld)] (logStates ld)"
    and "followerNodes ld' = followerNodes ld" "sv_info sv' = sv_info sv"
    and "entries (sv_state sv') = entries (sv_state sv)"
    and "commitIdx (sv_state sv) < commitIdx (sv_state sv') \<Longrightarrow>
      old < commitIdx (sv_state sv') \<and> commitIdx (sv_state sv') < length (logStates ld) \<and>
      wins (logStates ld ! commitIdx (sv_state sv') + 1) (sv_info sv)"
    and "\<And>i. old < i \<Longrightarrow> i < length (logStates ld) \<Longrightarrow> wins (logStates ld ! i + 1) (sv_info sv) \<Longrightarrow>
      i \<le> commitIdx (sv_state sv')"
    and "currentTerm (sv_state sv') = currentTerm (sv_state sv)"
proof -
  let ?is = "[old + 1 ..< length (logStates ld)]"
  let ?ws = "filter (\<lambda>i. wins (logStates ld ! i + 1) (sv_info sv)) ?is"
  let ?c = "fold max ?ws (commitIdx (sv_state sv))"
  let ?sv1 = "sv\<lparr>sv_state := (sv_state sv)\<lparr>commitIdx := ?c\<rparr>\<rparr>"
  have "fold ta_count ?is (sv, ld) = (?sv1, ld\<lparr>logStates := bumps ?is (logStates ld)\<rparr>)"
    by (rule fold_ta_count) auto
  with assms have ap: "applyReadyEntries ?sv1 = Some sv'"
    and ld': "ld' = ld\<lparr>logStates := bumps ?is (logStates ld)\<rparr>"
    by (auto simp: ta_commit_def)
  from ap have sv': "sv' = appliedServer ?sv1"
    using applyReadyEntries_alt applyReadyEntries_undefined by (metis option.distinct(1) option.inject)
  then have c: "commitIdx (sv_state sv') = ?c" by simp
  show "logStates ld' = bumps ?is (logStates ld)" "followerNodes ld' = followerNodes ld"
    "sv_info sv' = sv_info sv" "entries (sv_state sv') = entries (sv_state sv)"
    "currentTerm (sv_state sv') = currentTerm (sv_state sv)"
    using ld' sv' by simp_all
  show "commitIdx (sv_state sv) \<le> commitIdx (sv_state sv')" using c fold_max_ge by simp
  show "commitIdx (sv_state sv) < commitIdx (sv_state sv') \<Longrightarrow>
      old < commitIdx (sv_state sv') \<and> commitIdx (sv_state sv') < length (logStates ld) \<and>
      wins (logStates ld ! commitIdx (sv_state sv') + 1) (sv_info sv)"
    using c fold_max_cases [of ?ws "commitIdx (sv_state sv)"] by auto
  show "i \<le> commitIdx (sv_state sv')" if "old < i" "i < length (logStates ld)"
    "wins (logStates ld ! i + 1) (sv_info sv)" for i
    using c fold_max_ge [of "commitIdx (sv_state sv)" ?ws] that by simp
qed

lemma ta_reply_success:
  assumes "ta_reply target msg (t, True) (sv, ld) = Some (nx, st1)"
  shows "\<exists>n. followerNodes ld target = Some n \<and> nx = TaSucceeded \<and> st1 = (sv, ld\<lparr>followerNodes :=
    (followerNodes ld)(target \<mapsto> n\<lparr>nextIdx := nextIdx n + length (ae_logEntries msg),
      matchIdx := nextIdx n + length (ae_logEntries msg) - 1\<rparr>)\<rparr>)"
  using assms by (auto simp: ta_reply_def Let_def Option.bind_eq_Some_conv)

lemma ta_build_Some:
  assumes "ta_build target (sv, ld) = Some msg" "followerNodes ld target = Some n"
  shows "1 \<le> nextIdx n \<and> nextIdx n \<le> length (entries (sv_state sv)) \<and>
    ae_logEntries msg = drop (nextIdx n) (entries (sv_state sv)) \<and> ae_prevLogIdx msg = nextIdx n - 1"
  using assms by (auto simp: ta_build_def createAppendEntriesMessage_def Let_def split: if_splits)

text \<open>The success of a message that reaches the end of the leader's log, in its effect on the
  followers' nodes.\<close>

lemma matched_update:
  assumes "finite (dom (followerNodes ld))" "followerNodes ld target = Some n" "matchIdx n \<le> m"
  shows "matched (ld\<lparr>followerNodes := (followerNodes ld)(target \<mapsto> n\<lparr>nextIdx := k, matchIdx := m\<rparr>)\<rparr>) i =
    matched ld i + (if matchIdx n < i \<and> i \<le> m then 1 else 0)"
proof -
  let ?f = "\<lambda>f. {s. \<exists>n. f s = Some n \<and> i \<le> matchIdx n}"
  let ?new = "(followerNodes ld)(target \<mapsto> n\<lparr>nextIdx := k, matchIdx := m\<rparr>)"
  have fin: "finite (?f (followerNodes ld))"
    by (rule finite_subset [OF _ assms(1)]) auto
  show ?thesis
  proof (cases "matchIdx n < i \<and> i \<le> m")
    case True
    then have "?f ?new = insert target (?f (followerNodes ld))"
      and "target \<notin> ?f (followerNodes ld)"
      using assms(2) by auto
    with True fin show ?thesis by (simp add: matched_def)
  next
    case False
    then have "?f ?new = ?f (followerNodes ld)" using assms(2,3) by (auto split: if_splits)
    with False show ?thesis by (simp add: matched_def)
  qed
qed

definition sample_sent :: AppendEntriesMessage where
  "sample_sent = the (ta_build (sample_id ''b'') sample_leader)"

lemma sample_leader_simps:
  "fst sample_leader = sample_server" 
  "followerNodes (snd sample_leader) = [sample_id ''b'' \<mapsto> FollowerNode0, sample_id ''c'' \<mapsto> FollowerNode0]"
  "logStates (snd sample_leader) = [1, 1, 1]"
  by (simp_all add: sample_leader_def reinitStates_def sample_server_def sample_defs peers_def LeaderImpl0_def
    numeral_3_eq_3)

lemma sample_sent: "ta_build (sample_id ''b'') sample_leader = Some sample_sent"
  "length (ae_logEntries sample_sent) = 2"
  by (simp_all add: sample_sent_def ta_build_def sample_leader_simps createAppendEntriesMessage_def FollowerNode0_def
    case_prod_beta sample_server_def sample_defs)

lemma sample_succeeded:
  assumes "followerNodes ld = followerNodes (snd sample_leader)"
  shows "ta_reply (sample_id ''b'') sample_sent (1, True) (sv, ld) = Some (TaSucceeded, sv, ld\<lparr>followerNodes :=
     (followerNodes ld)(sample_id ''b'' \<mapsto> \<lparr>nextIdx = 3, matchIdx = 2\<rparr>)\<rparr>)"
  using assms sample_sent(2) by (simp add: ta_reply_def sample_leader_simps FollowerNode0_def Let_def numeral_2_eq_2 numeral_3_eq_3)

lemma sample_commit:
  "case ta_commit 0 (fst sample_leader, (snd sample_leader)\<lparr>followerNodes := fs\<rparr>) of
     None \<Rightarrow> False | Some (sv, ld) \<Rightarrow> commitIdx (sv_state sv) = 2"
  by (simp add: ta_commit_def sample_leader_simps upt_rec ta_count_def Let_def sample_server_def
    applyReadyEntries_def sample_defs)

lemma sample_commit_added:
  "case ta_commit 0 (fst (snd (leader_addLog (sample_request 9) sample_leader)),
      (snd (snd (leader_addLog (sample_request 9) sample_leader)))\<lparr>followerNodes := fs\<rparr>) of
     None \<Rightarrow> False | Some _ \<Rightarrow> True"
  by (simp add: leader_addLog_def ta_commit_def sample_leader_simps upt_rec ta_count_def Let_def
    sample_server_def case_prod_beta applyReadyEntries_def sample_defs sameRequest_def sample_request_def)

text \<open>A follower that holds the whole log of the leader.\<close>

abbreviation synced :: "Server \<Rightarrow> FollowerNode \<Rightarrow> FollowerNode" where
  "synced sv node \<equiv> node\<lparr>nextIdx := length (entries (sv_state sv)), matchIdx := length (entries (sv_state sv)) - 1\<rparr>"

lemma synced_round:
  assumes "counts_ok (sv, ld)" "followerNodes ld target = Some node"
    and "ta_commit (matchIdx node) (sv, ld\<lparr>followerNodes := (followerNodes ld)(target \<mapsto> synced sv node)\<rparr>) =
      Some (sv2, ld2)"
  shows "counts_ok (sv2, ld2)"
    and "matched ld2 i = matched ld i + (if matchIdx node < i \<and> i \<le> length (entries (sv_state sv)) - 1 then 1 else 0)"
    and "commitIdx (sv_state sv) < commitIdx (sv_state sv2) \<Longrightarrow>
       wins (1 + matched ld2 (commitIdx (sv_state sv2))) (sv_info sv)"
    and "matchIdx node < i \<Longrightarrow> i < length (entries (sv_state sv)) \<Longrightarrow> wins (1 + matched ld2 i) (sv_info sv) \<Longrightarrow>
       i \<le> commitIdx (sv_state sv2)"
proof -
  let ?es = "entries (sv_state sv)"
  let ?ld1 = "ld\<lparr>followerNodes := (followerNodes ld)(target \<mapsto> synced sv node)\<rparr>"
  note commit = ta_commit_Some [OF assms(3)]
  from assms(1) have ok: "length (logStates ld) = length ?es" "finite (dom (followerNodes ld))"
    and nodes: "\<And>s n. followerNodes ld s = Some n \<Longrightarrow> matchIdx n < nextIdx n \<and> nextIdx n \<le> length ?es"
    and reps: "\<And>i. 1 \<le> i \<Longrightarrow> i < length ?es \<Longrightarrow> logStates ld ! i = 1 + matched ld i"
    by (simp_all add: counts_ok_def Let_def)
  have old: "matchIdx node \<le> length ?es - 1" "?es \<noteq> []" using nodes [OF assms(2)] by auto
  have ld2: "followerNodes ld2 = followerNodes ?ld1" using commit(3) by simp
  have matched2: "matched ld2 i = matched ld i + (if matchIdx node < i \<and> i \<le> length ?es - 1 then 1 else 0)" for i
    using matched_update [OF ok(2) assms(2) old(1), of "length ?es" i] ld2 by (simp add: matched_def)
  then show "matched ld2 i = matched ld i + (if matchIdx node < i \<and> i \<le> length ?es - 1 then 1 else 0)" .
  have reps2: "logStates ld2 ! i = 1 + matched ld2 i" if "1 \<le> i" "i < length ?es" for i
    using commit(2) reps [OF that] that ok(1) matched2 [of i] by (auto simp: nth_bumps)
  show "counts_ok (sv2, ld2)"
    using commit(2,5) ok ld2 nodes old reps2 by (auto simp: counts_ok_def Let_def)
  show "wins (1 + matched ld2 (commitIdx (sv_state sv2))) (sv_info sv)"
    if "commitIdx (sv_state sv) < commitIdx (sv_state sv2)"
  proof -
    let ?c = "commitIdx (sv_state sv2)"
    from commit(6) [OF that] ok(1) have c: "matchIdx node < ?c" "?c < length ?es"
      and w: "wins (logStates ld ! ?c + 1) (sv_info sv)" by simp_all
    then show ?thesis using matched2 [of ?c] reps [of ?c] by (auto split: if_splits)
  qed
  show "i \<le> commitIdx (sv_state sv2)"
    if "matchIdx node < i" "i < length ?es" "wins (1 + matched ld2 i) (sv_info sv)"
    using commit(7) [of i] that ok(1) matched2 [of i] reps [of i] by (auto split: if_splits)
qed

lemma leader_round:
  assumes "counts_ok (sv, ld)" "followerNodes ld target = Some node"
    and "ta_build target (sv, ld) = Some msg"
    and "ta_reply target msg (t, True) (sv, ld) = Some (TaSucceeded, st1)"
    and "ta_commit (matchIdx node) st1 = Some (sv2, ld2)"
  shows "counts_ok (sv2, ld2) \<and> commitIdx (sv_state sv) \<le> commitIdx (sv_state sv2) \<and>
    (commitIdx (sv_state sv) < commitIdx (sv_state sv2) \<longrightarrow>
       wins (1 + matched ld2 (commitIdx (sv_state sv2))) (sv_info sv))"
proof -
  have "st1 = (sv, ld\<lparr>followerNodes := (followerNodes ld)(target \<mapsto> synced sv node)\<rparr>)"
    using ta_reply_success [OF assms(4)] assms(2) ta_build_Some [OF assms(3,2)] by auto
  note round = assms(5) [unfolded this]
  show ?thesis using synced_round(1,3) [OF assms(1,2) round] ta_commit_Some(1) [OF round] by blast
qed

text \<open>
  The leader commits only what a majority holds: if no entry was added and no other
  thread of the leader ran between the sending of a message and its successful reply, then
  the bookkeeping stays in order, and a commit index that grew is the index of an entry that
  the leader and its matching followers, together more than half of the servers, all hold.
\<close>

theorem leader_commits_majority:
  assumes "counts_ok (sv, ld)" "followerNodes ld target = Some node"
    and "ta_build target (sv, ld) = Some msg"
    and "ta_reply target msg (t, True) (sv, ld) = Some (TaSucceeded, st1)"
    and "ta_commit (matchIdx node) st1 = Some (sv2, ld2)"
  shows "counts_ok (sv2, ld2) \<and> commitIdx (sv_state sv) \<le> commitIdx (sv_state sv2) \<and>
    (commitIdx (sv_state sv) < commitIdx (sv_state sv2) \<longrightarrow>
       wins (1 + matched ld2 (commitIdx (sv_state sv2))) (sv_info sv))"
  using assms by (rule leader_round)

theorem leader_commits_majority_witness:
  "\<exists>sv ld. ta_commit 0 (snd (the (ta_reply (sample_id ''b'') sample_sent (1, True) sample_leader))) = Some (sv, ld) \<and>
     commitIdx (sv_state sv) = 2 \<and> wins (1 + matched ld 2) (sv_info sample_server)"
proof -
  let ?ld = "(snd sample_leader)\<lparr>followerNodes :=
     (followerNodes (snd sample_leader))(sample_id ''b'' \<mapsto> \<lparr>nextIdx = 3, matchIdx = 2\<rparr>)\<rparr>"
  have reply: "ta_reply (sample_id ''b'') sample_sent (1, True) (sample_server, snd sample_leader) =
      Some (TaSucceeded, sample_server, ?ld)"
    by (rule sample_succeeded) simp_all
  have pair: "sample_leader = (sample_server, snd sample_leader)"
    by (simp add: prod_eq_iff sample_leader_simps)
  obtain sv ld where commit: "ta_commit 0 (sample_server, ?ld) = Some (sv, ld)" "commitIdx (sv_state sv) = 2"
    using sample_commit by (fastforce simp: sample_leader_simps(1) split: option.splits)
  have "wins (1 + matched ld (commitIdx (sv_state sv))) (sv_info sample_server)"
    using leader_commits_majority [OF _ _ _ reply, of FollowerNode0 sv ld] commit sample_leader_ok sample_sent(1) pair
    by (simp add: sample_leader_simps sample_server_def FollowerNode0_def sample_defs)
  with commit reply pair show ?thesis by (metis option.sel snd_conv)
qed

text \<open>
  C39. An entry that no follower holds can be committed: if one request is logged between the
  sending of a message and its successful reply, the loop counts the new entry as replicated
  too (it runs to the end of \<open>logStates\<close>, not to the new \<open>matchIdx\<close>), and in a cluster of
  three or fewer servers its index becomes the commit index.
\<close>

theorem leader_commits_unsent:
  assumes ok: "counts_ok (sv, ld)" and "length (srvList (sv_info sv)) \<le> 3"
    and "followerNodes ld target = Some node" "ta_build target (sv, ld) = Some msg"
    and "(al_srvId m, al_prmIdx m) \<notin> requestKey ` set (entries (sv_state sv))"
    and "snd (leader_addLog m (sv, ld)) = st0"
    and "ta_reply target msg (t, True) st0 = Some (TaSucceeded, st1)"
    and "ta_commit (matchIdx node) st1 = Some (sv2, ld2)"
  shows "length (entries (sv_state sv)) \<le> commitIdx (sv_state sv2) \<and>
    (\<forall>s n. followerNodes ld2 s = Some n \<longrightarrow> matchIdx n < length (entries (sv_state sv)))"
proof -
  let ?es = "entries (sv_state sv)"
  let ?sv0 = "sv\<lparr>sv_state := (sv_state sv)\<lparr>entries := ?es @ [newEntry m sv]\<rparr>\<rparr>"
  let ?ld0 = "ld\<lparr>logStates := logStates ld @ [1]\<rparr>"
  have "\<not> (\<exists>e \<in> set (rev ?es). sameRequest m e)"
    using assms(5) by (force simp: sameRequest_def requestKey_def)
  then have st0: "st0 = (?sv0, ?ld0)"
    using assms(6) by (simp add: leader_addLog_def Let_def)
  let ?ld1 = "?ld0\<lparr>followerNodes := (followerNodes ld)
    (target \<mapsto> node\<lparr>nextIdx := length ?es, matchIdx := length ?es - 1\<rparr>)\<rparr>"
  have st1: "st1 = (?sv0, ?ld1)"
    using ta_reply_success [OF assms(7) [unfolded st0]] assms(3) ta_build_Some [OF assms(4,3)] by auto
  define ld1 where "ld1 = ?ld1"
  then have ld1: "logStates ld1 = logStates ld @ [1]"
    "followerNodes ld1 = (followerNodes ld)(target \<mapsto> node\<lparr>nextIdx := length ?es, matchIdx := length ?es - 1\<rparr>)"
    by simp_all
  note st1 = st1 [folded ld1_def]
  note commit = ta_commit_Some [OF assms(8) [unfolded st1]]
  from ok have len: "length (logStates ld) = length ?es"
    and nodes: "\<And>s n. followerNodes ld s = Some n \<Longrightarrow> matchIdx n < length ?es"
    by (auto simp: counts_ok_def Let_def dest: less_le_trans)
  have "wins (logStates ld1 ! length ?es + 1) (sv_info ?sv0)"
    using assms(2) ld1(1) len by (simp add: wins_def nth_append)
  then have "length ?es \<le> commitIdx (sv_state sv2)"
    using commit(7) [of "length ?es"] ld1(1) len nodes [OF assms(3)] by simp
  moreover have "matchIdx n < length ?es" if "followerNodes ld2 s = Some n" for s n
  proof -
    have "0 < length ?es" using nodes [OF assms(3)] by linarith
    with that commit(3) ld1(2) nodes show ?thesis by (auto split: if_splits)
  qed
  ultimately show ?thesis by blast
qed

theorem leader_commits_unsent_witness:
  "\<exists>sv ld. ta_commit 0 (snd (the (ta_reply (sample_id ''b'') sample_sent (1, True)
      (snd (leader_addLog (sample_request 9) sample_leader))))) = Some (sv, ld) \<and> 3 \<le> commitIdx (sv_state sv)"
proof -
  let ?st = "snd (leader_addLog (sample_request 9) sample_leader)"
  let ?ld = "(snd ?st)\<lparr>followerNodes :=
     (followerNodes (snd ?st))(sample_id ''b'' \<mapsto> \<lparr>nextIdx = 3, matchIdx = 2\<rparr>)\<rparr>"
  have pair: "sample_leader = (sample_server, snd sample_leader)"
    by (simp add: prod_eq_iff sample_leader_simps)
  have "followerNodes (snd ?st) = followerNodes (snd sample_leader)"
    by (simp add: leader_addLog_def Let_def case_prod_beta)
  from sample_succeeded [OF this, of "fst ?st"]
  have reply: "ta_reply (sample_id ''b'') sample_sent (1, True) ?st = Some (TaSucceeded, fst ?st, ?ld)"
    by simp
  obtain sv ld where commit: "ta_commit 0 (fst ?st, ?ld) = Some (sv, ld)"
    using sample_commit_added by (fastforce split: option.splits)
  have fresh: "(sample_id ''a'', 9) \<notin> requestKey ` set (entries (sv_state sample_server))"
    by (simp add: sample_server_def sample_defs requestKey_def)
  have "length (entries (sv_state sample_server)) \<le> commitIdx (sv_state sv)"
    using leader_commits_unsent [of sample_server "snd sample_leader" "sample_id ''b''" FollowerNode0
        sample_sent "sample_request 9" ?st 1 "(fst ?st, ?ld)" sv ld]
      commit reply fresh sample_leader_ok sample_sent(1) pair
    by (simp add: sample_leader_simps sample_server_def FollowerNode0_def sample_defs sample_request_def)
  with commit reply show ?thesis by (simp add: sample_server_def numeral_3_eq_3)
qed

section \<open>A leader does not step down for a newer leader\<close>

text \<open>
  A leader that receives AppendEntries of a greater term takes over the entries but
  neither adopts the term nor asks for a transformation: it goes on leading in its old term.
\<close>

theorem leader_ignores_newer_term:
  assumes "sv_ok sv" "currentTerm (sv_state sv) \<le> ae_term msg"
    and "leader_appendEntries msg (sv, ld) = Some (r, sv', ld')"
  shows "currentTerm (sv_state sv') = currentTerm (sv_state sv) \<and> ld' = ld \<and>
    fst r = currentTerm (sv_state sv) \<and> sv_transformer sv' = sv_transformer sv \<and>
    sv_eventQueue sv' = sv_eventQueue sv"
proof -
  from assms(3) have d: "defaultRPCAppendEntries msg Leader sv = Some (r, sv')" "ld' = ld"
    by (auto simp: leader_appendEntries_def Option.bind_eq_Some_conv)
  have "currentTerm (sv_state sv') = currentTerm (sv_state sv)" "fst r = currentTerm (sv_state sv)"
    using appendEntries_SomeD [OF assms(1) d(1)] assms(2)
    by (simp_all add: appendedState_def mergedState_def Let_def min_absorb1)
  moreover have "sv_transformer sv' = sv_transformer sv" "sv_eventQueue sv' = sv_eventQueue sv"
    using d(1) assms(2) mergedState_defined appendEntries_body_spec [of sv msg Leader] assms(1)
    by (auto simp: defaultRPCAppendEntries_def checkRpcTerm_fresh sv_ok_def applyReadyEntries_alt
        Option.bind_eq_Some_conv)
  ultimately show ?thesis using d(2) by blast
qed

theorem leader_ignores_newer_term_witness:
  "currentTerm (sv_state (fst (snd (the (leader_appendEntries (sample_append 9) sample_leader))))) = 1"
proof -
  obtain r sv' where run: "leader_appendEntries (sample_append 9) sample_leader =
      Some (r, sv', snd sample_leader)"
    using appendEntries_returns [OF sample_server_ok, of "sample_append 9" Leader]
    by (auto simp: sample_leader_def reinitStates_def leader_appendEntries_def)
  then have "leader_appendEntries (sample_append 9) (sample_server, snd sample_leader) =
      Some (r, sv', snd sample_leader)" by (simp add: sample_leader_def reinitStates_def)
  from leader_ignores_newer_term [OF sample_server_ok _ this] run show ?thesis
    by (simp add: sample_server_def sample_defs)
qed

end
