(* ===== verification/Raft_Server.thy ===== *)
theory Raft_Server
  imports Identity_Leader
begin

text \<open>
  The server (\<open>Raft.cpp\<close>): it owns the state, the four identities and the event queue,
  forwards each RPC to the current identity, and runs the transformations one at a time from
  its event queue.

  \<open>Raft\<close> holds what \<open>Raft::Impl\<close> and the \<open>Impl\<close>s of the identities hold. The event queue of
  the server is the field \<open>sv_eventQueue\<close> of its \<open>Server\<close>; its events are the targets of the
  pending transformations. The hook \<open>beforeTransform\<close> of the tests, the random timeout that
  \<open>init\<close> draws and the flag \<open>heartBeatEnabled\<close> are arguments. \<open>None\<close> is a failed assertion or
  the use of the array \<open>identities\<close> at an identity it has no slot for.
\<close>

section \<open>State\<close>

record Raft =
  rf_server :: Server
  rf_identity :: ServerIdentityNo
  rf_candidate :: CandidateImpl
  rf_leader :: LeaderImpl
  rf_paused :: bool

text \<open>After \<open>configure\<close>: the services are bound, no identity is entered.\<close>

definition configure :: "ServerInfo \<Rightarrow> Raft" where
  "configure cfg = \<lparr>
     rf_server = \<lparr>sv_state = ServerState0, sv_info = cfg, sv_heartBeat = HeartBeatController0,
       sv_transformer = IdentityTransformer0, sv_applyQueue = EventQueue0, sv_eventQueue = EventQueue0\<rparr>,
     rf_identity = Down, rf_candidate = CandidateImpl0, rf_leader = LeaderImpl0, rf_paused = False\<rparr>"

section \<open>RPCs\<close>

definition set_server :: "Raft \<Rightarrow> Reply \<times> Server \<Rightarrow> Reply \<times> Raft" where
  "set_server rf = (\<lambda>(r, sv). (r, rf\<lparr>rf_server := sv\<rparr>))"

definition set_leader :: "Raft \<Rightarrow> Reply \<times> Server \<times> LeaderImpl \<Rightarrow> Reply \<times> Raft" where
  "set_leader rf = (\<lambda>(r, sv, ld). (r, rf\<lparr>rf_server := sv, rf_leader := ld\<rparr>))"

fun raft_appendEntries :: "AppendEntriesMessage \<Rightarrow> Raft \<Rightarrow> (Reply \<times> Raft) option" where
  "raft_appendEntries msg rf = (case rf_identity rf of
     Down \<Rightarrow> Some ((InvalidTerm, False), rf)
   | Follower \<Rightarrow> map_option (set_server rf) (follower_appendEntries msg (rf_server rf))
   | Candidate \<Rightarrow> map_option (set_server rf) (candidate_appendEntries msg (rf_server rf))
   | Leader \<Rightarrow> map_option (set_leader rf) (leader_appendEntries msg (rf_server rf, rf_leader rf))
   | Bogus \<Rightarrow> map_option (set_server rf) (bogus_appendEntries msg (rf_server rf))
   | Error \<Rightarrow> None)"

fun raft_requestVote :: "RequestVoteMessage \<Rightarrow> Raft \<Rightarrow> (Reply \<times> Raft) option" where
  "raft_requestVote msg rf = (case rf_identity rf of
     Down \<Rightarrow> Some ((InvalidTerm, False), rf)
   | Follower \<Rightarrow> map_option (set_server rf) (follower_requestVote msg (rf_server rf))
   | Candidate \<Rightarrow> map_option (set_server rf) (candidate_requestVote msg (rf_server rf))
   | Leader \<Rightarrow> map_option (set_leader rf) (leader_requestVote msg (rf_server rf, rf_leader rf))
   | Bogus \<Rightarrow> map_option (set_server rf) (bogus_requestVote msg (rf_server rf))
   | Error \<Rightarrow> None)"

fun raft_addLog :: "AddLogMessage \<Rightarrow> Raft \<Rightarrow> (AddLogReply \<times> Raft) option" where
  "raft_addLog msg rf = (case rf_identity rf of
     Down \<Rightarrow> Some (\<lparr>ar_success = False, ar_leaderId = NullServerId\<rparr>, rf)
   | Follower \<Rightarrow> (case follower_addLog msg (rf_server rf) of (r, sv) \<Rightarrow> Some (r, rf\<lparr>rf_server := sv\<rparr>))
   | Candidate \<Rightarrow> (case candidate_addLog msg (rf_server rf) of (r, sv) \<Rightarrow> Some (r, rf\<lparr>rf_server := sv\<rparr>))
   | Leader \<Rightarrow> (case leader_addLog msg (rf_server rf, rf_leader rf) of
       (r, sv, ld) \<Rightarrow> Some (r, rf\<lparr>rf_server := sv, rf_leader := ld\<rparr>))
   | Bogus \<Rightarrow> (case bogus_addLog msg (rf_server rf) of (r, sv) \<Rightarrow> Some (r, rf\<lparr>rf_server := sv\<rparr>))
   | Error \<Rightarrow> None)"

text \<open>
  The artificial latency: the interval the delay is drawn from, its bounds converted to
  signed integers, or no delay.
\<close>

definition rpcSleep :: "64 word \<Rightarrow> 64 word \<Rightarrow> (int \<times> int) option" where
  "rpcSleep latencyLb latencyUb =
     (case (if latencyUb < latencyLb then (latencyUb, latencyLb) else (latencyLb, latencyUb)) of
        (lb, ub) \<Rightarrow> if ub > 0 then Some (sint lb, sint ub) else None)"

section \<open>Transformations\<close>

fun leave_identity :: "ServerIdentityNo \<Rightarrow> Raft \<Rightarrow> Raft option" where
  "leave_identity Follower rf = Some (rf\<lparr>rf_server := follower_leave (rf_server rf)\<rparr>)"
| "leave_identity Candidate rf = (case candidate_leave (rf_server rf, rf_candidate rf) of
     (sv, c) \<Rightarrow> Some (rf\<lparr>rf_server := sv, rf_candidate := c\<rparr>))"
| "leave_identity Leader rf = (case leader_leave (rf_server rf, rf_leader rf) of
     (sv, ld) \<Rightarrow> Some (rf\<lparr>rf_server := sv, rf_leader := ld\<rparr>))"
| "leave_identity Bogus rf = Some rf"
| "leave_identity Down rf = Some rf"
| "leave_identity Error rf = None"

fun init_identity :: "bool \<Rightarrow> nat \<Rightarrow> ServerIdentityNo \<Rightarrow> Raft \<Rightarrow> Raft option" where
  "init_identity hbEnabled timeout Follower rf =
     map_option (\<lambda>sv. rf\<lparr>rf_server := sv\<rparr>) (follower_init timeout (rf_server rf))"
| "init_identity hbEnabled timeout Candidate rf =
     map_option (\<lambda>(sv, c). rf\<lparr>rf_server := sv, rf_candidate := c\<rparr>)
       (candidate_init timeout (rf_server rf, rf_candidate rf))"
| "init_identity hbEnabled timeout Leader rf =
     map_option (\<lambda>(sv, ld). rf\<lparr>rf_server := sv, rf_leader := ld\<rparr>)
       (leader_init hbEnabled (rf_server rf, rf_leader rf))"
| "init_identity hbEnabled timeout Bogus rf = Some rf"
| "init_identity hbEnabled timeout Down rf = Some rf"
| "init_identity hbEnabled timeout Error rf = None"

definition transform :: "(ServerIdentityNo \<Rightarrow> ServerIdentityNo \<Rightarrow> ServerIdentityNo) \<Rightarrow> bool \<Rightarrow> nat
    \<Rightarrow> ServerIdentityNo \<Rightarrow> Raft \<Rightarrow> Raft option" where
  "transform beforeTransform hbEnabled timeout target rf = do {
     let from = rf_identity rf;
     let actualTarget = beforeTransform from target;
     rf1 \<leftarrow> leave_identity from (rf\<lparr>rf_paused := True\<rparr>);
     rf2 \<leftarrow> init_identity hbEnabled timeout actualTarget (rf1\<lparr>rf_identity := actualTarget\<rparr>);
     Some (rf2\<lparr>rf_paused := False\<rparr>)
   }"

definition triggerTransformation :: "ServerIdentityNo \<Rightarrow> Raft \<Rightarrow> Raft" where
  "triggerTransformation target rf = rf\<lparr>rf_server := (rf_server rf)\<lparr>sv_eventQueue :=
     addEvent target (sv_eventQueue (rf_server rf))\<rparr>\<rparr>"

text \<open>The worker of the event queue runs its next event, with one random number to draw.\<close>

definition raft_event :: "(ServerIdentityNo \<Rightarrow> ServerIdentityNo \<Rightarrow> ServerIdentityNo) \<Rightarrow> bool \<Rightarrow> nat
    \<Rightarrow> Raft \<Rightarrow> Raft option" where
  "raft_event beforeTransform hbEnabled timeout rf =
     (case eq_exec1 (sv_eventQueue (rf_server rf)) of
        None \<Rightarrow> Some rf
      | Some (target, evq) \<Rightarrow> transform beforeTransform hbEnabled timeout target
          (rf\<lparr>rf_server := (rf_server rf)\<lparr>sv_eventQueue := evq\<rparr>\<rparr>))"

fun raft_events :: "(ServerIdentityNo \<Rightarrow> ServerIdentityNo \<Rightarrow> ServerIdentityNo) \<Rightarrow> bool \<Rightarrow> nat list
    \<Rightarrow> Raft \<Rightarrow> Raft option" where
  "raft_events before hbEnabled [] rf = Some rf"
| "raft_events before hbEnabled (t # ts) rf =
     Option.bind (raft_event before hbEnabled t rf) (raft_events before hbEnabled ts)"

definition asyncRun :: "Raft \<Rightarrow> Raft" where
  "asyncRun rf = triggerTransformation Follower rf"

text \<open>
  \<open>stop\<close>: after the RPC service has been stopped, the last transformation is queued and the
  events are run, one per random number, until \<open>eventQueue.stop\<close> finds the queue empty.
\<close>

definition raft_stop :: "bool \<Rightarrow> nat list \<Rightarrow> Raft \<Rightarrow> Raft option" where
  "raft_stop hbEnabled timeouts rf =
     raft_events (\<lambda>from to. to) hbEnabled timeouts (triggerTransformation Down rf)"

section \<open>A server always gets through a transformation\<close>

definition raft_base :: "Server \<Rightarrow> bool" where
  "raft_base sv \<longleftrightarrow> entries (sv_state sv) \<noteq> [] \<and> commitIdx (sv_state sv) \<le> lastApplied (sv_state sv) \<and>
     hb_inv (sv_heartBeat sv) \<and> eq_idle (sv_eventQueue sv)"

definition raft_ok :: "Raft \<Rightarrow> bool" where
  "raft_ok rf \<longleftrightarrow> raft_base (rf_server rf) \<and> \<not> rf_paused rf \<and> (case rf_identity rf of
     Error \<Rightarrow> False
   | Down \<Rightarrow> hb_th (sv_heartBeat (rf_server rf)) = None
   | Bogus \<Rightarrow> hb_th (sv_heartBeat (rf_server rf)) = None
   | _ \<Rightarrow> hb_bound (sv_heartBeat (rf_server rf)))"

lemma raft_ok_configure: "raft_ok (configure cfg)"
  by (simp add: raft_ok_def raft_base_def configure_def ServerState0_def HeartBeatController0_def
      hb_inv_def EventQueue0_def eq_idle_def)

lemma leave_identity_ok:
  assumes "raft_ok rf"
  obtains rf1 where "leave_identity (rf_identity rf) (rf\<lparr>rf_paused := p\<rparr>) = Some rf1"
    "raft_base (rf_server rf1)" "hb_th (sv_heartBeat (rf_server rf1)) = None"
    "sv_state (rf_server rf1) = sv_state (rf_server rf)" "sv_info (rf_server rf1) = sv_info (rf_server rf)"
    "sv_eventQueue (rf_server rf1) = sv_eventQueue (rf_server rf)"
    "sv_transformer (rf_server rf1) = sv_transformer (rf_server rf)"
    "rf_paused rf1 = p"
proof (cases "rf_identity rf")
qed (use assms that in \<open>simp_all add: raft_ok_def raft_base_def follower_leave_def candidate_leave_def
    leader_leave_def hb_inv_stop\<close>)

lemma hb_start_bind:
  assumes "hb_inv h" "hb_th h = None" "0 < period"
  obtains h' where "hb_start i r (hb_bind period f h) = Some (True, h')" "hb_inv h'" "hb_bound h'"
proof -
  have "hb_bound (hb_bind period f h)" "hb_th (hb_bind period f h) = None"
    using assms by (simp_all add: hb_bound_def hb_bind_def)
  note this(1) this(2)
  with hb_inv_bind [OF assms(1)] have "hb_inv (hb_bind period f h)" "hb_bound (hb_bind period f h)"
    "hb_th (hb_bind period f h) = None" by blast+
  from hb_start_stopped [OF this, of i r] that show ?thesis by blast
qed

lemma candidate_init_result:
  assumes "entries (sv_state sv) \<noteq> []"
    and "hb_start False False (hb_bind timeout CandidateTimeout (sv_heartBeat sv)) = Some (b, h)"
  shows "\<exists>sv'. candidate_init timeout (sv, c) = Some (sv', c\<lparr>votesReceived := 1,
      requests := requests c @ map (\<lambda>srv. \<lparr>rq_srv = srv, rq_msg = voteMessage sv', rq_done = False\<rparr>)
        (peers (sv_info sv))\<rparr>) \<and>
    sv_state sv' = (sv_state sv)\<lparr>currentTerm := currentTerm (sv_state sv) + 1, votedFor := local (sv_info sv)\<rparr> \<and>
    sv_info sv' = sv_info sv \<and> sv_heartBeat sv' = h \<and>
    eq_events (sv_eventQueue sv') = eq_events (sv_eventQueue sv) @ (if wins 1 (sv_info sv) \<and>
      (termTriggered (sv_transformer sv) = InvalidTerm \<or>
       termTriggered (sv_transformer sv) < currentTerm (sv_state sv) + 1) then [Leader] else []) \<and>
    eq_idle (sv_eventQueue sv') = eq_idle (sv_eventQueue sv)"
  using assms
  by (auto simp: candidate_init_def requestVotes_def Let_def voteMessage_def sv_notify_events)

text \<open>The state a server enters an identity in, and the event the entry adds.\<close>

definition entry_events :: "ServerIdentityNo \<Rightarrow> Server \<Rightarrow> ServerIdentityNo list" where
  "entry_events target sv = (if target = Candidate \<and> wins 1 (sv_info sv) \<and>
     (termTriggered (sv_transformer sv) = InvalidTerm \<or>
      termTriggered (sv_transformer sv) < currentTerm (sv_state sv) + 1) then [Leader] else [])"

definition entered :: "ServerIdentityNo \<Rightarrow> ServerInfo \<Rightarrow> ServerState \<Rightarrow> ServerState" where
  "entered target cfg s = (if target = Candidate
     then s\<lparr>currentTerm := currentTerm s + 1, votedFor := local cfg\<rparr> else s)"

lemma init_identity_ok:
  assumes base: "raft_base (rf_server rf)" and idle: "hb_th (sv_heartBeat (rf_server rf)) = None"
    and timeout: "0 < timeout" "2 \<le> electionTimeout (sv_info (rf_server rf))" and "target \<noteq> Error"
  obtains rf2 where "init_identity hbEnabled timeout target (rf\<lparr>rf_identity := target\<rparr>) = Some rf2"
    "raft_ok (rf2\<lparr>rf_paused := False\<rparr>)" "rf_identity rf2 = target"
    "sv_state (rf_server rf2) = entered target (sv_info (rf_server rf)) (sv_state (rf_server rf))"
    "sv_info (rf_server rf2) = sv_info (rf_server rf)"
    "eq_events (sv_eventQueue (rf_server rf2)) =
      eq_events (sv_eventQueue (rf_server rf)) @ entry_events target (rf_server rf)"
proof -
  from base have inv: "hb_inv (sv_heartBeat (rf_server rf))" by (simp add: raft_base_def)
  note start = hb_start_bind [OF inv idle]
  show ?thesis
  proof (cases target)
    case Follower
    obtain h where "hb_start False False (hb_bind timeout FollowerTimeout (sv_heartBeat (rf_server rf))) =
        Some (True, h)" "hb_inv h" "hb_bound h" using start timeout(1) by blast
    then show ?thesis using that base Follower
      by (simp add: follower_init_def raft_ok_def raft_base_def entered_def entry_events_def)
  next
    case Candidate
    obtain h where h: "hb_start False False (hb_bind timeout CandidateTimeout (sv_heartBeat (rf_server rf))) =
        Some (True, h)" "hb_inv h" "hb_bound h" using start timeout(1) by blast
    have "entries (sv_state (rf_server rf)) \<noteq> []" using base by (simp add: raft_base_def)
    from candidate_init_result [OF this h(1), of "rf_candidate rf"] obtain sv' c' where
      i: "candidate_init timeout (rf_server rf, rf_candidate rf) = Some (sv', c')"
        "sv_state sv' = entered Candidate (sv_info (rf_server rf)) (sv_state (rf_server rf))"
        "sv_info sv' = sv_info (rf_server rf)" "sv_heartBeat sv' = h"
        "eq_idle (sv_eventQueue sv') = eq_idle (sv_eventQueue (rf_server rf))"
        "eq_events (sv_eventQueue sv') = eq_events (sv_eventQueue (rf_server rf)) @
           entry_events Candidate (rf_server rf)"
      by (auto simp: entered_def entry_events_def)
    show ?thesis
      by (rule that [of "rf\<lparr>rf_identity := Candidate, rf_server := sv', rf_candidate := c'\<rparr>"])
        (use base Candidate h i in \<open>simp_all add: raft_ok_def raft_base_def entered_def\<close>)
  next
    case Leader
    have "0 < electionTimeout (sv_info (rf_server rf)) div 2" using timeout(2) by simp
    then obtain h where h: "hb_start True True (hb_bind (electionTimeout (sv_info (rf_server rf)) div 2)
        LeaderHeartBeat (sv_heartBeat (rf_server rf))) = Some (True, h)" "hb_inv h" "hb_bound h"
      using start by blast
    moreover have "hb_bound (hb_bind (electionTimeout (sv_info (rf_server rf)) div 2) LeaderHeartBeat
        (sv_heartBeat (rf_server rf)))" using timeout(2) by (simp add: hb_bound_def hb_bind_def)
    ultimately show ?thesis using that base Leader inv
      by (cases hbEnabled) (auto simp: leader_init_def reinitStates_def raft_ok_def raft_base_def
          entered_def entry_events_def hb_inv_bind Let_def)
  qed (use that base idle assms(5) in
      \<open>simp_all add: raft_ok_def raft_base_def entered_def entry_events_def\<close>)
qed

lemma transform_result:
  assumes "raft_ok rf" "before (rf_identity rf) target \<noteq> Error" "0 < timeout"
    and "2 \<le> electionTimeout (sv_info (rf_server rf))"
  shows "\<exists>rf'. transform before hbEnabled timeout target rf = Some rf' \<and> raft_ok rf' \<and>
    rf_identity rf' = before (rf_identity rf) target \<and>
    sv_info (rf_server rf') = sv_info (rf_server rf) \<and>
    sv_state (rf_server rf') =
      entered (before (rf_identity rf) target) (sv_info (rf_server rf)) (sv_state (rf_server rf)) \<and>
    eq_events (sv_eventQueue (rf_server rf')) = eq_events (sv_eventQueue (rf_server rf)) @
      entry_events (before (rf_identity rf) target) (rf_server rf)"
proof -
  obtain rf1 where leave: "leave_identity (rf_identity rf) (rf\<lparr>rf_paused := True\<rparr>) = Some rf1"
    "raft_base (rf_server rf1)" "hb_th (sv_heartBeat (rf_server rf1)) = None"
    "sv_state (rf_server rf1) = sv_state (rf_server rf)" "sv_info (rf_server rf1) = sv_info (rf_server rf)"
    "sv_eventQueue (rf_server rf1) = sv_eventQueue (rf_server rf)"
    "sv_transformer (rf_server rf1) = sv_transformer (rf_server rf)"
    using assms(1) by (rule leave_identity_ok)
  obtain rf2 where "init_identity hbEnabled timeout (before (rf_identity rf) target)
      (rf1\<lparr>rf_identity := before (rf_identity rf) target\<rparr>) = Some rf2"
    "raft_ok (rf2\<lparr>rf_paused := False\<rparr>)" "rf_identity rf2 = before (rf_identity rf) target"
    "sv_state (rf_server rf2) = entered (before (rf_identity rf) target) (sv_info (rf_server rf)) (sv_state (rf_server rf))"
    "sv_info (rf_server rf2) = sv_info (rf_server rf)"
    "eq_events (sv_eventQueue (rf_server rf2)) = eq_events (sv_eventQueue (rf_server rf1)) @
       entry_events (before (rf_identity rf) target) (rf_server rf1)"
    using leave(2-5) assms(2-4) by (metis init_identity_ok)
  moreover have "entry_events (before (rf_identity rf) target) (rf_server rf1) =
      entry_events (before (rf_identity rf) target) (rf_server rf)"
    using leave(4,5,7) by (simp add: entry_events_def)
  ultimately show ?thesis using leave(1,6) by (simp add: transform_def)
qed

text \<open>
  A transformation always succeeds, from every identity to every identity: the old
  identity is left, the new one entered with the timer running where it has one, the RPC
  service resumed; the log, the commit index and the configuration stay, and exactly the
  entry into candidacy starts a new term with a vote for itself.
\<close>

theorem transform_total:
  assumes "raft_ok rf" "before (rf_identity rf) target \<noteq> Error" "0 < timeout"
    and "2 \<le> electionTimeout (sv_info (rf_server rf))"
  shows "\<exists>rf'. transform before hbEnabled timeout target rf = Some rf' \<and> raft_ok rf' \<and>
    rf_identity rf' = before (rf_identity rf) target \<and>
    sv_info (rf_server rf') = sv_info (rf_server rf) \<and>
    sv_state (rf_server rf') =
      entered (before (rf_identity rf) target) (sv_info (rf_server rf)) (sv_state (rf_server rf))"
  using transform_result [of rf before target timeout hbEnabled] assms by blast

text \<open>The timer of the current identity fires: the function of the running beat is called.\<close>

definition raft_timeout :: "Raft \<Rightarrow> Raft option" where
  "raft_timeout rf = (case hb_th (sv_heartBeat (rf_server rf)) of
     None \<Rightarrow> None
   | Some b \<Rightarrow> Some (rf\<lparr>rf_server := (case bt_func b of
       FollowerTimeout \<Rightarrow> follower_timeout (rf_server rf)
     | CandidateTimeout \<Rightarrow> candidate_timeout (rf_server rf)
     | LeaderHeartBeat \<Rightarrow> rf_server rf)\<rparr>))"

section \<open>RPCs on a running server\<close>

fun raft_call :: "RpcCall \<Rightarrow> Raft \<Rightarrow> Raft option" where
  "raft_call (CallAppendEntries m) rf = map_option snd (raft_appendEntries m rf)"
| "raft_call (CallRequestVote m) rf = map_option snd (raft_requestVote m rf)"
| "raft_call (CallAddLog m) rf = map_option snd (raft_addLog m rf)"

definition active :: "Raft \<Rightarrow> bool" where
  "active rf \<longleftrightarrow> rf_identity rf \<in> {Follower, Candidate, Leader}"

lemma raft_ok_active: "active rf \<Longrightarrow> raft_ok rf \<longleftrightarrow> sv_ok (rf_server rf) \<and> \<not> rf_paused rf"
  by (auto simp: active_def raft_ok_def raft_base_def sv_ok_def)

lemma raft_ok_inactive: "raft_ok rf \<Longrightarrow> \<not> active rf \<Longrightarrow> rf_identity rf = Down \<or> rf_identity rf = Bogus"
  by (cases "rf_identity rf") (simp_all add: active_def raft_ok_def)

lemma active_updates [simp]:
  "active (rf\<lparr>rf_server := sv\<rparr>) = active rf" "active (rf\<lparr>rf_leader := ld\<rparr>) = active rf"
  by (simp_all add: active_def)

lemmas handlers_total = follower.appendEntries_total follower.requestVote_total follower.addLog_ok
  candidate.appendEntries_total candidate.requestVote_total candidate.addLog_ok

lemma leader_total:
  assumes "sv_ok sv"
  shows "\<exists>r sv' ld'. leader_appendEntries ae (sv, ld) = Some (r, sv', ld') \<and> sv_ok sv'"
    "\<exists>r sv' ld'. leader_requestVote rv (sv, ld) = Some (r, sv', ld') \<and> sv_ok sv'"
    "\<exists>r sv' ld'. leader_addLog al (sv, ld) = (r, sv', ld') \<and> sv_ok sv'"
  using leader.appendEntries_total [of "(sv, ld)" ae] leader.requestVote_total [of "(sv, ld)" rv]
    leader.addLog_ok [of "(sv, ld)" al] assms
  by (auto split: prod.splits) (metis prod.exhaust_sel)+

lemma addLog_same:
  "follower_addLog m sv = (defaultAddLog m, sv)" "candidate_addLog m sv = (defaultAddLog m, sv)"
  by (simp_all add: follower_addLog_def candidate_addLog_def)

lemma raft_rpc_total_ok:
  assumes "raft_ok rf"
  shows "\<exists>rf'. raft_call c rf = Some rf' \<and> raft_ok rf' \<and> rf_identity rf' = rf_identity rf"
proof (cases "active rf")
  case True
  with assms have ok: "sv_ok (rf_server rf)" "\<not> rf_paused rf" by (simp_all add: raft_ok_active)
  have keep: "raft_ok (rf\<lparr>rf_server := sv\<rparr>)" "raft_ok (rf\<lparr>rf_server := sv, rf_leader := ld\<rparr>)"
    if "sv_ok sv" for sv ld
    using that True ok(2) by (simp_all add: raft_ok_active)
  note total = handlers_total [OF ok(1)] leader_total [where ld = "rf_leader rf", OF ok(1)]
  show ?thesis
  proof (cases c)
    case (CallAppendEntries m)
    from True total(1,4,7) [of m] keep show ?thesis
      unfolding CallAppendEntries by (auto simp: active_def set_server_def set_leader_def)
  next
    case (CallRequestVote m)
    from True total(2,5,8) [of m] keep show ?thesis
      unfolding CallRequestVote by (auto simp: active_def set_server_def set_leader_def)
  next
    case (CallAddLog m)
    from True total(9) [of m] keep ok assms show ?thesis
      unfolding CallAddLog by (auto simp: active_def addLog_same split: prod.splits)
  qed
next
  case False
  with assms raft_ok_inactive [OF assms] show ?thesis
    by (cases c) (auto simp: set_server_def bogus_appendEntries_def bogus_requestVote_def bogus_addLog_def)
qed

text \<open>
  Every RPC returns on a server in order, whatever its identity: no assertion of a handler
  fails, no index is out of range, and the server is in order afterwards, with the same
  identity.
\<close>

theorem raft_rpc_total:
  assumes "raft_ok rf"
  shows "\<exists>rf'. raft_call c rf = Some rf' \<and> raft_ok rf' \<and> rf_identity rf' = rf_identity rf"
  using assms by (rule raft_rpc_total_ok)

section \<open>Starting a cluster of one\<close>

text \<open>
  A cluster of one server elects it: started from its configuration, it becomes a follower;
  when its timer fires it becomes a candidate of term 1 and, holding the majority by its own
  vote, the leader of term 1.
\<close>

theorem single_server_elects:
  assumes "srvList cfg = [local cfg]" "2 \<le> electionTimeout cfg" "0 < t1" "0 < t2"
  shows "\<exists>rf1 rf2 rf3. raft_events (\<lambda>from to. to) True [t1] (asyncRun (configure cfg)) = Some rf1 \<and>
    rf_identity rf1 = Follower \<and> raft_timeout rf1 = Some rf2 \<and>
    raft_events (\<lambda>from to. to) True [t2, t3] rf2 = Some rf3 \<and> rf_identity rf3 = Leader \<and>
    currentTerm (sv_state (rf_server rf3)) = 1 \<and> votedFor (sv_state (rf_server rf3)) = local cfg"
  using assms
  by (simp add: asyncRun_def triggerTransformation_def configure_def EventQueue0_def addEvent_def raft_event_def
    eq_exec1_def eq_take_def eq_can_take_def eq_finish_def transform_def follower_init_def hb_bind_def hb_start_def
    HeartBeatController0_def raft_timeout_def follower_timeout_def sv_notify_def notify_def IdentityTransformer0_def
    follower_leave_def hb_stop_def candidate_init_def wins_def requestVotes_def peers_def ServerState0_def Let_def
    CandidateImpl0_def LeaderImpl0_def candidate_leave_def leader_init_def reinitStates_def InvalidTerm_def)

theorem single_server_elects_witness:
  "\<exists>rf1 rf2 rf3. raft_events (\<lambda>from to. to) True [150] (asyncRun (configure
      \<lparr>local = sample_id ''a'', srvList = [sample_id ''a''], electionTimeout = 100\<rparr>)) = Some rf1 \<and>
    rf_identity rf1 = Follower \<and> raft_timeout rf1 = Some rf2 \<and>
    raft_events (\<lambda>from to. to) True [170, 0] rf2 = Some rf3 \<and> rf_identity rf3 = Leader \<and>
    currentTerm (sv_state (rf_server rf3)) = 1 \<and> votedFor (sv_state (rf_server rf3)) =
      local \<lparr>local = sample_id ''a'', srvList = [sample_id ''a''], electionTimeout = 100\<rparr>"
  by (rule single_server_elects) simp_all

section \<open>Stopping\<close>

lemma raft_ok_queue [intro]:
  "raft_ok rf \<Longrightarrow> eq_idle q \<Longrightarrow> raft_ok (rf\<lparr>rf_server := (rf_server rf)\<lparr>sv_eventQueue := q\<rparr>\<rparr>)"
  by (cases "rf_identity rf") (simp_all add: raft_ok_def raft_base_def)

lemma raft_ok_notify: "raft_ok rf \<Longrightarrow> raft_ok (rf\<lparr>rf_server := sv_notify t n (rf_server rf)\<rparr>)"
  by (cases "rf_identity rf") (simp_all add: raft_ok_def raft_base_def)

lemma raft_ok_trigger: "raft_ok rf \<Longrightarrow> raft_ok (triggerTransformation target rf)"
  unfolding triggerTransformation_def
  by (rule raft_ok_queue) (simp_all add: raft_ok_def raft_base_def eq.ready_push)

lemma raft_event_result:
  assumes "raft_ok rf" "eq_events (sv_eventQueue (rf_server rf)) = target # rest"
    and "before (rf_identity rf) target \<noteq> Error" "0 < timeout"
    and "2 \<le> electionTimeout (sv_info (rf_server rf))"
  shows "\<exists>rf'. raft_event before hbEnabled timeout rf = Some rf' \<and> raft_ok rf' \<and>
    rf_identity rf' = before (rf_identity rf) target \<and>
    sv_info (rf_server rf') = sv_info (rf_server rf) \<and>
    sv_state (rf_server rf') =
      entered (before (rf_identity rf) target) (sv_info (rf_server rf)) (sv_state (rf_server rf)) \<and>
    eq_events (sv_eventQueue (rf_server rf')) =
      rest @ entry_events (before (rf_identity rf) target) (rf_server rf)"
proof -
  have "eq_idle (sv_eventQueue (rf_server rf))" using assms(1) by (simp add: raft_ok_def raft_base_def)
  then obtain q where q: "eq_exec1 (sv_eventQueue (rf_server rf)) = Some (target, q)"
    "eq_events q = rest" "eq_idle q" using assms(2) by (rule eq_exec1_events)
  let ?rf = "rf\<lparr>rf_server := (rf_server rf)\<lparr>sv_eventQueue := q\<rparr>\<rparr>"
  have "raft_ok ?rf" using assms(1) q(3) by (rule raft_ok_queue)
  from transform_result [OF this, of before target timeout hbEnabled] assms q show ?thesis
    by (simp add: raft_event_def entry_events_def)
qed

lemma raft_event_empty:
  "eq_events (sv_eventQueue (rf_server rf)) = [] \<Longrightarrow> raft_event before hbEnabled t rf = Some rf"
  by (simp add: raft_event_def eq_events_def eq_exec1_None [THEN iffD2])

lemma raft_events_empty:
  "eq_events (sv_eventQueue (rf_server rf)) = [] \<Longrightarrow> raft_events before hbEnabled ts rf = Some rf"
  by (induction ts) (simp_all add: raft_event_empty)

lemma raft_events_drain:
  assumes "raft_ok rf" "eq_events (sv_eventQueue (rf_server rf)) = es @ [Down]" "Error \<notin> set es"
    and "\<not> wins 1 (sv_info (rf_server rf))" "2 \<le> electionTimeout (sv_info (rf_server rf))"
    and "length es < length ts" "0 \<notin> set ts"
  shows "\<exists>rf'. raft_events (\<lambda>from to. to) hbEnabled ts rf = Some rf' \<and> raft_ok rf' \<and>
    rf_identity rf' = Down \<and> eq_events (sv_eventQueue (rf_server rf')) = []"
  using assms
proof (induction es arbitrary: rf ts)
  case Nil
  then obtain t ts' where ts: "ts = t # ts'" "0 < t" by (cases ts) auto
  from raft_event_result [OF Nil(1), of Down "[]" "\<lambda>from to. to" t hbEnabled] Nil ts show ?case
    by (auto simp: entry_events_def raft_events_empty)
next
  case (Cons e es)
  then obtain t ts' where ts: "ts = t # ts'" "0 < t" by (cases ts) auto
  from raft_event_result [OF Cons.prems(1), of e "es @ [Down]" "\<lambda>from to. to" t hbEnabled] Cons.prems ts
  obtain rf1 where rf1: "raft_event (\<lambda>from to. to) hbEnabled t rf = Some rf1" "raft_ok rf1"
    "sv_info (rf_server rf1) = sv_info (rf_server rf)"
    "eq_events (sv_eventQueue (rf_server rf1)) = es @ [Down]"
    by (auto simp: entry_events_def)
  from Cons.IH [OF rf1(2,4), of ts'] Cons.prems ts rf1(1,3) show ?case by auto
qed

text \<open>
  In a cluster of at least two servers, \<open>stop\<close> runs the transformations still pending, in
  order, and leaves the server down: its timer is off, no transformation is left, and every
  RPC is refused.
\<close>

theorem raft_stop_down:
  assumes "raft_ok rf" "Error \<notin> set (eq_events (sv_eventQueue (rf_server rf)))"
    and "\<not> wins 1 (sv_info (rf_server rf))" "2 \<le> electionTimeout (sv_info (rf_server rf))"
    and "length (eq_events (sv_eventQueue (rf_server rf))) < length ts" "0 \<notin> set ts"
  shows "\<exists>rf'. raft_stop hbEnabled ts rf = Some rf' \<and> rf_identity rf' = Down \<and>
    eq_events (sv_eventQueue (rf_server rf')) = [] \<and> hb_th (sv_heartBeat (rf_server rf')) = None \<and>
    raft_requestVote rv rf' = Some ((InvalidTerm, False), rf') \<and>
    raft_appendEntries ae rf' = Some ((InvalidTerm, False), rf')"
proof -
  have "raft_ok (triggerTransformation Down rf)"
    using assms(1) by (rule raft_ok_trigger)
  from raft_events_drain [OF this, of "eq_events (sv_eventQueue (rf_server rf))" ts hbEnabled] assms(2-6)
  obtain rf' where "raft_stop hbEnabled ts rf = Some rf'" "raft_ok rf'" "rf_identity rf' = Down"
    "eq_events (sv_eventQueue (rf_server rf')) = []"
    by (auto simp: triggerTransformation_def raft_stop_def)
  then show ?thesis by (auto simp: raft_ok_def)
qed

text \<open>
  In a cluster of one, \<open>stop\<close> does not stop a server that is about to become a candidate:
  the candidate elects itself while the queue is drained, and the transformation to leader is
  run after the one to down, so that the server ends as leader.
\<close>

theorem raft_stop_leads:
  assumes "raft_ok rf" "eq_events (sv_eventQueue (rf_server rf)) = [Candidate]"
    and "srvList (sv_info (rf_server rf)) = [local (sv_info (rf_server rf))]"
    and "2 \<le> electionTimeout (sv_info (rf_server rf))"
    and "termTriggered (sv_transformer (rf_server rf)) < currentTerm (sv_state (rf_server rf)) + 1"
    and "0 < t1" "0 < t2" "0 < t3"
  shows "\<exists>rf'. raft_stop hbEnabled [t1, t2, t3] rf = Some rf' \<and> rf_identity rf' = Leader"
proof -
  let ?rf = "triggerTransformation Down rf" and ?id = "\<lambda>from to. to :: ServerIdentityNo"
  have ok: "raft_ok ?rf"
    using assms(1) by (rule raft_ok_trigger)
  from raft_event_result [OF ok, of Candidate "[Down]" ?id t1 hbEnabled] assms
  obtain rf1 where rf1: "raft_event ?id hbEnabled t1 ?rf = Some rf1" "raft_ok rf1"
    "sv_info (rf_server rf1) = sv_info (rf_server rf)"
    "eq_events (sv_eventQueue (rf_server rf1)) = [Down, Leader]"
    by (auto simp: entry_events_def triggerTransformation_def wins_def)
  from raft_event_result [OF rf1(2,4), of ?id t2 hbEnabled] assms rf1(3)
  obtain rf2 where rf2: "raft_event ?id hbEnabled t2 rf1 = Some rf2" "raft_ok rf2"
    "sv_info (rf_server rf2) = sv_info (rf_server rf)" "eq_events (sv_eventQueue (rf_server rf2)) = [Leader]"
    by (auto simp: entry_events_def)
  from raft_event_result [OF rf2(2,4), of ?id t3 hbEnabled] assms rf2(3)
  obtain rf3 where "raft_event ?id hbEnabled t3 rf2 = Some rf3" "rf_identity rf3 = Leader" by auto
  with rf1(1) rf2(1) show ?thesis by (simp add: raft_stop_def)
qed

section \<open>A pending election outlives its term\<close>

text \<open>
  The transformation to leader carries no term: a candidate that has won, whose
  transformation still waits in the event queue, and that then grants its vote to a candidate
  of a greater term, becomes leader of that greater term, in which it has voted for the other.
\<close>

theorem queued_leader_outdated:
  assumes "raft_ok rf" "rf_identity rf = Candidate"
    and "eq_events (sv_eventQueue (rf_server rf)) = Leader # rest"
    and "currentTerm (sv_state (rf_server rf)) < rv_term msg"
    and "2 \<le> electionTimeout (sv_info (rf_server rf))" "0 < timeout"
  shows "\<exists>rf1 rf2. raft_requestVote msg rf = Some ((rv_term msg, True), rf1) \<and>
    raft_event (\<lambda>from to. to) hbEnabled timeout rf1 = Some rf2 \<and> rf_identity rf2 = Leader \<and>
    currentTerm (sv_state (rf_server rf2)) = rv_term msg \<and>
    votedFor (sv_state (rf_server rf2)) = rv_candidateId msg"
proof -
  let ?sv = "rf_server rf"
  have ok: "sv_ok ?sv" using assms(1,2) by (auto simp: raft_ok_active active_def)
  let ?sv1 = "?sv\<lparr>sv_state := (sv_state ?sv)\<lparr>votedFor := rv_candidateId msg, currentTerm := rv_term msg\<rparr>\<rparr>"
  have granted: "grantsVote msg (sv_state ?sv)" using assms(4) by (simp add: grantsVote_def)
  have returned: "defaultRPCRequestVote msg Candidate ?sv =
      Some ((rv_term msg, True), sv_notify Follower (rv_term msg) ?sv1)"
    using ok assms(4) by (simp add: defaultRPCRequestVote_def checkRpcTerm_fresh requestVote_body_def
        Let_def order.strict_implies_not_eq less_not_sym applyReadyEntries_def sv_ok_def)
  then obtain sv' where
    sv': "defaultRPCRequestVote msg Candidate ?sv = Some ((rv_term msg, True), sv')" "sv_ok sv'"
      "sv_state sv' = votedState msg (sv_state ?sv)" "sv_info sv' = sv_info ?sv"
      and q: "\<exists>ts. eq_events (sv_eventQueue sv') = eq_events (sv_eventQueue ?sv) @ ts"
    using requestVote_SomeD [OF ok returned] by (simp add: sv_notify_events)
  let ?rf1 = "rf\<lparr>rf_server := sv'\<rparr>"
  have rv: "raft_requestVote msg rf = Some ((rv_term msg, True), ?rf1)"
    using assms(2) sv'(1) by (simp add: candidate_requestVote_def set_server_def)
  have "raft_ok ?rf1" using assms(1,2) sv'(2) by (auto simp: raft_ok_active active_def)
  moreover obtain ts where "eq_events (sv_eventQueue (rf_server ?rf1)) = Leader # rest @ ts"
    using q assms(3) by auto
  ultimately obtain rf2 where "raft_event (\<lambda>from to. to) hbEnabled timeout ?rf1 = Some rf2"
    "rf_identity rf2 = Leader" "sv_state (rf_server rf2) = sv_state sv'"
    using raft_event_result [of ?rf1 Leader "rest @ ts" "\<lambda>from to. to" timeout hbEnabled] assms(5,6) sv'(4)
    by (auto simp: entered_def)
  with rv sv'(3) granted show ?thesis by (auto simp: votedState_def)
qed

section \<open>Servers to evaluate on\<close>

definition sample_raft :: "ServerIdentityNo \<Rightarrow> ServerIdentityNo list \<Rightarrow> Raft" where
  "sample_raft i pending = (configure (sv_info sample_server))\<lparr>rf_identity := i,
     rf_server := sample_server\<lparr>sv_eventQueue := fold addEvent pending EventQueue0\<rparr>\<rparr>"

lemma sample_raft_simps [simp]:
  "rf_identity (sample_raft i p) = i" "sv_state (rf_server (sample_raft i p)) = sv_state sample_server"
  "sv_info (rf_server (sample_raft i p)) = sv_info sample_server"
  "eq_events (sv_eventQueue (rf_server (sample_raft i p))) = p"
  by (simp_all add: sample_raft_def eq.items_push_all) (simp add: EventQueue0_def eq_events_def)

lemma sample_raft_ok: "i \<in> {Follower, Candidate, Leader} \<Longrightarrow> raft_ok (sample_raft i p)"
proof -
  have "eq_idle (fold addEvent p EventQueue0)"
    by (simp only: eq.ready_push_all) (simp add: eq_idle_def EventQueue0_def)
  moreover assume "i \<in> {Follower, Candidate, Leader}"
  ultimately show ?thesis
    using sample_server_ok
    by (auto simp: raft_ok_def raft_base_def sv_ok_def sample_raft_def configure_def)
qed

theorem transform_total_witness:
  "\<exists>rf'. transform (\<lambda>from to. to) True 150 Candidate (sample_raft Follower []) = Some rf' \<and> raft_ok rf' \<and>
    rf_identity rf' = Candidate \<and> currentTerm (sv_state (rf_server rf')) = 2"
  using transform_total [of "sample_raft Follower []" "\<lambda>from to. to" Candidate 150 True]
  by (auto simp: sample_raft_ok entered_def) (auto simp: sample_server_def)

theorem raft_rpc_total_witness:
  "\<exists>rf'. raft_call (CallAppendEntries (sample_append 2)) (sample_raft Candidate []) = Some rf' \<and>
    raft_ok rf' \<and> rf_identity rf' = Candidate"
  using raft_rpc_total [of "sample_raft Candidate []" "CallAppendEntries (sample_append 2)"]
  by (simp add: sample_raft_ok)

theorem raft_stop_down_witness:
  "\<exists>rf'. raft_stop True [150, 150] (sample_raft Leader [Follower]) = Some rf' \<and> rf_identity rf' = Down"
  using raft_stop_down [of "sample_raft Leader [Follower]" "[150, 150]" True]
  by (auto simp: sample_raft_ok) (auto simp: sample_server_def wins_def)

definition sample_single :: Raft where
  "sample_single = (let rf = sample_raft Follower [Candidate] in
     rf\<lparr>rf_server := (rf_server rf)\<lparr>sv_info := \<lparr>local = sample_id ''a'', srvList = [sample_id ''a''],
       electionTimeout = 200\<rparr>\<rparr>\<rparr>)"

theorem raft_stop_leads_witness:
  "\<exists>rf'. raft_stop True [150, 150, 150] sample_single = Some rf' \<and> rf_identity rf' = Leader"
proof (rule raft_stop_leads)
  show "raft_ok sample_single"
    using sample_raft_ok [of Follower "[Candidate]"]
    by (simp add: sample_single_def raft_ok_def raft_base_def Let_def)
  show "eq_events (sv_eventQueue (rf_server sample_single)) = [Candidate]"
    by (simp add: sample_single_def Let_def)
  show "termTriggered (sv_transformer (rf_server sample_single)) <
      currentTerm (sv_state (rf_server sample_single)) + 1"
    by (simp add: sample_single_def sample_raft_def sample_server_def IdentityTransformer0_def
        InvalidTerm_def Let_def)
qed (simp_all add: sample_single_def Let_def)

theorem queued_leader_outdated_witness:
  "\<exists>rf1 rf2. raft_requestVote (sample_vote 7 ''b'') (sample_raft Candidate [Leader]) = Some ((7, True), rf1) \<and>
    raft_event (\<lambda>from to. to) True 150 rf1 = Some rf2 \<and> rf_identity rf2 = Leader \<and>
    currentTerm (sv_state (rf_server rf2)) = 7 \<and> votedFor (sv_state (rf_server rf2)) = sample_id ''b''"
  using queued_leader_outdated [of "sample_raft Candidate [Leader]" "[]" "sample_vote 7 ''b''" 150 True]
  by (simp add: sample_raft_ok) (simp add: sample_server_def sample_defs)

section \<open>The threads of a candidate\<close>

text \<open>The thread of a request is over.\<close>

definition finish_request :: "nat \<Rightarrow> CandidateImpl \<Rightarrow> CandidateImpl" where
  "finish_request k c = c\<lparr>requests := (requests c)[k := (requests c ! k)\<lparr>rq_done := True\<rparr>]\<rparr>"

lemma vote_thread_effect:
  assumes "vote_thread msg res (sv, c) = (sv', c')"
  shows "(sv' = sv \<or> sv' = sv_notify Leader (rv_term msg) sv) \<and> requests c' = requests c \<and>
    votesReceived c' = votesReceived c + (if \<exists>r. res = Replied r \<and> fst r = rv_term msg \<and> snd r then 1 else 0)"
  using assms by (auto simp: vote_thread_def Let_def split: RpcResult.splits if_splits prod.splits)

lemma raft_ok_vote_thread:
  assumes "raft_ok rf" "vote_thread msg res (rf_server rf, rf_candidate rf) = (sv, c)"
  shows "raft_ok (rf\<lparr>rf_server := sv, rf_candidate := c'\<rparr>) \<and> sv_info sv = sv_info (rf_server rf) \<and>
    sv_state sv = sv_state (rf_server rf)"
  using vote_thread_effect [OF assms(2)] assms(1) raft_ok_notify [OF assms(1), of Leader "rv_term msg"]
  by (cases "rf_identity rf") (auto simp: raft_ok_def raft_base_def)

end
