(* ===== verification/Cluster.thy ===== *)
theory Cluster
  imports Raft_Server
begin

text \<open>
  Several servers together: every server is a \<open>Raft\<close> of \<open>Raft_Server\<close>, and the steps are the
  operations of the code, run one at a time: a server is started or stopped, its timer fires, its
  event queue runs a transformation, a RequestVote or AppendEntries message is handled, the reply
  to a vote request comes back or the call fails, the leader runs \<open>tryAppendEntries\<close> or logs a
  request.

  The network keeps every RequestVote message that was sent and every answer that was given;
  messages are delivered any number of times, in any order or never, and AppendEntries messages
  are arbitrary. Four components only record what happened: the votes granted (also those a
  candidate gives itself), the voters a candidate has counted, the term it stood for, and the
  elections that were won.

  With the flag \<open>ordered\<close> the network does not deliver a message of an older term than the
  receiver's, and terms do not reach the largest 64-bit number: then no two servers win an
  election of one term. Without it they can.
\<close>

section \<open>How a server's term and vote change\<close>

abbreviation rf_state :: "Raft \<Rightarrow> ServerState" where
  "rf_state rf \<equiv> sv_state (rf_server rf)"

abbreviation rf_info :: "Raft \<Rightarrow> ServerInfo" where
  "rf_info rf \<equiv> sv_info (rf_server rf)"

text \<open>
  From one state to another with the votes \<open>G\<close> (term and candidate) granted: the term does not go
  back, within a term a vote is not withdrawn, and a granted vote is recorded.
\<close>

definition vote_change :: "ServerState \<Rightarrow> (raft_term \<times> ServerId) set \<Rightarrow> ServerState \<Rightarrow> bool" where
  "vote_change s G s' \<longleftrightarrow> currentTerm s \<le> currentTerm s' \<and>
     (currentTerm s' = currentTerm s \<and> votedFor s \<noteq> NullServerId \<longrightarrow> votedFor s' = votedFor s) \<and>
     (\<forall>(t, c) \<in> G. t = currentTerm s' \<and> c = votedFor s' \<and> c \<noteq> NullServerId)"

text \<open>All votes of \<open>v\<close> in the book \<open>votes\<close>, compared with its state.\<close>

definition book_agrees :: "(ServerId \<times> raft_term \<times> ServerId) set \<Rightarrow> ServerId \<Rightarrow> ServerState \<Rightarrow> bool" where
  "book_agrees votes v s \<longleftrightarrow> (\<forall>t c. (v, t, c) \<in> votes \<longrightarrow>
     c \<noteq> NullServerId \<and> t \<le> currentTerm s \<and> (t = currentTerm s \<longrightarrow> votedFor s = c))"

definition one_vote :: "(ServerId \<times> raft_term \<times> ServerId) set \<Rightarrow> bool" where
  "one_vote votes \<longleftrightarrow> (\<forall>v t c c'. (v, t, c) \<in> votes \<longrightarrow> (v, t, c') \<in> votes \<longrightarrow> c = c')"

lemma book_agrees_step:
  assumes "book_agrees votes v s" "vote_change s G s'"
  shows "book_agrees (votes \<union> Pair v ` G) v s'"
  unfolding book_agrees_def
proof (intro allI impI)
  fix t c
  assume "(v, t, c) \<in> votes \<union> Pair v ` G"
  then consider "(v, t, c) \<in> votes" | "(t, c) \<in> G" by auto
  then show "c \<noteq> NullServerId \<and> t \<le> currentTerm s' \<and> (t = currentTerm s' \<longrightarrow> votedFor s' = c)"
  proof cases
    case 1
    with assms(1) have old: "c \<noteq> NullServerId" "t \<le> currentTerm s" "t = currentTerm s \<longrightarrow> votedFor s = c"
      by (auto simp: book_agrees_def)
    moreover from assms(2) have le: "currentTerm s \<le> currentTerm s'"
      and kept: "currentTerm s' = currentTerm s \<and> votedFor s \<noteq> NullServerId \<longrightarrow> votedFor s' = votedFor s"
      by (auto simp: vote_change_def)
    moreover have "votedFor s' = c" if "t = currentTerm s'"
    proof -
      have "currentTerm s' = currentTerm s" using that old(2) le by simp
      with that old kept show ?thesis by auto
    qed
    ultimately show ?thesis by (auto intro: order_trans)
  qed (use assms(2) in \<open>auto simp: vote_change_def\<close>)
qed

lemma book_agrees_other: "book_agrees votes w s \<Longrightarrow> v \<noteq> w \<Longrightarrow> book_agrees (votes \<union> Pair v ` G) w s"
  by (auto simp: book_agrees_def)

lemma one_vote_step:
  assumes "one_vote votes" "book_agrees votes v s" "vote_change s G s'"
  shows "one_vote (votes \<union> Pair v ` G)"
proof -
  have new: "book_agrees (votes \<union> Pair v ` G) v s'" using assms(2,3) by (rule book_agrees_step)
  show ?thesis
    unfolding one_vote_def
  proof (intro allI impI)
    fix w t c c'
    assume m: "(w, t, c) \<in> votes \<union> Pair v ` G" "(w, t, c') \<in> votes \<union> Pair v ` G"
    show "c = c'"
    proof (cases "(w, t, c) \<in> votes \<and> (w, t, c') \<in> votes")
      case False
      with m have "w = v" "t = currentTerm s'" using assms(3) by (auto simp: vote_change_def)
      with m new have "t = currentTerm s' \<longrightarrow> votedFor s' = c" "t = currentTerm s' \<longrightarrow> votedFor s' = c'"
        unfolding book_agrees_def by blast+
      with \<open>t = currentTerm s'\<close> show ?thesis by simp
    qed (use assms(1) in \<open>auto simp: one_vote_def\<close>)
  qed
qed

lemma vote_change_refl [simp]: "vote_change s {} s"
  by (simp add: vote_change_def)

lemma vote_change_same:
  "currentTerm s' = currentTerm s \<Longrightarrow> votedFor s' = votedFor s \<Longrightarrow> vote_change s {} s'"
  by (simp add: vote_change_def)

section \<open>What the operations do\<close>

lemma votedState_change:
  assumes "currentTerm s \<le> rv_term msg" "rv_candidateId msg \<noteq> NullServerId"
  shows "vote_change s (if grantsVote msg s then {(rv_term msg, rv_candidateId msg)} else {}) (votedState msg s)"
  using assms by (auto simp: vote_change_def votedState_def grantsVote_def)

lemma raft_requestVote_step:
  assumes "raft_ok rf" "raft_requestVote msg rf = Some (r, rf')"
  obtains "raft_ok rf'" "rf_identity rf' = rf_identity rf" "rf_info rf' = rf_info rf"
    "rf_candidate rf' = rf_candidate rf" "rf_state rf' = rf_state rf" "\<not> snd r"
  | "raft_ok rf'" "rf_identity rf' = rf_identity rf" "rf_info rf' = rf_info rf"
    "rf_candidate rf' = rf_candidate rf" "rf_state rf' = votedState msg (rf_state rf)"
    "r = (rv_term msg, grantsVote msg (rf_state rf))"
proof (cases "active rf")
  case True
  with assms(1) have ok: "sv_ok (rf_server rf)" "\<not> rf_paused rf" by (simp_all add: raft_ok_active)
  have dflt: "defaultRPCRequestVote msg (rf_identity rf) (rf_server rf) = Some (r, rf_server rf')"
    and frame: "rf_identity rf' = rf_identity rf \<and> rf_candidate rf' = rf_candidate rf \<and> rf_paused rf' = rf_paused rf"
    using True assms(2)
    by (auto simp: active_def set_server_def set_leader_def follower_requestVote_def candidate_requestVote_def
        leader_requestVote_def Option.bind_eq_Some_conv)
  note requestVote_SomeD [OF ok(1) dflt]
  moreover have "active rf'" using frame True by (simp add: active_def)
  ultimately show ?thesis using frame ok(2) that(2) by (simp add: raft_ok_active)
next
  case False
  then have "rf' = rf" "\<not> snd r" using assms raft_ok_inactive [OF assms(1)]
    by (auto simp: set_server_def bogus_requestVote_def)
  with that(1) assms(1) show ?thesis by simp
qed

lemma appendedState_votes [simp]:
  "votedFor (appendedState msg s) = votedFor s"
  "currentTerm (appendedState msg s) = min (currentTerm s) (ae_term msg)"
  by (simp_all add: appendedState_def mergedState_def Let_def)

lemma follower_appendEntries_SomeD:
  assumes "sv_ok sv" "follower_appendEntries msg sv = Some (r, sv')"
  shows "sv_ok sv' \<and> sv_info sv' = sv_info sv \<and> votedFor (sv_state sv') = votedFor (sv_state sv) \<and>
    currentTerm (sv_state sv') = currentTerm (sv_state sv)"
proof (cases "currentTerm (sv_state sv) \<le> ae_term msg")
  case True
  obtain h where h: "follower_appendEntries msg sv = defaultRPCAppendEntries msg Follower (sv\<lparr>sv_heartBeat := h\<rparr>)"
    "sv_ok (sv\<lparr>sv_heartBeat := h\<rparr>)" using assms(1) True by (rule follower_appendEntries_fresh)
  from appendEntries_returns [OF h(2), of msg Follower] h(1) assms(2) True show ?thesis
    by (auto simp: appendedState_def mergedState_def Let_def)
next
  case False
  with assms show ?thesis by (auto simp: follower_appendEntries_def Let_def not_le)
qed

lemma raft_appendEntries_step:
  assumes "raft_ok rf" "raft_appendEntries msg rf = Some (r, rf')" "currentTerm (rf_state rf) \<le> ae_term msg"
  shows "raft_ok rf' \<and> rf_identity rf' = rf_identity rf \<and> rf_info rf' = rf_info rf \<and>
    rf_candidate rf' = rf_candidate rf \<and> vote_change (rf_state rf) {} (rf_state rf')"
proof (cases "active rf")
  case True
  with assms(1) have ok: "sv_ok (rf_server rf)" "\<not> rf_paused rf" by (simp_all add: raft_ok_active)
  let ?sv = "if ae_term msg = currentTerm (rf_state rf) then sv_notify Follower (currentTerm (rf_state rf)) (rf_server rf)
    else rf_server rf"
  have sv: "sv_ok ?sv" using ok(1) by (simp add: keeps_intros)
  have h: "follower_appendEntries msg (rf_server rf) = Some (r, rf_server rf') \<or>
      defaultRPCAppendEntries msg Candidate ?sv = Some (r, rf_server rf') \<or>
      defaultRPCAppendEntries msg Leader (rf_server rf) = Some (r, rf_server rf')"
    and frame: "rf_identity rf' = rf_identity rf \<and> rf_candidate rf' = rf_candidate rf \<and> rf_paused rf' = rf_paused rf"
    using True assms(2)
    by (auto simp: active_def set_server_def set_leader_def candidate_appendEntries_def Let_def
        leader_appendEntries_def Option.bind_eq_Some_conv split: if_splits)
  have "sv_ok (rf_server rf') \<and> rf_info rf' = rf_info rf \<and> votedFor (rf_state rf') = votedFor (rf_state rf) \<and>
      currentTerm (rf_state rf') = currentTerm (rf_state rf)"
    using h follower_appendEntries_SomeD [OF ok(1), of msg r "rf_server rf'"]
      appendEntries_returns [OF sv, of msg Candidate] appendEntries_returns [OF ok(1), of msg Leader] assms(3)
    by (auto simp: min_absorb1 split: if_splits)
  moreover have "active rf'" using frame True by (simp add: active_def)
  ultimately show ?thesis using frame ok(2) by (simp add: raft_ok_active vote_change_same)
next
  case False
  then have "rf' = rf" using assms(1,2) raft_ok_inactive [OF assms(1)]
    by (auto simp: set_server_def bogus_appendEntries_def)
  with assms(1) show ?thesis by simp
qed

lemma raft_addLog_step:
  assumes "raft_ok rf" "raft_addLog msg rf = Some (r, rf')"
  shows "raft_ok rf' \<and> rf_identity rf' = rf_identity rf \<and> rf_info rf' = rf_info rf \<and>
    rf_candidate rf' = rf_candidate rf \<and> vote_change (rf_state rf) {} (rf_state rf')"
proof -
  have "raft_ok rf'" "rf_identity rf' = rf_identity rf"
    using raft_rpc_total_ok [OF assms(1), of "CallAddLog msg"] assms(2) by auto
  moreover have "rf_info rf' = rf_info rf \<and> rf_candidate rf' = rf_candidate rf \<and>
      votedFor (rf_state rf') = votedFor (rf_state rf) \<and> currentTerm (rf_state rf') = currentTerm (rf_state rf)"
    using assms(2) by (cases "rf_identity rf")
      (auto simp: addLog_same bogus_addLog_def leader_addLog_def Let_def split: if_splits)
  ultimately show ?thesis by (simp add: vote_change_same)
qed

text \<open>\<open>tryAppendEntries\<close> can raise the term of the leader, to that of a reply.\<close>

definition leader_frame :: "Server \<Rightarrow> Server \<Rightarrow> bool" where
  "leader_frame sv sv' \<longleftrightarrow> sv_info sv' = sv_info sv \<and> sv_heartBeat sv' = sv_heartBeat sv \<and>
     (eq_idle (sv_eventQueue sv) \<longrightarrow> eq_idle (sv_eventQueue sv')) \<and>
     entries (sv_state sv') = entries (sv_state sv) \<and> votedFor (sv_state sv') = votedFor (sv_state sv) \<and>
     currentTerm (sv_state sv) \<le> currentTerm (sv_state sv')"

lemma leader_frame_trans: "leader_frame a b \<Longrightarrow> leader_frame b c \<Longrightarrow> leader_frame a c"
  by (auto simp: leader_frame_def)

lemma ta_reply_frame:
  "ta_reply target msg res (sv, ld) = Some (nxt, sv', ld') \<Longrightarrow>
     leader_frame sv sv' \<and> commitIdx (sv_state sv') = commitIdx (sv_state sv) \<and>
     lastApplied (sv_state sv') = lastApplied (sv_state sv)"
  by (auto simp: ta_reply_def Let_def leader_frame_def Option.bind_eq_Some_conv split: if_splits)

lemma ta_loop_frame:
  "ta_loop target n rs (sv, ld) = Some (b, sv', ld') \<Longrightarrow>
     leader_frame sv sv' \<and> commitIdx (sv_state sv') = commitIdx (sv_state sv) \<and>
     lastApplied (sv_state sv') = lastApplied (sv_state sv)"
proof (induction rs arbitrary: n sv ld)
  case Nil
  then show ?case by (auto simp: leader_frame_def)
next
  case (Cons r rs)
  show ?case
  proof (cases r)
    case Interrupted
    with Cons.prems show ?thesis by (auto simp: leader_frame_def)
  next
    case RpcError
    with Cons.prems Cons.IH show ?thesis by (auto simp: leader_frame_def split: option.splits if_splits)
  next
    case (Replied res)
    with Cons.prems obtain msg nxt sv1 ld1 where
      1: "ta_reply target msg res (sv, ld) = Some (nxt, sv1, ld1)"
        "sv' = sv1 \<or> ta_loop target n rs (sv1, ld1) = Some (b, sv', ld')"
      by (auto split: option.splits ta_next.splits)
    from ta_reply_frame [OF 1(1)] 1(2) Cons.IH [of n sv1 ld1] show ?thesis
      by (auto intro: leader_frame_trans)
  qed
qed

lemma fold_ta_count_frame:
  "fold ta_count is (sv, ld) = (sv', ld') \<Longrightarrow> leader_frame sv sv' \<and>
     lastApplied (sv_state sv') = lastApplied (sv_state sv)"
proof (induction "is" arbitrary: sv ld)
  case (Cons i "is")
  obtain sv1 ld1 where 1: "ta_count i (sv, ld) = (sv1, ld1)" by fastforce
  then have "leader_frame sv sv1" "lastApplied (sv_state sv1) = lastApplied (sv_state sv)"
    by (auto simp: ta_count_def Let_def leader_frame_def)
  with Cons.IH [of sv1 ld1] Cons.prems 1 show ?case by (auto intro: leader_frame_trans)
qed (auto simp: leader_frame_def)

lemma tryAppendEntries_frame:
  assumes "tryAppendEntries target results (sv, ld) = Some (sv', ld')" "commitIdx (sv_state sv) \<le> lastApplied (sv_state sv)"
  shows "leader_frame sv sv' \<and> commitIdx (sv_state sv') \<le> lastApplied (sv_state sv')"
  using assms(1)
proof (rule tryAppendEntries_Some)
  fix node b st1
  assume loop1: "ta_loop target 0 results (sv, ld) = Some (b, st1)"
    and 2: "(if b then ta_commit (matchIdx node) st1 else Some st1) = Some (sv', ld')"
  obtain sv1 ld1 where st1: "st1 = (sv1, ld1)" by (cases st1)
  note 1 = loop1 [unfolded st1] and 2 = 2 [unfolded st1]
  note loop = ta_loop_frame [OF 1]
  show ?thesis
  proof (cases b)
    case True
    obtain sv2 ld2 where 3: "fold ta_count [matchIdx node + 1 ..< length (logStates ld1)] (sv1, ld1) = (sv2, ld2)"
      by fastforce
    with 2 True have "applyReadyEntries sv2 = Some sv'" by (auto simp: ta_commit_def)
    from applyReadyEntries_frame [OF this] have "leader_frame sv2 sv'" "commitIdx (sv_state sv') \<le> lastApplied (sv_state sv')"
      by (auto simp: leader_frame_def)
    with fold_ta_count_frame [OF 3] loop show ?thesis by (blast intro: leader_frame_trans)
  qed (use 2 loop assms(2) in simp)
qed

section \<open>What a transformation does to the vote requests\<close>

definition left_candidate :: "Raft \<Rightarrow> CandidateImpl" where
  "left_candidate rf = (if rf_identity rf = Candidate then (rf_candidate rf)\<lparr>requests := []\<rparr> else rf_candidate rf)"

lemma leave_identity_candidate:
  "leave_identity (rf_identity rf) (rf\<lparr>rf_paused := p\<rparr>) = Some rf1 \<Longrightarrow> rf_candidate rf1 = left_candidate rf"
  by (cases "rf_identity rf") (auto simp: left_candidate_def candidate_leave_def leader_leave_def)

lemma transform_candidate:
  assumes "transform (\<lambda>from to. to) hbEnabled timeout target rf = Some rf'"
  shows "rf_candidate rf' = (if target = Candidate
    then (left_candidate rf)\<lparr>votesReceived := 1, requests := requests (left_candidate rf) @
      map (\<lambda>srv. \<lparr>rq_srv = srv, rq_msg = voteMessage (rf_server rf'), rq_done = False\<rparr>) (peers (rf_info rf'))\<rparr>
    else left_candidate rf)"
proof -
  obtain rf1 rf2 where 1: "leave_identity (rf_identity rf) (rf\<lparr>rf_paused := True\<rparr>) = Some rf1"
    "init_identity hbEnabled timeout target (rf1\<lparr>rf_identity := target\<rparr>) = Some rf2" "rf' = rf2\<lparr>rf_paused := False\<rparr>"
    using assms by (auto simp: transform_def Let_def Option.bind_eq_Some_conv)
  from leave_identity_candidate [OF 1(1)] 1(2,3) show ?thesis
    by (cases target)
      (auto simp: candidate_init_def requestVotes_def Let_def voteMessage_def Option.bind_eq_Some_conv
        split: if_splits prod.splits)
qed

section \<open>The cluster\<close>

record Cluster =
  cl_raft :: "ServerId \<Rightarrow> Raft"
  cl_sent :: "(ServerId \<times> RequestVoteMessage) set"
  cl_answers :: "(ServerId \<times> RequestVoteMessage \<times> Reply) set"
  cl_votes :: "(ServerId \<times> raft_term \<times> ServerId) set"
  cl_counted :: "ServerId \<Rightarrow> ServerId set"
  cl_elect :: "ServerId \<Rightarrow> raft_term"
  cl_won :: "(ServerId \<times> raft_term) set"

definition cl_init :: "ServerId list \<Rightarrow> nat \<Rightarrow> Cluster" where
  "cl_init servers et = \<lparr>
     cl_raft = (\<lambda>i. configure \<lparr>local = i, srvList = servers, electionTimeout = et\<rparr>),
     cl_sent = {}, cl_answers = {}, cl_votes = {}, cl_counted = (\<lambda>_. {}), cl_elect = (\<lambda>_. 0), cl_won = {}\<rparr>"

datatype cluster_label =
    StartServer ServerId
  | StopServer ServerId
  | TimerFires ServerId
  | RunTransform ServerId nat
  | DeliverVote ServerId RequestVoteMessage
  | VoteBack ServerId nat Reply
  | VoteFails ServerId nat
  | DeliverEntries ServerId AppendEntriesMessage
  | Replicate ServerId ServerId "RpcResult list"
  | LogRequest ServerId AddLogMessage

definition cl_put :: "ServerId \<Rightarrow> Raft \<Rightarrow> Cluster \<Rightarrow> Cluster" where
  "cl_put i rf s = s\<lparr>cl_raft := (cl_raft s)(i := rf)\<rparr>"

text \<open>A server has become a candidate: it votes for itself and its requests are sent.\<close>

definition cl_stand :: "ServerId \<Rightarrow> Raft \<Rightarrow> Cluster \<Rightarrow> Cluster" where
  "cl_stand i rf s = (let t = currentTerm (rf_state rf) in
     s\<lparr>cl_raft := (cl_raft s)(i := rf),
       cl_sent := cl_sent s \<union> set (map (\<lambda>q. (rq_srv q, rq_msg q)) (requests (rf_candidate rf))),
       cl_votes := cl_votes s \<union> {(i, t, i)}, cl_counted := (cl_counted s)(i := {i}), cl_elect := (cl_elect s)(i := t),
       cl_won := cl_won s \<union> (if wins 1 (rf_info rf) then {(i, t)} else {})\<rparr>)"

definition cl_open :: "ServerId \<Rightarrow> nat \<Rightarrow> Cluster \<Rightarrow> bool" where
  "cl_open i k s \<longleftrightarrow> (let rs = requests (rf_candidate (cl_raft s i)) in k < length rs \<and> \<not> rq_done (rs ! k))"

fun cl_do :: "bool \<Rightarrow> cluster_label \<Rightarrow> Cluster \<Rightarrow> Cluster option" where
  "cl_do ordered (StartServer i) s = Some (cl_put i (asyncRun (cl_raft s i)) s)"
| "cl_do ordered (StopServer i) s = Some (cl_put i (triggerTransformation Down (cl_raft s i)) s)"
| "cl_do ordered (TimerFires i) s = map_option (\<lambda>rf. cl_put i rf s) (raft_timeout (cl_raft s i))"
| "cl_do ordered (RunTransform i timeout) s = (let rf = cl_raft s i; et = electionTimeout (rf_info rf) in
     if timeout < et \<or> 2 * et < timeout then None
     else (case eq_events (sv_eventQueue (rf_server rf)) of [] \<Rightarrow> None
       | target # _ \<Rightarrow>
         if ordered \<and> target = Candidate \<and> currentTerm (rf_state rf) = - 1 then None
         else map_option (\<lambda>rf'. if target = Candidate then cl_stand i rf' s else cl_put i rf' s)
           (raft_event (\<lambda>from to. to) True timeout rf)))"
| "cl_do ordered (DeliverVote j m) s = (let rf = cl_raft s j in
     if (j, m) \<notin> cl_sent s \<or> ordered \<and> rv_term m < currentTerm (rf_state rf) then None
     else map_option (\<lambda>(r, rf'). (cl_put j rf' s)\<lparr>cl_answers := cl_answers s \<union> {(j, m, r)},
         cl_votes := cl_votes s \<union> (if snd r then {(j, rv_term m, rv_candidateId m)} else {})\<rparr>)
       (raft_requestVote m rf))"
| "cl_do ordered (VoteBack i k r) s = (let rf = cl_raft s i; q = requests (rf_candidate rf) ! k in
     if \<not> cl_open i k s \<or> (rq_srv q, rq_msg q, r) \<notin> cl_answers s then None
     else (case vote_thread (rq_msg q) (Replied r) (rf_server rf, rf_candidate rf) of (sv, c) \<Rightarrow>
       let counted = (fst r = rv_term (rq_msg q) \<and> snd r) in
       Some ((cl_put i (rf\<lparr>rf_server := sv, rf_candidate := finish_request k c\<rparr>) s)\<lparr>
         cl_counted := (if counted then (cl_counted s)(i := insert (rq_srv q) (cl_counted s i)) else cl_counted s),
         cl_won := cl_won s \<union> (if counted \<and> wins (votesReceived c) (rf_info rf) then {(i, rv_term (rq_msg q))} else {})\<rparr>)))"
| "cl_do ordered (VoteFails i k) s = (let rf = cl_raft s i; q = requests (rf_candidate rf) ! k in
     if \<not> cl_open i k s then None
     else (case vote_thread (rq_msg q) RpcError (rf_server rf, rf_candidate rf) of (sv, c) \<Rightarrow>
       Some (cl_put i (rf\<lparr>rf_server := sv, rf_candidate := finish_request k c\<rparr>) s)))"
| "cl_do ordered (DeliverEntries j m) s = (let rf = cl_raft s j in
     if ordered \<and> ae_term m < currentTerm (rf_state rf) then None
     else map_option (\<lambda>(_, rf'). cl_put j rf' s) (raft_appendEntries m rf))"
| "cl_do ordered (Replicate i target results) s = (let rf = cl_raft s i in
     if rf_identity rf \<noteq> Leader then None
     else map_option (\<lambda>(sv, ld). cl_put i (rf\<lparr>rf_server := sv, rf_leader := ld\<rparr>) s)
       (tryAppendEntries target results (rf_server rf, rf_leader rf)))"
| "cl_do ordered (LogRequest i m) s = map_option (\<lambda>(_, rf'). cl_put i rf' s) (raft_addLog m (cl_raft s i))"

fun label_server :: "cluster_label \<Rightarrow> ServerId" where
  "label_server (StartServer i) = i"
| "label_server (StopServer i) = i"
| "label_server (TimerFires i) = i"
| "label_server (RunTransform i t) = i"
| "label_server (DeliverVote i m) = i"
| "label_server (VoteBack i k r) = i"
| "label_server (VoteFails i k) = i"
| "label_server (DeliverEntries i m) = i"
| "label_server (Replicate i j rs) = i"
| "label_server (LogRequest i m) = i"

inductive cl_reach :: "bool \<Rightarrow> ServerId list \<Rightarrow> nat \<Rightarrow> Cluster \<Rightarrow> bool" for ordered servers et where
  cl_start: "cl_reach ordered servers et (cl_init servers et)"
| cl_step: "cl_reach ordered servers et s \<Longrightarrow> label_server l \<in> set servers \<Longrightarrow> cl_do ordered l s = Some s' \<Longrightarrow>
    cl_reach ordered servers et s'"

fun cl_replay :: "bool \<Rightarrow> cluster_label list \<Rightarrow> Cluster \<Rightarrow> Cluster option" where
  "cl_replay ordered [] s = Some s"
| "cl_replay ordered (l # ls) s = Option.bind (cl_do ordered l s) (cl_replay ordered ls)"

lemma cl_replay_reach:
  "cl_reach ordered servers et s \<Longrightarrow> list_all (\<lambda>l. label_server l \<in> set servers) ls \<Longrightarrow>
     cl_replay ordered ls s = Some s' \<Longrightarrow> cl_reach ordered servers et s'"
  by (induction ls arbitrary: s) (auto simp: Option.bind_eq_Some_conv intro: cl_step simp del: cl_do.simps)

section \<open>The invariant\<close>

definition node_ok :: "ServerId list \<Rightarrow> nat \<Rightarrow> ServerId \<Rightarrow> Raft \<Rightarrow> bool" where
  "node_ok servers et i rf \<longleftrightarrow> raft_ok rf \<and> rf_info rf = \<lparr>local = i, srvList = servers, electionTimeout = et\<rparr>"

text \<open>What candidate \<open>i\<close> has counted for the term \<open>t\<close> is backed by votes, and what is open is not counted.\<close>

definition tally_ok :: "ServerId list \<Rightarrow> (ServerId \<times> raft_term \<times> ServerId) set \<Rightarrow> ServerId \<Rightarrow> Raft
    \<Rightarrow> ServerId set \<Rightarrow> raft_term \<Rightarrow> bool" where
  "tally_ok servers votes i rf counted t \<longleftrightarrow> (let c = rf_candidate rf in
     counted \<subseteq> set servers \<and> votesReceived c = card counted \<and> (\<forall>v \<in> counted. (v, t, i) \<in> votes) \<and>
     distinct (map rq_srv (requests c)) \<and> (rf_identity rf \<noteq> Candidate \<longrightarrow> requests c = []) \<and>
     (\<forall>q \<in> set (requests c). rq_srv q \<in> set servers \<and> rv_term (rq_msg q) = t \<and> rv_candidateId (rq_msg q) = i \<and>
       (\<not> rq_done q \<longrightarrow> rq_srv q \<notin> counted)))"

definition backed :: "ServerId list \<Rightarrow> (ServerId \<times> raft_term \<times> ServerId) set \<Rightarrow> ServerId \<times> raft_term \<Rightarrow> bool" where
  "backed servers votes = (\<lambda>(i, t). \<exists>Q \<subseteq> set servers. length servers div 2 < card Q \<and> (\<forall>v \<in> Q. (v, t, i) \<in> votes))"

definition cl_inv :: "ServerId list \<Rightarrow> nat \<Rightarrow> Cluster \<Rightarrow> bool" where
  "cl_inv servers et s \<longleftrightarrow>
     (\<forall>i. node_ok servers et i (cl_raft s i)) \<and>
     (\<forall>i. tally_ok servers (cl_votes s) i (cl_raft s i) (cl_counted s i) (cl_elect s i)) \<and>
     one_vote (cl_votes s) \<and> (\<forall>i. book_agrees (cl_votes s) i (rf_state (cl_raft s i))) \<and>
     (\<forall>(j, m) \<in> cl_sent s. rv_candidateId m \<noteq> NullServerId) \<and>
     (\<forall>(j, m, r) \<in> cl_answers s. fst r = rv_term m \<and> snd r \<longrightarrow> (j, rv_term m, rv_candidateId m) \<in> cl_votes s) \<and>
     (\<forall>w \<in> cl_won s. backed servers (cl_votes s) w)"

lemma tally_ok_mono:
  "tally_ok servers votes i rf counted t \<Longrightarrow> votes \<subseteq> votes' \<Longrightarrow> tally_ok servers votes' i rf counted t"
  by (auto simp: tally_ok_def Let_def)

lemma backed_mono: "backed servers votes w \<Longrightarrow> votes \<subseteq> votes' \<Longrightarrow> backed servers votes' w"
  by (cases w) (auto simp: backed_def)

text \<open>
  Every step changes one server, adds votes of that server to the book, and may add answers,
  messages and won elections that the book backs.
\<close>

lemma cl_inv_step:
  assumes "cl_inv servers et s" "rf = cl_raft s i"
    and "cl_raft s' = (cl_raft s)(i := rf')" "cl_votes s' = cl_votes s \<union> Pair i ` G"
    and "\<And>j. j \<noteq> i \<Longrightarrow> cl_counted s' j = cl_counted s j \<and> cl_elect s' j = cl_elect s j"
    and "raft_ok rf'" "rf_info rf' = rf_info rf" "vote_change (rf_state rf) G (rf_state rf')"
    and "tally_ok servers (cl_votes s') i rf' (cl_counted s' i) (cl_elect s' i)"
    and "\<And>j m. (j, m) \<in> cl_sent s' \<Longrightarrow> (j, m) \<in> cl_sent s \<or> rv_candidateId m \<noteq> NullServerId"
    and "\<And>j m r. (j, m, r) \<in> cl_answers s' \<Longrightarrow> (j, m, r) \<in> cl_answers s \<or>
      (snd r \<and> fst r = rv_term m \<longrightarrow> (j, rv_term m, rv_candidateId m) \<in> cl_votes s')"
    and "\<And>w. w \<in> cl_won s' \<Longrightarrow> w \<in> cl_won s \<or> backed servers (cl_votes s') w"
  shows "cl_inv servers et s'"
proof -
  from assms(1) have old: "\<And>i. node_ok servers et i (cl_raft s i)"
    "\<And>i. tally_ok servers (cl_votes s) i (cl_raft s i) (cl_counted s i) (cl_elect s i)" "one_vote (cl_votes s)"
    "\<And>i. book_agrees (cl_votes s) i (rf_state (cl_raft s i))"
    "\<And>j m. (j, m) \<in> cl_sent s \<Longrightarrow> rv_candidateId m \<noteq> NullServerId"
    "\<And>j m r. (j, m, r) \<in> cl_answers s \<Longrightarrow> fst r = rv_term m \<Longrightarrow> snd r \<Longrightarrow> (j, rv_term m, rv_candidateId m) \<in> cl_votes s"
    "\<And>w. w \<in> cl_won s \<Longrightarrow> backed servers (cl_votes s) w"
    by (auto simp: cl_inv_def)
  have mono: "cl_votes s \<subseteq> cl_votes s'" using assms(4) by blast
  have "node_ok servers et j (cl_raft s' j)" for j
    using old(1) [of j] old(1) [of i] assms(2,3,6,7) by (simp add: node_ok_def)
  moreover have "tally_ok servers (cl_votes s') j (cl_raft s' j) (cl_counted s' j) (cl_elect s' j)" for j
    using old(2) [of j] assms(3,5,9) mono by (cases "j = i") (auto intro: tally_ok_mono)
  moreover have "one_vote (cl_votes s')"
    using one_vote_step [OF old(3) old(4) [of i]] assms(2,4,8) by simp
  moreover have "book_agrees (cl_votes s') j (rf_state (cl_raft s' j))" for j
    using book_agrees_step [OF old(4) [of i]] book_agrees_other [OF old(4) [of j], of i] assms(2-4,8)
    by (cases "j = i") auto
  moreover have "rv_candidateId m \<noteq> NullServerId" if "(j, m) \<in> cl_sent s'" for j m
    using assms(10) [OF that] old(5) by blast
  moreover have "(j, rv_term m, rv_candidateId m) \<in> cl_votes s'"
    if "(j, m, r) \<in> cl_answers s'" "fst r = rv_term m" "snd r" for j m r
    using assms(11) [OF that(1)] old(6) [of j m r] that mono by blast
  moreover have "backed servers (cl_votes s') w" if "w \<in> cl_won s'" for w
    using assms(12) [OF that] old(7) backed_mono mono by blast
  ultimately show ?thesis by (auto simp: cl_inv_def)
qed

text \<open>A step of one server that leaves the election alone.\<close>

lemma cl_inv_put:
  assumes "cl_inv servers et s" "rf = cl_raft s i"
    and "raft_ok rf'" "rf_info rf' = rf_info rf" "vote_change (rf_state rf) {} (rf_state rf')"
    and "rf_candidate rf' = rf_candidate rf" "rf_identity rf' = rf_identity rf"
  shows "cl_inv servers et (cl_put i rf' s)"
proof (rule cl_inv_step [OF assms(1,2), where G = "{}"])
  have "tally_ok servers (cl_votes s) i rf (cl_counted s i) (cl_elect s i)"
    using assms(1,2) by (simp add: cl_inv_def)
  then show "tally_ok servers (cl_votes (cl_put i rf' s)) i rf' (cl_counted (cl_put i rf' s) i) (cl_elect (cl_put i rf' s) i)"
    using assms(6,7) by (simp add: tally_ok_def cl_put_def)
qed (use assms in \<open>simp_all add: cl_put_def\<close>)

lemma cl_inv_node:
  assumes "cl_inv servers et s" "rf = cl_raft s i"
  shows "raft_ok rf" "rf_info rf = \<lparr>local = i, srvList = servers, electionTimeout = et\<rparr>"
    "tally_ok servers (cl_votes s) i rf (cl_counted s i) (cl_elect s i)"
  using assms by (simp_all add: cl_inv_def node_ok_def)

lemma cl_inv_trigger:
  assumes "cl_inv servers et s"
  shows "cl_inv servers et (cl_put i (triggerTransformation target (cl_raft s i)) s)"
proof (rule cl_inv_put [OF assms refl])
  show "raft_ok (triggerTransformation target (cl_raft s i))"
    using cl_inv_node(1) [OF assms refl] by (rule raft_ok_trigger)
qed (simp_all add: triggerTransformation_def)

lemma cl_inv_timer:
  assumes "cl_inv servers et s" "raft_timeout (cl_raft s i) = Some rf'"
  shows "cl_inv servers et (cl_put i rf' s)"
  by (rule cl_inv_put [OF assms(1) refl])
    (use cl_inv_node(1) [OF assms(1) refl, of i] assms(2) in
      \<open>auto simp: raft_timeout_def follower_timeout_def candidate_timeout_def raft_ok_notify
        split: option.splits HeartBeatFunc.splits\<close>)

lemma cl_inv_entries:
  assumes "cl_inv servers et s" "raft_appendEntries m (cl_raft s j) = Some (r, rf')"
    and "currentTerm (rf_state (cl_raft s j)) \<le> ae_term m"
  shows "cl_inv servers et (cl_put j rf' s)"
  by (rule cl_inv_put [OF assms(1) refl])
    (use raft_appendEntries_step [OF cl_inv_node(1) [OF assms(1) refl] assms(2,3)] in simp_all)

lemma cl_inv_log:
  assumes "cl_inv servers et s" "raft_addLog m (cl_raft s i) = Some (r, rf')"
  shows "cl_inv servers et (cl_put i rf' s)"
  by (rule cl_inv_put [OF assms(1) refl])
    (use raft_addLog_step [OF cl_inv_node(1) [OF assms(1) refl] assms(2)] in simp_all)

lemma cl_inv_replicate:
  assumes "cl_inv servers et s" "rf = cl_raft s i" "rf_identity rf = Leader"
    and "tryAppendEntries target results (rf_server rf, rf_leader rf) = Some (sv, ld)"
  shows "cl_inv servers et (cl_put i (rf\<lparr>rf_server := sv, rf_leader := ld\<rparr>) s)"
proof (rule cl_inv_put [OF assms(1,2)])
  note ok = cl_inv_node(1) [OF assms(1,2)]
  then have "commitIdx (rf_state rf) \<le> lastApplied (rf_state rf)" by (simp add: raft_ok_def raft_base_def)
  note frame = tryAppendEntries_frame [OF assms(4) this]
  then show "raft_ok (rf\<lparr>rf_server := sv, rf_leader := ld\<rparr>)"
    using ok assms(3) by (simp add: raft_ok_def raft_base_def leader_frame_def)
  show "vote_change (rf_state rf) {} (rf_state (rf\<lparr>rf_server := sv, rf_leader := ld\<rparr>))"
    using frame by (simp add: vote_change_def leader_frame_def)
  show "rf_info (rf\<lparr>rf_server := sv, rf_leader := ld\<rparr>) = rf_info rf"
    using frame by (simp add: leader_frame_def)
qed simp_all

text \<open>The transformations: leaving a candidate drops its requests, entering one starts a count.\<close>

lemma raft_event_candidate:
  assumes "raft_event (\<lambda>from to. to) hbEnabled timeout rf = Some rf'"
    and "eq_events (sv_eventQueue (rf_server rf)) = target # rest" "raft_ok rf"
  shows "rf_candidate rf' = (if target = Candidate
    then (left_candidate rf)\<lparr>votesReceived := 1, requests := requests (left_candidate rf) @
      map (\<lambda>srv. \<lparr>rq_srv = srv, rq_msg = voteMessage (rf_server rf'), rq_done = False\<rparr>) (peers (rf_info rf'))\<rparr>
    else left_candidate rf)"
proof -
  have "eq_idle (sv_eventQueue (rf_server rf))" using assms(3) by (simp add: raft_ok_def raft_base_def)
  then obtain q where "eq_exec1 (sv_eventQueue (rf_server rf)) = Some (target, q)"
    using assms(2) by (rule eq_exec1_events)
  with assms(1) have "transform (\<lambda>from to. to) hbEnabled timeout target
      (rf\<lparr>rf_server := (rf_server rf)\<lparr>sv_eventQueue := q\<rparr>\<rparr>) = Some rf'" by (simp add: raft_event_def)
  from transform_candidate [OF this] show ?thesis by (simp add: left_candidate_def)
qed

lemma raft_event_Error:
  assumes "eq_events (sv_eventQueue (rf_server rf)) = Error # rest" "raft_ok rf"
  shows "raft_event (\<lambda>from to. to) hbEnabled timeout rf = None"
proof -
  have "eq_idle (sv_eventQueue (rf_server rf))" using assms(2) by (simp add: raft_ok_def raft_base_def)
  then obtain q where "eq_exec1 (sv_eventQueue (rf_server rf)) = Some (Error, q)"
    using assms(1) by (rule eq_exec1_events)
  then show ?thesis by (simp add: raft_event_def transform_def Let_def)
qed

lemma tally_left:
  assumes "tally_ok servers votes i rf counted t"
  shows "requests (left_candidate rf) = []" "votesReceived (left_candidate rf) = votesReceived (rf_candidate rf)"
  using assms by (auto simp: tally_ok_def left_candidate_def Let_def)

lemma tally_stand:
  assumes "rf_candidate rf' = c\<lparr>votesReceived := 1, requests :=
      map (\<lambda>srv. \<lparr>rq_srv = srv, rq_msg = voteMessage (rf_server rf'), rq_done = False\<rparr>) (peers (rf_info rf'))\<rparr>"
    and "rf_info rf' = \<lparr>local = i, srvList = servers, electionTimeout = et\<rparr>" "rf_identity rf' = Candidate"
    and "distinct servers" "i \<in> set servers" "(i, currentTerm (rf_state rf'), i) \<in> votes"
  shows "tally_ok servers votes i rf' {i} (currentTerm (rf_state rf'))"
  using assms by (simp add: tally_ok_def Let_def o_def peers_def voteMessage_def)

lemma cl_inv_transform:
  assumes inv: "cl_inv servers et s" and et: "2 \<le> et" and d: "distinct servers" "NullServerId \<notin> set servers"
    and i: "i \<in> set servers" and run: "cl_do True (RunTransform i timeout) s = Some s'"
  shows "cl_inv servers et s'"
proof -
  define rf where "rf = cl_raft s i"
  note node = cl_inv_node [OF inv rf_def]
  obtain target rest rf' where time: "et \<le> timeout"
    and q: "eq_events (sv_eventQueue (rf_server rf)) = target # rest"
    and max: "\<not> (target = Candidate \<and> currentTerm (rf_state rf) = - 1)"
    and ev: "raft_event (\<lambda>from to. to) True timeout rf = Some rf'"
    and s': "s' = (if target = Candidate then cl_stand i rf' s else cl_put i rf' s)"
    using run node(2) by (auto simp: rf_def [symmetric] Let_def split: if_splits list.splits)
  have "target \<noteq> Error" using raft_event_Error q node(1) ev by fastforce
  then obtain rf'' where "raft_event (\<lambda>from to. to) True timeout rf = Some rf''" and
    rf'': "raft_ok rf''" "rf_identity rf'' = target" "rf_info rf'' = rf_info rf"
      "rf_state rf'' = entered target (rf_info rf) (rf_state rf)"
    using raft_event_result [OF node(1) q, of "\<lambda>from to. to" timeout True] et time node(2) by auto
  with ev have rf': "raft_ok rf'" "rf_identity rf' = target" "rf_info rf' = rf_info rf"
      "rf_state rf' = entered target (rf_info rf) (rf_state rf)" by simp_all
  note cand = raft_event_candidate [OF ev q node(1)]
  note left = tally_left [OF node(3)]
  show ?thesis
  proof (cases "target = Candidate")
    case False
    show ?thesis unfolding s' if_not_P [OF False]
    proof (rule cl_inv_step [OF inv rf_def, where G = "{}"])
      show "tally_ok servers (cl_votes (cl_put i rf' s)) i rf' (cl_counted (cl_put i rf' s) i) (cl_elect (cl_put i rf' s) i)"
        using node(3) left False cand rf'(2) by (simp add: tally_ok_def cl_put_def Let_def)
    qed (use rf' False in \<open>simp_all add: cl_put_def entered_def\<close>)
  next
    case True
    have iN: "i \<noteq> NullServerId" using d(2) i by blast
    have up: "currentTerm (rf_state rf) < currentTerm (rf_state rf) + 1" using max True by (simp add: word_less_succ)
    show ?thesis unfolding s' if_P [OF True]
    proof (rule cl_inv_step [OF inv rf_def, where G = "{(currentTerm (rf_state rf'), i)}"])
      show "vote_change (rf_state rf) {(currentTerm (rf_state rf'), i)} (rf_state rf')"
        using up iN True rf'(4) node(2) by (simp add: vote_change_def entered_def)
      have c: "rf_candidate rf' = (left_candidate rf)\<lparr>votesReceived := 1, requests :=
          map (\<lambda>srv. \<lparr>rq_srv = srv, rq_msg = voteMessage (rf_server rf'), rq_done = False\<rparr>) (peers (rf_info rf'))\<rparr>"
        using cand True left(1) by simp
      show "tally_ok servers (cl_votes (cl_stand i rf' s)) i rf' (cl_counted (cl_stand i rf' s) i) (cl_elect (cl_stand i rf' s) i)"
        using tally_stand [OF c, of i servers et "cl_votes (cl_stand i rf' s)"] rf'(2,3) node(2) True d(1) i
        by (simp add: cl_stand_def Let_def)
      show "(j, m) \<in> cl_sent s \<or> rv_candidateId m \<noteq> NullServerId" if "(j, m) \<in> cl_sent (cl_stand i rf' s)" for j m
        using that c rf'(3) node(2) iN by (auto simp: cl_stand_def Let_def voteMessage_def)
      show "w \<in> cl_won s \<or> backed servers (cl_votes (cl_stand i rf' s)) w" if "w \<in> cl_won (cl_stand i rf' s)" for w
        using that rf'(3) node(2) i
        by (auto simp: cl_stand_def Let_def wins_def backed_def intro!: exI [of _ "{i}"] split: if_splits)
    qed (use rf' in \<open>simp_all add: cl_stand_def Let_def\<close>)
  qed
qed

text \<open>A vote request is answered by its receiver.\<close>

lemma cl_inv_vote:
  assumes inv: "cl_inv servers et s" and run: "cl_do True (DeliverVote j m) s = Some s'"
  shows "cl_inv servers et s'"
proof -
  define rf where "rf = cl_raft s j"
  note node = cl_inv_node [OF inv rf_def]
  obtain r rf' where sent: "(j, m) \<in> cl_sent s" and le: "currentTerm (rf_state rf) \<le> rv_term m"
    and call: "raft_requestVote m rf = Some (r, rf')"
    and s': "s' = (cl_put j rf' s)\<lparr>cl_answers := cl_answers s \<union> {(j, m, r)},
      cl_votes := cl_votes s \<union> (if snd r then {(j, rv_term m, rv_candidateId m)} else {})\<rparr>"
    using run by (auto simp: rf_def [symmetric] Let_def not_less simp del: raft_requestVote.simps split: if_splits)
  have null: "rv_candidateId m \<noteq> NullServerId" using inv sent by (auto simp: cl_inv_def)
  let ?G = "if snd r then {(rv_term m, rv_candidateId m)} else {}"
  have step: "raft_ok rf' \<and> rf_identity rf' = rf_identity rf \<and> rf_info rf' = rf_info rf \<and>
      rf_candidate rf' = rf_candidate rf \<and> vote_change (rf_state rf) ?G (rf_state rf')"
    using node(1) call
  proof (rule raft_requestVote_step, goal_cases)
    case 2
    with votedState_change [OF le null] show ?case by simp
  qed simp
  show ?thesis
  proof (rule cl_inv_step [OF inv rf_def, where G = ?G])
    have "cl_votes s \<subseteq> cl_votes s'" by (simp add: s')
    with node(3) have "tally_ok servers (cl_votes s') j rf (cl_counted s j) (cl_elect s j)" by (rule tally_ok_mono)
    then show "tally_ok servers (cl_votes s') j rf' (cl_counted s' j) (cl_elect s' j)"
      using step by (simp add: tally_ok_def s' cl_put_def)
  qed (use step in \<open>auto simp: s' cl_put_def\<close>)
qed

text \<open>A reply comes back to the candidate: it is counted once, or not at all.\<close>

lemma tally_request:
  assumes "tally_ok servers votes i rf counted t" "k < length (requests (rf_candidate rf))"
    and "q = requests (rf_candidate rf) ! k"
  shows "rq_srv q \<in> set servers" "rv_term (rq_msg q) = t" "rv_candidateId (rq_msg q) = i"
    "\<not> rq_done q \<Longrightarrow> rq_srv q \<notin> counted"
proof -
  have "q \<in> set (requests (rf_candidate rf))" using assms(2,3) by simp
  with assms(1) show "rq_srv q \<in> set servers" "rv_term (rq_msg q) = t" "rv_candidateId (rq_msg q) = i"
    "\<not> rq_done q \<Longrightarrow> rq_srv q \<notin> counted"
    by (auto simp: tally_ok_def Let_def)
qed

lemma tally_finish:
  assumes "tally_ok servers votes i rf counted t" "k < length (requests (rf_candidate rf))"
    and "q = requests (rf_candidate rf) ! k" "\<not> rq_done q" "x \<longrightarrow> (rq_srv q, t, i) \<in> votes"
    and "rf_identity rf' = rf_identity rf" "requests (rf_candidate rf') = requests (finish_request k (rf_candidate rf))"
    and "votesReceived (rf_candidate rf') = votesReceived (rf_candidate rf) + (if x then 1 else 0)"
  shows "tally_ok servers votes i rf' (if x then insert (rq_srv q) counted else counted) t"
proof -
  let ?rs = "requests (rf_candidate rf)" and ?counted = "if x then insert (rq_srv q) counted else counted"
  note req = tally_request [OF assms(1-3)]
  from assms(1) have old: "counted \<subseteq> set servers" "votesReceived (rf_candidate rf) = card counted"
    "\<forall>v \<in> counted. (v, t, i) \<in> votes" "distinct (map rq_srv ?rs)" "rf_identity rf \<noteq> Candidate \<longrightarrow> ?rs = []"
    and all: "\<And>p. p \<in> set ?rs \<Longrightarrow> rq_srv p \<in> set servers \<and> rv_term (rq_msg p) = t \<and>
      rv_candidateId (rq_msg p) = i \<and> (\<not> rq_done p \<longrightarrow> rq_srv p \<notin> counted)"
    by (simp_all add: tally_ok_def Let_def)
  have "finite counted" using old(1) by (rule finite_subset) simp
  have new: "requests (rf_candidate rf') = ?rs[k := q\<lparr>rq_done := True\<rparr>]"
    using assms(3,7) by (simp add: finish_request_def)
  have srvs: "map rq_srv (requests (rf_candidate rf')) = map rq_srv ?rs"
    using assms(2,3) by (simp add: new map_update list_update_same_conv)
  have "rq_srv p \<in> set servers \<and> rv_term (rq_msg p) = t \<and> rv_candidateId (rq_msg p) = i \<and>
      (\<not> rq_done p \<longrightarrow> rq_srv p \<notin> ?counted)" if "p \<in> set (requests (rf_candidate rf'))" for p
  proof -
    from that obtain n where n: "n < length ?rs" "p = ?rs[k := q\<lparr>rq_done := True\<rparr>] ! n"
      by (auto simp: new in_set_conv_nth)
    show ?thesis
    proof (cases "n = k")
      case False
      then have p: "p = ?rs ! n" using n by simp
      have "map rq_srv ?rs ! n \<noteq> map rq_srv ?rs ! k"
        using old(4) n(1) assms(2) False by (simp add: distinct_conv_nth)
      then have "rq_srv p \<noteq> rq_srv q" using n(1) assms(2,3) p by simp
      with all [of p] n(1) p show ?thesis by simp
    qed (use n assms(2) req(1-3) in simp)
  qed
  with old \<open>finite counted\<close> srvs req(1,4) assms(4-6,8) new show ?thesis
    by (auto simp: tally_ok_def Let_def)
qed

lemma cl_inv_back:
  assumes inv: "cl_inv servers et s" and run: "cl_do True (VoteBack i k r) s = Some s'"
  shows "cl_inv servers et s'"
proof -
  define rf q where defs: "rf = cl_raft s i" "q = requests (rf_candidate rf) ! k"
  note node = cl_inv_node [OF inv defs(1)]
  obtain sv c where vt: "vote_thread (rq_msg q) (Replied r) (rf_server rf, rf_candidate rf) = (sv, c)" by fastforce
  define counted where "counted \<longleftrightarrow> fst r = rv_term (rq_msg q) \<and> snd r"
  let ?rf = "rf\<lparr>rf_server := sv, rf_candidate := finish_request k c\<rparr>"
  let ?counted = "if counted then insert (rq_srv q) (cl_counted s i) else cl_counted s i"
  from run have k: "k < length (requests (rf_candidate rf))" "\<not> rq_done q" "(rq_srv q, rq_msg q, r) \<in> cl_answers s"
    and s': "s' = (cl_put i ?rf s)\<lparr>
      cl_counted := (if counted then (cl_counted s)(i := insert (rq_srv q) (cl_counted s i)) else cl_counted s),
      cl_won := cl_won s \<union> (if counted \<and> wins (votesReceived c) (rf_info rf) then {(i, rv_term (rq_msg q))} else {})\<rparr>"
    using vt unfolding defs counted_def by (auto simp: Let_def cl_open_def split: if_splits)
  note eff = vote_thread_effect [OF vt, unfolded] and ok = raft_ok_vote_thread [OF node(1) vt]
  note req = tally_request [OF node(3) k(1) defs(2)]
  have vote: "counted \<longrightarrow> (rq_srv q, cl_elect s i, i) \<in> cl_votes s"
    using inv k(3) req(2,3) by (force simp: cl_inv_def counted_def)
  have tally: "tally_ok servers (cl_votes s) i ?rf ?counted (cl_elect s i)"
    by (rule tally_finish [OF node(3) k(1) defs(2) k(2) vote])
      (use eff in \<open>simp_all add: finish_request_def counted_def\<close>)
  show ?thesis
  proof (rule cl_inv_step [OF inv defs(1), where G = "{}"])
    show "tally_ok servers (cl_votes s') i ?rf (cl_counted s' i) (cl_elect s' i)"
      using tally by (simp add: s' cl_put_def split: if_splits)
    show "w \<in> cl_won s \<or> backed servers (cl_votes s') w" if "w \<in> cl_won s'" for w
    proof (cases "w \<in> cl_won s")
      case False
      with that have w: "counted" "length servers div 2 < votesReceived c" "w = (i, cl_elect s i)"
        using node(2) req(2) by (auto simp: s' cl_put_def wins_def split: if_splits)
      with tally have "?counted \<subseteq> set servers \<and> length servers div 2 < card ?counted \<and>
          (\<forall>v \<in> ?counted. (v, cl_elect s i, i) \<in> cl_votes s)"
        by (simp add: tally_ok_def Let_def finish_request_def)
      with w(3) show ?thesis by (auto simp: backed_def s' cl_put_def)
    qed simp
  qed (use ok in \<open>simp_all add: s' cl_put_def\<close>)
qed

lemma cl_inv_fails:
  assumes inv: "cl_inv servers et s" and run: "cl_do True (VoteFails i k) s = Some s'"
  shows "cl_inv servers et s'"
proof -
  define rf q where defs: "rf = cl_raft s i" "q = requests (rf_candidate rf) ! k"
  note node = cl_inv_node [OF inv defs(1)]
  from run have k: "k < length (requests (rf_candidate rf))" "\<not> rq_done q"
    and s': "s' = cl_put i (rf\<lparr>rf_candidate := finish_request k (rf_candidate rf)\<rparr>) s"
    unfolding defs by (auto simp: Let_def cl_open_def vote_thread_def split: if_splits)
  have tally: "tally_ok servers (cl_votes s) i (rf\<lparr>rf_candidate := finish_request k (rf_candidate rf)\<rparr>)
      (cl_counted s i) (cl_elect s i)"
    using tally_finish [OF node(3) k(1) defs(2) k(2), of False] by (simp add: finish_request_def)
  show ?thesis
  proof (rule cl_inv_step [OF inv defs(1), where G = "{}"])
    show "raft_ok (rf\<lparr>rf_candidate := finish_request k (rf_candidate rf)\<rparr>)"
      using node(1) by (cases "rf_identity rf") (simp_all add: raft_ok_def)
  qed (use tally in \<open>simp_all add: s' cl_put_def\<close>)
qed

section \<open>Every reachable state\<close>

lemma cl_inv_init:
  assumes "NullServerId \<notin> set servers"
  shows "cl_inv servers et (cl_init servers et)"
  by (simp add: cl_inv_def cl_init_def node_ok_def raft_ok_configure tally_ok_def one_vote_def book_agrees_def
      CandidateImpl0_def) (simp add: configure_def CandidateImpl0_def)

lemma cl_inv_do:
  assumes "cl_inv servers et s" "2 \<le> et" "distinct servers" "NullServerId \<notin> set servers"
    and "label_server l \<in> set servers" "cl_do True l s = Some s'"
  shows "cl_inv servers et s'"
proof (cases l)
  case (RunTransform i timeout)
  with assms show ?thesis using cl_inv_transform [of servers et s i timeout s'] by simp
next
  case (DeliverVote j m)
  with assms show ?thesis using cl_inv_vote [of servers et s j m s'] by simp
next
  case (VoteBack i k r)
  with assms show ?thesis using cl_inv_back [of servers et s i k r s'] by simp
next
  case (VoteFails i k)
  with assms show ?thesis using cl_inv_fails [of servers et s i k s'] by simp
qed (use assms(1,6) cl_inv_trigger cl_inv_timer cl_inv_entries cl_inv_log cl_inv_replicate in
    \<open>auto simp: asyncRun_def Let_def not_less simp del: raft_appendEntries.simps raft_addLog.simps split: if_splits\<close>)

lemma cl_reach_inv:
  assumes "cl_reach True servers et s" "2 \<le> et" "distinct servers" "NullServerId \<notin> set servers"
  shows "cl_inv servers et s"
  using assms(1) by induction (use assms(2-4) cl_inv_init cl_inv_do in blast)+

section \<open>Election safety\<close>

lemma won_once:
  assumes "cl_reach True servers et s" "2 \<le> et" "distinct servers" "NullServerId \<notin> set servers"
    and "(i, t) \<in> cl_won s" "(j, t) \<in> cl_won s"
  shows "i = j"
proof -
  have inv: "cl_inv servers et s" using assms(1-4) by (rule cl_reach_inv)
  with assms(5,6) have "backed servers (cl_votes s) (i, t)" "backed servers (cl_votes s) (j, t)"
    by (auto simp: cl_inv_def)
  then obtain Q R where q: "Q \<subseteq> set servers" "length servers div 2 < card Q" "\<forall>v \<in> Q. (v, t, i) \<in> cl_votes s"
    and r: "R \<subseteq> set servers" "length servers div 2 < card R" "\<forall>v \<in> R. (v, t, j) \<in> cl_votes s"
    by (auto simp: backed_def)
  obtain v where "v \<in> Q" "v \<in> R"
    using majorities_meet [of "set servers" Q R] q(1,2) r(1,2) assms(3) by (auto simp: distinct_card)
  with q(3) r(3) inv show ?thesis by (auto simp: cl_inv_def one_vote_def)
qed

text \<open>
  C1. No two servers win the election of one term, when no message of an older term than the
  receiver's is delivered: in every reachable state of a cluster, whatever else is lost,
  repeated or reordered, whatever AppendEntries messages arrive, and however servers are
  started, stopped and timed out.
\<close>

theorem election_safety:
  assumes "cl_reach True servers et s" "2 \<le> et" "distinct servers" "NullServerId \<notin> set servers"
    and "(i, t) \<in> cl_won s" "(j, t) \<in> cl_won s"
  shows "i = j"
  using assms by (rule won_once)

text \<open>
  Servers stay in order whatever messages they get, also of older terms.
\<close>

lemma raft_appendEntries_info:
  assumes "raft_ok rf" "raft_appendEntries msg rf = Some (r, rf')"
  shows "raft_ok rf' \<and> rf_info rf' = rf_info rf"
proof -
  have "raft_ok rf'" using raft_rpc_total_ok [OF assms(1), of "CallAppendEntries msg"] assms(2) by auto
  moreover have "rf_info rf' = rf_info rf"
  proof (cases "active rf")
    case True
    with assms(1) have ok: "sv_ok (rf_server rf)" by (simp add: raft_ok_active)
    let ?sv = "if ae_term msg = currentTerm (rf_state rf) then sv_notify Follower (currentTerm (rf_state rf)) (rf_server rf)
      else rf_server rf"
    have sv: "sv_ok ?sv" using ok by (simp add: keeps_intros)
    have "follower_appendEntries msg (rf_server rf) = Some (r, rf_server rf') \<or>
        defaultRPCAppendEntries msg Candidate ?sv = Some (r, rf_server rf') \<or>
        defaultRPCAppendEntries msg Leader (rf_server rf) = Some (r, rf_server rf')"
      using True assms(2)
      by (auto simp: active_def set_server_def set_leader_def candidate_appendEntries_def Let_def
          leader_appendEntries_def Option.bind_eq_Some_conv split: if_splits)
    then show ?thesis
      using follower_appendEntries_SomeD [OF ok, of msg r "rf_server rf'"]
        appendEntries_returns [OF sv, of msg Candidate] appendEntries_returns [OF ok, of msg Leader]
      by (auto split: if_splits)
  next
    case False
    then have "rf' = rf" using assms(2) raft_ok_inactive [OF assms(1)]
      by (auto simp: set_server_def bogus_appendEntries_def)
    then show ?thesis by simp
  qed
  ultimately show ?thesis by simp
qed

lemma node_ok_do:
  assumes node: "\<And>i. node_ok servers et i (cl_raft s i)" and et: "2 \<le> et" and run: "cl_do ordered l s = Some s'"
  shows "node_ok servers et j (cl_raft s' j)"
proof (cases "j = label_server l")
  case False
  then show ?thesis using node run
    by (cases l) (auto simp: Let_def cl_put_def cl_stand_def cl_open_def simp del: raft_appendEntries.simps raft_requestVote.simps
      raft_addLog.simps split: if_splits list.splits prod.splits)
next
  case True
  define rf where "rf = cl_raft s j"
  have ok: "raft_ok rf" and info: "rf_info rf = \<lparr>local = j, srvList = servers, electionTimeout = et\<rparr>"
    using node [of j] by (simp_all add: node_ok_def rf_def)
  have "raft_ok (cl_raft s' j) \<and> rf_info (cl_raft s' j) = rf_info rf"
  proof (cases l)
    case (StartServer i)
    with True run ok raft_ok_trigger [OF ok] show ?thesis
      by (auto simp: rf_def cl_put_def asyncRun_def triggerTransformation_def)
  next
    case (StopServer i)
    with True run ok raft_ok_trigger [OF ok] show ?thesis
      by (auto simp: rf_def cl_put_def triggerTransformation_def)
  next
    case (TimerFires i)
    with True run ok show ?thesis
      by (auto simp: rf_def cl_put_def raft_timeout_def follower_timeout_def candidate_timeout_def raft_ok_notify
        split: option.splits HeartBeatFunc.splits)
  next
    case (RunTransform i timeout)
    with True run info obtain target rest rf' where q: "eq_events (sv_eventQueue (rf_server rf)) = target # rest"
      and ev: "raft_event (\<lambda>from to. to) True timeout rf = Some rf'" and s': "cl_raft s' j = rf'" and t: "et \<le> timeout"
      by (auto simp: rf_def Let_def cl_put_def cl_stand_def split: if_splits list.splits)
    have "target \<noteq> Error" using raft_event_Error q ok ev by fastforce
    with raft_event_result [OF ok q, of "\<lambda>from to. to" timeout True] ev et t info s' show ?thesis by auto
  next
    case (DeliverVote i m)
    with True run obtain r rf' where "raft_requestVote m rf = Some (r, rf')" "cl_raft s' j = rf'"
      by (auto simp: rf_def Let_def cl_put_def simp del: raft_requestVote.simps split: if_splits)
    with raft_requestVote_step [OF ok] show ?thesis by metis
  next
    case (VoteBack i k r)
    with True run raft_ok_vote_thread [OF ok] show ?thesis
      by (auto simp: rf_def Let_def cl_put_def cl_open_def split: if_splits prod.splits)
  next
    case (VoteFails i k)
    with True run raft_ok_vote_thread [OF ok] show ?thesis
      by (auto simp: rf_def Let_def cl_put_def cl_open_def split: if_splits prod.splits)
  next
    case (DeliverEntries i m)
    with True run obtain r rf' where "raft_appendEntries m rf = Some (r, rf')" "cl_raft s' j = rf'"
      by (auto simp: rf_def Let_def cl_put_def simp del: raft_appendEntries.simps split: if_splits)
    with raft_appendEntries_info [OF ok] show ?thesis by simp
  next
    case (Replicate i target rs)
    with True run obtain sv ld where "rf_identity rf = Leader"
      "tryAppendEntries target rs (rf_server rf, rf_leader rf) = Some (sv, ld)"
      "cl_raft s' j = rf\<lparr>rf_server := sv, rf_leader := ld\<rparr>"
      by (auto simp: rf_def Let_def cl_put_def split: if_splits)
    with tryAppendEntries_frame [OF this(2)] ok show ?thesis by (simp add: raft_ok_def raft_base_def leader_frame_def)
  next
    case (LogRequest i m)
    with True run obtain r rf' where "raft_addLog m rf = Some (r, rf')" "cl_raft s' j = rf'"
      by (auto simp: rf_def cl_put_def simp del: raft_addLog.simps)
    with raft_addLog_step [OF ok] show ?thesis by simp
  qed
  with info show ?thesis by (simp add: node_ok_def)
qed

lemma cl_reach_nodes:
  assumes "cl_reach ordered servers et s" "2 \<le> et"
  shows "node_ok servers et i (cl_raft s i)"
  using assms(1)
proof (induction arbitrary: i)
  case cl_start
  show ?case by (simp add: cl_init_def node_ok_def raft_ok_configure) (simp add: configure_def)
next
  case (cl_step s l s')
  from node_ok_do [OF cl_step.IH assms(2) cl_step.hyps(3)] show ?case .
qed

text \<open>
  C17. Every server of a cluster stays in order, in whatever order messages arrive, with handlers as
  single steps and an election timeout of at least 2: in each reachable state its invariant holds, its
  identity is never the error value, its configuration is the one it was started with, and every RPC
  returns.
\<close>

theorem cluster_in_order:
  assumes "cl_reach ordered servers et s" "2 \<le> et"
  shows "raft_ok (cl_raft s i) \<and> rf_identity (cl_raft s i) \<noteq> Error \<and>
    rf_info (cl_raft s i) = \<lparr>local = i, srvList = servers, electionTimeout = et\<rparr> \<and>
    (\<forall>c. \<exists>rf'. raft_call c (cl_raft s i) = Some rf')"
  using cl_reach_nodes [OF assms, of i] raft_rpc_total_ok [of "cl_raft s i"] by (auto simp: node_ok_def raft_ok_def)

text \<open>
  The vote counter of a candidate is the number of different servers whose vote for the
  term it stands for has been counted, so it never exceeds the size of the cluster, and a
  candidate never has more requests under way than there are servers.
\<close>

theorem votes_bounded:
  assumes "cl_reach True servers et s" "2 \<le> et" "distinct servers" "NullServerId \<notin> set servers"
  shows "votesReceived (rf_candidate (cl_raft s i)) = card (cl_counted s i) \<and>
    card (cl_counted s i) \<le> length servers \<and> length (requests (rf_candidate (cl_raft s i))) \<le> length servers"
proof -
  have tally: "tally_ok servers (cl_votes s) i (cl_raft s i) (cl_counted s i) (cl_elect s i)"
    using cl_reach_inv [OF assms] by (rule cl_inv_node) simp
  let ?srvs = "map rq_srv (requests (rf_candidate (cl_raft s i)))"
  from tally have "cl_counted s i \<subseteq> set servers" "distinct ?srvs" "set ?srvs \<subseteq> set servers"
    by (auto simp: tally_ok_def Let_def)
  then have "card (cl_counted s i) \<le> card (set servers)" "card (set ?srvs) \<le> card (set servers)"
    by (auto intro: card_mono)
  then have "card (cl_counted s i) \<le> length servers" "length ?srvs \<le> length servers"
    using card_length [of servers] distinct_card [OF \<open>distinct ?srvs\<close>] by linarith+
  with tally show ?thesis by (simp add: tally_ok_def Let_def)
qed

section \<open>Runs of three servers\<close>

definition three :: "ServerId list" where
  "three = [sample_id ''a'', sample_id ''b'', sample_id ''c'']"

definition runs_up :: "ServerId \<Rightarrow> cluster_label list" where
  "runs_up i = [StartServer i, RunTransform i 150]"

definition stands :: "ServerId \<Rightarrow> cluster_label list" where
  "stands i = [TimerFires i, RunTransform i 150]"

definition first_vote :: "ServerId \<Rightarrow> raft_term \<Rightarrow> RequestVoteMessage" where
  "first_vote i t = \<lparr>rv_term = t, rv_candidateId = i, rv_lastLogIdx = 0, rv_lastLogTerm = 0\<rparr>"

text \<open>The candidate \<open>i\<close> gets the vote of \<open>v\<close>, its \<open>k\<close>-th request.\<close>

definition gets_vote :: "ServerId \<Rightarrow> nat \<Rightarrow> ServerId \<Rightarrow> raft_term \<Rightarrow> cluster_label list" where
  "gets_vote i k v t = [DeliverVote v (first_vote i t), VoteBack i k (t, True)]"

definition election_run :: "cluster_label list" where
  "election_run = (let a = sample_id ''a''; c = sample_id ''c'' in
     runs_up a @ stands a @ runs_up c @ gets_vote a 1 c 1)"

text \<open>A run that ends, and reaches what it should.\<close>

lemma replay_shows:
  assumes "case cl_replay ordered ls (cl_init servers et) of None \<Rightarrow> False | Some s \<Rightarrow> P s"
    and "list_all (\<lambda>l. label_server l \<in> set servers) ls"
  shows "\<exists>s. cl_reach ordered servers et s \<and> P s"
proof -
  obtain s where s: "cl_replay ordered ls (cl_init servers et) = Some s" "P s"
    using assms(1) by (auto split: option.splits)
  with cl_replay_reach [OF cl_start assms(2)] show ?thesis by blast
qed

theorem election_safety_witness:
  "\<exists>s. cl_reach True three 100 s \<and> (sample_id ''a'', 1) \<in> cl_won s \<and> (sample_id ''b'', 1) \<notin> cl_won s"
proof -
  have "case cl_replay True election_run (cl_init three 100) of None \<Rightarrow> False
    | Some s \<Rightarrow> (sample_id ''a'', 1) \<in> cl_won s"
    by code_simp
  moreover have "list_all (\<lambda>l. label_server l \<in> set three) election_run" by code_simp
  ultimately obtain s where s: "cl_reach True three 100 s" "(sample_id ''a'', 1) \<in> cl_won s"
    using replay_shows by blast
  have "(sample_id ''b'', 1) \<notin> cl_won s"
    using election_safety [OF s(1), of "sample_id ''b''" 1 "sample_id ''a''"] s(2)
    by (auto simp: three_def sample_id_def NullServerId_def)
  with s show ?thesis by blast
qed

lemma three_start: "cl_reach ordered three 100 (cl_init three 100)"
  by (rule cl_start)

lemma three_distinct: "distinct three" "NullServerId \<notin> set three"
  by (simp_all add: three_def sample_id_def NullServerId_def)

theorem cluster_in_order_witness:
  "\<exists>s. cl_reach False three 100 s \<and> (sample_id ''a'', 1) \<in> cl_won s \<and> raft_ok (cl_raft s (sample_id ''c''))"
proof -
  have "case cl_replay False election_run (cl_init three 100) of None \<Rightarrow> False
    | Some s \<Rightarrow> (sample_id ''a'', 1) \<in> cl_won s"
    by code_simp
  moreover have "list_all (\<lambda>l. label_server l \<in> set three) election_run" by code_simp
  ultimately obtain s where s: "cl_reach False three 100 s" "(sample_id ''a'', 1) \<in> cl_won s"
    using replay_shows by blast
  with cluster_in_order [OF s(1), of "sample_id ''c''"] show ?thesis by auto
qed

theorem votes_bounded_witness: "votesReceived (rf_candidate (cl_raft (cl_init three 100) (sample_id ''b''))) \<le> 3"
  using votes_bounded [OF three_start, of "sample_id ''b''"] three_distinct by (simp add: three_def)

section \<open>What can go wrong\<close>

definition stale_vote_run :: "cluster_label list" where
  "stale_vote_run = (let a = sample_id ''a''; b = sample_id ''b''; c = sample_id ''c'' in
     runs_up a @ stands a @ stands a @ runs_up c @ gets_vote a 1 c 2 @ [DeliverVote c (first_vote a 1)] @
     runs_up b @ stands b @ stands b @ gets_vote b 1 c 2)"

text \<open>
  C34. When a vote request of an older term can still arrive, two servers of a cluster of three
  can win the election of one term: the stale request takes the third server back to term 1,
  and it then grants the vote of term 2 a second time.
\<close>

theorem two_winners:
  "\<exists>s. cl_reach False [sample_id ''a'', sample_id ''b'', sample_id ''c''] 100 s \<and>
     (sample_id ''a'', 2) \<in> cl_won s \<and> (sample_id ''b'', 2) \<in> cl_won s"
  unfolding three_def [symmetric]
proof (rule replay_shows)
  show "case cl_replay False stale_vote_run (cl_init three 100) of None \<Rightarrow> False
    | Some s \<Rightarrow> (sample_id ''a'', 2) \<in> cl_won s \<and> (sample_id ''b'', 2) \<in> cl_won s"
    by code_simp
  show "list_all (\<lambda>l. label_server l \<in> set three) stale_vote_run" by code_simp
qed

definition late_leader_run :: "cluster_label list" where
  "late_leader_run = (let a = sample_id ''a''; b = sample_id ''b''; c = sample_id ''c'' in
     runs_up a @ stands a @ runs_up c @ gets_vote a 1 c 1 @ runs_up b @ stands b @ stands b @
     [DeliverVote a (first_vote b 2), RunTransform a 150] @ [VoteBack b 0 (2, True), RunTransform b 150])"

text \<open>
  C35. Even with messages in the order of their terms, two servers can be leaders of one term at
  a time: the first has won term 1, grants its vote of term 2 to the second, and only then
  becomes leader; the second wins term 2.
\<close>

theorem two_leaders:
  "\<exists>s. cl_reach True [sample_id ''a'', sample_id ''b'', sample_id ''c''] 100 s \<and>
     rf_identity (cl_raft s (sample_id ''a'')) = Leader \<and> currentTerm (rf_state (cl_raft s (sample_id ''a''))) = 2 \<and>
     rf_identity (cl_raft s (sample_id ''b'')) = Leader \<and> currentTerm (rf_state (cl_raft s (sample_id ''b''))) = 2"
  unfolding three_def [symmetric]
proof (rule replay_shows)
  show "case cl_replay True late_leader_run (cl_init three 100) of None \<Rightarrow> False | Some s \<Rightarrow>
     rf_identity (cl_raft s (sample_id ''a'')) = Leader \<and> currentTerm (rf_state (cl_raft s (sample_id ''a''))) = 2 \<and>
     rf_identity (cl_raft s (sample_id ''b'')) = Leader \<and> currentTerm (rf_state (cl_raft s (sample_id ''b''))) = 2"
    by code_simp
  show "list_all (\<lambda>l. label_server l \<in> set three) late_leader_run" by code_simp
qed

text \<open>The leader \<open>i\<close> logs request \<open>p\<close>, and the server \<open>v\<close> takes its first AppendEntries message.\<close>

definition run_request :: "ServerId \<Rightarrow> prm_idx \<Rightarrow> AddLogMessage" where
  "run_request i p = \<lparr>al_opName = ''op'', al_args = [], al_prmIdx = p, al_srvId = i\<rparr>"

definition run_entries :: "ServerId \<Rightarrow> prm_idx \<Rightarrow> raft_term \<Rightarrow> AppendEntriesMessage" where
  "run_entries i p t = \<lparr>ae_term = t, ae_leaderId = i, ae_prevLogIdx = 0, ae_prevLogTerm = 0,
     ae_logEntries = [\<lparr>le_term = t, le_opName = ''op'', le_args = [], le_prmIdx = p, le_srvId = i\<rparr>],
     ae_commitIdx = 0\<rparr>"

definition commits :: "ServerId \<Rightarrow> prm_idx \<Rightarrow> ServerId \<Rightarrow> raft_term \<Rightarrow> cluster_label list" where
  "commits i p v t = [RunTransform i 150, LogRequest i (run_request i p), DeliverEntries v (run_entries i p t),
     Replicate i v [Replied (t, True)]]"

definition lost_entry_run :: "cluster_label list" where
  "lost_entry_run = (let a = sample_id ''a''; b = sample_id ''b''; c = sample_id ''c'' in
     runs_up a @ runs_up b @ runs_up c @ stands a @ gets_vote a 1 c 1 @ commits a 7 c 1 @
     stands b @ stands b @ gets_vote b 1 c 2 @ commits b 9 c 2)"

abbreviation applied_prms :: "Raft \<Rightarrow> prm_idx list" where
  "applied_prms rf \<equiv> map be_prmIdx (eq_events (sv_applyQueue (rf_server rf)))"

text \<open>
  Even with messages in the order of their terms, two servers can apply different requests
  as their first: a vote of a greater term is granted without a look at the logs, so a server
  with an empty log becomes leader, and the entry that the first leader has committed and
  applied is replaced.
\<close>

theorem applied_logs_diverge:
  "\<exists>s. cl_reach True [sample_id ''a'', sample_id ''b'', sample_id ''c''] 100 s \<and>
     applied_prms (cl_raft s (sample_id ''a'')) = [7] \<and> applied_prms (cl_raft s (sample_id ''b'')) = [9]"
  unfolding three_def [symmetric]
proof (rule replay_shows)
  show "case cl_replay True lost_entry_run (cl_init three 100) of None \<Rightarrow> False | Some s \<Rightarrow>
     applied_prms (cl_raft s (sample_id ''a'')) = [7] \<and> applied_prms (cl_raft s (sample_id ''b'')) = [9]"
    by code_simp
  show "list_all (\<lambda>l. label_server l \<in> set three) lost_entry_run" by code_simp
qed

text \<open>The AppendEntries messages of that run are the ones the code builds.\<close>

lemma run_entries_built:
  "createAppendEntriesMessage (rf_server (configure \<lparr>local = i, srvList = srvs, electionTimeout = et\<rparr>)
     \<lparr>sv_state := ServerState0\<lparr>currentTerm := t, votedFor := i,
       entries := [LogEntry0, \<lparr>le_term = t, le_opName = ''op'', le_args = [], le_prmIdx = p, le_srvId = i\<rparr>]\<rparr>\<rparr>) 1 =
   Some (run_entries i p t)"
  by (simp add: createAppendEntriesMessage_def run_entries_def configure_def ServerState0_def LogEntry0_def InvalidTerm_def Let_def)

end
