(* ===== verification/Replication.thy ===== *)
theory Replication
  imports Identity_Leader
begin

text \<open>
  The leader and its followers together: \<open>tryAppendEntries\<close> of \<open>IdentityLeader.cpp\<close> with its calls
  answered by the handler of \<open>IdentityFollower.cpp\<close>, that is the search for the place where the two
  logs agree, the repair of the follower's log from there, and the commit that follows when enough
  followers have been repaired. Logs are compared by the terms of their entries, as the code does;
  the property of Raft that equal terms at an index mean equal logs up to it is a hypothesis,
  \<open>logMatching\<close>.
\<close>

section \<open>The merge repairs a log\<close>

definition logMatching :: "LogEntry list \<Rightarrow> LogEntry list \<Rightarrow> bool" where
  "logMatching xs ys \<longleftrightarrow> (\<forall>i. i < length xs \<longrightarrow> i < length ys \<longrightarrow> le_term (xs ! i) = le_term (ys ! i) \<longrightarrow>
     take (i + 1) xs = take (i + 1) ys)"

lemma appendLog_repairs:
  assumes "logMatching es ls" "prev < length es" "prev < length ls" "le_term (es ! prev) = le_term (ls ! prev)"
  shows "take (length ls) (appendLog es prev (drop (prev + 1) ls)) = ls"
proof -
  let ?new = "drop (prev + 1) ls"
  let ?off = "matchOffset es ?new prev 0"
  have fits: "prev + ?off + 1 \<le> length es" "?off \<le> length ?new"
    using matchOffset_fits [OF assms(2), of ?new] matchOffset_bounds [of 0 ?new es prev] by auto
  have terms: "le_term (es ! (prev + ?off)) = le_term (ls ! (prev + ?off))"
  proof (cases "?off")
    case (Suc k)
    then have "prev + k + 1 < length es \<and> le_term (es ! (prev + k + 1)) = le_term (?new ! k)"
      using matchOffset_matched [of 0 k es ?new prev] by simp
    with Suc fits(2) show ?thesis by (simp add: add.commute add.left_commute)
  qed (use assms(4) in simp)
  have same: "take (prev + ?off + 1) es = take (prev + ?off + 1) ls"
    using assms(1,3) terms fits by (simp add: logMatching_def)
  show ?thesis
  proof (cases "?off = length ?new")
    case True
    then have all: "prev + ?off + 1 = length ls" using assms(3) by simp
    from True have "appendLog es prev ?new = es" by (simp add: appendLog_alt [OF assms(2)] Let_def)
    with same show ?thesis unfolding all by simp
  next
    case False
    then have "appendLog es prev ?new = take (prev + ?off + 1) ls @ drop (prev + ?off + 1) ls"
      using same by (simp add: appendLog_alt [OF assms(2)] Let_def add.commute add.left_commute)
    then show ?thesis by simp
  qed
qed

section \<open>One follower\<close>

text \<open>
  The loop of \<open>tryAppendEntries\<close> against the follower \<open>fv\<close>: the replies it got, whether it left
  the loop by a success, and both sides afterwards. The fuel bounds the calls.
\<close>

fun repair :: "nat \<Rightarrow> ServerId \<Rightarrow> Server \<times> LeaderImpl \<Rightarrow> Server
    \<Rightarrow> (Reply list \<times> bool \<times> (Server \<times> LeaderImpl) \<times> Server) option" where
  "repair 0 target st fv = None"
| "repair (Suc fuel) target st fv = (case ta_build target st of None \<Rightarrow> None | Some msg \<Rightarrow>
     (case follower_appendEntries msg fv of None \<Rightarrow> None | Some (res, fv') \<Rightarrow>
       (case ta_reply target msg res st of None \<Rightarrow> None
        | Some (TaSucceeded, st') \<Rightarrow> Some ([res], True, st', fv')
        | Some (TaReturn, st') \<Rightarrow> Some ([res], False, st', fv')
        | Some (TaRetry, st') \<Rightarrow> map_option (\<lambda>(rs, r). (res # rs, r)) (repair fuel target st' fv'))))"

text \<open>It is the loop of the code, for the replies of the follower.\<close>

lemma repair_loop:
  "repair fuel target st fv = Some (rs, b, st', fv') \<Longrightarrow> ta_loop target n (map Replied rs) st = Some (b, st')"
proof (induction fuel target st fv arbitrary: rs rule: repair.induct)
  case (2 fuel target st fv)
  then show ?case by (fastforce split: option.splits ta_next.splits prod.splits)
qed simp

lemma follower_answer:
  assumes "sv_ok fv" "currentTerm (sv_state fv) \<le> ae_term msg"
  shows "\<exists>fv'. follower_appendEntries msg fv = Some ((currentTerm (sv_state fv), matchesPrev msg (sv_state fv)), fv') \<and>
    sv_ok fv' \<and> sv_state fv' = appendedState msg (sv_state fv)"
proof -
  obtain h where h: "follower_appendEntries msg fv = defaultRPCAppendEntries msg Follower (fv\<lparr>sv_heartBeat := h\<rparr>)"
    "sv_ok (fv\<lparr>sv_heartBeat := h\<rparr>)" using assms by (rule follower_appendEntries_fresh)
  from appendEntries_returns [OF h(2), of msg Follower] h(1) assms(2) show ?thesis by (auto simp: min_absorb1)
qed

lemma appendedState_refused:
  "\<not> matchesPrev msg s \<Longrightarrow> entries (appendedState msg s) = entries s \<and>
     currentTerm (appendedState msg s) = min (currentTerm s) (ae_term msg)"
  by (simp add: appendedState_def mergedState_def Let_def)

lemma appendedState_merged:
  "matchesPrev msg s \<Longrightarrow> entries (appendedState msg s) = appendLog (entries s) (ae_prevLogIdx msg) (ae_logEntries msg) \<and>
     currentTerm (appendedState msg s) = min (currentTerm s) (ae_term msg)"
  by (simp add: appendedState_def mergedState_def Let_def)

lemma ta_build_node:
  assumes "followerNodes ld target = Some node" "1 \<le> nextIdx node" "nextIdx node \<le> length (entries (sv_state sv))"
  shows "ta_build target (sv, ld) = Some \<lparr>ae_term = currentTerm (sv_state sv), ae_leaderId = local (sv_info sv),
    ae_prevLogIdx = nextIdx node - 1, ae_prevLogTerm = le_term (entries (sv_state sv) ! (nextIdx node - 1)),
    ae_logEntries = drop (nextIdx node) (entries (sv_state sv)), ae_commitIdx = commitIdx (sv_state sv)\<rparr>"
  using assms by (simp add: ta_build_def createAppendEntriesMessage_def Let_def)

text \<open>What the follower has to be for the leader to repair it.\<close>

definition repairable :: "Server \<Rightarrow> Server \<Rightarrow> bool" where
  "repairable sv fv \<longleftrightarrow> sv_ok fv \<and> currentTerm (sv_state fv) \<le> currentTerm (sv_state sv) \<and>
     logMatching (entries (sv_state fv)) (entries (sv_state sv)) \<and>
     le_term (entries (sv_state fv) ! 0) = le_term (entries (sv_state sv) ! 0)"

text \<open>The follower holds the log of the leader.\<close>

definition repaired :: "Server \<Rightarrow> Server \<Rightarrow> bool" where
  "repaired sv fv \<longleftrightarrow> take (length (entries (sv_state sv))) (entries (sv_state fv)) = entries (sv_state sv)"

lemma repair_succeeds:
  assumes "repairable sv fv" "followerNodes ld target = Some node"
    and "1 \<le> nextIdx node" "nextIdx node \<le> length (entries (sv_state sv))"
  shows "\<exists>rs fv'. repair (nextIdx node) target (sv, ld) fv = Some (rs, True,
      (sv, ld\<lparr>followerNodes := (followerNodes ld)(target \<mapsto> synced sv node)\<rparr>), fv') \<and>
    sv_ok fv' \<and> repaired sv fv' \<and> length rs \<le> nextIdx node"
  using assms
proof (induction "nextIdx node" arbitrary: node ld fv)
  case (Suc n)
  let ?es = "entries (sv_state sv)" and ?s = "sv_state fv"
  have n: "nextIdx node = Suc n" using Suc.hyps(2) by simp
  obtain msg where build: "ta_build target (sv, ld) = Some msg" and msg: "ae_term msg = currentTerm (sv_state sv)"
    "ae_prevLogIdx msg = n" "ae_prevLogTerm msg = le_term (?es ! n)" "ae_logEntries msg = drop (n + 1) ?es"
    using ta_build_node [OF Suc.prems(2-4)] n by simp
  from Suc.prems(1) have f: "sv_ok fv" "currentTerm ?s \<le> ae_term msg" "logMatching (entries ?s) ?es"
    "le_term (entries ?s ! 0) = le_term (?es ! 0)" "entries ?s \<noteq> []"
    by (simp_all add: repairable_def msg sv_ok_def)
  obtain fv1 where ans: "follower_appendEntries msg fv = Some ((currentTerm ?s, matchesPrev msg ?s), fv1)"
    "sv_ok fv1" "sv_state fv1 = appendedState msg ?s" using follower_answer [OF f(1,2)] by blast
  show ?case
  proof (cases "matchesPrev msg ?s")
    case True
    then have prev: "n < length (entries ?s)" "le_term (entries ?s ! n) = le_term (?es ! n)"
      by (simp_all add: matchesPrev_def msg)
    have "repaired sv fv1"
      using appendLog_repairs [OF f(3) prev(1) _ prev(2)] Suc.prems(4) n appendedState_merged [OF True] ans(3) msg
      by (simp add: repaired_def)
    moreover have "ta_reply target msg (currentTerm ?s, True) (sv, ld) = Some (TaSucceeded,
        sv, ld\<lparr>followerNodes := (followerNodes ld)(target \<mapsto> synced sv node)\<rparr>)"
      using Suc.prems(2,4) n msg(4) by (simp add: ta_reply_def Let_def)
    ultimately have "repair (Suc n) target (sv, ld) fv = Some ([(currentTerm ?s, True)], True,
        (sv, ld\<lparr>followerNodes := (followerNodes ld)(target \<mapsto> synced sv node)\<rparr>), fv1)" "repaired sv fv1"
      using build ans(1) True by simp_all
    with ans(2) show ?thesis unfolding n by fastforce
  next
    case False
    have "n \<noteq> 0" using False f(4,5) by (cases n) (auto simp: matchesPrev_def msg)
    let ?node = "node\<lparr>nextIdx := n\<rparr>" and ?ld = "ld\<lparr>followerNodes := (followerNodes ld)(target \<mapsto> node\<lparr>nextIdx := n\<rparr>)\<rparr>"
    have retry: "ta_reply target msg (currentTerm ?s, False) (sv, ld) = Some (TaRetry, sv, ?ld)"
      using Suc.prems(2) n f(2) msg(1) \<open>n \<noteq> 0\<close> by (simp add: ta_reply_def Let_def not_less)
    have "repairable sv fv1"
      using Suc.prems(1) ans(2,3) appendedState_refused [OF False] f(2) by (simp add: repairable_def msg(1) min_absorb1)
    moreover have "followerNodes ?ld target = Some ?node" "1 \<le> nextIdx ?node" "nextIdx ?node \<le> length ?es"
      using \<open>n \<noteq> 0\<close> n Suc.prems(4) by simp_all
    ultimately obtain rs fv2 where "repair n target (sv, ?ld) fv1 = Some (rs, True,
        (sv, ?ld\<lparr>followerNodes := (followerNodes ?ld)(target \<mapsto> synced sv ?node)\<rparr>), fv2)"
      "sv_ok fv2" "repaired sv fv2" "length rs \<le> n"
      using Suc.hyps(1) [of ?node fv1 ?ld] by auto
    then have "repair (Suc n) target (sv, ld) fv = Some ((currentTerm ?s, False) # rs, True,
        (sv, ld\<lparr>followerNodes := (followerNodes ld)(target \<mapsto> synced sv node)\<rparr>), fv2)"
      using build ans(1) False retry by simp
    with \<open>sv_ok fv2\<close> \<open>repaired sv fv2\<close> \<open>length rs \<le> n\<close> show ?thesis unfolding n by fastforce
  qed
qed simp

text \<open>
  The leader's loop repairs the log of a live follower: for a follower that is in order, whose
  term is not ahead, and whose log agrees with the leader's wherever terms agree (the sentinels
  do), the loop leaves by a success within \<open>nextIdx\<close> calls, and the follower then holds the
  leader's log, whatever it held before.
\<close>

theorem log_repair:
  assumes "repairable sv fv" "followerNodes ld target = Some node"
    and "1 \<le> nextIdx node" "nextIdx node \<le> length (entries (sv_state sv))"
  shows "\<exists>rs st' fv'. repair (nextIdx node) target (sv, ld) fv = Some (rs, True, st', fv') \<and>
    ta_loop target 0 (map Replied rs) (sv, ld) = Some (True, st') \<and> repaired sv fv' \<and> length rs \<le> nextIdx node"
  using repair_succeeds [OF assms] repair_loop [of "nextIdx node" target "(sv, ld)" fv] by blast

text \<open>A follower that has lost its log.\<close>

definition sample_behind :: Server where
  "sample_behind = sample_server\<lparr>sv_info := (sv_info sample_server)\<lparr>local := sample_id ''b''\<rparr>,
     sv_state := \<lparr>currentTerm = 1, votedFor = NullServerId, entries = [LogEntry0], commitIdx = 0, lastApplied = 0\<rparr>\<rparr>"

lemma sample_behind_ok: "sv_ok sample_behind"
  using sample_server_ok by (simp add: sample_behind_def sv_ok_def)

lemma sample_repairable:
  assumes "entries (sv_state sv) = LogEntry0 # es" "1 \<le> currentTerm (sv_state sv)"
  shows "repairable sv sample_behind"
  using assms sample_behind_ok by (simp add: repairable_def sample_behind_def logMatching_def)

theorem log_repair_witness:
  "\<exists>rs st' fv'. repair 3 (sample_id ''b'')
       (sample_server, LeaderImpl0\<lparr>followerNodes := [sample_id ''b'' \<mapsto> \<lparr>nextIdx = 3, matchIdx = 0\<rparr>]\<rparr>)
       sample_behind = Some (rs, True, st', fv') \<and> repaired sample_server fv'"
proof -
  have "repairable sample_server sample_behind"
    by (rule sample_repairable) (simp_all add: sample_server_def)
  from log_repair [OF this, where node = "\<lparr>nextIdx = 3, matchIdx = 0\<rparr>" and target = "sample_id ''b''" and
      ld = "LeaderImpl0\<lparr>followerNodes := [sample_id ''b'' \<mapsto> \<lparr>nextIdx = 3, matchIdx = 0\<rparr>]\<rparr>"]
  show ?thesis by (auto simp: sample_server_def)
qed

section \<open>A majority of followers\<close>

text \<open>One thread of the leader: the follower and the leader after it.\<close>

definition replicate_to :: "ServerId \<Rightarrow> Server \<Rightarrow> Server \<times> LeaderImpl \<Rightarrow> (Server \<times> Server \<times> LeaderImpl) option" where
  "replicate_to target fv st = do {
     node \<leftarrow> followerNodes (snd st) target;
     (rs, _, _, fv') \<leftarrow> repair (nextIdx node) target st fv;
     st' \<leftarrow> tryAppendEntries target (map Replied rs) st;
     Some (fv', st')
   }"

fun replicate_all :: "(ServerId \<times> Server) list \<Rightarrow> Server \<times> LeaderImpl \<Rightarrow> (Server list \<times> Server \<times> LeaderImpl) option" where
  "replicate_all [] st = Some ([], st)"
| "replicate_all ((target, fv) # fs) st = do {
     (fv', st') \<leftarrow> replicate_to target fv st;
     (fvs, st'') \<leftarrow> replicate_all fs st';
     Some (fv' # fvs, st'')
   }"

lemma ta_commit_returns:
  assumes "sv_ok sv" "length (logStates ld) = length (entries (sv_state sv))"
  shows "\<exists>sv' ld'. ta_commit old (sv, ld) = Some (sv', ld') \<and> sv_ok sv'"
proof -
  let ?is = "[old + 1 ..< length (logStates ld)]"
  let ?ws = "filter (\<lambda>i. wins (logStates ld ! i + 1) (sv_info sv)) ?is"
  let ?sv1 = "sv\<lparr>sv_state := (sv_state sv)\<lparr>commitIdx := fold max ?ws (commitIdx (sv_state sv))\<rparr>\<rparr>"
  have "apply_defined (sv_state ?sv1)"
    using fold_max_cases [of ?ws "commitIdx (sv_state sv)"] assms by (auto simp: apply_defined_def sv_ok_def)
  then have "applyReadyEntries ?sv1 = Some (appliedServer ?sv1)" by (rule applyReadyEntries_alt)
  moreover have "sv_ok (appliedServer ?sv1)" using assms(1) by (simp add: sv_ok_def)
  moreover have "fold ta_count ?is (sv, ld) = (?sv1, ld\<lparr>logStates := bumps ?is (logStates ld)\<rparr>)"
    by (rule fold_ta_count) auto
  ultimately show ?thesis by (simp add: ta_commit_def)
qed

text \<open>The bookkeeping, with nothing left uncommitted that followers make a majority for.\<close>

definition leading :: "Server \<times> LeaderImpl \<Rightarrow> bool" where
  "leading st \<longleftrightarrow> sv_ok (fst st) \<and> counts_ok st \<and>
     (\<forall>s n. followerNodes (snd st) s = Some n \<longrightarrow> 1 \<le> nextIdx n) \<and>
     (\<forall>i. 1 \<le> i \<longrightarrow> i < length (log_of st) \<longrightarrow> 0 < matched (snd st) i \<longrightarrow>
        wins (1 + matched (snd st) i) (sv_info (fst st)) \<longrightarrow> i \<le> commitIdx (sv_state (fst st)))"

lemma replicate_to_step:
  assumes "leading (sv, ld)" "repairable sv fv" "followerNodes ld target = Some node"
  shows "\<exists>fv' sv' ld'. replicate_to target fv (sv, ld) = Some (fv', sv', ld') \<and> repaired sv fv' \<and> leading (sv', ld') \<and>
    entries (sv_state sv') = entries (sv_state sv) \<and> currentTerm (sv_state sv') = currentTerm (sv_state sv) \<and>
    sv_info sv' = sv_info sv \<and> followerNodes ld' = (followerNodes ld)(target \<mapsto> synced sv node)"
proof -
  let ?es = "entries (sv_state sv)"
  let ?st1 = "(sv, ld\<lparr>followerNodes := (followerNodes ld)(target \<mapsto> synced sv node)\<rparr>)"
  from assms(1) have ok: "sv_ok sv" "counts_ok (sv, ld)" and n: "1 \<le> nextIdx node" "nextIdx node \<le> length ?es"
    using assms(3) by (auto simp: leading_def counts_ok_def Let_def)
  obtain rs fv' where r: "repair (nextIdx node) target (sv, ld) fv = Some (rs, True, ?st1, fv')" "repaired sv fv'"
    using repair_succeeds [OF assms(2,3) n] by blast
  have "length (logStates (ld\<lparr>followerNodes := (followerNodes ld)(target \<mapsto> synced sv node)\<rparr>)) = length ?es"
    using ok(2) by (simp add: counts_ok_def Let_def)
  from ta_commit_returns [OF ok(1) this] obtain sv' ld' where
    c: "ta_commit (matchIdx node) ?st1 = Some (sv', ld')" "sv_ok sv'" by blast
  note frame = ta_commit_Some [OF c(1)] and round = synced_round [OF ok(2) assms(3) c(1)]
  have ct: "currentTerm (sv_state sv') = currentTerm (sv_state sv)" by (rule ta_commit_Some(8) [OF c(1)])
  have "replicate_to target fv (sv, ld) = Some (fv', sv', ld')"
    using assms(3) r(1) repair_loop [OF r(1), of 0] c(1) by (simp add: replicate_to_def tryAppendEntries_def)
  moreover have "leading (sv', ld')"
    unfolding leading_def
  proof (intro conjI allI impI)
    show "1 \<le> nextIdx m" if "followerNodes (snd (sv', ld')) s = Some m" for s m
      using that frame(3) assms(1) n by (auto simp: leading_def split: if_splits)
    fix i assume i: "1 \<le> i" "i < length (log_of (sv', ld'))" "0 < matched (snd (sv', ld')) i"
      "wins (1 + matched (snd (sv', ld')) i) (sv_info (fst (sv', ld')))"
    show "i \<le> commitIdx (sv_state (fst (sv', ld')))"
    proof (cases "matchIdx node < i")
      case True
      then show ?thesis using round(4) [of i] i frame(4,5) by simp
    next
      case False
      then have "i \<le> commitIdx (sv_state sv)"
        using i round(2) [of i] assms(1) frame(4,5) by (auto simp: leading_def)
      then show ?thesis using frame(1) by simp
    qed
  qed (use c(2) round(1) in simp_all)
  ultimately show ?thesis using r(2) frame ct by auto
qed

definition caughtUp :: "LeaderImpl \<Rightarrow> nat \<Rightarrow> ServerId \<Rightarrow> bool" where
  "caughtUp ld len t \<longleftrightarrow> (\<exists>n. followerNodes ld t = Some n \<and> matchIdx n = len - 1)"

lemma replicate_all_step:
  "leading st \<Longrightarrow> \<forall>f \<in> set fs. repairable (fst st) (snd f) \<Longrightarrow>
   fst ` set fs \<subseteq> dom (followerNodes (snd st)) \<Longrightarrow>
   \<exists>fvs st'. replicate_all fs st = Some (fvs, st') \<and> leading st' \<and> (\<forall>fv \<in> set fvs. repaired (fst st) fv) \<and>
     log_of st' = log_of st \<and> sv_info (fst st') = sv_info (fst st) \<and>
     dom (followerNodes (snd st')) = dom (followerNodes (snd st)) \<and>
     (\<forall>t. t \<in> fst ` set fs \<or> caughtUp (snd st) (length (log_of st)) t \<longrightarrow>
        caughtUp (snd st') (length (log_of st)) t)"
proof (induction fs arbitrary: st)
  case (Cons f fs)
  obtain target fv where f: "f = (target, fv)" by (cases f)
  obtain sv ld where st: "st = (sv, ld)" by (cases st)
  from Cons.prems f obtain node where node: "followerNodes ld target = Some node" by (auto simp: st)
  have "repairable sv fv" using Cons.prems(2) f by (auto simp: st)
  from replicate_to_step [OF Cons.prems(1) [unfolded st] this node] obtain fv' sv' ld' where
    r: "replicate_to target fv (sv, ld) = Some (fv', sv', ld')" "repaired sv fv'" "leading (sv', ld')"
      "entries (sv_state sv') = entries (sv_state sv)" "currentTerm (sv_state sv') = currentTerm (sv_state sv)"
      "sv_info sv' = sv_info sv" "followerNodes ld' = (followerNodes ld)(target \<mapsto> synced sv node)" by blast
  have "\<forall>f \<in> set fs. repairable (fst (sv', ld')) (snd f)"
    using Cons.prems(2) r(4,5) by (simp add: repairable_def st)
  moreover have "fst ` set fs \<subseteq> dom (followerNodes ld')" using Cons.prems(3) r(7) f by (auto simp: st)
  ultimately obtain fvs st' where rest: "replicate_all fs (sv', ld') = Some (fvs, st')" "leading st'"
      "\<forall>fv \<in> set fvs. repaired sv' fv" "log_of st' = entries (sv_state sv')" "sv_info (fst st') = sv_info sv'"
      "dom (followerNodes (snd st')) = dom (followerNodes ld')"
      "\<And>t. t \<in> fst ` set fs \<or> caughtUp ld' (length (entries (sv_state sv'))) t \<Longrightarrow>
        caughtUp (snd st') (length (entries (sv_state sv'))) t"
    using Cons.IH [of "(sv', ld')"] r(3) unfolding fst_conv snd_conv by blast
  have "caughtUp (snd st') (length (entries (sv_state sv))) t"
    if "t \<in> fst ` set (f # fs) \<or> caughtUp ld (length (entries (sv_state sv))) t" for t
  proof -
    have "t \<in> fst ` set fs \<or> caughtUp ld' (length (entries (sv_state sv))) t"
      using that r(7) f by (auto simp: caughtUp_def)
    then show ?thesis using rest(7) r(4) by simp
  qed
  then show ?case using rest(1-6) r node by (auto simp: st f repaired_def)
qed (simp add: leading_def)

text \<open>A leader that has just been elected, with the requests it has taken since.\<close>

definition fresh_leader :: "Server \<times> LeaderImpl \<Rightarrow> bool" where
  "fresh_leader st \<longleftrightarrow> sv_ok (fst st) \<and> length (logStates (snd st)) = length (log_of st) \<and>
     (\<forall>i. i < length (log_of st) \<longrightarrow> logStates (snd st) ! i = 1) \<and>
     followerNodes (snd st) = (\<lambda>s. if s \<in> set (peers (sv_info (fst st))) then Some FollowerNode0 else None)"

lemma fresh_leading:
  assumes "fresh_leader st"
  shows "leading st"
proof -
  have zero: "matched (snd st) i = 0" if "1 \<le> i" for i
  proof -
    have none: "{s. \<exists>n. followerNodes (snd st) s = Some n \<and> i \<le> matchIdx n} = {}"
      using assms that by (auto simp: fresh_leader_def FollowerNode0_def split: if_splits)
    show ?thesis by (simp only: matched_def none card.empty)
  qed
  have "dom (followerNodes (snd st)) = set (peers (sv_info (fst st)))"
    using assms by (auto simp: fresh_leader_def dom_def split: if_splits)
  then have "finite (dom (followerNodes (snd st)))" by simp
  moreover have "log_of st \<noteq> []" using assms by (simp add: fresh_leader_def sv_ok_def)
  ultimately show ?thesis
    using assms zero by (auto simp: leading_def counts_ok_def Let_def fresh_leader_def FollowerNode0_def Suc_le_eq
        split: if_splits)
qed

lemma fresh_init: "sv_ok sv \<Longrightarrow> fresh_leader (reinitStates (sv, LeaderImpl0))"
  by (simp add: fresh_leader_def reinit_nodes)

lemma fresh_addLogs: "fresh_leader st \<Longrightarrow> fresh_leader (addLogs ms st)"
proof (induction ms arbitrary: st)
  case (Cons m ms)
  obtain sv ld where st: "st = (sv, ld)" by (cases st)
  have "fresh_leader (snd (leader_addLog m st))"
    using Cons.prems by (auto simp: st fresh_leader_def leader_addLog_def Let_def sv_ok_def nth_append less_Suc_eq)
  from Cons.IH [OF this] show ?case by (simp add: addLogs_def)
qed (simp add: addLogs_def)

lemma addLogs_info [simp]: "sv_info (fst (addLogs ms st)) = sv_info (fst st)"
proof (induction ms arbitrary: st)
  case (Cons m ms)
  have "sv_info (fst (snd (leader_addLog m st))) = sv_info (fst st)"
    by (cases st) (simp add: leader_addLog_def Let_def)
  with Cons show ?case by (simp add: addLogs_def)
qed (simp add: addLogs_def)

text \<open>
  C9. A majority that answers is enough: a leader that has just been elected and has taken the
  requests \<open>ms\<close> runs its threads, one after the other, for followers that make, with it, more than
  half of the servers. If each of these followers is \<open>repairable\<close>, that is in order, its term not
  ahead of the leader's and its log matching the leader's, then every thread returns, the followers
  hold the leader's log, and the leader has committed and applied all of it.
\<close>

theorem majority_round_commits:
  assumes "sv_ok sv" "st = addLogs ms (reinitStates (sv, LeaderImpl0))"
    and "distinct (map fst fs)" "fst ` set fs \<subseteq> set (peers (sv_info sv))" "fs \<noteq> []"
    and "wins (1 + length fs) (sv_info sv)" "\<forall>f \<in> set fs. repairable (fst st) (snd f)"
  shows "\<exists>fvs sv' ld'. replicate_all fs st = Some (fvs, sv', ld') \<and>
    (\<forall>fv \<in> set fvs. repaired (fst st) fv) \<and> entries (sv_state sv') = log_of st \<and>
    length (log_of st) - 1 \<le> commitIdx (sv_state sv') \<and> commitIdx (sv_state sv') \<le> lastApplied (sv_state sv')"
proof -
  let ?len = "length (log_of st)"
  have fresh: "fresh_leader st" unfolding assms(2) by (rule fresh_addLogs [OF fresh_init [OF assms(1)]])
  have info: "sv_info (fst st) = sv_info sv" by (simp add: assms(2) reinitStates_def)
  have nodes: "fst ` set fs \<subseteq> dom (followerNodes (snd st))"
    using assms(4) fresh info by (auto simp: fresh_leader_def)
  from replicate_all_step [OF fresh_leading [OF fresh] assms(7) nodes] obtain fvs st' where
    r: "replicate_all fs st = Some (fvs, st')" "leading st'" "\<forall>fv \<in> set fvs. repaired (fst st) fv"
      "log_of st' = log_of st" "sv_info (fst st') = sv_info (fst st)"
      "\<And>t. t \<in> fst ` set fs \<Longrightarrow> caughtUp (snd st') ?len t" by auto
  have "card (fst ` set fs) \<le> matched (snd st') (?len - 1)"
    unfolding matched_def
  proof (rule card_mono)
    show "finite {s. \<exists>n. followerNodes (snd st') s = Some n \<and> ?len - 1 \<le> matchIdx n}"
      by (rule finite_subset [of _ "dom (followerNodes (snd st'))"])
        (use r(2) in \<open>auto simp: leading_def counts_ok_def Let_def\<close>)
  qed (use r(6) in \<open>force simp: caughtUp_def\<close>)
  moreover have "card (fst ` set fs) = length fs" using distinct_card [OF assms(3)] by simp
  ultimately have "length fs \<le> matched (snd st') (?len - 1)" by simp
  moreover from this have "wins (1 + matched (snd st') (?len - 1)) (sv_info (fst st'))"
    using assms(6) r(5) info by (simp add: wins_def)
  moreover have "0 < length fs" using assms(5) by simp
  ultimately have maj: "0 < matched (snd st') (?len - 1)" "wins (1 + matched (snd st') (?len - 1)) (sv_info (fst st'))"
    by linarith+
  have "?len - 1 \<le> commitIdx (sv_state (fst st'))"
  proof (cases "?len - 1 = 0")
    case False
    with maj r(2) show ?thesis unfolding leading_def r(4) by simp
  qed simp
  moreover have "commitIdx (sv_state (fst st')) \<le> lastApplied (sv_state (fst st'))"
    using r(2) by (simp add: leading_def sv_ok_def)
  ultimately show ?thesis using r(1,3,4) by (metis prod.collapse)
qed

theorem majority_round_commits_witness:
  "\<exists>fvs sv' ld'. replicate_all [(sample_id ''b'', sample_behind)]
       (addLogs [sample_request 9] (reinitStates (sample_server, LeaderImpl0))) = Some (fvs, sv', ld') \<and>
     3 \<le> commitIdx (sv_state sv')"
proof -
  let ?st = "addLogs [sample_request 9] (reinitStates (sample_server, LeaderImpl0))"
  have log: "log_of ?st = entries (sv_state sample_server) @ [newEntry (sample_request 9) sample_server]"
    "currentTerm (sv_state (fst ?st)) = 1"
    by (simp_all add: addLogs_def leader_addLog_def reinitStates_def sample_server_def sample_defs Let_def
      sameRequest_def sample_request_def)
  have "repairable (fst ?st) sample_behind"
    by (rule sample_repairable) (use log in \<open>simp_all add: sample_server_def\<close>)
  then show ?thesis
    using majority_round_commits [OF sample_server_ok refl, of "[(sample_id ''b'', sample_behind)]" "[sample_request 9]"]
    log by (fastforce simp: peers_def wins_def sample_server_def sample_id_def)
qed

end
