(* ===== verification/Log_Matching.thy ===== *)
theory Log_Matching
  imports Cluster Replication
begin

text \<open>
  The logs of a cluster (\<open>Cluster\<close>) whose AppendEntries messages are those that leaders build: if
  the entries of two logs agree in their terms at some index, the logs are equal up to it; no log
  holds a request twice; and a term has one leader at most.

  Two assumptions on schedules come to that of \<open>Cluster\<close> (messages in the order of terms). A
  server runs a transformation that is queued before it does anything else, so a transformation
  finds the term it was decided in. And, without the flag \<open>takeover\<close>, a leader is not handed the
  AppendEntries message of another leader, which it would merge into its log without stepping down.
  With \<open>takeover\<close> logs do not match any more.
\<close>

section \<open>What the operations do to terms, logs and pending transformations\<close>

abbreviation pend :: "Raft \<Rightarrow> ServerIdentityNo list" where
  "pend rf \<equiv> eq_events (sv_eventQueue (rf_server rf))"

abbreviation trig :: "Raft \<Rightarrow> raft_term" where
  "trig rf \<equiv> termTriggered (sv_transformer (rf_server rf))"

abbreviation term_of :: "Raft \<Rightarrow> raft_term" where
  "term_of rf \<equiv> currentTerm (rf_state rf)"

abbreviation rf_log :: "Raft \<Rightarrow> LogEntry list" where
  "rf_log rf \<equiv> entries (rf_state rf)"

text \<open>The gate and the queue of a server are those of another one.\<close>

definition same_gate :: "Server \<Rightarrow> Server \<Rightarrow> bool" where
  "same_gate sv sv' \<longleftrightarrow> sv_transformer sv' = sv_transformer sv \<and> sv_eventQueue sv' = sv_eventQueue sv"

lemma same_gate_refl [simp]: "same_gate sv sv"
  by (simp add: same_gate_def)

lemma same_gate_trans: "same_gate a b \<Longrightarrow> same_gate b c \<Longrightarrow> same_gate a c"
  by (simp add: same_gate_def)

lemma same_gate_notify: "same_gate (sv_notify i t sv) (sv_notify i t (sv\<lparr>sv_state := s\<rparr>))"
  by (simp add: same_gate_def sv_notify_def split: prod.splits)

lemma same_gate_apply: "applyReadyEntries sv = Some sv' \<Longrightarrow> same_gate sv sv'"
  by (auto simp: applyReadyEntries_def same_gate_def Let_def split: if_splits)

lemma sv_notify_trig:
  "termTriggered (sv_transformer (sv_notify i t sv)) =
     (if termTriggered (sv_transformer sv) = InvalidTerm \<or> termTriggered (sv_transformer sv) < t
      then t else termTriggered (sv_transformer sv))"
  by (cases "sv_transformer sv") (simp add: sv_notify_def notify_def)

lemma requestVote_gate:
  assumes "currentTerm (sv_state sv) \<le> rv_term msg" "defaultRPCRequestVote msg i sv = Some (r, sv')"
  shows "same_gate (if currentTerm (sv_state sv) < rv_term msg \<and> i \<noteq> Follower
    then sv_notify Follower (rv_term msg) sv else sv) sv'"
proof -
  from assms obtain sv1 where b: "requestVote_body msg i sv = Some (r, sv1)" and a: "applyReadyEntries sv1 = Some sv'"
    by (auto simp: defaultRPCRequestVote_def checkRpcTerm_fresh Option.bind_eq_Some_conv)
  have "same_gate (if currentTerm (sv_state sv) < rv_term msg \<and> i \<noteq> Follower
      then sv_notify Follower (rv_term msg) sv else sv) sv1"
    using b assms(1) same_gate_notify
    by (auto simp: requestVote_body_def Let_def Option.bind_eq_Some_conv sv_restart_Some same_gate_def split: if_splits)
  with same_gate_apply [OF a] show ?thesis by (rule same_gate_trans [rotated])
qed

lemma appendEntries_gate:
  assumes "currentTerm (sv_state sv) \<le> ae_term msg" "defaultRPCAppendEntries msg i sv = Some (r, sv')"
  shows "same_gate sv sv'"
proof -
  from assms obtain sv1 where b: "appendEntries_body msg sv = Some (r, sv1)" and a: "applyReadyEntries sv1 = Some sv'"
    by (auto simp: defaultRPCAppendEntries_def checkRpcTerm_fresh Option.bind_eq_Some_conv)
  have "same_gate sv sv1"
    using b by (auto simp: appendEntries_body_def Let_def Option.bind_eq_Some_conv same_gate_def split: if_splits)
  with same_gate_apply [OF a] show ?thesis by (rule same_gate_trans [rotated])
qed

text \<open>A vote request, on a server without pending transformations.\<close>

lemma raft_requestVote_effect:
  assumes "raft_ok rf" "term_of rf \<le> rv_term msg" "raft_requestVote msg rf = Some (r, rf')"
    and "pend rf = []" "trig rf \<le> term_of rf"
  shows "rf_identity rf' = rf_identity rf \<and> rf_log rf' = rf_log rf \<and> term_of rf \<le> term_of rf' \<and>
    trig rf' \<le> term_of rf' \<and> (pend rf' = [] \<or> pend rf' = [Follower]) \<and>
    (term_of rf < term_of rf' \<longrightarrow> rf_identity rf = Follower \<or> pend rf' = [Follower])"
proof (cases "active rf")
  case True
  let ?sv = "rf_server rf"
  have ok: "sv_ok ?sv" using assms(1) True by (simp add: raft_ok_active)
  have d: "defaultRPCRequestVote msg (rf_identity rf) ?sv = Some (r, rf_server rf')" "rf_identity rf' = rf_identity rf"
    using True assms(3)
    by (auto simp: active_def set_server_def set_leader_def follower_requestVote_def candidate_requestVote_def
        leader_requestVote_def Option.bind_eq_Some_conv)
  note s = requestVote_SomeD(3) [OF ok d(1)] and g = requestVote_gate [OF assms(2) d(1)]
  have "rf_log rf' = rf_log rf" "term_of rf' = rv_term msg" using s by (simp_all add: votedState_def)
  moreover have "trig rf' = (if term_of rf < rv_term msg \<and> rf_identity rf \<noteq> Follower then rv_term msg else trig rf)"
    "pend rf' = (if term_of rf < rv_term msg \<and> rf_identity rf \<noteq> Follower then [Follower] else [])"
    using g assms(2,4,5) by (auto simp: same_gate_def sv_notify_trig sv_notify_events split: if_splits)
  ultimately show ?thesis using assms(2,5) d(2) by auto
next
  case False
  then have "rf' = rf" using assms(3) raft_ok_inactive [OF assms(1)] by (auto simp: set_server_def bogus_requestVote_def)
  with assms show ?thesis by simp
qed

text \<open>An AppendEntries message, on a server that is not a leader.\<close>

lemma raft_appendEntries_effect:
  assumes "raft_ok rf" "term_of rf \<le> ae_term msg" "raft_appendEntries msg rf = Some (r, rf')"
    and "pend rf = []" "trig rf \<le> term_of rf" "rf_identity rf \<noteq> Leader"
  shows "rf_identity rf' = rf_identity rf \<and> term_of rf' = term_of rf \<and> trig rf' \<le> term_of rf' \<and>
    (pend rf' = [] \<or> pend rf' = [Follower]) \<and>
    (rf_log rf' = rf_log rf \<or> matchesPrev msg (rf_state rf) \<and>
       rf_log rf' = appendLog (rf_log rf) (ae_prevLogIdx msg) (ae_logEntries msg))"
proof (cases "active rf")
  case True
  let ?sv = "rf_server rf"
  have ok: "sv_ok ?sv" using assms(1) True by (simp add: raft_ok_active)
  obtain sv i where d: "defaultRPCAppendEntries msg i sv = Some (r, rf_server rf')" and id: "rf_identity rf' = rf_identity rf"
    and sv: "sv_ok sv" "sv_state sv = rf_state rf"
      "termTriggered (sv_transformer sv) \<le> term_of rf" "eq_events (sv_eventQueue sv) = [] \<or> eq_events (sv_eventQueue sv) = [Follower]"
  proof -
    consider "rf_identity rf = Follower" | "rf_identity rf = Candidate" using True assms(6) by (auto simp: active_def)
    then show thesis
    proof cases
      case 1
      obtain h where "follower_appendEntries msg ?sv = defaultRPCAppendEntries msg Follower (?sv\<lparr>sv_heartBeat := h\<rparr>)"
        "sv_ok (?sv\<lparr>sv_heartBeat := h\<rparr>)" using ok assms(2) by (rule follower_appendEntries_fresh)
      then show thesis using 1 assms(3-5) by (intro that [of Follower "?sv\<lparr>sv_heartBeat := h\<rparr>"]) (auto simp: set_server_def)
    next
      case 2
      let ?sv' = "if ae_term msg = term_of rf then sv_notify Follower (term_of rf) ?sv else ?sv"
      show thesis
      proof (rule that [of Candidate ?sv'])
        show "sv_ok ?sv'" using ok by (simp add: keeps_intros)
      qed (use 2 assms(3-5) in \<open>auto simp: set_server_def candidate_appendEntries_def Let_def sv_notify_trig sv_notify_events\<close>)
    qed
  qed
  from appendEntries_returns [OF sv(1), of msg i] d have s: "rf_state rf' = appendedState msg (rf_state rf)" using sv(2) by simp
  have "same_gate sv (rf_server rf')" using appendEntries_gate [OF _ d] assms(2) sv(2) by simp
  then show ?thesis
    using s id sv(3,4) assms(2) appendedState_refused [of msg "rf_state rf"] appendedState_merged [of msg "rf_state rf"]
    by (cases "matchesPrev msg (rf_state rf)") (auto simp: same_gate_def min_absorb1)
next
  case False
  then have "rf' = rf" using assms(3) raft_ok_inactive [OF assms(1)] by (auto simp: set_server_def bogus_appendEntries_def)
  with assms show ?thesis by simp
qed

text \<open>
  \<open>tryAppendEntries\<close> leaves the log alone, and raises the term only together with a notification.
\<close>

definition notified :: "Server \<Rightarrow> Server \<Rightarrow> bool" where
  "notified sv sv' \<longleftrightarrow> currentTerm (sv_state sv) < currentTerm (sv_state sv') \<and>
     same_gate (sv_notify Follower (currentTerm (sv_state sv')) sv) sv'"

lemma same_gate_notified:
  "notified sv sv1 \<Longrightarrow> same_gate sv1 sv2 \<Longrightarrow> currentTerm (sv_state sv2) = currentTerm (sv_state sv1) \<Longrightarrow> notified sv sv2"
  by (auto simp: notified_def intro: same_gate_trans)

lemma ta_reply_gate:
  assumes "ta_reply t msg res (sv, ld) = Some (nx, sv', ld')"
  shows "sv' = sv \<or> nx = TaReturn \<and> notified sv sv'"
proof -
  from assms obtain node where "followerNodes ld t = Some node" by (auto simp: ta_reply_def Option.bind_eq_Some_conv)
  with assms show ?thesis by (auto simp: ta_reply_def Let_def notified_def intro: same_gate_notify split: if_splits)
qed

lemma ta_loop_gate:
  "ta_loop t n rs (sv, ld) = Some (b, sv', ld') \<Longrightarrow> sv' = sv \<or> \<not> b \<and> notified sv sv'"
proof (induction rs arbitrary: n ld)
  case (Cons r rs)
  show ?case
  proof (cases r)
    case Interrupted
    with Cons.prems show ?thesis by simp
  next
    case RpcError
    with Cons.prems Cons.IH show ?thesis by (auto split: option.splits if_splits)
  next
    case (Replied res)
    with Cons.prems obtain msg nx sv1 ld1 where 1: "ta_reply t msg res (sv, ld) = Some (nx, sv1, ld1)"
      "sv' = sv1 \<and> (b \<longrightarrow> nx = TaSucceeded) \<or> nx = TaRetry \<and> ta_loop t n rs (sv1, ld1) = Some (b, sv', ld')"
      by (auto split: option.splits ta_next.splits)
    from ta_reply_gate [OF 1(1)] 1(2) Cons.IH [of n ld1] show ?thesis by auto
  qed
qed simp

lemma fold_ta_count_gate:
  "fold ta_count is (sv, ld) = (sv', ld') \<Longrightarrow> same_gate sv sv' \<and>
     currentTerm (sv_state sv') = currentTerm (sv_state sv)"
proof (induction "is" arbitrary: sv ld)
  case (Cons i "is")
  obtain sv1 ld1 where 1: "ta_count i (sv, ld) = (sv1, ld1)" by fastforce
  then have "same_gate sv sv1" "currentTerm (sv_state sv1) = currentTerm (sv_state sv)"
    by (auto simp: ta_count_def Let_def same_gate_def)
  with Cons.IH [of sv1 ld1] Cons.prems 1 show ?case by (auto intro: same_gate_trans)
qed simp

lemma ta_commit_gate:
  assumes "ta_commit old (sv, ld) = Some (sv', ld')"
  shows "same_gate sv sv' \<and> currentTerm (sv_state sv') = currentTerm (sv_state sv)"
proof -
  obtain sv1 ld1 where 1: "fold ta_count [old + 1 ..< length (logStates ld)] (sv, ld) = (sv1, ld1)" by fastforce
  with assms have "applyReadyEntries sv1 = Some sv'" by (auto simp: ta_commit_def)
  with fold_ta_count_gate [OF 1] show ?thesis
    by (auto dest: same_gate_apply applyReadyEntries_frame intro: same_gate_trans)
qed

lemma tryAppendEntries_gate:
  assumes "tryAppendEntries t rs (sv, ld) = Some (sv', ld')"
  shows "currentTerm (sv_state sv') = currentTerm (sv_state sv) \<and> same_gate sv sv' \<or> notified sv sv'"
  using assms
proof (rule tryAppendEntries_Some, goal_cases)
  case (1 node b st1)
  obtain sv1 ld1 where "st1 = (sv1, ld1)" by (cases st1)
  with 1 ta_loop_gate [of t 0 rs sv ld b sv1 ld1] ta_commit_gate [of "matchIdx node" sv1 ld1 sv' ld'] show ?case
    by (auto intro: same_gate_notified split: if_splits)
qed

lemma raft_addLog_effect:
  assumes "raft_ok rf" "raft_addLog m rf = Some (r, rf')"
  shows "rf_identity rf' = rf_identity rf \<and> term_of rf' = term_of rf \<and> same_gate (rf_server rf) (rf_server rf') \<and>
    (rf_log rf' = rf_log rf \<or> rf_identity rf = Leader \<and> (al_srvId m, al_prmIdx m) \<notin> requestKey ` set (rf_log rf) \<and>
       rf_log rf' = rf_log rf @ [newEntry m (rf_server rf)])"
proof (cases "rf_identity rf = Leader")
  case True
  have "rf_identity rf' = rf_identity rf" "term_of rf' = term_of rf" "same_gate (rf_server rf) (rf_server rf')"
    using assms(2) True by (auto simp: leader_addLog_def Let_def same_gate_def split: if_splits)
  moreover have "rf_log rf' = log_of (snd (leader_addLog m (rf_server rf, rf_leader rf)))"
    using assms(2) True by (auto split: prod.splits)
  ultimately show ?thesis using True by (simp add: leader_addLog_log)
next
  case False
  then have "rf' = rf" using assms by (cases "rf_identity rf") (auto simp: addLog_same bogus_addLog_def)
  then show ?thesis by simp
qed

lemma raft_timeout_effect:
  assumes "raft_timeout rf = Some rf'" "pend rf = []" "trig rf \<le> term_of rf"
  shows "rf_identity rf' = rf_identity rf \<and> rf_state rf' = rf_state rf \<and> rf_candidate rf' = rf_candidate rf \<and>
    trig rf' \<le> term_of rf' \<and> (pend rf' = [] \<or> pend rf' = [Candidate])"
  using assms by (auto simp: raft_timeout_def follower_timeout_def candidate_timeout_def sv_notify_trig sv_notify_events
      split: option.splits HeartBeatFunc.splits if_splits)

text \<open>A transformation.\<close>

lemma leave_identity_transformer:
  "leave_identity i rf = Some rf' \<Longrightarrow> sv_transformer (rf_server rf') = sv_transformer (rf_server rf)"
  by (cases i) (auto simp: follower_leave_def candidate_leave_def leader_leave_def)

lemma init_identity_trig:
  assumes "init_identity hb timeout target rf = Some rf'" "trig rf \<le> term_of rf"
    and "target = Candidate \<longrightarrow> term_of rf < term_of rf + 1"
  shows "trig rf' \<le> term_of rf'"
proof (cases target)
  case Candidate
  with assms show ?thesis
    by (auto simp: candidate_init_def requestVotes_def Let_def sv_notify_trig Option.bind_eq_Some_conv split: if_splits prod.splits)
qed (use assms in \<open>auto simp: follower_init_def leader_init_def reinitStates_def Let_def split: prod.splits if_splits\<close>)

lemma raft_event_trig:
  assumes "raft_event (\<lambda>from to. to) hb timeout rf = Some rf'" "pend rf = target # rest" "raft_ok rf"
    and "trig rf \<le> term_of rf" "target = Candidate \<longrightarrow> term_of rf < term_of rf + 1"
  shows "trig rf' \<le> term_of rf'"
proof -
  have "eq_idle (sv_eventQueue (rf_server rf))" using assms(3) by (simp add: raft_ok_def raft_base_def)
  then obtain q where q: "eq_exec1 (sv_eventQueue (rf_server rf)) = Some (target, q)" "eq_idle q"
    using assms(2) by (rule eq_exec1_events)
  let ?rf = "rf\<lparr>rf_server := (rf_server rf)\<lparr>sv_eventQueue := q\<rparr>\<rparr>"
  have ok: "raft_ok ?rf" using assms(3) q(2) by (rule raft_ok_queue)
  obtain rf1 where leave: "leave_identity (rf_identity ?rf) (?rf\<lparr>rf_paused := True\<rparr>) = Some rf1"
    "sv_state (rf_server rf1) = rf_state ?rf" "sv_transformer (rf_server rf1) = sv_transformer (rf_server ?rf)"
    using ok by (rule leave_identity_ok)
  from assms(1) q(1) leave(1) obtain rf2 where
    "init_identity hb timeout target (rf1\<lparr>rf_identity := target\<rparr>) = Some rf2" "rf' = rf2\<lparr>rf_paused := False\<rparr>"
    by (auto simp: raft_event_def transform_def Let_def Option.bind_eq_Some_conv)
  with init_identity_trig [OF this(1)] leave(2,3) assms(4,5) show ?thesis by simp
qed

section \<open>The system\<close>

text \<open>
  \<open>lc_msgs\<close> are the AppendEntries messages that have been sent, each with the whole log it was cut
  from; \<open>lc_led\<close> records which server became leader in which term.
\<close>

record LogCluster =
  lc_cl :: Cluster
  lc_msgs :: "(AppendEntriesMessage \<times> LogEntry list) set"
  lc_led :: "(ServerId \<times> raft_term) set"

definition lc_init :: "ServerId list \<Rightarrow> nat \<Rightarrow> LogCluster" where
  "lc_init servers et = \<lparr>lc_cl = cl_init servers et, lc_msgs = {}, lc_led = {}\<rparr>"

abbreviation lc_raft :: "LogCluster \<Rightarrow> ServerId \<Rightarrow> Raft" where
  "lc_raft s i \<equiv> cl_raft (lc_cl s) i"

datatype lc_label = Run cluster_label | SendEntries ServerId index

fun lc_server :: "lc_label \<Rightarrow> ServerId" where
  "lc_server (Run l) = label_server l"
| "lc_server (SendEntries i start) = i"

text \<open>A queued transformation comes first.\<close>

fun prompt :: "cluster_label \<Rightarrow> Cluster \<Rightarrow> bool" where
  "prompt (RunTransform i timeout) c = True"
| "prompt l c = (pend (cl_raft c (label_server l)) = [])"

fun deliverable :: "bool \<Rightarrow> cluster_label \<Rightarrow> LogCluster \<Rightarrow> bool" where
  "deliverable takeover (DeliverEntries j m) s =
     (m \<in> fst ` lc_msgs s \<and> (takeover \<or> rf_identity (lc_raft s j) \<noteq> Leader))"
| "deliverable takeover l s = True"

fun newly_led :: "cluster_label \<Rightarrow> Cluster \<Rightarrow> (ServerId \<times> raft_term) set" where
  "newly_led (RunTransform i timeout) c =
     (if take 1 (pend (cl_raft c i)) = [Leader] then {(i, term_of (cl_raft c i))} else {})"
| "newly_led l c = {}"

fun lc_do :: "bool \<Rightarrow> lc_label \<Rightarrow> LogCluster \<Rightarrow> LogCluster option" where
  "lc_do takeover (Run l) s = (if prompt l (lc_cl s) \<and> deliverable takeover l s
     then map_option (\<lambda>c. s\<lparr>lc_cl := c, lc_led := lc_led s \<union> newly_led l (lc_cl s)\<rparr>) (cl_do True l (lc_cl s))
     else None)"
| "lc_do takeover (SendEntries i start) s = (let rf = lc_raft s i in
     if rf_identity rf = Leader \<and> pend rf = []
     then map_option (\<lambda>m. s\<lparr>lc_msgs := insert (m, rf_log rf) (lc_msgs s)\<rparr>)
       (createAppendEntriesMessage (rf_server rf) start)
     else None)"

inductive lc_reach :: "bool \<Rightarrow> ServerId list \<Rightarrow> nat \<Rightarrow> LogCluster \<Rightarrow> bool" for takeover servers et where
  lc_start: "lc_reach takeover servers et (lc_init servers et)"
| lc_step: "lc_reach takeover servers et s \<Longrightarrow> lc_server l \<in> set servers \<Longrightarrow> lc_do takeover l s = Some s' \<Longrightarrow>
    lc_reach takeover servers et s'"

fun lc_replay :: "bool \<Rightarrow> lc_label list \<Rightarrow> LogCluster \<Rightarrow> LogCluster option" where
  "lc_replay takeover [] s = Some s"
| "lc_replay takeover (l # ls) s = Option.bind (lc_do takeover l s) (lc_replay takeover ls)"

lemma lc_replay_reach:
  "lc_reach takeover servers et s \<Longrightarrow> list_all (\<lambda>l. lc_server l \<in> set servers) ls \<Longrightarrow>
     lc_replay takeover ls s = Some s' \<Longrightarrow> lc_reach takeover servers et s'"
  by (induction ls arbitrary: s) (auto simp: Option.bind_eq_Some_conv intro: lc_step simp del: lc_do.simps)

lemma lc_reach_cl: "lc_reach takeover servers et s \<Longrightarrow> cl_reach True servers et (lc_cl s)"
proof (induction rule: lc_reach.induct)
  case (lc_step s l s')
  then show ?case
    by (cases l) (auto simp: Let_def intro: cl_step split: if_splits)
qed (simp add: lc_init_def cl_start)

text \<open>The messages of \<open>tryAppendEntries\<close> are among those that are sent.\<close>

lemma ta_build_sends:
  "ta_build t (sv, ld) = Some m \<Longrightarrow> \<exists>start. createAppendEntriesMessage sv start = Some m"
  by (auto simp: ta_build_def Option.bind_eq_Some_conv)

section \<open>The invariant of the logs\<close>

definition lc_logs :: "LogCluster \<Rightarrow> LogEntry list set" where
  "lc_logs s = range (\<lambda>i. rf_log (lc_raft s i)) \<union> snd ` lc_msgs s"

definition logs_ok :: "(ServerId \<times> raft_term) set \<Rightarrow> LogEntry list set \<Rightarrow> bool" where
  "logs_ok led logs \<longleftrightarrow> (\<forall>X \<in> logs. \<exists>es. X = LogEntry0 # es) \<and> (\<forall>X \<in> logs. \<forall>Y \<in> logs. logMatching X Y) \<and>
     (\<forall>X \<in> logs. \<forall>k. 1 \<le> k \<longrightarrow> k < length X \<longrightarrow> le_term (X ! k) \<in> snd ` led) \<and>
     (\<forall>X \<in> logs. distinct (map requestKey X))"

definition cut_from :: "AppendEntriesMessage \<Rightarrow> LogEntry list \<Rightarrow> bool" where
  "cut_from m X \<longleftrightarrow> ae_prevLogIdx m < length X \<and> ae_prevLogTerm m = le_term (X ! ae_prevLogIdx m) \<and>
     ae_logEntries m = drop (ae_prevLogIdx m + 1) X"

text \<open>The log \<open>L\<close> reaches at least as far as every entry of term \<open>t\<close>.\<close>

definition tops :: "LogEntry list set \<Rightarrow> raft_term \<Rightarrow> LogEntry list \<Rightarrow> bool" where
  "tops logs t L \<longleftrightarrow> (\<forall>X \<in> logs. \<forall>k. 1 \<le> k \<longrightarrow> k < length X \<longrightarrow> le_term (X ! k) = t \<longrightarrow> k < length L)"

definition leads_ok :: "(ServerId \<times> raft_term) set \<Rightarrow> LogEntry list set \<Rightarrow> ServerId \<Rightarrow> Raft \<Rightarrow> bool" where
  "leads_ok led logs i rf \<longleftrightarrow> (rf_identity rf = Leader \<and> pend rf = [] \<longrightarrow>
     (i, term_of rf) \<in> led \<and> tops logs (term_of rf) (rf_log rf))"

definition queue_ok :: "(ServerId \<times> raft_term) set \<Rightarrow> (ServerId \<times> raft_term) set \<Rightarrow> raft_term \<Rightarrow> ServerId \<Rightarrow> Raft \<Rightarrow> bool" where
  "queue_ok won led el i rf \<longleftrightarrow> length (pend rf) \<le> 1 \<and> trig rf \<le> term_of rf \<and>
     (\<forall>t. (i, t) \<in> led \<longrightarrow> t \<le> term_of rf \<and> (t = term_of rf \<longrightarrow> rf_identity rf \<noteq> Candidate)) \<and>
     (Leader \<in> set (pend rf) \<longrightarrow> rf_identity rf = Candidate \<and> (i, term_of rf) \<in> won) \<and>
     (rf_identity rf = Candidate \<and> pend rf = [] \<longrightarrow> el = term_of rf)"

definition lc_inv :: "LogCluster \<Rightarrow> bool" where
  "lc_inv s \<longleftrightarrow> logs_ok (lc_led s) (lc_logs s) \<and> (\<forall>(m, X) \<in> lc_msgs s. cut_from m X) \<and>
     lc_led s \<subseteq> cl_won (lc_cl s) \<and>
     (\<forall>i. queue_ok (cl_won (lc_cl s)) (lc_led s) (cl_elect (lc_cl s) i) i (lc_raft s i)) \<and>
     (\<forall>i. leads_ok (lc_led s) (lc_logs s) i (lc_raft s i))"

lemma logs_ok_subset: "logs_ok led logs \<Longrightarrow> logs' \<subseteq> logs \<Longrightarrow> led \<subseteq> led' \<Longrightarrow> logs_ok led' logs'"
  unfolding logs_ok_def by (meson image_mono subset_iff)

lemma tops_subset: "tops logs t L \<Longrightarrow> logs' \<subseteq> logs \<Longrightarrow> length L \<le> length L' \<Longrightarrow> tops logs' t L'"
  unfolding tops_def by (meson less_le_trans subset_iff)

text \<open>A merge of two matching logs is one of the two.\<close>

lemma appendLog_either:
  assumes "logMatching es ls" "prev < length es" "prev < length ls" "le_term (es ! prev) = le_term (ls ! prev)"
  shows "appendLog es prev (drop (prev + 1) ls) = es \<or> appendLog es prev (drop (prev + 1) ls) = ls"
proof -
  let ?new = "drop (prev + 1) ls" and ?a = "appendLog es prev (drop (prev + 1) ls)"
  let ?off = "matchOffset es ?new prev 0"
  show ?thesis
  proof (cases "?off = length ?new")
    case True
    then show ?thesis by (simp add: appendLog_alt [OF assms(2)] Let_def)
  next
    case False
    have "?off \<le> length ?new" using matchOffset_bounds [of 0 ?new es prev] by simp
    moreover have "prev + ?off + 1 \<le> length es" by (rule matchOffset_fits [OF assms(2)])
    ultimately have "length ?a = length ls"
      using False assms(3) by (simp add: appendLog_alt [OF assms(2)] Let_def)
    with appendLog_repairs [OF assms] show ?thesis by simp
  qed
qed

section \<open>It is preserved\<close>

abbreviation lc_won :: "LogCluster \<Rightarrow> (ServerId \<times> raft_term) set" where
  "lc_won s \<equiv> cl_won (lc_cl s)"

abbreviation lc_elect :: "LogCluster \<Rightarrow> ServerId \<Rightarrow> raft_term" where
  "lc_elect s \<equiv> cl_elect (lc_cl s)"

lemma lc_invD:
  assumes "lc_inv s"
  shows "logs_ok (lc_led s) (lc_logs s)" "\<And>m X. (m, X) \<in> lc_msgs s \<Longrightarrow> cut_from m X" "lc_led s \<subseteq> lc_won s"
    "queue_ok (lc_won s) (lc_led s) (lc_elect s i) i (lc_raft s i)" "leads_ok (lc_led s) (lc_logs s) i (lc_raft s i)"
  using assms by (auto simp: lc_inv_def)

lemma lc_logs_mem [intro, simp]: "rf_log (lc_raft s i) \<in> lc_logs s" "(m, X) \<in> lc_msgs s \<Longrightarrow> X \<in> lc_logs s"
  by (force simp: lc_logs_def)+

lemma queue_ok_mono:
  assumes "queue_ok won led el i rf" "won \<subseteq> won'" "\<And>t. (i, t) \<in> led' \<Longrightarrow> (i, t) \<in> led"
  shows "queue_ok won' led' el i rf"
  using assms unfolding queue_ok_def by blast

text \<open>A step at the server \<open>i\<close> that brings no new log.\<close>

lemma lc_inv_step:
  assumes inv: "lc_inv s"
    and same: "\<And>j. j \<noteq> i \<Longrightarrow> lc_raft s' j = lc_raft s j" "lc_msgs s' = lc_msgs s"
      "lc_won s \<subseteq> lc_won s'" "\<And>j. j \<noteq> i \<Longrightarrow> lc_elect s' j = lc_elect s j"
    and led: "lc_led s \<subseteq> lc_led s'" "\<And>j t. (j, t) \<in> lc_led s' \<Longrightarrow> (j, t) \<in> lc_led s \<or> j = i" "lc_led s' \<subseteq> lc_won s'"
    and log: "rf_log (lc_raft s' i) \<in> lc_logs s"
    and node: "queue_ok (lc_won s') (lc_led s') (lc_elect s' i) i (lc_raft s' i)"
      "leads_ok (lc_led s') (lc_logs s) i (lc_raft s' i)"
  shows "lc_inv s'"
proof -
  note old = lc_invD [OF inv]
  have sub: "lc_logs s' \<subseteq> lc_logs s"
  proof
    fix X assume "X \<in> lc_logs s'"
    then consider j where "X = rf_log (lc_raft s' j)" | m where "(m, X) \<in> lc_msgs s'" by (auto simp: lc_logs_def)
    then show "X \<in> lc_logs s"
    proof cases
      case 1
      then show ?thesis using log same(1) by (cases "j = i") auto
    qed (use same(2) in auto)
  qed
  have "queue_ok (lc_won s') (lc_led s') (lc_elect s' j) j (lc_raft s' j)" for j
  proof (cases "j = i")
    case False
    have "queue_ok (lc_won s') (lc_led s') (lc_elect s j) j (lc_raft s j)"
      by (rule queue_ok_mono [OF old(4) [of j] same(3)]) (use led(2) False in blast)
    with same(1,4) False show ?thesis by simp
  qed (use node in simp)
  moreover have "leads_ok (lc_led s') (lc_logs s') j (lc_raft s' j)" for j
  proof (cases "j = i")
    case True
    with node(2) sub show ?thesis by (auto simp: leads_ok_def intro: tops_subset)
  next
    case False
    with old(5) [of j] same(1) led(1) sub show ?thesis by (auto simp: leads_ok_def intro: tops_subset)
  qed
  ultimately show ?thesis
    using logs_ok_subset [OF old(1) sub led(1)] old(2) same(2) led(3) by (auto simp: lc_inv_def)
qed

text \<open>What most operations do to a server without pending transformations.\<close>

lemma quiet_node:
  assumes "queue_ok won led el i rf" "leads_ok led logs i rf" "pend rf = []"
    and "rf_identity rf' = rf_identity rf" "term_of rf \<le> term_of rf'"
    and "term_of rf < term_of rf' \<Longrightarrow> rf_identity rf = Follower \<or> pend rf' \<noteq> []"
    and "length (pend rf') \<le> 1" "Leader \<notin> set (pend rf')" "trig rf' \<le> term_of rf'"
    and "rf_identity rf = Leader \<Longrightarrow> length (rf_log rf) \<le> length (rf_log rf')"
  shows "queue_ok won led el i rf'" "leads_ok led logs i rf'"
proof -
  from assms(1) have led: "\<And>t. (i, t) \<in> led \<Longrightarrow> t \<le> term_of rf \<and> (t = term_of rf \<longrightarrow> rf_identity rf \<noteq> Candidate)"
    and el: "rf_identity rf = Candidate \<Longrightarrow> el = term_of rf" using assms(3) by (auto simp: queue_ok_def)
  have "t \<le> term_of rf' \<and> (t = term_of rf' \<longrightarrow> rf_identity rf' \<noteq> Candidate)" if "(i, t) \<in> led" for t
    using led [OF that] assms(4,5) by (metis order.trans order.antisym)
  moreover have "el = term_of rf'" if "rf_identity rf' = Candidate" "pend rf' = []"
  proof -
    have "\<not> term_of rf < term_of rf'" using assms(4,6) that by auto
    then have "term_of rf' = term_of rf" using assms(5) by (simp add: not_less)
    with el assms(4) that(1) show ?thesis by simp
  qed
  ultimately show "queue_ok won led el i rf'" using assms(7-9) by (simp add: queue_ok_def)
  show "leads_ok led logs i rf'"
    unfolding leads_ok_def
  proof (intro impI)
    assume l: "rf_identity rf' = Leader \<and> pend rf' = []"
    then have "\<not> term_of rf < term_of rf'" using assms(4,6) by auto
    then have "term_of rf' = term_of rf" using assms(5) by (simp add: not_less)
    with l assms(2,3,4,10) show "(i, term_of rf') \<in> led \<and> tops logs (term_of rf') (rf_log rf')"
      by (auto simp: leads_ok_def intro: tops_subset)
  qed
qed

text \<open>A step that lets one server alone, but for its term, its queue and entries that are known.\<close>

lemma lc_inv_quiet:
  assumes inv: "lc_inv s" and rf: "rf = lc_raft s i" "pend rf = []"
    and s': "s' = s\<lparr>lc_cl := c\<rparr>" "cl_raft c = (cl_raft (lc_cl s))(i := rf')" "cl_won c = lc_won s" "cl_elect c = lc_elect s"
    and rf': "rf_identity rf' = rf_identity rf" "term_of rf \<le> term_of rf'"
      "term_of rf < term_of rf' \<Longrightarrow> rf_identity rf = Follower \<or> pend rf' \<noteq> []"
      "length (pend rf') \<le> 1" "Leader \<notin> set (pend rf')" "trig rf' \<le> term_of rf'" "rf_log rf' = rf_log rf"
  shows "lc_inv s'"
proof (rule lc_inv_step [OF inv, of i])
  note old = lc_invD [OF inv]
  note node = quiet_node [OF old(4) [of i] old(5) [of i], folded rf(1), OF rf(2) rf'(1-6)]
  show "queue_ok (lc_won s') (lc_led s') (lc_elect s' i) i (lc_raft s' i)"
    "leads_ok (lc_led s') (lc_logs s) i (lc_raft s' i)"
    using node rf'(7) s' by simp_all
  show "lc_led s' \<subseteq> lc_won s'" using old(3) s' by simp
  show "rf_log (lc_raft s' i) \<in> lc_logs s" using s' rf'(7) rf(1) by simp
qed (use s' in simp_all)

lemma lc_inv_trigger:
  assumes "lc_inv s" "pend (lc_raft s i) = []" "target \<noteq> Leader"
  shows "lc_inv (s\<lparr>lc_cl := cl_put i (triggerTransformation target (lc_raft s i)) (lc_cl s)\<rparr>)"
  by (rule lc_inv_quiet [where rf' = "triggerTransformation target (lc_raft s i)", OF assms(1) refl assms(2) refl])
    (use assms lc_invD(4) [OF assms(1), of i] in
      \<open>simp_all add: cl_put_def triggerTransformation_def queue_ok_def\<close>)

lemma lc_inv_timer:
  assumes inv: "lc_inv s" "pend (lc_raft s i) = []" and call: "raft_timeout (lc_raft s i) = Some rf'"
  shows "lc_inv (s\<lparr>lc_cl := cl_put i rf' (lc_cl s)\<rparr>)"
proof -
  have "trig (lc_raft s i) \<le> term_of (lc_raft s i)" using lc_invD(4) [OF inv(1)] by (simp add: queue_ok_def)
  note eff = raft_timeout_effect [OF call inv(2) this]
  show ?thesis
    by (rule lc_inv_quiet [where rf' = rf', OF inv(1) refl inv(2) refl]) (use eff in \<open>auto simp: cl_put_def\<close>)
qed

lemma lc_inv_vote:
  assumes inv: "lc_inv s" "pend (lc_raft s j) = []" "raft_ok (lc_raft s j)"
    and run: "cl_do True (DeliverVote j m) (lc_cl s) = Some c"
  shows "lc_inv (s\<lparr>lc_cl := c\<rparr>)"
proof -
  define rf where "rf = lc_raft s j"
  obtain r rf' where le: "term_of rf \<le> rv_term m" and call: "raft_requestVote m rf = Some (r, rf')"
    and c: "c = (cl_put j rf' (lc_cl s))\<lparr>cl_answers := cl_answers (lc_cl s) \<union> {(j, m, r)},
      cl_votes := cl_votes (lc_cl s) \<union> (if snd r then {(j, rv_term m, rv_candidateId m)} else {})\<rparr>"
    using run by (auto simp: rf_def [symmetric] Let_def not_less simp del: raft_requestVote.simps split: if_splits)
  have "trig rf \<le> term_of rf" using lc_invD(4) [OF inv(1)] by (simp add: queue_ok_def rf_def)
  with raft_requestVote_effect [OF _ le call] inv(2,3)
  have eff: "rf_identity rf' = rf_identity rf \<and> rf_log rf' = rf_log rf \<and> term_of rf \<le> term_of rf' \<and>
      trig rf' \<le> term_of rf' \<and> (pend rf' = [] \<or> pend rf' = [Follower]) \<and>
      (term_of rf < term_of rf' \<longrightarrow> rf_identity rf = Follower \<or> pend rf' = [Follower])" by (simp add: rf_def)
  show ?thesis
    by (rule lc_inv_quiet [where rf' = rf', OF inv(1) rf_def _ refl]) (use eff inv(2) in \<open>auto simp: cl_put_def c rf_def\<close>)
qed

lemma lc_inv_fails:
  assumes inv: "lc_inv s" "pend (lc_raft s i) = []" and run: "cl_do True (VoteFails i k) (lc_cl s) = Some c"
  shows "lc_inv (s\<lparr>lc_cl := c\<rparr>)"
proof -
  obtain d where c: "c = cl_put i ((lc_raft s i)\<lparr>rf_candidate := d\<rparr>) (lc_cl s)"
    using run by (auto simp: Let_def vote_thread_def split: if_splits)
  show ?thesis
    by (rule lc_inv_quiet [where rf' = "(lc_raft s i)\<lparr>rf_candidate := d\<rparr>", OF inv(1) refl inv(2) refl])
      (use inv lc_invD(4) [OF inv(1), of i] in \<open>simp_all add: c cl_put_def queue_ok_def\<close>)
qed

lemma lc_inv_replicate:
  assumes inv: "lc_inv s" "pend (lc_raft s i) = []" "raft_ok (lc_raft s i)"
    and run: "cl_do True (Replicate i target rs) (lc_cl s) = Some c"
  shows "lc_inv (s\<lparr>lc_cl := c\<rparr>)"
proof -
  define rf where "rf = lc_raft s i"
  obtain sv ld where call: "tryAppendEntries target rs (rf_server rf, rf_leader rf) = Some (sv, ld)"
    and c: "c = cl_put i (rf\<lparr>rf_server := sv, rf_leader := ld\<rparr>) (lc_cl s)"
    using run by (auto simp: rf_def [symmetric] Let_def split: if_splits)
  have "commitIdx (rf_state rf) \<le> lastApplied (rf_state rf)" using inv(3) by (simp add: raft_ok_def raft_base_def rf_def)
  note frame = tryAppendEntries_frame [OF call this] and gate = tryAppendEntries_gate [OF call]
  have t: "trig rf \<le> term_of rf" using lc_invD(4) [OF inv(1)] by (simp add: queue_ok_def rf_def)
  show ?thesis
  proof (rule lc_inv_quiet [OF inv(1) rf_def _ refl])
    show "rf_log (rf\<lparr>rf_server := sv, rf_leader := ld\<rparr>) = rf_log rf" using frame by (simp add: leader_frame_def)
  qed (use gate t inv(2) in \<open>auto simp: c cl_put_def rf_def same_gate_def notified_def sv_notify_events sv_notify_trig
      split: if_splits\<close>)
qed

lemma lc_inv_back:
  assumes inv: "lc_inv s" "pend (lc_raft s i) = []"
    and tally: "tally_ok servers votes i (lc_raft s i) counted (lc_elect s i)"
    and run: "cl_do True (VoteBack i k r) (lc_cl s) = Some c"
  shows "lc_inv (s\<lparr>lc_cl := c\<rparr>)"
proof -
  define rf q where defs: "rf = lc_raft s i" "q = requests (rf_candidate rf) ! k"
  obtain sv d where vt: "vote_thread (rq_msg q) (Replied r) (rf_server rf, rf_candidate rf) = (sv, d)" by fastforce
  let ?x = "fst r = rv_term (rq_msg q) \<and> snd r" and ?rf = "rf\<lparr>rf_server := sv, rf_candidate := finish_request k d\<rparr>"
  from run vt have k: "k < length (requests (rf_candidate rf))"
    and c: "cl_raft c = (cl_raft (lc_cl s))(i := ?rf)" "cl_elect c = lc_elect s"
      "cl_won c = lc_won s \<union> (if ?x \<and> wins (votesReceived d) (rf_info rf) then {(i, rv_term (rq_msg q))} else {})"
    unfolding defs by (auto simp: Let_def cl_open_def cl_put_def split: if_splits)
  note old = lc_invD [OF inv(1)] and req = tally_request [OF tally, folded defs(1), OF k defs(2)]
  have "rf_identity rf = Candidate" using tally k by (auto simp: tally_ok_def defs Let_def)
  then have cand: "rf_identity rf = Candidate" "lc_elect s i = term_of rf" "rv_term (rq_msg q) = term_of rf"
    using old(4) [of i] inv(2) req(2) by (simp_all add: queue_ok_def defs)
  have sv: "sv = rf_server rf \<or> sv = sv_notify Leader (term_of rf) (rf_server rf) \<and> (i, term_of rf) \<in> cl_won c"
    using vt c(3) cand(3) by (auto simp: vote_thread_def Let_def split: if_splits prod.splits)
  show ?thesis
  proof (rule lc_inv_step [OF inv(1), of i])
    show "queue_ok (lc_won (s\<lparr>lc_cl := c\<rparr>)) (lc_led (s\<lparr>lc_cl := c\<rparr>)) (lc_elect (s\<lparr>lc_cl := c\<rparr>) i) i (lc_raft (s\<lparr>lc_cl := c\<rparr>) i)"
      using sv old(4) [of i] inv(2) cand defs(1) c(1,2) by (auto simp: queue_ok_def sv_notify_trig sv_notify_events)
    show "leads_ok (lc_led (s\<lparr>lc_cl := c\<rparr>)) (lc_logs s) i (lc_raft (s\<lparr>lc_cl := c\<rparr>) i)"
      using cand c(1) by (simp add: leads_ok_def)
    show "rf_log (lc_raft (s\<lparr>lc_cl := c\<rparr>) i) \<in> lc_logs s" using sv defs(1) c(1) by auto
    show "lc_led (s\<lparr>lc_cl := c\<rparr>) \<subseteq> lc_won (s\<lparr>lc_cl := c\<rparr>)" using old(3) c(3) by auto
  qed (use c in auto)
qed

text \<open>The merge of a message brings a log that is known.\<close>

lemma lc_inv_entries:
  assumes inv: "lc_inv s" "pend (lc_raft s j) = []" "raft_ok (lc_raft s j)"
    and m: "m \<in> fst ` lc_msgs s" "rf_identity (lc_raft s j) \<noteq> Leader"
    and run: "cl_do True (DeliverEntries j m) (lc_cl s) = Some c"
  shows "lc_inv (s\<lparr>lc_cl := c\<rparr>)"
proof -
  define rf where "rf = lc_raft s j"
  note old = lc_invD [OF inv(1)]
  obtain r rf' where le: "term_of rf \<le> ae_term m" and call: "raft_appendEntries m rf = Some (r, rf')"
    and c: "c = cl_put j rf' (lc_cl s)"
    using run by (auto simp: rf_def [symmetric] Let_def not_less simp del: raft_appendEntries.simps split: if_splits)
  have "trig rf \<le> term_of rf" using old(4) by (simp add: queue_ok_def rf_def)
  with raft_appendEntries_effect [OF _ le call] inv(2,3) m(2)
  have eff: "rf_identity rf' = rf_identity rf" "term_of rf' = term_of rf" "trig rf' \<le> term_of rf'"
    "pend rf' = [] \<or> pend rf' = [Follower]"
    and log: "rf_log rf' = rf_log rf \<or> matchesPrev m (rf_state rf) \<and>
       rf_log rf' = appendLog (rf_log rf) (ae_prevLogIdx m) (ae_logEntries m)" unfolding rf_def by auto
  note node = quiet_node [OF old(4) [of j] old(5) [of j], folded rf_def, of rf']
  obtain X where X: "(m, X) \<in> lc_msgs s" using m(1) by force
  have known: "rf_log rf' \<in> lc_logs s"
  proof (cases "rf_log rf' = rf_log rf")
    case True
    then show ?thesis by (simp add: rf_def)
  next
    case False
    with log have "matchesPrev m (rf_state rf)" and new: "rf_log rf' = appendLog (rf_log rf) (ae_prevLogIdx m) (ae_logEntries m)"
      by simp_all
    then have p: "ae_prevLogIdx m < length (rf_log rf)" "le_term (rf_log rf ! ae_prevLogIdx m) = ae_prevLogTerm m"
      by (simp_all add: matchesPrev_def)
    from old(2) [OF X] have x: "ae_prevLogIdx m < length X" "ae_prevLogTerm m = le_term (X ! ae_prevLogIdx m)"
      "ae_logEntries m = drop (ae_prevLogIdx m + 1) X" by (simp_all add: cut_from_def)
    have "X \<in> lc_logs s" "rf_log rf \<in> lc_logs s" using X by (simp_all add: rf_def)
    then have "logMatching (rf_log rf) X" using old(1) by (simp add: logs_ok_def)
    from appendLog_either [OF this p(1) x(1)] p(2) x(2,3) new X show ?thesis by (auto simp: rf_def)
  qed
  show ?thesis
  proof (rule lc_inv_step [OF inv(1), of j])
    show "queue_ok (lc_won (s\<lparr>lc_cl := c\<rparr>)) (lc_led (s\<lparr>lc_cl := c\<rparr>)) (lc_elect (s\<lparr>lc_cl := c\<rparr>) j) j (lc_raft (s\<lparr>lc_cl := c\<rparr>) j)"
      "leads_ok (lc_led (s\<lparr>lc_cl := c\<rparr>)) (lc_logs s) j (lc_raft (s\<lparr>lc_cl := c\<rparr>) j)"
      using node eff inv(2) m(2) by (auto simp: c cl_put_def rf_def)
  qed (use known old(3) in \<open>auto simp: c cl_put_def\<close>)
qed

text \<open>A transformation; a new leader finds no entry of its term.\<close>

lemma run_transform_effect:
  assumes "raft_ok (cl_raft s i)" "2 \<le> electionTimeout (rf_info (cl_raft s i))"
    and "cl_do True (RunTransform i timeout) s = Some c" and "trig (cl_raft s i) \<le> term_of (cl_raft s i)"
  obtains target rest rf' where "pend (cl_raft s i) = target # rest"
    "c = (if target = Candidate then cl_stand i rf' s else cl_put i rf' s)"
    "target = Candidate \<longrightarrow> term_of (cl_raft s i) < term_of (cl_raft s i) + 1"
    "rf_identity rf' = target" "rf_state rf' = entered target (rf_info (cl_raft s i)) (rf_state (cl_raft s i))"
    "rf_info rf' = rf_info (cl_raft s i)" "pend rf' = rest @ entry_events target (rf_server (cl_raft s i))"
    "trig rf' \<le> term_of rf'"
proof -
  define rf where "rf = cl_raft s i"
  obtain target rest rf' where time: "electionTimeout (rf_info rf) \<le> timeout" and q: "pend rf = target # rest"
    and max: "\<not> (target = Candidate \<and> term_of rf = - 1)"
    and ev: "raft_event (\<lambda>from to. to) True timeout rf = Some rf'"
    and c: "c = (if target = Candidate then cl_stand i rf' s else cl_put i rf' s)"
    using assms(3) by (auto simp: rf_def [symmetric] Let_def split: if_splits list.splits)
  have "target \<noteq> Error" using raft_event_Error q assms(1) ev by (fastforce simp: rf_def)
  then have "\<exists>rf'. raft_event (\<lambda>from to. to) True timeout rf = Some rf' \<and> raft_ok rf' \<and> rf_identity rf' = target \<and>
      rf_info rf' = rf_info rf \<and> rf_state rf' = entered target (rf_info rf) (rf_state rf) \<and>
      pend rf' = rest @ entry_events target (rf_server rf)"
    using raft_event_result [OF assms(1) q [unfolded rf_def], of "\<lambda>from to. to" timeout True] time assms(2)
    by (simp add: rf_def)
  with ev have rf': "rf_identity rf' = target" "rf_state rf' = entered target (rf_info rf) (rf_state rf)"
    "rf_info rf' = rf_info rf" "pend rf' = rest @ entry_events target (rf_server rf)" by simp_all
  have up: "target = Candidate \<longrightarrow> term_of rf < term_of rf + 1" using max by (simp add: word_less_succ)
  then have "trig rf' \<le> term_of rf'" using raft_event_trig [OF ev q] assms(1,4) by (simp add: rf_def)
  with q c up rf' show thesis using that by (simp add: rf_def)
qed

lemma lc_inv_transform:
  assumes inv: "lc_inv s" and node: "raft_ok (lc_raft s i)" "2 \<le> electionTimeout (rf_info (lc_raft s i))"
    and one: "\<And>j t. (i, t) \<in> lc_won s \<Longrightarrow> (j, t) \<in> lc_won s \<Longrightarrow> i = j"
    and run: "cl_do True (RunTransform i timeout) (lc_cl s) = Some c"
  shows "lc_inv (s\<lparr>lc_cl := c, lc_led := lc_led s \<union> newly_led (RunTransform i timeout) (lc_cl s)\<rparr>)"
proof -
  define rf where "rf = lc_raft s i"
  let ?s' = "s\<lparr>lc_cl := c, lc_led := lc_led s \<union> newly_led (RunTransform i timeout) (lc_cl s)\<rparr>"
  note old = lc_invD [OF inv]
  have qok: "queue_ok (lc_won s) (lc_led s) (lc_elect s i) i rf" using old(4) by (simp add: rf_def)
  then have "trig rf \<le> term_of rf" by (simp add: queue_ok_def)
  then obtain target rest rf' where q0: "pend rf = target # rest"
    and c: "c = (if target = Candidate then cl_stand i rf' (lc_cl s) else cl_put i rf' (lc_cl s))"
    and up: "target = Candidate \<longrightarrow> term_of rf < term_of rf + 1"
    and rf'0: "rf_identity rf' = target" "rf_state rf' = entered target (rf_info rf) (rf_state rf)"
      "rf_info rf' = rf_info rf" "pend rf' = rest @ entry_events target (rf_server rf)"
    and trig': "trig rf' \<le> term_of rf'"
    using run_transform_effect [OF node run] unfolding rf_def by blast
  have "rest = []" using q0 qok by (simp add: queue_ok_def)
  then have q: "pend rf = [target]" and rf': "rf_identity rf' = target"
    "rf_state rf' = entered target (rf_info rf) (rf_state rf)" "rf_info rf' = rf_info rf"
    "pend rf' = entry_events target (rf_server rf)" using q0 rf'0 by simp_all
  have raft: "cl_raft c = (cl_raft (lc_cl s))(i := rf')" by (simp add: c cl_stand_def cl_put_def Let_def)
  have log: "rf_log rf' = rf_log rf" by (simp add: rf' entered_def)
  show ?thesis
  proof (rule lc_inv_step [OF inv, of i])
    show "lc_won s \<subseteq> lc_won ?s'" by (auto simp: c cl_stand_def cl_put_def Let_def)
    show "lc_elect ?s' j = lc_elect s j" if "j \<noteq> i" for j using that by (simp add: c cl_stand_def cl_put_def Let_def)
    show "rf_log (lc_raft ?s' i) \<in> lc_logs s" using raft log by (simp add: rf_def)
    show "lc_led ?s' \<subseteq> lc_won ?s'"
      using qok q old(3) by (auto simp: queue_ok_def rf_def [symmetric] c cl_stand_def cl_put_def Let_def split: if_splits)
    show "queue_ok (lc_won ?s') (lc_led ?s') (lc_elect ?s' i) i (lc_raft ?s' i)"
    proof (cases "target = Candidate")
      case True
      have "t \<le> term_of rf + 1 \<and> t \<noteq> term_of rf + 1" if "(i, t) \<in> lc_led s" for t
        using qok that up True by (force simp: queue_ok_def)
      with True show ?thesis
        using rf' trig' raft q by (auto simp: queue_ok_def rf_def [symmetric] c cl_stand_def Let_def entered_def entry_events_def)
    next
      case False
      with qok q rf' trig' raft show ?thesis
        by (auto simp: queue_ok_def rf_def [symmetric] c cl_put_def entered_def entry_events_def)
    qed
    show "leads_ok (lc_led ?s') (lc_logs s) i (lc_raft ?s' i)"
    proof (cases "target = Leader")
      case True
      with qok q have lead: "rf_identity rf = Candidate" "(i, term_of rf) \<in> lc_won s" by (simp_all add: queue_ok_def)
      then have "(i, term_of rf) \<notin> lc_led s" using qok by (auto simp: queue_ok_def)
      then have "term_of rf \<notin> snd ` lc_led s" using old(3) one [OF lead(2)] by force
      with old(1) have "tops (lc_logs s) (term_of rf) L" for L unfolding logs_ok_def tops_def by metis
      with True q rf' raft show ?thesis by (simp add: leads_ok_def rf_def [symmetric] entered_def)
    qed (use rf' raft in \<open>simp add: leads_ok_def\<close>)
  qed (use raft in \<open>auto split: if_splits\<close>)
qed

text \<open>The log of a leader grows by an entry of its term.\<close>

lemma logMatching_sym: "logMatching xs ys \<Longrightarrow> logMatching ys xs"
  by (auto simp: logMatching_def)

lemma logMatching_snoc:
  assumes "logMatching X L" "\<And>k. k < length X \<Longrightarrow> le_term (X ! k) = le_term e \<Longrightarrow> k < length L"
  shows "logMatching X (L @ [e])"
  unfolding logMatching_def
proof (intro allI impI)
  fix k assume k: "k < length X" "k < length (L @ [e])" "le_term (X ! k) = le_term ((L @ [e]) ! k)"
  then have "k < length L" using assms(2) [OF k(1)] by (cases "k = length L") auto
  with k assms(1) show "take (k + 1) X = take (k + 1) (L @ [e])" by (simp add: logMatching_def nth_append)
qed

lemma logs_ok_extend:
  assumes ok: "logs_ok led logs" "L \<in> logs" and e: "le_term e \<in> snd ` led" "requestKey e \<notin> requestKey ` set L"
    and top: "tops logs (le_term e) L"
  shows "logs_ok led (insert (L @ [e]) logs)"
proof -
  from ok obtain es where L: "L = LogEntry0 # es" by (auto simp: logs_ok_def)
  have below: "k < length L" if "X \<in> logs" "k < length X" "le_term (X ! k) = le_term e" for X k
  proof (cases k)
    case 0
    with L show ?thesis by simp
  next
    case (Suc n)
    with that top show ?thesis by (auto simp: tops_def)
  qed
  have match: "logMatching X (L @ [e])" if "X \<in> logs" for X
  proof (rule logMatching_snoc)
    show "logMatching X L" using ok that by (simp add: logs_ok_def)
  qed (use below that in blast)
  have "le_term ((L @ [e]) ! k) \<in> snd ` led" if "1 \<le> k" "k < length (L @ [e])" for k
    using ok e(1) that by (cases "k = length L") (auto simp: logs_ok_def nth_append)
  moreover have "distinct (map requestKey (L @ [e]))" using ok e(2) by (auto simp: logs_ok_def)
  moreover have "logMatching (L @ [e]) (L @ [e])" by (simp add: logMatching_def)
  ultimately show ?thesis using ok(1) match logMatching_sym [OF match] L by (auto simp: logs_ok_def)
qed

lemma lc_inv_log:
  assumes inv: "lc_inv s" "pend (lc_raft s i) = []" "raft_ok (lc_raft s i)"
    and one: "\<And>j t. (i, t) \<in> lc_won s \<Longrightarrow> (j, t) \<in> lc_won s \<Longrightarrow> i = j"
    and run: "cl_do True (LogRequest i m) (lc_cl s) = Some c"
  shows "lc_inv (s\<lparr>lc_cl := c\<rparr>)"
proof -
  define rf where "rf = lc_raft s i"
  note old = lc_invD [OF inv(1)]
  obtain r rf' where call: "raft_addLog m rf = Some (r, rf')" and c: "c = cl_put i rf' (lc_cl s)"
    using run by (auto simp: rf_def [symmetric] simp del: raft_addLog.simps)
  from raft_addLog_effect [OF _ call] inv(3)
  have eff: "rf_identity rf' = rf_identity rf" "term_of rf' = term_of rf" "pend rf' = pend rf" "trig rf' = trig rf"
    and log: "rf_log rf' = rf_log rf \<or> rf_identity rf = Leader \<and> (al_srvId m, al_prmIdx m) \<notin> requestKey ` set (rf_log rf) \<and>
       rf_log rf' = rf_log rf @ [newEntry m (rf_server rf)]" by (auto simp: rf_def same_gate_def)
  have qok: "queue_ok (lc_won s) (lc_led s) (lc_elect s i) i rf'"
    using old(4) [of i] eff by (simp add: queue_ok_def rf_def)
  show ?thesis
  proof (cases "rf_log rf' = rf_log rf")
    case True
    have "leads_ok (lc_led s) (lc_logs s) i rf'" using old(5) [of i] eff True by (simp add: leads_ok_def rf_def)
    with True qok old(3) show ?thesis
      by (intro lc_inv_step [OF inv(1), of i]) (auto simp: c cl_put_def rf_def)
  next
    case False
    with log have lead: "rf_identity rf = Leader" and new: "(al_srvId m, al_prmIdx m) \<notin> requestKey ` set (rf_log rf)"
      "rf_log rf' = rf_log rf @ [newEntry m (rf_server rf)]" by simp_all
    let ?e = "newEntry m (rf_server rf)" and ?s' = "s\<lparr>lc_cl := c\<rparr>"
    have t: "le_term ?e = term_of rf" and k: "requestKey ?e = (al_srvId m, al_prmIdx m)"
      by (simp_all add: newEntry_def requestKey_def)
    from old(5) [of i] lead inv(2) have led: "(i, term_of rf) \<in> lc_led s" "tops (lc_logs s) (term_of rf) (rf_log rf)"
      by (simp_all add: leads_ok_def rf_def)
    have sub: "lc_logs ?s' \<subseteq> insert (rf_log rf') (lc_logs s)" by (auto simp: lc_logs_def c cl_put_def)
    have "term_of rf \<in> snd ` lc_led s" using led(1) by force
    with logs_ok_extend [OF old(1), of "rf_log rf" ?e] led(2) new t k
    have ok: "logs_ok (lc_led s) (insert (rf_log rf') (lc_logs s))" by (simp add: rf_def)
    have lead_ok: "leads_ok (lc_led s) (insert (rf_log rf') (lc_logs s)) j (lc_raft ?s' j)" for j
    proof (cases "j = i")
      case True
      have "k < length (rf_log rf')" if "X \<in> lc_logs s" "1 \<le> k" "k < length X" "le_term (X ! k) = term_of rf" for X k
        using led(2) that new(2) by (fastforce simp: tops_def)
      with True led(1) eff(2) show ?thesis by (auto simp: leads_ok_def c cl_put_def tops_def)
    next
      case False
      have "tops (insert (rf_log rf') (lc_logs s)) (term_of (lc_raft s j)) (rf_log (lc_raft s j))"
        if "rf_identity (lc_raft s j) = Leader" "pend (lc_raft s j) = []"
      proof -
        from old(5) [of j] that have j: "(j, term_of (lc_raft s j)) \<in> lc_led s"
          "tops (lc_logs s) (term_of (lc_raft s j)) (rf_log (lc_raft s j))" by (simp_all add: leads_ok_def)
        have "term_of (lc_raft s j) \<noteq> term_of rf" using one [of "term_of rf" j] led(1) j(1) old(3) False by (metis subsetD)
        moreover have "rf_log rf \<in> lc_logs s" by (simp add: rf_def)
        ultimately have "k < length (rf_log (lc_raft s j))"
          if "1 \<le> k" "k < length (rf_log rf')" "le_term (rf_log rf' ! k) = term_of (lc_raft s j)" for k
          using that j(2) new(2) t by (cases "k = length (rf_log rf)") (auto simp: tops_def nth_append)
        with j(2) show ?thesis by (simp add: tops_def)
      qed
      with old(5) [of j] False show ?thesis by (simp add: leads_ok_def c cl_put_def)
    qed
    have "leads_ok (lc_led s) (lc_logs ?s') j (lc_raft ?s' j)" for j
      using lead_ok [of j] tops_subset [OF _ sub order_refl] by (auto simp: leads_ok_def)
    moreover have "queue_ok (lc_won s) (lc_led s) (lc_elect s j) j (lc_raft ?s' j)" for j
      using qok old(4) [of j] by (simp add: c cl_put_def)
    ultimately show ?thesis
      using logs_ok_subset [OF ok sub subset_refl] old(2,3) by (auto simp: lc_inv_def c cl_put_def)
  qed
qed

text \<open>A message of a leader is cut from its log.\<close>

lemma lc_inv_send:
  assumes inv: "lc_inv s" and m: "createAppendEntriesMessage (rf_server (lc_raft s i)) start = Some m"
  shows "lc_inv (s\<lparr>lc_msgs := insert (m, rf_log (lc_raft s i)) (lc_msgs s)\<rparr>)"
proof -
  have "cut_from m (rf_log (lc_raft s i))"
    using m by (cases start) (auto simp: createAppendEntriesMessage_def cut_from_def Let_def split: if_splits)
  moreover have "lc_logs (s\<lparr>lc_msgs := insert (m, rf_log (lc_raft s i)) (lc_msgs s)\<rparr>) = lc_logs s"
    by (auto simp: lc_logs_def)
  ultimately show ?thesis using lc_invD [OF inv] by (auto simp: lc_inv_def)
qed

section \<open>Every reachable state\<close>

lemma lc_inv_init: "lc_inv (lc_init servers et)"
proof -
  have raft: "lc_raft (lc_init servers et) i = configure \<lparr>local = i, srvList = servers, electionTimeout = et\<rparr>" for i
    by (simp add: lc_init_def cl_init_def)
  have "lc_logs (lc_init servers et) = {[LogEntry0]}"
    unfolding lc_logs_def raft by (simp add: lc_init_def configure_def ServerState0_def)
  then show ?thesis
    unfolding lc_inv_def raft
    by (simp add: lc_init_def logs_ok_def logMatching_def queue_ok_def leads_ok_def configure_def EventQueue0_def
        eq_events_def IdentityTransformer0_def ServerState0_def InvalidTerm_def)
qed

lemma lc_reach_inv:
  assumes "lc_reach False servers et s" and ok: "2 \<le> et" "distinct servers" "NullServerId \<notin> set servers"
  shows "lc_inv s"
  using assms(1)
proof (induction rule: lc_reach.induct)
  case lc_start
  then show ?case by (rule lc_inv_init)
next
  case (lc_step s l s')
  note reach = lc_reach_cl [OF lc_step.hyps(1)]
  have inv: "cl_inv servers et (lc_cl s)" using reach ok by (rule cl_reach_inv)
  have node: "raft_ok (lc_raft s i)" "rf_info (lc_raft s i) = \<lparr>local = i, srvList = servers, electionTimeout = et\<rparr>"
    "tally_ok servers (cl_votes (lc_cl s)) i (lc_raft s i) (cl_counted (lc_cl s) i) (lc_elect s i)" for i
    using cl_inv_node [OF inv refl] by blast+
  have one: "(i, t) \<in> lc_won s \<Longrightarrow> (j, t) \<in> lc_won s \<Longrightarrow> i = j" for i j t
    using won_once [OF reach ok] by blast
  show ?case
  proof (cases l)
    case (SendEntries i start)
    with lc_step.hyps lc_step.IH show ?thesis by (auto simp: Let_def intro: lc_inv_send split: if_splits)
  next
    case (Run k)
    with lc_step.hyps(3) obtain c where run: "prompt k (lc_cl s)" "deliverable False k s" "cl_do True k (lc_cl s) = Some c"
      and s': "s' = s\<lparr>lc_cl := c, lc_led := lc_led s \<union> newly_led k (lc_cl s)\<rparr>"
      by (auto split: if_splits)
    show ?thesis
    proof (cases k)
      case (RunTransform i timeout)
      with lc_inv_transform [of s i timeout c, OF lc_step.IH node(1) _ one] node(2) run(3) s' ok(1) show ?thesis by simp
    next
      case (StartServer i)
      with run s' lc_inv_trigger [OF lc_step.IH, of i Follower] show ?thesis by (simp add: asyncRun_def)
    next
      case (StopServer i)
      with run s' lc_inv_trigger [OF lc_step.IH, of i Down] show ?thesis by simp
    next
      case (TimerFires i)
      with run s' lc_inv_timer [OF lc_step.IH, of i] show ?thesis by auto
    next
      case (DeliverVote i m)
      with run s' lc_inv_vote [OF lc_step.IH _ node(1), of i m c] show ?thesis by simp
    next
      case (VoteBack i n r)
      with run s' lc_inv_back [OF lc_step.IH _ node(3), of i n r c] show ?thesis by simp
    next
      case (VoteFails i n)
      with run s' lc_inv_fails [OF lc_step.IH, of i n c] show ?thesis by simp
    next
      case (DeliverEntries i m)
      with run s' lc_inv_entries [OF lc_step.IH _ node(1), of i m c] show ?thesis by simp
    next
      case (Replicate i target rs)
      with run s' lc_inv_replicate [OF lc_step.IH _ node(1), of i target rs c] show ?thesis by simp
    next
      case (LogRequest i m)
      with run s' lc_inv_log [of s i m c, OF lc_step.IH _ node(1) one] show ?thesis by simp
    qed
  qed
qed

section \<open>Logs match\<close>

text \<open>
  C2. Log matching. In every state that a cluster reaches with messages in the order of terms, prompt
  transformations and AppendEntries messages that leaders have built and no other leader takes,
  two logs that agree in the term of an entry are equal up to it, on any two servers.
\<close>

theorem log_matching:
  assumes "lc_reach False servers et s" "2 \<le> et" "distinct servers" "NullServerId \<notin> set servers"
    and "k < length (rf_log (lc_raft s i))" "k < length (rf_log (lc_raft s j))"
    and "le_term (rf_log (lc_raft s i) ! k) = le_term (rf_log (lc_raft s j) ! k)"
  shows "take (k + 1) (rf_log (lc_raft s i)) = take (k + 1) (rf_log (lc_raft s j))"
  using lc_reach_inv [OF assms(1-4)] assms(5-7) by (auto simp: lc_inv_def logs_ok_def logMatching_def)

text \<open>Steps of a cluster that elects \<open>a\<close>, logs two requests there and sends them to \<open>c\<close>.\<close>

definition first_entries :: "AppendEntriesMessage" where
  "first_entries = \<lparr>ae_term = 1, ae_leaderId = sample_id ''a'', ae_prevLogIdx = 0, ae_prevLogTerm = 0,
     ae_logEntries = map (\<lambda>p. \<lparr>le_term = 1, le_opName = ''op'', le_args = [], le_prmIdx = p, le_srvId = sample_id ''a''\<rparr>) [7, 8],
     ae_commitIdx = 0\<rparr>"

definition logs_run :: "lc_label list" where
  "logs_run = (let a = sample_id ''a''; b = sample_id ''b''; c = sample_id ''c'' in
     map Run (runs_up a @ runs_up b @ runs_up c @ stands a @ gets_vote a 1 c 1 @
       [RunTransform a 150, LogRequest a (run_request a 7), LogRequest a (run_request a 8)]) @
     [SendEntries a 1, Run (DeliverEntries c first_entries)])"

lemma lc_replay_shows:
  assumes "case lc_replay takeover ls (lc_init servers et) of None \<Rightarrow> False | Some s \<Rightarrow> P s"
    and "list_all (\<lambda>l. lc_server l \<in> set servers) ls"
  shows "\<exists>s. lc_reach takeover servers et s \<and> P s"
proof -
  obtain s where s: "lc_replay takeover ls (lc_init servers et) = Some s" "P s"
    using assms(1) by (auto split: option.splits)
  with lc_replay_reach [OF lc_start assms(2)] show ?thesis by blast
qed

definition logs_shown :: "LogCluster \<Rightarrow> bool" where
  "logs_shown s \<longleftrightarrow> (let a = lc_raft s (sample_id ''a''); b = lc_raft s (sample_id ''b''); c = lc_raft s (sample_id ''c'') in
     map le_prmIdx (rf_log c) = [0, 7, 8] \<and> map le_term (rf_log c) = [0, 1, 1] \<and> map le_term (rf_log a) = [0, 1, 1] \<and>
     rf_identity a = Leader \<and> pend a = [] \<and> term_of a = 1 \<and> rf_identity b = Follower \<and> term_of b = 0 \<and>
     lc_do False (Run (LogRequest (sample_id ''a'') (run_request (sample_id ''a'') 9))) s \<noteq> None)"

lemma logs_run_reaches:
  obtains s where "lc_reach False three 100 s" "logs_shown s"
proof -
  have "\<exists>s. lc_reach False three 100 s \<and> logs_shown s"
  proof (rule lc_replay_shows)
    show "case lc_replay False logs_run (lc_init three 100) of None \<Rightarrow> False | Some s \<Rightarrow> logs_shown s" by code_simp
    show "list_all (\<lambda>l. lc_server l \<in> set three) logs_run" by code_simp
  qed
  with that show thesis by blast
qed

lemma logs_shownD:
  assumes "logs_shown s"
  shows "map le_prmIdx (rf_log (lc_raft s (sample_id ''c''))) = [0, 7, 8]"
    "map le_term (rf_log (lc_raft s (sample_id ''c''))) = [0, 1, 1]"
    "map le_term (rf_log (lc_raft s (sample_id ''a''))) = [0, 1, 1]"
    "length (rf_log (lc_raft s (sample_id ''a''))) = 3"
    "rf_identity (lc_raft s (sample_id ''a'')) = Leader" "pend (lc_raft s (sample_id ''a'')) = []"
    "term_of (lc_raft s (sample_id ''a'')) = 1"
    "rf_identity (lc_raft s (sample_id ''b'')) = Follower" "term_of (lc_raft s (sample_id ''b'')) = 0"
    "\<exists>s'. lc_do False (Run (LogRequest (sample_id ''a'') (run_request (sample_id ''a'') 9))) s = Some s'"
proof -
  note assms = assms [unfolded logs_shown_def Let_def]
  from assms show "map le_prmIdx (rf_log (lc_raft s (sample_id ''c''))) = [0, 7, 8]"
    "map le_term (rf_log (lc_raft s (sample_id ''c''))) = [0, 1, 1]"
    "map le_term (rf_log (lc_raft s (sample_id ''a''))) = [0, 1, 1]"
    "rf_identity (lc_raft s (sample_id ''a'')) = Leader" "pend (lc_raft s (sample_id ''a'')) = []"
    "term_of (lc_raft s (sample_id ''a'')) = 1"
    "rf_identity (lc_raft s (sample_id ''b'')) = Follower" "term_of (lc_raft s (sample_id ''b'')) = 0"
    "\<exists>s'. lc_do False (Run (LogRequest (sample_id ''a'') (run_request (sample_id ''a'') 9))) s = Some s'"
    by blast+
  then have "length (map le_term (rf_log (lc_raft s (sample_id ''a'')))) = length [0 :: raft_term, 1, 1]" by metis
  then show "length (rf_log (lc_raft s (sample_id ''a''))) = 3" unfolding length_map by simp
qed

theorem log_matching_witness:
  "\<exists>s. lc_reach False three 100 s \<and> map le_prmIdx (rf_log (lc_raft s (sample_id ''c''))) = [0, 7, 8] \<and>
     take 2 (rf_log (lc_raft s (sample_id ''a''))) = take 2 (rf_log (lc_raft s (sample_id ''c'')))"
proof -
  obtain s where s: "lc_reach False three 100 s" "logs_shown s" by (rule logs_run_reaches)
  let ?a = "rf_log (lc_raft s (sample_id ''a''))" and ?c = "rf_log (lc_raft s (sample_id ''c''))"
  note t = logs_shownD [OF s(2)]
  have len: "length ?c = 3" using t(1) by (auto dest: map_eq_imp_length_eq)
  have "le_term (?a ! 1) = map le_term ?a ! 1" "le_term (?c ! 1) = map le_term ?c ! 1" using t(4) len by simp_all
  then have "le_term (?a ! 1) = le_term (?c ! 1)" using t(2,3) by simp
  moreover have "1 < length ?a" "1 < length ?c" "2 \<le> (100 :: nat)" using len t(4) by simp_all
  ultimately have "take (1 + 1) ?a = take (1 + 1) ?c" by (intro log_matching [OF s(1) _ three_distinct])
  then have "take 2 ?a = take 2 ?c" unfolding one_add_one .
  with s(1) t(1) show ?thesis by (intro exI [of _ s] conjI)
qed

section \<open>The logs of leaders only grow\<close>

lemma cl_do_other:
  "cl_do ordered l s = Some c \<Longrightarrow> label_server l \<noteq> i \<Longrightarrow> cl_raft c i = cl_raft s i"
  by (cases l) (auto simp: cl_put_def cl_stand_def Let_def
    simp del: raft_appendEntries.simps raft_requestVote.simps raft_addLog.simps split: if_splits list.splits prod.splits)

text \<open>A step changes the log of a server by a request that its leader logs, or a message it takes.\<close>

lemma lc_step_log:
  assumes reach: "lc_reach False servers et s" and ok: "2 \<le> et" "distinct servers" "NullServerId \<notin> set servers"
    and step: "lc_do False l s = Some s'"
  shows "rf_log (lc_raft s' i) = rf_log (lc_raft s i) \<or>
    rf_identity (lc_raft s i) = Leader \<and> (\<exists>e. rf_log (lc_raft s' i) = rf_log (lc_raft s i) @ [e] \<and>
      le_term e = term_of (lc_raft s i)) \<or>
    rf_identity (lc_raft s i) \<noteq> Leader \<and> (\<exists>m. l = Run (DeliverEntries i m))"
proof (cases l)
  case (SendEntries k start)
  with step show ?thesis by (auto simp: Let_def split: if_splits)
next
  case (Run k)
  have inv: "cl_inv servers et (lc_cl s)" using lc_reach_cl [OF reach] ok by (rule cl_reach_inv)
  have node: "raft_ok (lc_raft s i)" "rf_info (lc_raft s i) = \<lparr>local = i, srvList = servers, electionTimeout = et\<rparr>" for i
    using cl_inv_node [OF inv refl] by blast+
  have qok: "trig (lc_raft s i) \<le> term_of (lc_raft s i)" for i
    using lc_invD(4) [OF lc_reach_inv [OF reach ok]] by (simp add: queue_ok_def)
  from step Run obtain c where run: "prompt k (lc_cl s)" "deliverable False k s" "cl_do True k (lc_cl s) = Some c"
    and s': "lc_raft s' i = cl_raft c i"
    by (auto split: if_splits)
  show ?thesis
  proof (cases "label_server k = i")
    case False
    with cl_do_other [OF run(3)] s' show ?thesis by simp
  next
    case True
    show ?thesis
    proof (cases k)
      case (RunTransform j timeout)
      with True run(3) have "cl_do True (RunTransform i timeout) (lc_cl s) = Some c" by simp
      with node ok(1) qok obtain rf' where "cl_raft c i = rf'" "rf_log rf' = rf_log (lc_raft s i)"
        by (elim run_transform_effect [rotated 2]) (auto simp: cl_put_def cl_stand_def Let_def entered_def)
      with s' show ?thesis by simp
    next
      case (TimerFires j)
      with True run obtain rf' where "raft_timeout (lc_raft s i) = Some rf'" "cl_raft c i = rf'"
        by (auto simp: cl_put_def)
      with raft_timeout_effect [of "lc_raft s i" rf'] TimerFires True run(1) qok [of i] s' show ?thesis by simp
    next
      case (DeliverVote j m)
      with True run obtain r rf' where "raft_requestVote m (lc_raft s i) = Some (r, rf')" "cl_raft c i = rf'"
        "term_of (lc_raft s i) \<le> rv_term m"
        by (auto simp: cl_put_def Let_def not_less simp del: raft_requestVote.simps split: if_splits)
      with raft_requestVote_effect [OF node(1), of i m r rf'] DeliverVote True run(1) qok [of i] s' show ?thesis by simp
    next
      case (VoteBack j n r)
      with True run s' show ?thesis
        by (auto simp: cl_put_def Let_def vote_thread_def split: if_splits prod.splits)
    next
      case (VoteFails j n)
      with True run s' show ?thesis by (auto simp: cl_put_def Let_def vote_thread_def split: if_splits)
    next
      case (DeliverEntries j m)
      with True run(2) Run show ?thesis by simp
    next
      case (Replicate j target rs)
      have "commitIdx (rf_state (lc_raft s i)) \<le> lastApplied (rf_state (lc_raft s i))"
        using node(1) [of i] by (simp add: raft_ok_def raft_base_def)
      with Replicate True run(3) s' show ?thesis
        by (auto simp: cl_put_def Let_def leader_frame_def dest!: tryAppendEntries_frame split: if_splits)
    next
      case (LogRequest j m)
      with True run(3) obtain r rf' where "raft_addLog m (lc_raft s i) = Some (r, rf')" "cl_raft c i = rf'"
        by (auto simp: cl_put_def simp del: raft_addLog.simps)
      with raft_addLog_effect [OF node(1), of m i r rf'] s' show ?thesis by (auto simp: newEntry_def)
    qed (use True run(3) s' in \<open>auto simp: cl_put_def asyncRun_def triggerTransformation_def\<close>)
  qed
qed

text \<open>
  C15. Leader append-only. In a cluster with messages in the order of terms, prompt transformations and
  no AppendEntries for a leader, a step never removes or replaces an entry of a leader's log, and
  what it appends has the leader's term.
\<close>

theorem leader_append_only:
  assumes "lc_reach False servers et s" "2 \<le> et" "distinct servers" "NullServerId \<notin> set servers"
    and "lc_do False l s = Some s'" "rf_identity (lc_raft s i) = Leader"
  shows "\<exists>es. rf_log (lc_raft s' i) = rf_log (lc_raft s i) @ es \<and>
    (\<forall>e \<in> set es. le_term e = currentTerm (rf_state (lc_raft s i)))"
  using lc_step_log [OF assms(1-5), of i] assms(6) by auto

theorem leader_append_only_witness:
  "\<exists>s s' es. lc_do False (Run (LogRequest (sample_id ''a'') (run_request (sample_id ''a'') 9))) s = Some s' \<and>
     rf_identity (lc_raft s (sample_id ''a'')) = Leader \<and>
     rf_log (lc_raft s' (sample_id ''a'')) = rf_log (lc_raft s (sample_id ''a'')) @ es"
proof -
  obtain s where s: "lc_reach False three 100 s" "logs_shown s" by (rule logs_run_reaches)
  obtain s' where s': "lc_do False (Run (LogRequest (sample_id ''a'') (run_request (sample_id ''a'') 9))) s = Some s'"
    using logs_shownD(10) [OF s(2)] by blast
  have "2 \<le> (100 :: nat)" by simp
  from leader_append_only [OF s(1) this three_distinct s' logs_shownD(5) [OF s(2)]] s' logs_shownD(5) [OF s(2)]
  show ?thesis by blast
qed

text \<open>
  C14. One request, one entry. However often a client sends a request, and to however many leaders, no
  log of a cluster holds two entries of it, in every state reached with messages in the order of
  terms, prompt transformations and no AppendEntries for a leader.
\<close>

theorem requests_once_in_cluster:
  assumes "lc_reach False servers et s" "2 \<le> et" "distinct servers" "NullServerId \<notin> set servers"
  shows "distinct (map requestKey (rf_log (lc_raft s i)))"
  using lc_reach_inv [OF assms] by (auto simp: lc_inv_def logs_ok_def)

theorem requests_once_in_cluster_witness:
  "\<exists>s. lc_reach False three 100 s \<and> map le_prmIdx (rf_log (lc_raft s (sample_id ''c''))) = [0, 7, 8] \<and>
     distinct (map requestKey (rf_log (lc_raft s (sample_id ''c''))))"
proof -
  obtain s where s: "lc_reach False three 100 s" "logs_shown s" by (rule logs_run_reaches)
  have "2 \<le> (100 :: nat)" by simp
  from requests_once_in_cluster [OF s(1) this three_distinct, of "sample_id ''c''"] s(1) logs_shownD(1) [OF s(2)] show ?thesis by (intro exI [of _ s] conjI)
qed

text \<open>
  C16. One leader per term. In every state that a cluster reaches with messages in the order of terms,
  prompt transformations and no AppendEntries for a leader, two leaders of one term that have no
  transformation to run are the same server.
\<close>

theorem one_leader_per_term:
  assumes "lc_reach False servers et s" "2 \<le> et" "distinct servers" "NullServerId \<notin> set servers"
    and "rf_identity (lc_raft s i) = Leader" "eq_events (sv_eventQueue (rf_server (lc_raft s i))) = []"
    and "rf_identity (lc_raft s j) = Leader" "eq_events (sv_eventQueue (rf_server (lc_raft s j))) = []"
    and "currentTerm (rf_state (lc_raft s i)) = currentTerm (rf_state (lc_raft s j))"
  shows "i = j"
proof -
  note inv = lc_invD [OF lc_reach_inv [OF assms(1-4)]]
  have "(i, term_of (lc_raft s i)) \<in> lc_won s" "(j, term_of (lc_raft s i)) \<in> lc_won s"
    using inv(3) inv(5) [of i] inv(5) [of j] assms(5-9) by (auto simp: leads_ok_def)
  with won_once [OF lc_reach_cl [OF assms(1)] assms(2-4)] show ?thesis by blast
qed

theorem one_leader_per_term_witness:
  "\<exists>s. rf_identity (lc_raft s (sample_id ''a'')) = Leader \<and> (\<forall>x. rf_identity (lc_raft s x) = Leader \<longrightarrow>
     eq_events (sv_eventQueue (rf_server (lc_raft s x))) = [] \<longrightarrow> currentTerm (rf_state (lc_raft s x)) = 1 \<longrightarrow>
     x = sample_id ''a'')"
proof -
  obtain s where s: "lc_reach False three 100 s" "logs_shown s" by (rule logs_run_reaches)
  have "2 \<le> (100 :: nat)" by simp
  from one_leader_per_term [OF s(1) this three_distinct, of _ "sample_id ''a''"]
    logs_shownD(5-7) [OF s(2)] show ?thesis by metis
qed

text \<open>
  C10. In every state that a cluster reaches with messages in the order of terms, prompt
  transformations and no AppendEntries for a leader, a leader repairs every live follower whose term
  is not ahead of its own: with \<open>nextIdx\<close> within its log its loop ends in success, and the follower
  then holds its log.
\<close>

theorem leader_repairs_followers:
  assumes "lc_reach False servers et s" "2 \<le> et" "distinct servers" "NullServerId \<notin> set servers"
    and "rf_identity (lc_raft s j) = Follower" "currentTerm (rf_state (lc_raft s j)) \<le> currentTerm (rf_state (lc_raft s i))"
    and "followerNodes ld j = Some node" "1 \<le> nextIdx node" "nextIdx node \<le> length (rf_log (lc_raft s i))"
  shows "\<exists>rs st' fv'. repair (nextIdx node) j (rf_server (lc_raft s i), ld) (rf_server (lc_raft s j)) = Some (rs, True, st', fv') \<and>
    take (length (rf_log (lc_raft s i))) (entries (sv_state fv')) = rf_log (lc_raft s i)"
proof -
  note inv = lc_invD [OF lc_reach_inv [OF assms(1-4)]]
  have "raft_ok (lc_raft s j)" using cl_inv_node(1) [OF cl_reach_inv [OF lc_reach_cl [OF assms(1)] assms(2-4)] refl] .
  then have "sv_ok (rf_server (lc_raft s j))" using assms(5) by (simp add: raft_ok_active active_def)
  moreover have "rf_log (lc_raft s k) \<in> lc_logs s" for k by simp
  with inv(1) have "logMatching (rf_log (lc_raft s j)) (rf_log (lc_raft s i))"
    "le_term (rf_log (lc_raft s j) ! 0) = le_term (rf_log (lc_raft s i) ! 0)"
    unfolding logs_ok_def by (blast, metis nth_Cons_0)
  ultimately have "repairable (rf_server (lc_raft s i)) (rf_server (lc_raft s j))"
    using assms(6) by (simp add: repairable_def)
  from repair_succeeds [OF this assms(7-9)] show ?thesis by (auto simp: repaired_def)
qed

theorem leader_repairs_followers_witness:
  "\<exists>s rs st' fv'. map le_term (rf_log (lc_raft s (sample_id ''a''))) = [0, 1, 1] \<and>
     repair 3 (sample_id ''b'') (rf_server (lc_raft s (sample_id ''a'')),
       LeaderImpl0\<lparr>followerNodes := [sample_id ''b'' \<mapsto> \<lparr>nextIdx = 3, matchIdx = 0\<rparr>]\<rparr>)
       (rf_server (lc_raft s (sample_id ''b''))) = Some (rs, True, st', fv') \<and>
     take 3 (entries (sv_state fv')) = rf_log (lc_raft s (sample_id ''a''))"
proof -
  obtain s where s: "lc_reach False three 100 s" "logs_shown s" by (rule logs_run_reaches)
  let ?node = "\<lparr>nextIdx = 3, matchIdx = 0\<rparr>" and ?a = "lc_raft s (sample_id ''a'')"
  note t = logs_shownD [OF s(2)]
  have "term_of (lc_raft s (sample_id ''b'')) \<le> term_of ?a" using t(7,9) by simp
  from leader_repairs_followers [OF s(1) _ three_distinct t(8) this,
      of "LeaderImpl0\<lparr>followerNodes := [sample_id ''b'' \<mapsto> ?node]\<rparr>" ?node] t(3,4)
  show ?thesis by (intro exI [of _ s]) simp
qed

section \<open>Logs that do not match\<close>

text \<open>
  The server \<open>c\<close> has taken \<open>a\<close>'s entries of term 1 and then votes for \<open>b\<close> in term 2; \<open>b\<close> logs a request
  and sends it to \<open>a\<close>, which merges it but stays a leader of term 1 and logs its next request.
\<close>

definition second_entries :: "AppendEntriesMessage" where
  "second_entries = \<lparr>ae_term = 2, ae_leaderId = sample_id ''b'', ae_prevLogIdx = 0, ae_prevLogTerm = 0,
     ae_logEntries = [\<lparr>le_term = 2, le_opName = ''op'', le_args = [], le_prmIdx = 9, le_srvId = sample_id ''b''\<rparr>],
     ae_commitIdx = 0\<rparr>"

definition split_run :: "lc_label list" where
  "split_run = (let a = sample_id ''a''; b = sample_id ''b''; c = sample_id ''c'' in logs_run @
     map Run (stands b @ stands b @ gets_vote b 1 c 2 @ [RunTransform b 150, LogRequest b (run_request b 9)]) @
     [SendEntries b 1, Run (DeliverEntries a second_entries), Run (LogRequest a (run_request a 10))])"

text \<open>
  C36. When a leader can be handed the AppendEntries message of another leader, logs do not match: it
  merges the entries of the newer term without taking the term over or stepping down, so that it
  then logs an entry of its own old term at an index where another server holds a different entry
  of that term, after a different log.
\<close>

theorem log_matching_fails:
  "\<exists>s. lc_reach True [sample_id ''a'', sample_id ''b'', sample_id ''c''] 100 s \<and>
     map (\<lambda>e. (le_term e, le_prmIdx e)) (rf_log (lc_raft s (sample_id ''a''))) = [(0, 0), (2, 9), (1, 10)] \<and>
     map (\<lambda>e. (le_term e, le_prmIdx e)) (rf_log (lc_raft s (sample_id ''c''))) = [(0, 0), (1, 7), (1, 8)]"
  unfolding three_def [symmetric]
proof (rule lc_replay_shows)
  show "case lc_replay True split_run (lc_init three 100) of None \<Rightarrow> False | Some s \<Rightarrow>
     map (\<lambda>e. (le_term e, le_prmIdx e)) (rf_log (lc_raft s (sample_id ''a''))) = [(0, 0), (2, 9), (1, 10)] \<and>
     map (\<lambda>e. (le_term e, le_prmIdx e)) (rf_log (lc_raft s (sample_id ''c''))) = [(0, 0), (1, 7), (1, 8)]"
    by code_simp
  show "list_all (\<lambda>l. lc_server l \<in> set three) split_run" by code_simp
qed

end
