(* ===== verification/Commit_Cluster.thy ===== *)
theory Commit_Cluster
  imports Log_Matching
begin

text \<open>
  The cluster of \<open>Log_Matching\<close> with the answers to its AppendEntries messages, so that what a
  leader counts is what its followers have answered to messages that reach the end of its log, and
  with three checks that Raft asks for and the code leaves out. The checks are no part of the
  model of the code: as flags they restrict the schedules to those in which a check would have
  passed, beside the restrictions of \<open>Log_Matching\<close> without \<open>takeover\<close> (messages in the order of
  terms, queued transformations run before anything else, no AppendEntries for a leader):

  \<^item> \<open>compared\<close>: a vote is granted only where the comparison of logs allows it
    (\<open>IdentityBaseImpl.cpp\<close> grants a vote of a greater term without it);
  \<^item> \<open>own_term\<close>: what a leader newly commits ends with an entry of its own term
    (\<open>IdentityLeader.cpp\<close> counts replicas of every entry);
  \<^item> \<open>adopted\<close>: entries reach a server whose term is that of the message (the handlers of
    AppendEntries do not take a greater term over).

  Four components only record what happened: the logs that leaders had, by term; the logs that
  servers took or led with, by term; the log with which a server stood for election; and the log
  that it had when it voted. Without any one of the checks two servers apply different requests;
  \<open>State_Machine_Safety\<close> shows that with the three of them they do not.
\<close>

section \<open>The system\<close>

record Checks =
  compared :: bool
  own_term :: bool
  adopted :: bool

record CommitCluster =
  cc_lc :: LogCluster
  cc_answers :: "(ServerId \<times> AppendEntriesMessage \<times> Reply) set"
  cc_lead :: "(raft_term \<times> LogEntry list) set"
  cc_took :: "(ServerId \<times> raft_term \<times> LogEntry list) set"
  cc_stood :: "ServerId \<Rightarrow> raft_term \<Rightarrow> LogEntry list"
  cc_voted :: "ServerId \<Rightarrow> raft_term \<Rightarrow> LogEntry list"

definition cc_init :: "ServerId list \<Rightarrow> nat \<Rightarrow> CommitCluster" where
  "cc_init servers et = \<lparr>cc_lc = lc_init servers et, cc_answers = {}, cc_lead = {}, cc_took = {},
     cc_stood = (\<lambda>_ _. []), cc_voted = (\<lambda>_ _. [])\<rparr>"

abbreviation cc_raft :: "CommitCluster \<Rightarrow> ServerId \<Rightarrow> Raft" where
  "cc_raft s i \<equiv> lc_raft (cc_lc s) i"

text \<open>
  The reply \<open>a\<close> has been given by \<open>t\<close> to a message that \<open>i\<close> has sent as the leader of its term; a
  success is one to a message that reaches the end of its log.
\<close>

definition answered :: "CommitCluster \<Rightarrow> ServerId \<Rightarrow> ServerId \<Rightarrow> Reply \<Rightarrow> bool" where
  "answered s i t a \<longleftrightarrow> (\<exists>(j, m, b) \<in> cc_answers s. j = t \<and> b = a \<and> ae_leaderId m = i \<and>
     ae_term m = term_of (cc_raft s i) \<and>
     (snd a \<longrightarrow> ae_prevLogIdx m + length (ae_logEntries m) + 1 = length (rf_log (cc_raft s i))))"

fun given :: "CommitCluster \<Rightarrow> ServerId \<Rightarrow> ServerId \<Rightarrow> RpcResult \<Rightarrow> bool" where
  "given s i t (Replied a) = answered s i t a"
| "given s i t r = True"

fun allowed :: "Checks \<Rightarrow> lc_label \<Rightarrow> CommitCluster \<Rightarrow> LogCluster \<Rightarrow> bool" where
  "allowed ck (Run (DeliverVote j m)) s s' = (compared ck \<longrightarrow> grantsVote m (rf_state (cc_raft s j)) \<longrightarrow>
     logUpToDate (rf_log (cc_raft s j)) m)"
| "allowed ck (Run (DeliverEntries j m)) s s' = (adopted ck \<longrightarrow> ae_term m = term_of (cc_raft s j))"
| "allowed ck (Run (Replicate i t rs)) s s' = (list_all (given s i t) rs \<and>
     (let c = commitIdx (rf_state (lc_raft s' i)) in
       own_term ck \<longrightarrow> c = commitIdx (rf_state (cc_raft s i)) \<or>
         le_term (rf_log (cc_raft s i) ! c) = term_of (cc_raft s i)))"
| "allowed ck l s s' = True"

definition note_voted :: "ServerId \<Rightarrow> raft_term \<Rightarrow> LogEntry list \<Rightarrow> CommitCluster \<Rightarrow> CommitCluster" where
  "note_voted i t L s = s\<lparr>cc_voted := (cc_voted s)(i := (cc_voted s i)(t := L))\<rparr>"

definition note_stood :: "ServerId \<Rightarrow> raft_term \<Rightarrow> LogEntry list \<Rightarrow> CommitCluster \<Rightarrow> CommitCluster" where
  "note_stood i t L s = s\<lparr>cc_stood := (cc_stood s)(i := (cc_stood s i)(t := L))\<rparr>"

definition note_lead :: "ServerId \<Rightarrow> Raft \<Rightarrow> CommitCluster \<Rightarrow> CommitCluster" where
  "note_lead i rf s = s\<lparr>cc_lead := insert (term_of rf, rf_log rf) (cc_lead s),
     cc_took := insert (i, term_of rf, rf_log rf) (cc_took s)\<rparr>"

definition note_answer :: "ServerId \<Rightarrow> AppendEntriesMessage \<Rightarrow> Reply \<Rightarrow> CommitCluster \<Rightarrow> CommitCluster" where
  "note_answer j m r s = s\<lparr>cc_answers := insert (j, m, r) (cc_answers s),
     cc_took := cc_took s \<union> (if snd r
       then (\<lambda>p. (j, ae_term m, snd p)) ` Set.filter (\<lambda>p. fst p = m) (lc_msgs (cc_lc s)) else {})\<rparr>"

text \<open>What is recorded of a step, from the state before it and the cluster after it.\<close>

fun noted :: "lc_label \<Rightarrow> LogCluster \<Rightarrow> CommitCluster \<Rightarrow> CommitCluster" where
  "noted (Run (DeliverVote j m)) s' s =
     (if term_of (cc_raft s j) < rv_term m then note_voted j (rv_term m) (rf_log (cc_raft s j)) s else s)"
| "noted (Run (RunTransform i timeout)) s' s = (let rf = lc_raft s' i in
     if rf_identity rf = Candidate
     then note_stood i (term_of rf) (rf_log rf) (note_voted i (term_of rf) (rf_log rf) s)
     else if rf_identity rf = Leader then note_lead i rf s else s)"
| "noted (Run (DeliverEntries j m)) s' s = (case raft_appendEntries m (cc_raft s j) of
     None \<Rightarrow> s | Some (r, _) \<Rightarrow> note_answer j m r s)"
| "noted (Run (LogRequest i m)) s' s = (let rf = lc_raft s' i in
     if rf_identity rf = Leader then note_lead i rf s else s)"
| "noted l s' s = s"

definition cc_do :: "Checks \<Rightarrow> lc_label \<Rightarrow> CommitCluster \<Rightarrow> CommitCluster option" where
  "cc_do ck l s = (case lc_do False l (cc_lc s) of
     None \<Rightarrow> None
   | Some s' \<Rightarrow> if allowed ck l s s' then Some ((noted l s' s)\<lparr>cc_lc := s'\<rparr>) else None)"

inductive cc_reach :: "Checks \<Rightarrow> ServerId list \<Rightarrow> nat \<Rightarrow> CommitCluster \<Rightarrow> bool" for ck servers et where
  cc_start: "cc_reach ck servers et (cc_init servers et)"
| cc_step: "cc_reach ck servers et s \<Longrightarrow> lc_server l \<in> set servers \<Longrightarrow> cc_do ck l s = Some s' \<Longrightarrow>
    cc_reach ck servers et s'"

lemma cc_do_lc: "cc_do ck l s = Some s' \<Longrightarrow> lc_do False l (cc_lc s) = Some (cc_lc s')"
  by (auto simp: cc_do_def split: option.splits if_splits)

lemma cc_reach_lc: "cc_reach ck servers et s \<Longrightarrow> lc_reach False servers et (cc_lc s)"
  by (induction rule: cc_reach.induct) (auto simp: cc_init_def intro: lc_start lc_step dest: cc_do_lc)

section \<open>Runs\<close>

text \<open>
  To evaluate a run, the servers are kept in a list, and what only records the past is dropped before
  every step; so are the messages of earlier elections and rounds, without which less can happen.
\<close>

fun lookup :: "(ServerId \<times> Raft) list \<Rightarrow> (ServerId \<Rightarrow> Raft) \<Rightarrow> ServerId \<Rightarrow> Raft" where
  "lookup [] d i = d i"
| "lookup ((j, rf) # xs) d i = (if i = j then rf else lookup xs d i)"

definition started :: "ServerId list \<Rightarrow> nat \<Rightarrow> ServerId \<Rightarrow> Raft" where
  "started servers et i = configure \<lparr>local = i, srvList = servers, electionTimeout = et\<rparr>"

fun forgets :: "lc_label \<Rightarrow> bool \<times> bool" where
  "forgets (Run (TimerFires i)) = (True, False)"
| "forgets (SendEntries i start) = (False, True)"
| "forgets l = (False, False)"

definition compact :: "ServerId list \<Rightarrow> nat \<Rightarrow> bool \<times> bool \<Rightarrow> CommitCluster \<Rightarrow> CommitCluster" where
  "compact servers et = (\<lambda>(votes, rounds) s. let c = lc_cl (cc_lc s) in \<lparr>
     cc_lc = \<lparr>lc_cl = \<lparr>cl_raft = lookup (map (\<lambda>i. (i, cl_raft c i)) servers) (started servers et),
         cl_sent = (if votes then {} else cl_sent c), cl_answers = (if votes then {} else cl_answers c),
         cl_votes = {}, cl_counted = (\<lambda>_. {}), cl_elect = (\<lambda>_. 0), cl_won = {}\<rparr>,
       lc_msgs = (if rounds then {} else lc_msgs (cc_lc s)), lc_led = {}\<rparr>,
     cc_answers = (if rounds then {} else cc_answers s),
     cc_lead = {}, cc_took = {}, cc_stood = (\<lambda>_ _. []), cc_voted = (\<lambda>_ _. [])\<rparr>)"

fun cc_quick :: "Checks \<Rightarrow> ServerId list \<Rightarrow> nat \<Rightarrow> lc_label list \<Rightarrow> CommitCluster \<Rightarrow> CommitCluster option" where
  "cc_quick ck servers et [] s = Some s"
| "cc_quick ck servers et (l # ls) s =
     Option.bind (cc_do ck l (compact servers et (forgets l) s)) (cc_quick ck servers et ls)"

lemma lookup_map: "lookup (map (\<lambda>i. (i, f i)) is) d i = (if i \<in> set is then f i else d i)"
  by (induction "is") auto

lemma lookup_same: "(\<And>i. i \<notin> set is \<Longrightarrow> d i = f i) \<Longrightarrow> lookup (map (\<lambda>i. (i, f i)) is) d = f"
  by (auto simp: lookup_map)

lemma lc_do_other: "lc_do False l s = Some s' \<Longrightarrow> lc_server l \<noteq> i \<Longrightarrow> lc_raft s' i = lc_raft s i"
proof (cases l)
  case (Run k)
  assume "lc_do False l s = Some s'" "lc_server l \<noteq> i"
  with Run obtain c where "cl_do True k (lc_cl s) = Some c" "lc_cl s' = c" "label_server k \<noteq> i"
    by (auto split: if_splits)
  with cl_do_other show ?thesis by simp
qed (auto simp: Let_def split: if_splits)

lemma cc_reach_others:
  assumes "cc_reach ck servers et s" "i \<notin> set servers"
  shows "cc_raft s i = started servers et i"
  using assms(1)
proof (induction rule: cc_reach.induct)
  case (cc_step s l s')
  then have "lc_do False l (cc_lc s) = Some (cc_lc s')" "lc_server l \<noteq> i" using assms(2) by (auto dest: cc_do_lc)
  then have "cc_raft s' i = cc_raft s i"
    by (rule lc_do_other)
  with cc_step.IH show ?case by simp
qed (simp add: cc_init_def lc_init_def cl_init_def started_def)

text \<open>The state \<open>r\<close> has the servers of \<open>s\<close> and some of its messages.\<close>

definition fewer_votes :: "Cluster \<Rightarrow> Cluster \<Rightarrow> bool" where
  "fewer_votes c d \<longleftrightarrow> cl_raft d = cl_raft c \<and> cl_sent d \<subseteq> cl_sent c \<and> cl_answers d \<subseteq> cl_answers c"

definition fewer :: "CommitCluster \<Rightarrow> CommitCluster \<Rightarrow> bool" where
  "fewer s r \<longleftrightarrow> fewer_votes (lc_cl (cc_lc s)) (lc_cl (cc_lc r)) \<and>
     lc_msgs (cc_lc r) \<subseteq> lc_msgs (cc_lc s) \<and> cc_answers r \<subseteq> cc_answers s"

lemma cl_do_fewer:
  assumes "fewer_votes c d" "cl_do True l d = Some d'"
  shows "\<exists>c'. cl_do True l c = Some c' \<and> fewer_votes c' d'"
proof (cases l)
  case (VoteBack i k r)
  with assms show ?thesis
    by (auto simp: fewer_votes_def cl_open_def cl_put_def Let_def split: if_splits prod.splits)
next
  case (RunTransform i timeout)
  have same: "cl_raft d = cl_raft c" using assms(1) by (simp add: fewer_votes_def)
  have "\<exists>rf'. cl_do True l c = Some (cl_stand i rf' c) \<and> d' = cl_stand i rf' d \<or>
      cl_do True l c = Some (cl_put i rf' c) \<and> d' = cl_put i rf' d"
  proof (cases "take 1 (pend (cl_raft c i)) = [Candidate]")
    case True
    then obtain rest where "pend (cl_raft c i) = Candidate # rest" by (cases "pend (cl_raft c i)") auto
    with assms(2) RunTransform same show ?thesis by (auto simp: Let_def split: if_splits)
  next
    case False
    with assms(2) RunTransform same show ?thesis by (auto simp: Let_def split: if_splits list.splits)
  qed
  with assms(1) show ?thesis
    by (elim exE disjE conjE) (auto simp: fewer_votes_def cl_put_def cl_stand_def Let_def)
next
  case (DeliverVote j m)
  have sub: "cl_raft d = cl_raft c" "cl_sent d \<subseteq> cl_sent c" "cl_answers d \<subseteq> cl_answers c"
    using assms(1) by (simp_all add: fewer_votes_def)
  obtain r rf' where call: "raft_requestVote m (cl_raft c j) = Some (r, rf')" "(j, m) \<in> cl_sent c"
    "\<not> rv_term m < term_of (cl_raft c j)" "cl_raft d' = (cl_raft d)(j := rf')" "cl_sent d' = cl_sent d"
    "cl_answers d' = insert (j, m, r) (cl_answers d)"
    using assms(2) DeliverVote sub
    by (auto simp: Let_def cl_put_def simp del: raft_requestVote.simps split: if_splits)
  with DeliverVote sub show ?thesis
    by (auto simp: Let_def fewer_votes_def cl_put_def simp del: raft_requestVote.simps)
qed (use assms in \<open>auto simp: fewer_votes_def cl_put_def cl_open_def Let_def
    simp del: raft_appendEntries.simps raft_addLog.simps split: if_splits prod.splits\<close>)

lemma lc_do_fewer:
  assumes "fewer s r" "lc_do False l (cc_lc r) = Some r'"
  shows "\<exists>s'. lc_do False l (cc_lc s) = Some s' \<and> fewer_votes (lc_cl s') (lc_cl r') \<and> lc_msgs r' \<subseteq> lc_msgs s'"
proof (cases l)
  case (Run k)
  with assms(2) obtain d where d: "prompt k (lc_cl (cc_lc r))" "deliverable False k (cc_lc r)"
    "cl_do True k (lc_cl (cc_lc r)) = Some d" "lc_cl r' = d" "lc_msgs r' = lc_msgs (cc_lc r)"
    by (auto split: if_splits)
  have "prompt k (lc_cl (cc_lc s))" using d(1) assms(1) by (cases k) (simp_all add: fewer_def fewer_votes_def)
  moreover have "deliverable False k (cc_lc s)"
    using d(2) assms(1) by (cases k) (auto simp: fewer_def fewer_votes_def)
  moreover obtain c where "cl_do True k (lc_cl (cc_lc s)) = Some c" "fewer_votes c d"
    using cl_do_fewer [OF _ d(3), of "lc_cl (cc_lc s)"] assms(1) unfolding fewer_def by blast
  ultimately show ?thesis using Run d assms(1) by (auto simp: fewer_def)
next
  case (SendEntries i start)
  with assms show ?thesis by (auto simp: fewer_def fewer_votes_def Let_def split: if_splits)
qed

lemma given_fewer:
  assumes "fewer s r" "given r i t x"
  shows "given s i t x"
proof (cases x)
  case (Replied a)
  with assms(2) obtain j m b where "(j, m, b) \<in> cc_answers r" "j = t \<and> b = a \<and> ae_leaderId m = i \<and>
     ae_term m = term_of (cc_raft r i) \<and>
     (snd a \<longrightarrow> ae_prevLogIdx m + length (ae_logEntries m) + 1 = length (rf_log (cc_raft r i)))"
    by (auto simp: answered_def)
  with assms(1) have "answered s i t a"
    unfolding answered_def by (intro bexI [of _ "(j, m, b)"]) (auto simp: fewer_def fewer_votes_def)
  with Replied show ?thesis by simp
qed simp_all

lemma cc_do_fewer:
  assumes "fewer s r" "cc_do ck l r = Some r'"
  shows "\<exists>s'. cc_do ck l s = Some s' \<and> fewer s' r'"
proof -
  from assms(2) obtain c where c: "lc_do False l (cc_lc r) = Some c" "allowed ck l r c" "r' = (noted l c r)\<lparr>cc_lc := c\<rparr>"
    by (auto simp: cc_do_def split: option.splits if_splits)
  obtain d where d: "lc_do False l (cc_lc s) = Some d" "fewer_votes (lc_cl d) (lc_cl c)" "lc_msgs c \<subseteq> lc_msgs d"
    using lc_do_fewer [OF assms(1) c(1)] by blast
  have same: "cc_raft r i = cc_raft s i" "lc_raft c i = lc_raft d i" for i
    using assms(1) d(2) by (simp_all add: fewer_def fewer_votes_def)
  have "allowed ck l s d"
    using c(2) same given_fewer [OF assms(1)]
    by (cases "(ck, l, s, d)" rule: allowed.cases) (auto simp: Let_def elim!: list.pred_mono_strong)
  moreover have "cc_answers (noted l c r) \<subseteq> cc_answers (noted l d s)"
    using assms(1) same by (cases "(l, d, s)" rule: noted.cases)
      (auto simp: fewer_def note_voted_def note_stood_def note_lead_def note_answer_def Let_def
        simp del: raft_appendEntries.simps split: option.splits)
  ultimately show ?thesis using c d by (auto simp: cc_do_def fewer_def)
qed

lemma cc_quick_reach:
  "cc_reach ck servers et s \<Longrightarrow> fewer s r \<Longrightarrow> list_all (\<lambda>l. lc_server l \<in> set servers) ls \<Longrightarrow>
     cc_quick ck servers et ls r = Some r' \<Longrightarrow> \<exists>s'. cc_reach ck servers et s' \<and> fewer s' r'"
proof (induction ls arbitrary: s r)
  case (Cons l ls)
  let ?r = "compact servers et (forgets l) r"
  from Cons.prems(4) obtain r1 where r1: "cc_do ck l ?r = Some r1" "cc_quick ck servers et ls r1 = Some r'"
    by (auto simp: Option.bind_eq_Some_conv)
  have same: "cc_raft r i = cc_raft s i" for i using Cons.prems(2) by (simp add: fewer_def fewer_votes_def)
  have "started servers et i = cc_raft r i" if "i \<notin> set servers" for i
    using cc_reach_others [OF Cons.prems(1) that] same by simp
  then have "lookup (map (\<lambda>i. (i, cc_raft r i)) servers) (started servers et) = cl_raft (lc_cl (cc_lc r))"
    by (rule lookup_same)
  then have "fewer s ?r" using Cons.prems(2) by (auto simp: fewer_def fewer_votes_def compact_def Let_def split: prod.splits)
  from cc_do_fewer [OF this r1(1)] obtain s1 where s1: "cc_do ck l s = Some s1" "fewer s1 r1" by blast
  moreover have "cc_reach ck servers et s1" using Cons.prems(1,3) s1(1) by (auto intro: cc_step)
  ultimately show ?case using Cons.IH [of s1 r1] Cons.prems(3) r1(2) by simp
qed auto

lemma cc_quick_shows:
  assumes "case cc_quick ck servers et ls (cc_init servers et) of None \<Rightarrow> False
      | Some s \<Rightarrow> P (cl_raft (lc_cl (cc_lc s)))"
    and "list_all (\<lambda>l. lc_server l \<in> set servers) ls"
  shows "\<exists>s. cc_reach ck servers et s \<and> P (cl_raft (lc_cl (cc_lc s)))"
proof -
  obtain r where r: "cc_quick ck servers et ls (cc_init servers et) = Some r" "P (cl_raft (lc_cl (cc_lc r)))"
    using assms(1) by (auto split: option.splits)
  have "fewer (cc_init servers et) (cc_init servers et)" by (simp add: fewer_def fewer_votes_def)
  from cc_quick_reach [OF cc_start this assms(2) r(1)] r(2) show ?thesis by (auto simp: fewer_def fewer_votes_def)
qed

section \<open>Each of the checks is needed\<close>

definition five :: "ServerId list" where
  "five = map sample_id [''a'', ''b'', ''c'', ''d'', ''e'']"

definition entry_of :: "ServerId \<Rightarrow> raft_term \<Rightarrow> prm_idx \<Rightarrow> LogEntry" where
  "entry_of i t p = \<lparr>le_term = t, le_opName = ''op'', le_args = [], le_prmIdx = p, le_srvId = i\<rparr>"

definition sends :: "ServerId \<Rightarrow> raft_term \<Rightarrow> LogEntry list \<Rightarrow> ServerId list \<Rightarrow> lc_label list" where
  "sends i t es js = SendEntries i 1 # map (\<lambda>j. Run (DeliverEntries j
     \<lparr>ae_term = t, ae_leaderId = i, ae_prevLogIdx = 0, ae_prevLogTerm = 0, ae_logEntries = es, ae_commitIdx = 0\<rparr>)) js"

text \<open>The candidate \<open>i\<close> asks with the last index and term of its log; its \<open>k\<close>-th request goes to \<open>v\<close>.\<close>

definition asks :: "ServerId \<Rightarrow> raft_term \<Rightarrow> index \<Rightarrow> raft_term \<Rightarrow> nat \<Rightarrow> ServerId \<Rightarrow> lc_label list" where
  "asks i t n u k v = map Run [DeliverVote v
     \<lparr>rv_term = t, rv_candidateId = i, rv_lastLogIdx = n, rv_lastLogTerm = u\<rparr>, VoteBack i k (t, True)]"

definition up :: "ServerId list \<Rightarrow> lc_label list" where
  "up is = map Run (concat (map runs_up is))"

definition stand :: "ServerId \<Rightarrow> lc_label list" where
  "stand i = map Run (stands i)"

definition turns :: "ServerId \<Rightarrow> lc_label list" where
  "turns i = [Run (RunTransform i 150)]"

definition counts :: "ServerId \<Rightarrow> raft_term \<Rightarrow> ServerId \<Rightarrow> lc_label list" where
  "counts i t j = [Run (Replicate i j [Replied (t, True)])]"

abbreviation applied_at :: "(ServerId \<Rightarrow> Raft) \<Rightarrow> string \<Rightarrow> prm_idx list" where
  "applied_at rfs x \<equiv> applied_prms (rfs (sample_id x))"

definition diverged :: "string \<Rightarrow> string \<Rightarrow> (ServerId \<Rightarrow> Raft) \<Rightarrow> bool" where
  "diverged x y rfs \<longleftrightarrow> applied_at rfs x \<noteq> [] \<and> applied_at rfs y \<noteq> [] \<and>
     hd (applied_at rfs x) \<noteq> hd (applied_at rfs y)"

text \<open>
  Without \<open>compared\<close>: \<open>a\<close> commits a request with \<open>c\<close>; \<open>b\<close>, whose log is empty, gets the vote of \<open>c\<close>.
\<close>

definition uncompared_run :: "lc_label list" where
  "uncompared_run = (let a = sample_id ''a''; b = sample_id ''b''; c = sample_id ''c'' in
     up [a, b, c] @ stand a @ asks a 1 0 0 1 c @ turns a @ [Run (LogRequest a (run_request a 7))] @
     sends a 1 [entry_of a 1 7] [c] @ counts a 1 c @
     stand b @ stand b @ asks b 2 0 0 1 c @ turns b @ [Run (LogRequest b (run_request b 9))] @
     sends b 2 [entry_of b 2 9] [c] @ counts b 2 c)"

text \<open>
  Without \<open>own_term\<close>: \<open>d\<close> leads term 3 and commits the request of \<open>a\<close> of term 1 with \<open>a\<close> and \<open>e\<close>;
  \<open>c\<close> has the request of \<open>b\<close> of term 2, so that \<open>e\<close> votes for it in term 4.
\<close>

definition old_term_run :: "lc_label list" where
  "old_term_run = (let a = sample_id ''a''; b = sample_id ''b''; c = sample_id ''c''; d = sample_id ''d''; e = sample_id ''e'' in
     up [a, b, c, d, e] @
     stand a @ asks a 1 0 0 1 c @ asks a 1 0 0 2 d @ turns a @ [Run (LogRequest a (run_request a 7))] @
     sends a 1 [entry_of a 1 7] [d] @
     stand b @ stand b @ asks b 2 0 0 1 c @ asks b 2 0 0 3 e @ turns b @ [Run (LogRequest b (run_request b 9))] @
     sends b 2 [entry_of b 2 9] [c] @
     stand d @ stand d @ asks d 3 1 1 0 a @ asks d 3 1 1 3 e @ turns d @ turns a @
     sends d 3 [entry_of a 1 7] [a, e] @ counts d 3 a @ counts d 3 e @
     stand c @ stand c @ asks c 4 1 2 1 b @ asks c 4 1 2 3 e @ turns c @ turns b @
     sends c 4 [entry_of b 2 9] [b, e] @ counts c 4 b @ counts c 4 e)"

text \<open>
  Without \<open>adopted\<close>: \<open>e\<close> takes the entry of \<open>a\<close>, the leader of term 2, and stays in term 0; so it
  then takes the entry of \<open>b\<close>, the leader of term 1, in its place, and wins an election with it.
\<close>

definition unadopted_run :: "lc_label list" where
  "unadopted_run = (let a = sample_id ''a''; b = sample_id ''b''; c = sample_id ''c''; d = sample_id ''d''; e = sample_id ''e'' in
     up [a, b, c, d, e] @
     stand b @ asks b 1 0 0 1 c @ asks b 1 0 0 2 d @ turns b @ [Run (LogRequest b (run_request b 9))] @
     stand a @ stand a @ asks a 2 0 0 1 c @ asks a 2 0 0 2 d @ turns a @ [Run (LogRequest a (run_request a 7))] @
     sends a 2 [entry_of a 2 7] [c, e] @ counts a 2 c @ [Run (Replicate a e [Replied (0, True)])] @
     sends b 1 [entry_of b 1 9] [e] @
     stand e @ stand e @ stand e @ asks e 3 1 1 1 b @ asks e 3 1 1 3 d @ turns e @ turns b @
     [Run (LogRequest e (run_request e 11))] @
     sends e 3 [entry_of b 1 9, entry_of e 3 11] [b, d] @ counts e 3 b @ counts e 3 d)"

lemma run_members:
  "list_all (\<lambda>l. lc_server l \<in> set three) uncompared_run"
  "list_all (\<lambda>l. lc_server l \<in> set five) old_term_run" "list_all (\<lambda>l. lc_server l \<in> set five) unadopted_run"
  by code_simp+

lemma uncompared_diverges:
  "\<exists>s. cc_reach \<lparr>compared = False, own_term = True, adopted = True\<rparr> three 100 s \<and>
     diverged ''a'' ''b'' (cl_raft (lc_cl (cc_lc s)))"
proof (rule cc_quick_shows)
  show "case cc_quick \<lparr>compared = False, own_term = True, adopted = True\<rparr> three 100 uncompared_run (cc_init three 100) of
      None \<Rightarrow> False | Some s \<Rightarrow> diverged ''a'' ''b'' (cl_raft (lc_cl (cc_lc s)))" by code_simp
qed (rule run_members)

lemma old_term_diverges:
  "\<exists>s. cc_reach \<lparr>compared = True, own_term = False, adopted = True\<rparr> five 100 s \<and>
     diverged ''d'' ''c'' (cl_raft (lc_cl (cc_lc s)))"
proof (rule cc_quick_shows)
  show "case cc_quick \<lparr>compared = True, own_term = False, adopted = True\<rparr> five 100 old_term_run (cc_init five 100) of
      None \<Rightarrow> False | Some s \<Rightarrow> diverged ''d'' ''c'' (cl_raft (lc_cl (cc_lc s)))" by code_simp
qed (rule run_members)

lemma unadopted_diverges:
  "\<exists>s. cc_reach \<lparr>compared = True, own_term = True, adopted = False\<rparr> five 100 s \<and>
     diverged ''a'' ''e'' (cl_raft (lc_cl (cc_lc s)))"
proof (rule cc_quick_shows)
  show "case cc_quick \<lparr>compared = True, own_term = True, adopted = False\<rparr> five 100 unadopted_run (cc_init five 100) of
      None \<Rightarrow> False | Some s \<Rightarrow> diverged ''a'' ''e'' (cl_raft (lc_cl (cc_lc s)))" by code_simp
qed (rule run_members)

text \<open>
  C33. Each of the three checks that the code leaves out is needed: whichever of them is missing, with
  the other two a cluster reaches a state in which two servers have applied different requests as
  their first.
\<close>

theorem checks_needed:
  "(\<exists>s. cc_reach \<lparr>compared = False, own_term = True, adopted = True\<rparr> three 100 s \<and>
      diverged ''a'' ''b'' (cl_raft (lc_cl (cc_lc s)))) \<and>
   (\<exists>s. cc_reach \<lparr>compared = True, own_term = False, adopted = True\<rparr> five 100 s \<and>
      diverged ''d'' ''c'' (cl_raft (lc_cl (cc_lc s)))) \<and>
   (\<exists>s. cc_reach \<lparr>compared = True, own_term = True, adopted = False\<rparr> five 100 s \<and>
      diverged ''a'' ''e'' (cl_raft (lc_cl (cc_lc s))))"
  using uncompared_diverges old_term_diverges unadopted_diverges by simp

end
