(* ===== verification/Leader_Completeness.thy ===== *)
theory Leader_Completeness
  imports Commit_Cluster "HOL-Library.Sublist"
begin

text \<open>
  What a leader of term \<open>t\<close> has committed is in the log of every leader of a later term. The argument
  is about the history of a cluster only: the logs \<open>LL\<close> that leaders had (by term), the logs \<open>took\<close>
  that servers took over or led with, and the votes, each with the log of the candidate when it
  stood and of the voter when it voted. \<open>history_ok\<close> says what \<open>State_Machine_Safety\<close> shows of the
  history of every reachable state.
\<close>

section \<open>Prefixes\<close>

lemma prefix_of_same: "prefix a c \<Longrightarrow> prefix b c \<Longrightarrow> prefix a b \<or> prefix b a"
  using prefix_same_cases by blast

lemma prefix_shorter: "prefix a c \<Longrightarrow> prefix b c \<Longrightarrow> length a \<le> length b \<Longrightarrow> prefix a b"
  by (rule prefix_length_prefix)

lemma prefix_take_iff: "prefix P X \<longleftrightarrow> length P \<le> length X \<and> take (length P) X = P"
  by (metis append_eq_conv_conj prefixE prefix_length_le take_is_prefix)

lemma prefix_nth: "prefix P X \<Longrightarrow> k < length P \<Longrightarrow> P ! k = X ! k"
  by (auto simp: prefix_def nth_append)

lemma prefix_mem: "prefix P X \<Longrightarrow> e \<in> set P \<Longrightarrow> e \<in> set X"
  by (auto simp: prefix_def)

lemma take_prefix: "prefix P X \<Longrightarrow> k \<le> length P \<Longrightarrow> take k X = take k P"
  by (auto simp: prefix_def)

section \<open>Histories\<close>

text \<open>
  A log begins with the sentinel, its terms do not decrease, and every entry behind the sentinel comes,
  with all before it, from the log of a leader of its term.
\<close>

definition good :: "(raft_term \<times> LogEntry list) set \<Rightarrow> LogEntry list \<Rightarrow> bool" where
  "good LL X \<longleftrightarrow> (\<exists>es. X = LogEntry0 # es) \<and> sorted (map le_term X) \<and>
     (\<forall>k. 1 \<le> k \<longrightarrow> k < length X \<longrightarrow> (\<exists>Z. (le_term (X ! k), Z) \<in> LL \<and> prefix (take (k + 1) X) Z))"

text \<open>
  A log \<open>L\<close> of \<open>v\<close> keeps what \<open>v\<close> took in a term \<open>s\<close>, if the leaders of the terms after \<open>s\<close> had it; only
  terms in \<open>U\<close> count.
\<close>

definition keeps :: "(raft_term \<times> LogEntry list) set \<Rightarrow> (ServerId \<times> raft_term \<times> LogEntry list) set \<Rightarrow>
    ServerId \<Rightarrow> (raft_term \<Rightarrow> bool) \<Rightarrow> LogEntry list \<Rightarrow> bool" where
  "keeps LL took v U L \<longleftrightarrow> (\<forall>s X P. (v, s, X) \<in> took \<longrightarrow> U s \<longrightarrow> prefix P X \<longrightarrow>
     (\<forall>u Y. (u, Y) \<in> LL \<longrightarrow> s < u \<longrightarrow> U u \<longrightarrow> prefix P Y) \<longrightarrow> prefix P L)"

definition chain :: "(raft_term \<times> LogEntry list) set \<Rightarrow> bool" where
  "chain LL \<longleftrightarrow> (\<forall>u Y Z. (u, Y) \<in> LL \<longrightarrow> (u, Z) \<in> LL \<longrightarrow> prefix Y Z \<or> prefix Z Y)"

text \<open>The comparison of the candidate's log \<open>Y\<close> with the voter's log \<open>L\<close>.\<close>

definition beats :: "LogEntry list \<Rightarrow> LogEntry list \<Rightarrow> bool" where
  "beats Y L \<longleftrightarrow> le_term (last L) < le_term (last Y) \<or>
     le_term (last L) = le_term (last Y) \<and> length L \<le> length Y"

text \<open>\<open>P\<close> has been committed by counting in the term \<open>t\<close>.\<close>

definition committed :: "ServerId list \<Rightarrow> (ServerId \<times> raft_term \<times> LogEntry list) set \<Rightarrow> raft_term \<Rightarrow>
    LogEntry list \<Rightarrow> bool" where
  "committed servers took t P \<longleftrightarrow> P \<noteq> [] \<and> le_term (last P) = t \<and> t \<noteq> 0 \<and>
     (\<exists>Q \<subseteq> set servers. length servers div 2 < card Q \<and> (\<forall>v \<in> Q. \<exists>X. (v, t, X) \<in> took \<and> prefix P X))"

definition lead_ok :: "(ServerId \<times> raft_term) set \<Rightarrow> (ServerId \<Rightarrow> raft_term \<Rightarrow> LogEntry list) \<Rightarrow>
    (raft_term \<times> LogEntry list) set \<Rightarrow> bool" where
  "lead_ok led stood LL \<longleftrightarrow> chain LL \<and> (\<forall>(u, Y) \<in> LL. good LL Y \<and> (\<forall>e \<in> set Y. le_term e \<le> u) \<and>
     (\<exists>c. (c, u) \<in> led \<and> prefix (stood c u) Y))"

definition vote_ok :: "CommitCluster \<Rightarrow> ServerId \<times> raft_term \<times> ServerId \<Rightarrow> bool" where
  "vote_ok s = (\<lambda>(v, t, c). let Y = cc_stood s c t; L = cc_voted s v t in
     t \<noteq> 0 \<and> (c, t, c) \<in> cl_votes (lc_cl (cc_lc s)) \<and> good (cc_lead s) Y \<and> (\<forall>e \<in> set Y. le_term e < t) \<and>
     good (cc_lead s) L \<and> beats Y L \<and> keeps (cc_lead s) (cc_took s) v (\<lambda>u. u < t) L)"

definition history_ok :: "ServerId list \<Rightarrow> CommitCluster \<Rightarrow> bool" where
  "history_ok servers s \<longleftrightarrow> lead_ok (lc_led (cc_lc s)) (cc_stood s) (cc_lead s) \<and>
     (\<forall>x \<in> cl_votes (lc_cl (cc_lc s)). vote_ok s x) \<and>
     (\<forall>(v, t, X) \<in> cc_took s. (t, X) \<in> cc_lead s) \<and>
     (\<forall>w \<in> lc_led (cc_lc s). backed servers (cl_votes (lc_cl (cc_lc s))) w)"

section \<open>Leaders have what is committed\<close>

lemma good_last:
  assumes "good LL X" "le_term (last X) \<noteq> 0"
  obtains Z where "(le_term (last X), Z) \<in> LL" "prefix X Z"
proof -
  from assms(1) obtain es where X: "X = LogEntry0 # es" by (auto simp: good_def)
  with assms(2) have "es \<noteq> []" by (auto simp: LogEntry0_def InvalidTerm_def)
  with X have k: "1 \<le> length X - 1" "length X - 1 < length X" "last X = X ! (length X - 1)" "X \<noteq> []"
    by (simp_all add: last_conv_nth Suc_le_eq)
  with assms(1) obtain Z where "(le_term (X ! (length X - 1)), Z) \<in> LL" "prefix (take (length X - 1 + 1) X) Z"
    unfolding good_def by blast
  with k that show thesis by simp
qed

lemma good_le_last:
  assumes "good LL X" "e \<in> set X"
  shows "le_term e \<le> le_term (last X)"
proof -
  from assms(2) obtain k where k: "k < length X" "e = X ! k" by (auto simp: in_set_conv_nth)
  then have "X \<noteq> []" "k \<le> length X - 1" "length X - 1 < length X" by auto
  moreover have "sorted (map le_term X)" using assms(1) by (simp add: good_def)
  ultimately show ?thesis
    using sorted_nth_mono [of "map le_term X" k "length X - 1"] k by (simp add: last_conv_nth)
qed

text \<open>
  A candidate that beats a log which has \<open>P\<close> has \<open>P\<close> as well, if the leaders before its term do.
\<close>

lemma beats_has:
  assumes good: "good LL Y" "good LL L" and b: "beats Y L" and c: "chain LL"
    and P: "prefix P L" "P \<noteq> []" "le_term (last P) \<noteq> 0"
    and old: "\<forall>e \<in> set Y. le_term e < u" "\<And>w Z. (w, Z) \<in> LL \<Longrightarrow> le_term (last P) < w \<Longrightarrow> w < u \<Longrightarrow> prefix P Z"
  shows "prefix P Y"
proof -
  have "Y \<noteq> []" using good(1) by (auto simp: good_def)
  have "last P \<in> set L" using P(1) last_in_set [OF P(2)] by (rule prefix_mem)
  with good_le_last [OF good(2)] have lastL: "le_term (last P) \<le> le_term (last L)" by blast
  then have "le_term (last P) \<le> le_term (last Y)" using b by (auto simp: beats_def)
  then have nz: "le_term (last L) \<noteq> 0" "le_term (last Y) \<noteq> 0" using lastL P(3) by auto
  obtain Z where Z: "(le_term (last Y), Z) \<in> LL" "prefix Y Z" using good_last [OF good(1) nz(2)] by blast
  from b consider "le_term (last L) < le_term (last Y)" | "le_term (last L) = le_term (last Y)" "length L \<le> length Y"
    by (auto simp: beats_def)
  then show ?thesis
  proof cases
    case 1
    have "prefix P Z"
    proof (rule old(2) [OF Z(1)])
      show "le_term (last P) < le_term (last Y)" using lastL 1 by simp
      show "le_term (last Y) < u" using old(1) \<open>Y \<noteq> []\<close> by simp
    qed
    with Z(2) have "prefix P Y \<or> prefix Y P" by (metis prefix_of_same)
    moreover have "prefix P Y" if "prefix Y P"
    proof (rule ccontr)
      assume "\<not> prefix P Y"
      have "prefix P L" by (rule P(1))
      then have "last Y \<in> set L" using that \<open>Y \<noteq> []\<close> by (meson last_in_set prefix_mem)
      with good_le_last [OF good(2)] 1 show False by (simp add: leD)
    qed
    ultimately show ?thesis by blast
  next
    case 2
    obtain W where W: "(le_term (last Y), W) \<in> LL" "prefix L W" using good_last [OF good(2) nz(1)] 2(1) by metis
    with Z c have "prefix Z W \<or> prefix W Z" unfolding chain_def by blast
    then obtain V where "prefix Y V" "prefix L V" using Z(2) W(2) by (meson prefix_order.trans)
    then have "prefix L Y" using 2(2) by (metis prefix_shorter)
    with P(1) show ?thesis by (rule prefix_order.trans)
  qed
qed

lemma committed_meets:
  assumes "committed servers took t P" "backed servers votes (c, u)" "distinct servers"
  obtains v X where "(v, t, X) \<in> took" "prefix P X" "(v, u, c) \<in> votes"
proof -
  from assms(1) obtain Q where q: "Q \<subseteq> set servers" "length servers div 2 < card Q"
    "\<forall>v \<in> Q. \<exists>X. (v, t, X) \<in> took \<and> prefix P X" by (auto simp: committed_def)
  from assms(2) obtain R where r: "R \<subseteq> set servers" "length servers div 2 < card R" "\<forall>v \<in> R. (v, u, c) \<in> votes"
    by (auto simp: backed_def)
  obtain v where "v \<in> Q" "v \<in> R"
    using majorities_meet [of "set servers" Q R] q(1,2) r(1,2) assms(3) by (auto simp: distinct_card)
  with q(3) r(3) that show thesis by blast
qed

lemma leader_complete:
  assumes h: "history_ok servers s" and d: "distinct servers" and P: "committed servers (cc_took s) t P"
  shows "(u, Y) \<in> cc_lead s \<Longrightarrow> t < u \<Longrightarrow> prefix P Y"
proof (induction "unat u" arbitrary: u Y rule: less_induct)
  case less
  from h have lead: "lead_ok (lc_led (cc_lc s)) (cc_stood s) (cc_lead s)" by (simp add: history_ok_def)
  with less.prems(1) obtain c where c: "(c, u) \<in> lc_led (cc_lc s)" "prefix (cc_stood s c u) Y"
    by (auto simp: lead_ok_def)
  with h have "backed servers (cl_votes (lc_cl (cc_lc s))) (c, u)" by (auto simp: history_ok_def)
  with P d obtain v X where v: "(v, t, X) \<in> cc_took s" "prefix P X" "(v, u, c) \<in> cl_votes (lc_cl (cc_lc s))"
    by (elim committed_meets)
  let ?Y = "cc_stood s c u" and ?L = "cc_voted s v u"
  from h v(3) have "vote_ok s (v, u, c)" by (auto simp: history_ok_def)
  then have vote: "good (cc_lead s) ?Y" "\<forall>e \<in> set ?Y. le_term e < u" "good (cc_lead s) ?L" "beats ?Y ?L"
    and k: "keeps (cc_lead s) (cc_took s) v (\<lambda>w. w < u) ?L" by (simp_all add: vote_ok_def Let_def)
  have IH: "prefix P Z" if "(w, Z) \<in> cc_lead s" "t < w" "w < u" for w Z
    using less.hyps [of w Z] that by (simp add: word_less_nat_alt)
  from P have last: "P \<noteq> []" "le_term (last P) = t" "t \<noteq> 0" by (simp_all add: committed_def)
  have "prefix P ?L" using k v(1,2) less.prems(2) IH unfolding keeps_def by blast
  then have "prefix P ?Y"
    using beats_has [OF vote(1,3,4) _ _ last(1) _ vote(2)] last IH lead by (auto simp: lead_ok_def)
  with c(2) show ?case by (metis prefix_order.trans)
qed

text \<open>What has been committed in two terms, or twice in one, is on one line.\<close>

lemma committed_took:
  assumes "history_ok servers s" "committed servers (cc_took s) t P"
  obtains X where "(t, X) \<in> cc_lead s" "prefix P X"
proof -
  from assms(2) obtain Q where "length servers div 2 < card Q" "\<forall>v \<in> Q. \<exists>X. (v, t, X) \<in> cc_took s \<and> prefix P X"
    by (auto simp: committed_def)
  moreover from this(1) obtain v where "v \<in> Q" by (metis card.empty not_less_zero equals0I)
  ultimately obtain X where "(v, t, X) \<in> cc_took s" "prefix P X" by blast
  with assms(1) that show thesis by (auto simp: history_ok_def)
qed

lemma committed_line:
  assumes h: "history_ok servers s" "distinct servers"
    and P: "committed servers (cc_took s) t P" "committed servers (cc_took s) u R"
  shows "prefix P R \<or> prefix R P"
proof -
  have later: "prefix P R \<or> prefix R P"
    if P: "committed servers (cc_took s) t P" "committed servers (cc_took s) u R" "t < u" for t u P R
  proof -
    obtain Y where Y: "(u, Y) \<in> cc_lead s" "prefix R Y" by (rule committed_took [OF h(1) P(2)])
    from leader_complete [OF h P(1) Y(1) P(3)] Y(2) show ?thesis by (metis prefix_of_same)
  qed
  consider "t < u" | "u < t" | "t = u" by (metis linorder_neqE)
  then show ?thesis
  proof cases
    case 3
    obtain X where X: "(t, X) \<in> cc_lead s" "prefix P X" by (rule committed_took [OF h(1) P(1)])
    obtain Y where Y: "(t, Y) \<in> cc_lead s" "prefix R Y" using committed_took [OF h(1) P(2)] 3 by metis
    have "prefix X Y \<or> prefix Y X" using X Y h(1) by (auto simp: history_ok_def lead_ok_def chain_def)
    with X(2) Y(2) show ?thesis by (metis prefix_of_same prefix_order.trans)
  qed (use later P in blast)+
qed

end
