(* ===== verification/Commit_Invariant.thy ===== *)
theory Commit_Invariant
  imports Leader_Completeness
begin

text \<open>
  The invariant of a cluster with answers (\<open>Commit_Cluster\<close>): what its history must satisfy
  (\<open>history_ok\<close>), what its messages and answers say of the history, and for every server how its
  log, vote, commit index and bookkeeping as a leader agree with the history. \<open>cc_inv_step\<close> reduces
  a step to what it changes.
\<close>

section \<open>The invariant\<close>

abbreviation cc_votes :: "CommitCluster \<Rightarrow> (ServerId \<times> raft_term \<times> ServerId) set" where
  "cc_votes s \<equiv> cl_votes (lc_cl (cc_lc s))"

abbreviation cc_won :: "CommitCluster \<Rightarrow> (ServerId \<times> raft_term) set" where
  "cc_won s \<equiv> cl_won (lc_cl (cc_lc s))"

abbreviation cc_led :: "CommitCluster \<Rightarrow> (ServerId \<times> raft_term) set" where
  "cc_led s \<equiv> lc_led (cc_lc s)"

abbreviation cc_msgs :: "CommitCluster \<Rightarrow> (AppendEntriesMessage \<times> LogEntry list) set" where
  "cc_msgs s \<equiv> lc_msgs (cc_lc s)"

text \<open>What is below a commit index has been committed by counting, not after the term \<open>t\<close>.\<close>

definition known :: "ServerId list \<Rightarrow> CommitCluster \<Rightarrow> raft_term \<Rightarrow> LogEntry list \<Rightarrow> bool" where
  "known servers s t P \<longleftrightarrow> length P \<le> 1 \<or> (\<exists>u R. u \<le> t \<and> committed servers (cc_took s) u R \<and> prefix P R)"

definition sent_ok :: "CommitCluster \<Rightarrow> RequestVoteMessage \<Rightarrow> bool" where
  "sent_ok s m \<longleftrightarrow> (let c = rv_candidateId m; t = rv_term m; Y = cc_stood s c t in
     (c, t, c) \<in> cc_votes s \<and> rv_lastLogIdx m = length Y - 1 \<and> rv_lastLogTerm m = le_term (last Y))"

definition msg_ok :: "ServerId list \<Rightarrow> CommitCluster \<Rightarrow> AppendEntriesMessage \<times> LogEntry list \<Rightarrow> bool" where
  "msg_ok servers s = (\<lambda>(m, X). (ae_term m, X) \<in> cc_lead s \<and> ae_commitIdx m < length X \<and>
     known servers s (ae_term m) (take (ae_commitIdx m + 1) X))"

definition answer_ok :: "CommitCluster \<Rightarrow> ServerId \<times> AppendEntriesMessage \<times> Reply \<Rightarrow> bool" where
  "answer_ok s = (\<lambda>(j, m, r). fst r \<le> ae_term m \<and>
     (snd r \<longrightarrow> (\<exists>X. (m, X) \<in> cc_msgs s \<and> (j, ae_term m, X) \<in> cc_took s)))"

definition voter_ok :: "CommitCluster \<Rightarrow> ServerId \<Rightarrow> Raft \<Rightarrow> bool" where
  "voter_ok s i rf \<longleftrightarrow> (if votedFor (rf_state rf) = NullServerId then term_of rf = 0
     else (i, term_of rf, votedFor (rf_state rf)) \<in> cc_votes s)"

definition log_ok :: "CommitCluster \<Rightarrow> ServerId \<Rightarrow> Raft \<Rightarrow> bool" where
  "log_ok s i rf \<longleftrightarrow> good (cc_lead s) (rf_log rf) \<and> (\<forall>e \<in> set (rf_log rf). le_term e \<le> term_of rf) \<and>
     (\<forall>t X. (i, t, X) \<in> cc_took s \<longrightarrow> t \<le> term_of rf) \<and>
     keeps (cc_lead s) (cc_took s) i (\<lambda>u. u \<le> term_of rf) (rf_log rf)"

definition stand_ok :: "CommitCluster \<Rightarrow> ServerId \<Rightarrow> Raft \<Rightarrow> bool" where
  "stand_ok s i rf \<longleftrightarrow> (rf_identity rf = Candidate \<and> (pend rf = [] \<or> Leader \<in> set (pend rf)) \<longrightarrow>
     rf_log rf = cc_stood s i (term_of rf) \<or> (\<exists>j. j \<noteq> i \<and> (j, term_of rf) \<in> cc_won s))"

text \<open>The bookkeeping of the leader \<open>i\<close>: it counts what followers took.\<close>

definition count_ok :: "ServerId list \<Rightarrow> CommitCluster \<Rightarrow> ServerId \<Rightarrow> Raft \<Rightarrow> bool" where
  "count_ok servers s i rf \<longleftrightarrow> (let ld = rf_leader rf; L = rf_log rf in
     length (logStates ld) = length L \<and> dom (followerNodes ld) \<subseteq> set servers - {i} \<and>
     (\<forall>j n. followerNodes ld j = Some n \<longrightarrow> nextIdx n \<le> length L \<and> matchIdx n < length L \<and>
        (matchIdx n = 0 \<or> (\<exists>X. (j, term_of rf, X) \<in> cc_took s \<and> prefix (take (matchIdx n + 1) L) X))) \<and>
     (\<forall>k. 1 \<le> k \<longrightarrow> k < length L \<longrightarrow> logStates ld ! k = 1 + matched ld k))"

definition leader_ok :: "ServerId list \<Rightarrow> CommitCluster \<Rightarrow> ServerId \<Rightarrow> Raft \<Rightarrow> bool" where
  "leader_ok servers s i rf \<longleftrightarrow> (rf_identity rf \<noteq> Leader \<longrightarrow> rf_leader rf = LeaderImpl0) \<and>
     (rf_identity rf = Leader \<and> pend rf = [] \<longrightarrow> (i, term_of rf, rf_log rf) \<in> cc_took s \<and>
       (\<forall>Z. (term_of rf, Z) \<in> cc_lead s \<longrightarrow> prefix Z (rf_log rf)) \<and> count_ok servers s i rf)"

definition commit_known :: "ServerId list \<Rightarrow> CommitCluster \<Rightarrow> Raft \<Rightarrow> bool" where
  "commit_known servers s rf \<longleftrightarrow> commitIdx (rf_state rf) < length (rf_log rf) \<and>
     known servers s (term_of rf) (take (commitIdx (rf_state rf) + 1) (rf_log rf))"

definition server_ok :: "ServerId list \<Rightarrow> CommitCluster \<Rightarrow> ServerId \<Rightarrow> Raft \<Rightarrow> bool" where
  "server_ok servers s i rf \<longleftrightarrow> voter_ok s i rf \<and> log_ok s i rf \<and> stand_ok s i rf \<and>
     leader_ok servers s i rf \<and> commit_known servers s rf"

definition cc_inv :: "ServerId list \<Rightarrow> CommitCluster \<Rightarrow> bool" where
  "cc_inv servers s \<longleftrightarrow> history_ok servers s \<and> (\<forall>(j, m) \<in> cl_sent (lc_cl (cc_lc s)). sent_ok s m) \<and>
     (\<forall>x \<in> cc_msgs s. msg_ok servers s x) \<and> (\<forall>x \<in> cc_answers s. answer_ok s x) \<and>
     (\<forall>i. server_ok servers s i (cc_raft s i))"

lemma cc_invD:
  assumes "cc_inv servers s"
  shows "history_ok servers s" "\<And>j m. (j, m) \<in> cl_sent (lc_cl (cc_lc s)) \<Longrightarrow> sent_ok s m"
    "\<And>m X. (m, X) \<in> cc_msgs s \<Longrightarrow> msg_ok servers s (m, X)" "\<And>x. x \<in> cc_answers s \<Longrightarrow> answer_ok s x"
    "server_ok servers s i (cc_raft s i)"
  using assms by (auto simp: cc_inv_def)

lemma history_okD:
  assumes "history_ok servers s"
  shows "lead_ok (cc_led s) (cc_stood s) (cc_lead s)" "\<And>x. x \<in> cc_votes s \<Longrightarrow> vote_ok s x"
    "\<And>v t X. (v, t, X) \<in> cc_took s \<Longrightarrow> (t, X) \<in> cc_lead s"
    "\<And>w. w \<in> cc_led s \<Longrightarrow> backed servers (cc_votes s) w"
  using assms by (auto simp: history_ok_def)

section \<open>What growing histories keep\<close>

lemma good_mono: "good LL X \<Longrightarrow> LL \<subseteq> LL' \<Longrightarrow> good LL' X"
  unfolding good_def by blast

lemma keeps_mono:
  assumes "keeps LL took v U L" "LL \<subseteq> LL'" "\<And>s X. (v, s, X) \<in> took' \<Longrightarrow> U s \<Longrightarrow> (v, s, X) \<in> took"
  shows "keeps LL' took' v U L"
  using assms unfolding keeps_def by (meson subsetD)

lemma keeps_weaken:
  assumes "keeps LL took v U L" "\<And>u. U u \<Longrightarrow> U' u" "\<And>s X. (v, s, X) \<in> took \<Longrightarrow> U' s \<Longrightarrow> U s"
  shows "keeps LL took v U' L"
  using assms unfolding keeps_def by meson

lemma committed_mono: "committed servers took t P \<Longrightarrow> took \<subseteq> took' \<Longrightarrow> committed servers took' t P"
  unfolding committed_def by (meson subsetD)

lemma known_mono: "known servers s t P \<Longrightarrow> cc_took s \<subseteq> cc_took s' \<Longrightarrow> t \<le> t' \<Longrightarrow> known servers s' t' P"
  unfolding known_def by (meson committed_mono order_trans)

lemma commit_known_mono: "commit_known servers s rf \<Longrightarrow> cc_took s \<subseteq> cc_took s' \<Longrightarrow> commit_known servers s' rf"
  by (auto simp: commit_known_def intro: known_mono)

lemma count_ok_mono:
  assumes "count_ok servers s i rf" "cc_took s \<subseteq> cc_took s'"
  shows "count_ok servers s' i rf"
  using assms unfolding count_ok_def Let_def by (meson subsetD)

text \<open>A step of the server \<open>i\<close>.\<close>

lemma cc_inv_step:
  assumes inv: "cc_inv servers s"
    and same: "\<And>j. j \<noteq> i \<Longrightarrow> cc_raft s' j = cc_raft s j"
      "\<And>j. j \<noteq> i \<Longrightarrow> cc_stood s' j = cc_stood s j" "\<And>j. j \<noteq> i \<Longrightarrow> cc_voted s' j = cc_voted s j"
      "\<And>t. (i, t, i) \<in> cc_votes s \<Longrightarrow> cc_stood s' i t = cc_stood s i t"
      "\<And>t c. (i, t, c) \<in> cc_votes s \<Longrightarrow> cc_voted s' i t = cc_voted s i t"
    and grow: "cc_lead s \<subseteq> cc_lead s'" "cc_took s \<subseteq> cc_took s'" "cc_votes s \<subseteq> cc_votes s'"
      "cc_won s \<subseteq> cc_won s'" "cc_led s \<subseteq> cc_led s'" "cc_msgs s \<subseteq> cc_msgs s'"
    and lead: "\<And>u Y. (u, Y) \<in> cc_lead s' \<Longrightarrow> (u, Y) \<in> cc_lead s \<or> (i, u) \<in> cc_led s'"
      "lead_ok (cc_led s') (cc_stood s') (cc_lead s')"
    and one: "\<And>j t. (i, t) \<in> cc_led s' \<Longrightarrow> (j, t) \<in> cc_led s' \<Longrightarrow> j = i"
    and led: "\<And>j. rf_identity (cc_raft s j) = Leader \<Longrightarrow> pend (cc_raft s j) = [] \<Longrightarrow>
      (j, term_of (cc_raft s j)) \<in> cc_led s"
    and took: "\<And>v t X. (v, t, X) \<in> cc_took s' \<Longrightarrow>
      (v, t, X) \<in> cc_took s \<or> v = i \<and> t = term_of (cc_raft s' i) \<and> (t, X) \<in> cc_lead s'"
    and up: "term_of (cc_raft s i) \<le> term_of (cc_raft s' i)"
    and book: "\<And>t c. (i, t, c) \<in> cc_votes s \<Longrightarrow> t \<le> term_of (cc_raft s i)"
    and votes: "\<And>x. x \<in> cc_votes s' \<Longrightarrow> x \<in> cc_votes s \<or> vote_ok s' x"
    and backed: "\<And>w. w \<in> cc_led s' \<Longrightarrow> backed servers (cc_votes s') w"
    and sent: "\<And>j m. (j, m) \<in> cl_sent (lc_cl (cc_lc s')) \<Longrightarrow> (j, m) \<in> cl_sent (lc_cl (cc_lc s)) \<or> sent_ok s' m"
    and msgs: "\<And>x. x \<in> cc_msgs s' \<Longrightarrow> x \<in> cc_msgs s \<or> msg_ok servers s' x"
    and answers: "\<And>x. x \<in> cc_answers s' \<Longrightarrow> x \<in> cc_answers s \<or> answer_ok s' x"
    and node: "server_ok servers s' i (cc_raft s' i)"
  shows "cc_inv servers s'"
proof -
  note old = cc_invD [OF inv] and hist = history_okD [OF cc_invD(1) [OF inv]]
  have stood: "cc_stood s' c t = cc_stood s c t" if "(c, t, c) \<in> cc_votes s" for c t
    using that same(2,4) by (cases "c = i") auto
  have voted: "cc_voted s' v t = cc_voted s v t" if "(v, t, c) \<in> cc_votes s" for v t c
    using that same(3,5) by (cases "v = i") auto
  have vote: "vote_ok s' (v, t, c)" if x: "(v, t, c) \<in> cc_votes s" for v t c
  proof -
    from hist(2) [OF x] have o: "t \<noteq> 0" "(c, t, c) \<in> cc_votes s" "good (cc_lead s) (cc_stood s c t)"
      "\<forall>e \<in> set (cc_stood s c t). le_term e < t" "good (cc_lead s) (cc_voted s v t)"
      "beats (cc_stood s c t) (cc_voted s v t)" "keeps (cc_lead s) (cc_took s) v (\<lambda>u. u < t) (cc_voted s v t)"
      by (simp_all add: vote_ok_def Let_def)
    have "keeps (cc_lead s') (cc_took s') v (\<lambda>u. u < t) (cc_voted s v t)"
    proof (rule keeps_mono [OF o(7) grow(1)])
      fix r X assume n: "(v, r, X) \<in> cc_took s'" "r < t"
      have "\<not> (v = i \<and> r = term_of (cc_raft s' i))" using book [of t c] x up n(2) by auto
      with took [OF n(1)] show "(v, r, X) \<in> cc_took s" by blast
    qed
    with o stood [OF o(2)] voted [OF x] show ?thesis
      using good_mono [OF _ grow(1)] grow(3) by (auto simp: vote_ok_def Let_def)
  qed
  have "history_ok servers s'"
    unfolding history_ok_def
  proof (intro conjI ballI)
    fix x assume "x \<in> cc_votes s'"
    with votes [OF this] vote show "vote_ok s' x" by (cases x) blast
  next
    fix x assume x: "x \<in> cc_took s'"
    obtain v t X where "x = (v, t, X)" by (cases x)
    with x took hist(3) grow(1) show "case x of (v, t, X) \<Rightarrow> (t, X) \<in> cc_lead s'" by blast
  qed (use lead(2) backed in blast)+
  moreover have "sent_ok s' m" if x: "(j, m) \<in> cl_sent (lc_cl (cc_lc s'))" for j m
  proof (cases "(j, m) \<in> cl_sent (lc_cl (cc_lc s))")
    case True
    from old(2) [OF this] stood [of "rv_candidateId m" "rv_term m"] grow(3) show ?thesis
      by (auto simp: sent_ok_def Let_def)
  qed (use sent [OF x] in blast)
  moreover have "msg_ok servers s' (m, X)" if x: "(m, X) \<in> cc_msgs s'" for m X
  proof (cases "(m, X) \<in> cc_msgs s")
    case True
    from old(3) [OF this] show ?thesis
      using grow(1) known_mono [OF _ grow(2) order_refl] by (auto simp: msg_ok_def)
  qed (use msgs [OF x] in blast)
  moreover have "answer_ok s' (j, m, r)" if x: "(j, m, r) \<in> cc_answers s'" for j m r
  proof (cases "(j, m, r) \<in> cc_answers s")
    case True
    from old(4) [OF this] show ?thesis using grow(2,6) by (auto simp: answer_ok_def)
  qed (use answers [OF x] in blast)
  moreover have "server_ok servers s' j (cc_raft s' j)" for j
  proof (cases "j = i")
    case False
    let ?rf = "cc_raft s j"
    from old(5) [of j] have n: "voter_ok s j ?rf" "log_ok s j ?rf" "stand_ok s j ?rf" "leader_ok servers s j ?rf"
      "commit_known servers s ?rf" by (simp_all add: server_ok_def)
    have tk: "(j, t, X) \<in> cc_took s" if "(j, t, X) \<in> cc_took s'" for t X
      using took [OF that] False by blast
    have "voter_ok s' j ?rf" using n(1) grow(3) by (auto simp: voter_ok_def split: if_splits)
    moreover have "log_ok s' j ?rf"
      using n(2) tk good_mono [OF _ grow(1)] keeps_mono [OF _ grow(1), of "cc_took s" j _ _ "cc_took s'"]
      unfolding log_ok_def by blast
    moreover have "stand_ok s' j ?rf"
      using n(3) same(2) [OF False] grow(4) by (auto simp: stand_ok_def)
    moreover have "leader_ok servers s' j ?rf"
    proof -
      have "prefix Z (rf_log ?rf)" if l: "rf_identity ?rf = Leader" "pend ?rf = []" "(term_of ?rf, Z) \<in> cc_lead s'" for Z
      proof -
        have "(j, term_of ?rf) \<in> cc_led s'" using led [OF l(1,2)] grow(5) by blast
        with one False have "(i, term_of ?rf) \<notin> cc_led s'" by blast
        with lead(1) [OF l(3)] n(4) l(1,2) show ?thesis by (auto simp: leader_ok_def)
      qed
      with n(4) grow(2) count_ok_mono [OF _ grow(2)] show ?thesis by (auto simp: leader_ok_def)
    qed
    ultimately show ?thesis
      using commit_known_mono [OF n(5) grow(2)] same(1) [OF False] by (simp add: server_ok_def)
  qed (use node in simp)
  ultimately show ?thesis by (auto simp: cc_inv_def)
qed

end
