(* ===== verification/Commit_Steps.thy ===== *)
theory Commit_Steps
  imports Commit_Invariant
begin

text \<open>The steps of a cluster with answers keep its invariant.\<close>

section \<open>What the operations do to the bookkeeping of a leader\<close>

lemma raft_requestVote_leader:
  "raft_requestVote m rf = Some (r, rf') \<Longrightarrow> rf_leader rf' = rf_leader rf"
  by (cases "rf_identity rf") (auto simp: set_server_def set_leader_def leader_requestVote_def Option.bind_eq_Some_conv)

lemma raft_timeout_leader: "raft_timeout rf = Some rf' \<Longrightarrow> rf_leader rf' = rf_leader rf"
  by (auto simp: raft_timeout_def split: option.splits)

lemma raft_appendEntries_result:
  assumes "raft_ok rf" "term_of rf \<le> ae_term msg" "raft_appendEntries msg rf = Some (r, rf')" "rf_identity rf \<noteq> Leader"
  shows "rf_leader rf' = rf_leader rf \<and>
    (rf' = rf \<and> r = (InvalidTerm, False) \<or> rf_state rf' = rf_state rf \<and> \<not> snd r \<and> fst r \<le> ae_term msg \<or>
     rf_state rf' = appendedState msg (rf_state rf) \<and> r = (term_of rf, matchesPrev msg (rf_state rf)))"
proof (cases "active rf")
  case True
  let ?sv = "rf_server rf"
  have ok: "sv_ok ?sv" using assms(1) True by (simp add: raft_ok_active)
  consider "rf_identity rf = Follower" | "rf_identity rf = Candidate" using True assms(4) by (auto simp: active_def)
  then show ?thesis
  proof cases
    case 1
    obtain h where h: "follower_appendEntries msg ?sv = defaultRPCAppendEntries msg Follower (?sv\<lparr>sv_heartBeat := h\<rparr>)"
      "sv_ok (?sv\<lparr>sv_heartBeat := h\<rparr>)" using ok assms(2) by (rule follower_appendEntries_fresh)
    with appendEntries_returns [OF h(2), of msg Follower] assms(2,3) 1 show ?thesis
      by (auto simp: set_server_def min_absorb1)
  next
    case 2
    let ?sv' = "if ae_term msg = term_of rf then sv_notify Follower (term_of rf) ?sv else ?sv"
    have "sv_ok ?sv'" using ok by (simp add: keeps_intros)
    from appendEntries_returns [OF this, of msg Candidate] assms(2,3) 2 show ?thesis
      by (auto simp: set_server_def candidate_appendEntries_def Let_def min_absorb1 split: if_splits)
  qed
next
  case False
  then show ?thesis using assms(3) raft_ok_inactive [OF assms(1)]
    by (auto simp: set_server_def bogus_appendEntries_def InvalidTerm_def)
qed

lemma LeaderImpl_cleared: "ld\<lparr>followerNodes := (\<lambda>_. None), logStates := []\<rparr> = LeaderImpl0"
  by (simp add: LeaderImpl0_def)

lemma raft_event_leader:
  assumes "raft_event (\<lambda>from to. to) True timeout rf = Some rf'" "pend rf = target # rest" "raft_ok rf"
    and "rf_identity rf \<noteq> Leader \<Longrightarrow> rf_leader rf = LeaderImpl0"
  shows "rf_leader rf' = (if target = Leader
    then snd (reinitStates ((rf_server rf)\<lparr>sv_state := rf_state rf\<rparr>, LeaderImpl0)) else LeaderImpl0)"
proof -
  have "eq_idle (sv_eventQueue (rf_server rf))" using assms(3) by (simp add: raft_ok_def raft_base_def)
  then obtain q where q: "eq_exec1 (sv_eventQueue (rf_server rf)) = Some (target, q)" "eq_idle q"
    using assms(2) by (rule eq_exec1_events)
  let ?rf = "rf\<lparr>rf_server := (rf_server rf)\<lparr>sv_eventQueue := q\<rparr>\<rparr>"
  obtain rf1 where leave: "leave_identity (rf_identity ?rf) (?rf\<lparr>rf_paused := True\<rparr>) = Some rf1"
    "sv_state (rf_server rf1) = rf_state ?rf" "sv_info (rf_server rf1) = rf_info ?rf"
    using raft_ok_queue [OF assms(3) q(2)] by (rule leave_identity_ok)
  have ld: "rf_leader rf1 = LeaderImpl0"
    using leave(1) assms(4) by (cases "rf_identity rf")
      (auto simp: follower_leave_def candidate_leave_def leader_leave_def LeaderImpl_cleared)
  from assms(1) q(1) leave(1) obtain rf2 where i: "init_identity True timeout target (rf1\<lparr>rf_identity := target\<rparr>) = Some rf2"
    "rf' = rf2\<lparr>rf_paused := False\<rparr>"
    by (auto simp: raft_event_def transform_def Let_def Option.bind_eq_Some_conv)
  show ?thesis
  proof (cases target)
    case Leader
    with i ld leave(2,3) show ?thesis by (auto simp: leader_init_def reinitStates_def Let_def)
  qed (use i ld in \<open>auto split: prod.splits\<close>)
qed

section \<open>What tryAppendEntries does to it\<close>

lemma ta_loop_shape:
  assumes "ta_loop t n rs (sv, ld) = Some (b, sv', ld')" "followerNodes ld t = Some node"
    and "\<And>a. Replied a \<in> set rs \<Longrightarrow> fst a \<le> currentTerm (sv_state sv)"
    and "nextIdx node \<le> length (entries (sv_state sv))"
  shows "sv' = sv \<and> logStates ld' = logStates ld \<and> (\<exists>node'. followerNodes ld' = (followerNodes ld)(t \<mapsto> node') \<and>
    (if b then node' = synced sv node \<and> (\<exists>a. Replied a \<in> set rs \<and> snd a)
     else matchIdx node' = matchIdx node \<and> nextIdx node' \<le> nextIdx node))"
  using assms
proof (induction rs arbitrary: n ld node)
  case Nil
  then show ?case by (intro conjI exI [of _ node]) (simp_all add: fun_upd_idem)
next
  case (Cons r rs)
  have later: "x \<in> set rs \<Longrightarrow> x \<in> set (r # rs)" for x by simp
  have le: "fst a \<le> currentTerm (sv_state sv)" if "Replied a \<in> set rs" for a using Cons.prems(3) that by simp
  show ?case
  proof (cases r)
    case Interrupted
    with Cons.prems(1,2) show ?thesis by (intro conjI exI [of _ node]) (simp_all add: fun_upd_idem)
  next
    case RpcError
    then have "ta_loop t (n + 1) rs (sv, ld) = Some (b, sv', ld') \<or> \<not> b \<and> sv' = sv \<and> ld' = ld"
      using Cons.prems(1) by (auto split: option.splits if_splits)
    then show ?thesis
    proof
      assume "ta_loop t (n + 1) rs (sv, ld) = Some (b, sv', ld')"
      from Cons.IH [OF this Cons.prems(2) le Cons.prems(4)] later show ?thesis by metis
    next
      assume "\<not> b \<and> sv' = sv \<and> ld' = ld"
      with Cons.prems(2) show ?thesis by (intro conjI exI [of _ node]) (simp_all add: fun_upd_idem)
    qed
  next
    case (Replied a)
    have a: "\<not> fst a > currentTerm (sv_state sv)" using Cons.prems(3) [of a] Replied by (simp add: not_less)
    obtain m where m: "ta_build t (sv, ld) = Some m" using Cons.prems(1) Replied by (auto split: option.splits)
    note build = ta_build_Some [OF m Cons.prems(2)]
    let ?lowered = "ld\<lparr>followerNodes := (followerNodes ld)(t \<mapsto> node\<lparr>nextIdx := nextIdx node - 1\<rparr>)\<rparr>"
    let ?node = "node\<lparr>nextIdx := nextIdx node - 1\<rparr>"
    consider "snd a" | "\<not> snd a" "nextIdx node = 1" | "\<not> snd a" "nextIdx node \<noteq> 1" by blast
    then show ?thesis
    proof cases
      case 1
      have n: "nextIdx node + length (ae_logEntries m) = length (entries (sv_state sv))" using build by simp
      have "ta_reply t m a (sv, ld) = Some (TaSucceeded, sv, ld\<lparr>followerNodes := (followerNodes ld)(t \<mapsto> synced sv node)\<rparr>)"
        using 1 Cons.prems(2) n by (simp add: ta_reply_def Let_def)
      with Cons.prems(1) Replied m have "b" "sv' = sv" "ld' = ld\<lparr>followerNodes := (followerNodes ld)(t \<mapsto> synced sv node)\<rparr>"
        by auto
      moreover have "\<exists>a. Replied a \<in> set (r # rs) \<and> snd a" using 1 Replied by (intro exI [of _ a]) simp
      ultimately show ?thesis by auto
    next
      case 2
      then have "ta_reply t m a (sv, ld) = Some (TaReturn, sv, ld)"
        using a Cons.prems(2) by (simp add: ta_reply_def Let_def)
      with Cons.prems(1) Replied m have "\<not> b" "sv' = sv" "ld' = ld" by auto
      with Cons.prems(2) show ?thesis by (intro conjI exI [of _ node]) (simp_all add: fun_upd_idem)
    next
      case 3
      then have "ta_reply t m a (sv, ld) = Some (TaRetry, sv, ?lowered)"
        using a Cons.prems(2) by (simp add: ta_reply_def Let_def)
      with Cons.prems(1) Replied m have l: "ta_loop t n rs (sv, ?lowered) = Some (b, sv', ld')" by auto
      have "followerNodes ?lowered t = Some ?node" by simp
      then have "sv' = sv \<and> logStates ld' = logStates ?lowered \<and> (\<exists>node'. followerNodes ld' = (followerNodes ?lowered)(t \<mapsto> node') \<and>
          (if b then node' = synced sv ?node \<and> (\<exists>a. Replied a \<in> set rs \<and> snd a)
           else matchIdx node' = matchIdx ?node \<and> nextIdx node' \<le> nextIdx ?node))"
        by (rule Cons.IH [OF l]) (use le Cons.prems(4) in auto)
      then obtain node' where n: "sv' = sv" "logStates ld' = logStates ?lowered" "followerNodes ld' = (followerNodes ?lowered)(t \<mapsto> node')"
        "if b then node' = synced sv ?node \<and> (\<exists>a. Replied a \<in> set rs \<and> snd a)
         else matchIdx node' = matchIdx ?node \<and> nextIdx node' \<le> nextIdx ?node" by blast
      have "followerNodes ld' = (followerNodes ld)(t \<mapsto> node')" using n(3) by simp
      moreover have "if b then node' = synced sv node \<and> (\<exists>a. Replied a \<in> set (r # rs) \<and> snd a)
         else matchIdx node' = matchIdx node \<and> nextIdx node' \<le> nextIdx node"
        using n(4) later by (cases b) auto
      moreover have "logStates ld' = logStates ld" using n(2) by simp
      ultimately show ?thesis using n(1) by blast
    qed
  qed
qed

text \<open>The bookkeeping stays in order, and a commit index that grows is one that a majority matches.\<close>

lemma try_counts:
  assumes run: "tryAppendEntries t rs (sv, ld) = Some (sv', ld')"
    and a: "\<And>a. Replied a \<in> set rs \<Longrightarrow> fst a \<le> currentTerm (sv_state sv)"
    and len: "length (logStates ld) = length (entries (sv_state sv))" "finite (dom (followerNodes ld))"
    and nodes: "\<And>j n. followerNodes ld j = Some n \<Longrightarrow>
      nextIdx n \<le> length (entries (sv_state sv)) \<and> matchIdx n < length (entries (sv_state sv))"
    and counts: "\<And>k. 1 \<le> k \<Longrightarrow> k < length (entries (sv_state sv)) \<Longrightarrow> logStates ld ! k = 1 + matched ld k"
  shows "entries (sv_state sv') = entries (sv_state sv)" "currentTerm (sv_state sv') = currentTerm (sv_state sv)"
    "votedFor (sv_state sv') = votedFor (sv_state sv)"
    "sv_info sv' = sv_info sv" "same_gate sv sv'" "length (logStates ld') = length (entries (sv_state sv))"
    "\<exists>node node'. followerNodes ld t = Some node \<and> followerNodes ld' = (followerNodes ld)(t \<mapsto> node') \<and>
      (matchIdx node' = matchIdx node \<and> nextIdx node' \<le> nextIdx node \<or>
       node' = synced sv node \<and> (\<exists>a. Replied a \<in> set rs \<and> snd a))"
    "\<And>k. 1 \<le> k \<Longrightarrow> k < length (entries (sv_state sv)) \<Longrightarrow> logStates ld' ! k = 1 + matched ld' k"
    "commitIdx (sv_state sv) \<le> commitIdx (sv_state sv')"
    "commitIdx (sv_state sv) < commitIdx (sv_state sv') \<Longrightarrow> 1 \<le> commitIdx (sv_state sv') \<and>
      commitIdx (sv_state sv') < length (entries (sv_state sv)) \<and>
      wins (1 + matched ld' (commitIdx (sv_state sv'))) (sv_info sv)"
proof -
  let ?L = "entries (sv_state sv)"
  obtain node b st1 where node: "followerNodes ld t = Some node" and loop0: "ta_loop t 0 rs (sv, ld) = Some (b, st1)"
    and fin: "(if b then ta_commit (matchIdx node) st1 else Some st1) = Some (sv', ld')"
    using run by (rule tryAppendEntries_Some) auto
  obtain sv1 ld1 where st1: "st1 = (sv1, ld1)" by (cases st1)
  note nd = nodes [OF node]
  have "sv1 = sv \<and> logStates ld1 = logStates ld \<and> (\<exists>node'. followerNodes ld1 = (followerNodes ld)(t \<mapsto> node') \<and>
      (if b then node' = synced sv node \<and> (\<exists>a. Replied a \<in> set rs \<and> snd a)
       else matchIdx node' = matchIdx node \<and> nextIdx node' \<le> nextIdx node))"
    using ta_loop_shape [OF loop0 [unfolded st1] node a] nd by blast
  then obtain node' where 1: "sv1 = sv" "logStates ld1 = logStates ld" "followerNodes ld1 = (followerNodes ld)(t \<mapsto> node')"
    "if b then node' = synced sv node \<and> (\<exists>a. Replied a \<in> set rs \<and> snd a)
     else matchIdx node' = matchIdx node \<and> nextIdx node' \<le> nextIdx node" by blast
  define m where "m = matchIdx node'"
  have node': "node' = node\<lparr>nextIdx := nextIdx node', matchIdx := m\<rparr>" "matchIdx node \<le> m" "\<not> b \<longrightarrow> m = matchIdx node"
    "b \<longrightarrow> m = length ?L - 1"
    using 1(4) nd unfolding m_def by (cases b; force)+
  have matched1: "matched ld1 i = matched ld i + (if matchIdx node < i \<and> i \<le> m then 1 else 0)" for i
    using matched_update [OF len(2) node node'(2), of "nextIdx node'" i] 1(3) node'(1) by (simp add: matched_def)
  show "\<exists>node node'. followerNodes ld t = Some node \<and> followerNodes ld' = (followerNodes ld)(t \<mapsto> node') \<and>
      (matchIdx node' = matchIdx node \<and> nextIdx node' \<le> nextIdx node \<or>
       node' = synced sv node \<and> (\<exists>a. Replied a \<in> set rs \<and> snd a))"
  proof (intro exI conjI)
    show "followerNodes ld t = Some node" by (rule node)
    show "followerNodes ld' = (followerNodes ld)(t \<mapsto> node')"
      using fin st1 1(3) ta_commit_Some(3) by (auto split: if_splits)
    show "matchIdx node' = matchIdx node \<and> nextIdx node' \<le> nextIdx node \<or>
       node' = synced sv node \<and> (\<exists>a. Replied a \<in> set rs \<and> snd a)" using 1(4) by (cases b) auto
  qed
  have "commitIdx (sv_state sv) \<le> commitIdx (sv_state sv') \<and> entries (sv_state sv') = ?L \<and>
      currentTerm (sv_state sv') = currentTerm (sv_state sv) \<and> votedFor (sv_state sv') = votedFor (sv_state sv) \<and>
      sv_info sv' = sv_info sv \<and> same_gate sv sv' \<and> length (logStates ld') = length ?L \<and>
      (\<forall>k. 1 \<le> k \<longrightarrow> k < length ?L \<longrightarrow> logStates ld' ! k = 1 + matched ld' k) \<and>
      (commitIdx (sv_state sv) < commitIdx (sv_state sv') \<longrightarrow> 1 \<le> commitIdx (sv_state sv') \<and>
        commitIdx (sv_state sv') < length ?L \<and> wins (1 + matched ld' (commitIdx (sv_state sv'))) (sv_info sv))"
  proof (cases b)
    case False
    with fin st1 1(1) have eq: "sv' = sv" "ld' = ld1" by auto
    have "matched ld1 i = matched ld i" for i using matched1 [of i] node'(3) False by auto
    with eq 1(2) len counts show ?thesis by simp
  next
    case True
    then have c: "ta_commit (matchIdx node) (sv, ld1) = Some (sv', ld')" using fin st1 1(1) by simp
    note commit = ta_commit_Some [OF c] and gate = ta_commit_gate [OF c]
    have m: "m = length ?L - 1" using node'(4) True by blast
    have matched': "matched ld' i = matched ld1 i" for i using commit(3) by (simp add: matched_def)
    have same: "votedFor (sv_state sv') = votedFor (sv_state sv)"
    proof -
      obtain sv2 ld2 where f: "fold ta_count [matchIdx node + 1 ..< length (logStates ld1)] (sv, ld1) = (sv2, ld2)" by fastforce
      with c have "applyReadyEntries sv2 = Some sv'" by (auto simp: ta_commit_def)
      from applyReadyEntries_frame [OF this] fold_ta_count_frame [OF f] show ?thesis by (auto simp: leader_frame_def)
    qed
    have reps: "logStates ld' ! k = 1 + matched ld' k" if "1 \<le> k" "k < length ?L" for k
      using commit(2) counts [OF that] matched' [of k] matched1 [of k] that len(1) 1(2) m by (auto simp: nth_bumps)
    have "1 \<le> commitIdx (sv_state sv') \<and> commitIdx (sv_state sv') < length ?L \<and>
        wins (1 + matched ld' (commitIdx (sv_state sv'))) (sv_info sv)"
      if "commitIdx (sv_state sv) < commitIdx (sv_state sv')"
    proof -
      let ?c = "commitIdx (sv_state sv')"
      from commit(6) [OF that] have w: "matchIdx node < ?c" "?c < length ?L" "wins (logStates ld ! ?c + 1) (sv_info sv)"
        using 1(2) len(1) by simp_all
      then have "logStates ld ! ?c + 1 = 1 + matched ld' ?c"
        using counts [of ?c] matched' [of ?c] matched1 [of ?c] m by simp
      with w show ?thesis by simp
    qed
    with commit gate same reps 1(2) len(1) show ?thesis by (simp add: Suc_leI)
  qed
  then show "entries (sv_state sv') = entries (sv_state sv)" "currentTerm (sv_state sv') = currentTerm (sv_state sv)"
    "votedFor (sv_state sv') = votedFor (sv_state sv)"
    "sv_info sv' = sv_info sv" "same_gate sv sv'" "length (logStates ld') = length (entries (sv_state sv))"
    "\<And>k. 1 \<le> k \<Longrightarrow> k < length (entries (sv_state sv)) \<Longrightarrow> logStates ld' ! k = 1 + matched ld' k"
    "commitIdx (sv_state sv) \<le> commitIdx (sv_state sv')"
    "commitIdx (sv_state sv) < commitIdx (sv_state sv') \<Longrightarrow> 1 \<le> commitIdx (sv_state sv') \<and>
      commitIdx (sv_state sv') < length (entries (sv_state sv)) \<and>
      wins (1 + matched ld' (commitIdx (sv_state sv'))) (sv_info sv)"
    by blast+
qed

section \<open>Steps that only change queues\<close>

text \<open>What \<open>Cluster\<close> and \<open>Log_Matching\<close> show of a state.\<close>

definition sound :: "ServerId list \<Rightarrow> nat \<Rightarrow> LogCluster \<Rightarrow> bool" where
  "sound servers et s \<longleftrightarrow> lc_inv s \<and> cl_inv servers et (lc_cl s) \<and>
     (\<forall>i j t. (i, t) \<in> lc_won s \<longrightarrow> (j, t) \<in> lc_won s \<longrightarrow> i = j)"

lemma soundD:
  assumes "sound servers et s"
  shows "lc_inv s" "cl_inv servers et (lc_cl s)" "\<And>i j t. (i, t) \<in> lc_won s \<Longrightarrow> (j, t) \<in> lc_won s \<Longrightarrow> i = j"
    "raft_ok (lc_raft s i)" "rf_info (lc_raft s i) = \<lparr>local = i, srvList = servers, electionTimeout = et\<rparr>"
    "\<And>v t c. (v, t, c) \<in> cl_votes (lc_cl s) \<Longrightarrow> t \<le> term_of (lc_raft s v)"
    "\<And>w. w \<in> lc_led s \<Longrightarrow> w \<in> lc_won s" "\<And>w. w \<in> lc_led s \<Longrightarrow> backed servers (cl_votes (lc_cl s)) w"
    "\<And>i. rf_identity (lc_raft s i) = Leader \<Longrightarrow> pend (lc_raft s i) = [] \<Longrightarrow> (i, term_of (lc_raft s i)) \<in> lc_led s"
    "trig (lc_raft s i) \<le> term_of (lc_raft s i)"
proof -
  from assms show 1: "lc_inv s" "cl_inv servers et (lc_cl s)"
    "\<And>i j t. (i, t) \<in> lc_won s \<Longrightarrow> (j, t) \<in> lc_won s \<Longrightarrow> i = j" unfolding sound_def by blast+
  show "raft_ok (lc_raft s i)" "rf_info (lc_raft s i) = \<lparr>local = i, srvList = servers, electionTimeout = et\<rparr>"
    using cl_inv_node [OF 1(2) refl] by blast+
  show "\<And>v t c. (v, t, c) \<in> cl_votes (lc_cl s) \<Longrightarrow> t \<le> term_of (lc_raft s v)"
    using 1(2) by (auto simp: cl_inv_def book_agrees_def)
  show led: "\<And>w. w \<in> lc_led s \<Longrightarrow> w \<in> lc_won s" using lc_invD(3) [OF 1(1)] by blast
  show "\<And>w. w \<in> lc_led s \<Longrightarrow> backed servers (cl_votes (lc_cl s)) w" using led 1(2) by (auto simp: cl_inv_def)
  show "\<And>i. rf_identity (lc_raft s i) = Leader \<Longrightarrow> pend (lc_raft s i) = [] \<Longrightarrow> (i, term_of (lc_raft s i)) \<in> lc_led s"
    using lc_invD(5) [OF 1(1)] by (simp add: leads_ok_def)
  show "trig (lc_raft s i) \<le> term_of (lc_raft s i)" using lc_invD(4) [OF 1(1)] by (simp add: queue_ok_def)
qed

lemma cc_inv_go:
  assumes inv: "cc_inv servers s" and r: "sound servers et (cc_lc s)" "sound servers et (cc_lc s')"
    and same: "\<And>j. j \<noteq> i \<Longrightarrow> cc_raft s' j = cc_raft s j"
      "\<And>j. j \<noteq> i \<Longrightarrow> cc_stood s' j = cc_stood s j" "\<And>j. j \<noteq> i \<Longrightarrow> cc_voted s' j = cc_voted s j"
      "\<And>t. (i, t, i) \<in> cc_votes s \<Longrightarrow> cc_stood s' i t = cc_stood s i t"
      "\<And>t c. (i, t, c) \<in> cc_votes s \<Longrightarrow> cc_voted s' i t = cc_voted s i t"
    and grow: "cc_lead s \<subseteq> cc_lead s'" "cc_took s \<subseteq> cc_took s'" "cc_votes s \<subseteq> cc_votes s'"
      "cc_won s \<subseteq> cc_won s'" "cc_led s \<subseteq> cc_led s'" "cc_msgs s \<subseteq> cc_msgs s'"
    and lead: "\<And>u Y. (u, Y) \<in> cc_lead s' \<Longrightarrow> (u, Y) \<in> cc_lead s \<or> (i, u) \<in> cc_led s'"
      "lead_ok (cc_led s') (cc_stood s') (cc_lead s')"
    and took: "\<And>v t X. (v, t, X) \<in> cc_took s' \<Longrightarrow>
      (v, t, X) \<in> cc_took s \<or> v = i \<and> t = term_of (cc_raft s' i) \<and> (t, X) \<in> cc_lead s'"
    and up: "term_of (cc_raft s i) \<le> term_of (cc_raft s' i)"
    and votes: "\<And>x. x \<in> cc_votes s' \<Longrightarrow> x \<in> cc_votes s \<or> vote_ok s' x"
    and sent: "\<And>j m. (j, m) \<in> cl_sent (lc_cl (cc_lc s')) \<Longrightarrow> (j, m) \<in> cl_sent (lc_cl (cc_lc s)) \<or> sent_ok s' m"
    and msgs: "\<And>x. x \<in> cc_msgs s' \<Longrightarrow> x \<in> cc_msgs s \<or> msg_ok servers s' x"
    and answers: "\<And>x. x \<in> cc_answers s' \<Longrightarrow> x \<in> cc_answers s \<or> answer_ok s' x"
    and node: "server_ok servers s' i (cc_raft s' i)"
  shows "cc_inv servers s'"
proof (rule cc_inv_step [OF inv same grow lead _ _ took up _ votes _ sent msgs answers node])
  show "j = i" if "(i, t) \<in> cc_led s'" "(j, t) \<in> cc_led s'" for j t
    using soundD(3) [OF r(2)] soundD(7) [OF r(2)] that by blast
  show "(j, term_of (cc_raft s j)) \<in> cc_led s"
    if "rf_identity (cc_raft s j) = Leader" "pend (cc_raft s j) = []" for j
    using that by (rule soundD(9) [OF r(1)])
  show "t \<le> term_of (cc_raft s i)" if "(i, t, c) \<in> cc_votes s" for t c
    using that by (rule soundD(6) [OF r(1)])
  show "backed servers (cc_votes s') w" if "w \<in> cc_led s'" for w
    using that by (rule soundD(8) [OF r(2)])
qed

definition same_history :: "CommitCluster \<Rightarrow> CommitCluster \<Rightarrow> bool" where
  "same_history s s' \<longleftrightarrow> cc_lead s' = cc_lead s \<and> cc_took s' = cc_took s \<and> cc_stood s' = cc_stood s \<and>
     cc_voted s' = cc_voted s \<and> cc_answers s' = cc_answers s \<and> cc_msgs s' = cc_msgs s \<and>
     cl_sent (lc_cl (cc_lc s')) = cl_sent (lc_cl (cc_lc s)) \<and> cc_votes s' = cc_votes s \<and>
     cc_led s \<subseteq> cc_led s' \<and> cc_won s \<subseteq> cc_won s'"

lemma lead_ok_led: "lead_ok led stood LL \<Longrightarrow> led \<subseteq> led' \<Longrightarrow> lead_ok led' stood LL"
  unfolding lead_ok_def by blast

lemma cc_inv_same:
  assumes "cc_inv servers s" "sound servers et (cc_lc s)" "sound servers et (cc_lc s')" "same_history s s'"
    and "\<And>j. j \<noteq> i \<Longrightarrow> cc_raft s' j = cc_raft s j" "term_of (cc_raft s i) \<le> term_of (cc_raft s' i)"
    and "server_ok servers s' i (cc_raft s' i)"
  shows "cc_inv servers s'"
proof (rule cc_inv_go [OF assms(1-3,5) _ _ _ _ _ _ _ _ _ _ _ _ _ assms(6) _ _ _ _ assms(7)])
  show "lead_ok (cc_led s') (cc_stood s') (cc_lead s')"
    using history_okD(1) [OF cc_invD(1) [OF assms(1)]] assms(4) by (auto simp: same_history_def intro: lead_ok_led)
qed (use assms(4) in \<open>auto simp: same_history_def\<close>)

text \<open>A server whose state stays, and which gets no new reason to stand or lead.\<close>

lemma server_ok_same:
  assumes "server_ok servers s i rf" "same_history s s'" "rf_state rf' = rf_state rf"
    and "rf_identity rf' = rf_identity rf" "rf_leader rf' = rf_leader rf"
    and "pend rf' = [] \<or> Leader \<in> set (pend rf') \<Longrightarrow> pend rf = []"
  shows "server_ok servers s' i rf'"
proof -
  note h = assms(2) [unfolded same_history_def]
  have known: "known servers s' = known servers s" using h by (simp add: known_def fun_eq_iff)
  have "voter_ok s' i rf'" using assms(1,3) h by (simp add: server_ok_def voter_ok_def)
  moreover have "log_ok s' i rf'" using assms(1,3) h by (simp add: server_ok_def log_ok_def)
  moreover have "stand_ok s' i rf'" using assms(1,3,4,6) h unfolding server_ok_def stand_ok_def by auto
  moreover have "count_ok servers s' i rf' = count_ok servers s i rf" using assms(3,5) h by (simp add: count_ok_def)
  then have "leader_ok servers s' i rf'" using assms(1,3-6) h by (simp add: server_ok_def leader_ok_def)
  moreover have "commit_known servers s' rf'" using assms(1,3) known by (simp add: server_ok_def commit_known_def)
  ultimately show ?thesis by (simp add: server_ok_def)
qed

lemma cc_inv_quiet:
  assumes "cc_inv servers s" "sound servers et (cc_lc s)" "sound servers et (cc_lc s')" "same_history s s'"
    and "\<And>j. j \<noteq> i \<Longrightarrow> cc_raft s' j = cc_raft s j"
    and "rf_state (cc_raft s' i) = rf_state (cc_raft s i)" "rf_identity (cc_raft s' i) = rf_identity (cc_raft s i)"
      "rf_leader (cc_raft s' i) = rf_leader (cc_raft s i)"
    and "pend (cc_raft s' i) = [] \<or> Leader \<in> set (pend (cc_raft s' i)) \<Longrightarrow> pend (cc_raft s i) = []"
  shows "cc_inv servers s'"
  by (rule cc_inv_same [OF assms(1-5)])
    (use assms(6) server_ok_same [OF cc_invD(5) [OF assms(1)] assms(4,6-9)] in simp_all)

lemma cc_trigger:
  assumes inv: "cc_inv servers s" "sound servers et (cc_lc s)" "sound servers et c" and pend: "pend (cc_raft s i) = []"
    and t: "target \<noteq> Leader"
    and c: "c = (cc_lc s)\<lparr>lc_cl := cl_put i (triggerTransformation target (cc_raft s i)) (lc_cl (cc_lc s))\<rparr>"
  shows "cc_inv servers (s\<lparr>cc_lc := c\<rparr>)"
  by (rule cc_inv_quiet [OF inv(1,2), where i = i])
    (use inv(3) pend t in \<open>simp_all add: c same_history_def cl_put_def triggerTransformation_def\<close>)

lemma cc_timer:
  assumes inv: "cc_inv servers s" "sound servers et (cc_lc s)" "sound servers et c" and pend: "pend (cc_raft s i) = []"
    and call: "raft_timeout (cc_raft s i) = Some rf'" and c: "c = (cc_lc s)\<lparr>lc_cl := cl_put i rf' (lc_cl (cc_lc s))\<rparr>"
  shows "cc_inv servers (s\<lparr>cc_lc := c\<rparr>)"
proof -
  note eff = raft_timeout_effect [OF call pend soundD(10) [OF inv(2)]]
  show ?thesis
    by (rule cc_inv_quiet [OF inv(1,2), where i = i])
      (use inv(3) pend eff raft_timeout_leader [OF call] in \<open>simp_all add: c same_history_def cl_put_def\<close>)
qed

lemma cc_back:
  assumes inv: "cc_inv servers s" "sound servers et (cc_lc s)" "sound servers et ((cc_lc s)\<lparr>lc_cl := c\<rparr>)"
    and pend: "pend (cc_raft s i) = []" and run: "cl_do True (VoteBack i k r) (lc_cl (cc_lc s)) = Some c"
  shows "cc_inv servers (s\<lparr>cc_lc := (cc_lc s)\<lparr>lc_cl := c\<rparr>\<rparr>)"
proof -
  let ?rf = "cc_raft s i"
  let ?q = "requests (rf_candidate ?rf) ! k"
  obtain sv d where vt: "vote_thread (rq_msg ?q) (Replied r) (rf_server ?rf, rf_candidate ?rf) = (sv, d)" by fastforce
  from run vt have c: "cl_raft c = (cl_raft (lc_cl (cc_lc s)))(i := ?rf\<lparr>rf_server := sv, rf_candidate := finish_request k d\<rparr>)"
    "cl_votes c = cc_votes s" "cl_sent c = cl_sent (lc_cl (cc_lc s))" "cc_won s \<subseteq> cl_won c"
    and k: "k < length (requests (rf_candidate ?rf))"
    by (auto simp: Let_def cl_open_def cl_put_def split: if_splits)
  have "tally_ok servers (cc_votes s) i ?rf (cl_counted (lc_cl (cc_lc s)) i) (cl_elect (lc_cl (cc_lc s)) i)"
    by (rule cl_inv_node(3) [OF soundD(2) [OF inv(2)] refl])
  with k have "rf_identity ?rf = Candidate" by (auto simp: tally_ok_def Let_def)
  moreover have "sv_state sv = rf_state ?rf"
    using vt by (auto simp: vote_thread_def Let_def split: if_splits prod.splits)
  ultimately show ?thesis
    by (intro cc_inv_quiet [OF inv(1,2), where i = i]) (use inv(3) pend c in \<open>simp_all add: same_history_def\<close>)
qed

lemma cc_fails:
  assumes inv: "cc_inv servers s" "sound servers et (cc_lc s)" "sound servers et ((cc_lc s)\<lparr>lc_cl := c\<rparr>)"
    and pend: "pend (cc_raft s i) = []" and run: "cl_do True (VoteFails i k) (lc_cl (cc_lc s)) = Some c"
  shows "cc_inv servers (s\<lparr>cc_lc := (cc_lc s)\<lparr>lc_cl := c\<rparr>\<rparr>)"
proof -
  obtain d where c: "c = cl_put i ((cc_raft s i)\<lparr>rf_candidate := d\<rparr>) (lc_cl (cc_lc s))"
    using run by (auto simp: Let_def vote_thread_def split: if_splits)
  show ?thesis
    by (rule cc_inv_quiet [OF inv(1,2), where i = i]) (use inv(3) pend in \<open>simp_all add: c same_history_def cl_put_def\<close>)
qed

section \<open>Votes\<close>

text \<open>A log that is kept up to a term is kept for the vote in a later one.\<close>

lemma keeps_voted:
  assumes "keeps LL took v (\<lambda>u. u \<le> t) L" "t < t'" "\<And>s X. (v, s, X) \<in> took \<Longrightarrow> s \<le> t"
  shows "keeps LL took v (\<lambda>u. u < t') L" "keeps LL took v (\<lambda>u. u \<le> t') L"
  by (rule keeps_weaken [OF assms(1)]; use assms(2,3) in fastforce)+

lemma log_okD:
  assumes "log_ok s i rf"
  shows "good (cc_lead s) (rf_log rf)" "\<And>e. e \<in> set (rf_log rf) \<Longrightarrow> le_term e \<le> term_of rf"
    "\<And>t X. (i, t, X) \<in> cc_took s \<Longrightarrow> t \<le> term_of rf" "keeps (cc_lead s) (cc_took s) i (\<lambda>u. u \<le> term_of rf) (rf_log rf)"
  using assms by (auto simp: log_ok_def)

lemma log_ok_later:
  assumes "log_ok s i rf" "rf_log rf' = rf_log rf" "term_of rf \<le> term_of rf'"
    and "cc_lead s' = cc_lead s" "cc_took s' = cc_took s"
  shows "log_ok s' i rf'"
proof (cases "term_of rf = term_of rf'")
  case True
  with assms show ?thesis by (simp add: log_ok_def)
next
  case False
  then have lt: "term_of rf < term_of rf'" using assms(3) by simp
  note l = log_okD [OF assms(1)]
  have "keeps (cc_lead s) (cc_took s) i (\<lambda>u. u \<le> term_of rf') (rf_log rf)" using l(4) lt l(3) by (rule keeps_voted)
  moreover have "le_term e \<le> term_of rf'" if "e \<in> set (rf_log rf)" for e using l(2) [OF that] lt by simp
  moreover have "t \<le> term_of rf'" if "(i, t, X) \<in> cc_took s" for t X using l(3) [OF that] lt by simp
  ultimately show ?thesis using l(1) assms by (auto simp: log_ok_def)
qed

lemma commit_known_later:
  assumes "commit_known servers s rf" "rf_log rf' = rf_log rf" "term_of rf \<le> term_of rf'"
    and "commitIdx (rf_state rf') = commitIdx (rf_state rf)" "cc_took s \<subseteq> cc_took s'"
  shows "commit_known servers s' rf'"
  using assms by (auto simp: commit_known_def intro: known_mono)

text \<open>The comparison that a granted vote must pass, with the log of which the request tells.\<close>

lemma upToDate_beats:
  assumes "logUpToDate L m" "rv_lastLogIdx m = length Y - 1" "rv_lastLogTerm m = le_term (last Y)" "L \<noteq> []" "Y \<noteq> []"
  shows "beats Y L"
  using assms by (cases L; cases Y) (auto simp: logUpToDate_def beats_def)

lemma good_nonempty: "good LL X \<Longrightarrow> X \<noteq> []"
  by (auto simp: good_def)

lemma cc_vote:
  assumes inv: "cc_inv servers s" "sound servers et (cc_lc s)" "sound servers et ((cc_lc s)\<lparr>lc_cl := c\<rparr>)"
    and pend: "pend (cc_raft s j) = []" and run: "cl_do True (DeliverVote j m) (lc_cl (cc_lc s)) = Some c"
    and cmp: "grantsVote m (rf_state (cc_raft s j)) \<longrightarrow> logUpToDate (rf_log (cc_raft s j)) m"
  shows "cc_inv servers ((if term_of (cc_raft s j) < rv_term m
    then note_voted j (rv_term m) (rf_log (cc_raft s j)) s else s)\<lparr>cc_lc := (cc_lc s)\<lparr>lc_cl := c\<rparr>\<rparr>)"
    (is "cc_inv servers ?s'")
proof -
  define rf where "rf = cc_raft s j"
  let ?t = "rv_term m" and ?c = "rv_candidateId m"
  obtain r rf' where sent: "(j, m) \<in> cl_sent (lc_cl (cc_lc s))" and le: "term_of rf \<le> ?t"
    and call: "raft_requestVote m rf = Some (r, rf')"
    and c: "c = (cl_put j rf' (lc_cl (cc_lc s)))\<lparr>cl_answers := cl_answers (lc_cl (cc_lc s)) \<union> {(j, m, r)},
      cl_votes := cc_votes s \<union> (if snd r then {(j, ?t, ?c)} else {})\<rparr>"
    using run by (auto simp: rf_def [symmetric] Let_def not_less simp del: raft_requestVote.simps split: if_splits)
  note eff = raft_requestVote_effect [OF soundD(4) [OF inv(2), of j, folded rf_def] le call pend [folded rf_def]
      soundD(10) [OF inv(2), of j, folded rf_def]]
  note ld = raft_requestVote_leader [OF call]
  from cc_invD(5) [OF inv(1), of j] have node: "server_ok servers s j rf" by (simp add: rf_def)
  then have parts: "voter_ok s j rf" "log_ok s j rf" "leader_ok servers s j rf" "commit_known servers s rf"
    by (simp_all add: server_ok_def)
  from cc_invD(2) [OF inv(1) sent] have st: "(?c, ?t, ?c) \<in> cc_votes s" "rv_lastLogIdx m = length (cc_stood s ?c ?t) - 1"
    "rv_lastLogTerm m = le_term (last (cc_stood s ?c ?t))" by (simp_all add: sent_ok_def Let_def)
  from history_okD(2) [OF cc_invD(1) [OF inv(1)] st(1)] have t0: "?t \<noteq> 0"
    "good (cc_lead s) (cc_stood s ?c ?t)" "\<forall>e \<in> set (cc_stood s ?c ?t). le_term e < ?t"
    by (simp_all add: vote_ok_def Let_def)
  have raft': "cc_raft ?s' i = (if i = j then rf' else cc_raft s i)" for i by (simp add: c cl_put_def)
  have null: "?c \<noteq> NullServerId" using soundD(2) [OF inv(2)] sent by (auto simp: cl_inv_def)
  show ?thesis
  proof (cases "term_of rf < ?t")
    case False
    then have eq: "term_of rf = ?t" using le by simp
    have st': "rf_state rf' = rf_state rf \<and> cl_votes c = cc_votes s"
      using soundD(4) [OF inv(2), of j, folded rf_def] call
    proof (rule raft_requestVote_step, goal_cases)
      case 1
      then show ?case by (simp add: c)
    next
      case 2
      have "votedFor (rf_state rf) = ?c" if "grantsVote m (rf_state rf)"
        using that parts(1) eq t0(1) by (auto simp: grantsVote_def voter_ok_def split: if_splits)
      with 2 eq parts(1) null show ?case by (auto simp: c votedState_def voter_ok_def)
    qed
    show ?thesis
      by (rule cc_inv_quiet [OF inv(1,2), where i = j])
        (use inv(3) False st' eff ld pend raft' in \<open>auto simp: rf_def same_history_def c cl_put_def\<close>)
  next
    case True
    let ?L = "rf_log rf"
    have lead: "rf_log rf' = ?L" "rf_identity rf' = rf_identity rf" "term_of rf \<le> term_of rf'" using eff by simp_all
    note l = log_okD [OF parts(2)]
    have unvoted: "(j, ?t, c') \<notin> cc_votes s" for c'
      using soundD(6) [OF inv(2), of j ?t c'] True by (auto simp: rf_def)
    have g: "cc_lead ?s' = cc_lead s" "cc_took ?s' = cc_took s" "cc_stood ?s' = cc_stood s" "cc_msgs ?s' = cc_msgs s"
      "cc_answers ?s' = cc_answers s" "cc_led ?s' = cc_led s" "cc_won ?s' = cc_won s"
      "cl_sent (lc_cl (cc_lc ?s')) = cl_sent (lc_cl (cc_lc s))"
      "cc_votes ?s' = cc_votes s \<union> (if snd r then {(j, ?t, ?c)} else {})"
      "cc_voted ?s' = (cc_voted s)(j := (cc_voted s j)(?t := ?L))"
      using True by (simp_all add: note_voted_def c cl_put_def rf_def)
    have cv: "cl_votes c = cc_votes s \<union> (if snd r then {(j, ?t, ?c)} else {})" by (simp add: c cl_put_def)
    have step: "rf_state rf' = rf_state rf \<and> \<not> snd r \<or> rf_state rf' = votedState m (rf_state rf) \<and> snd r"
      using soundD(4) [OF inv(2), of j, folded rf_def] call
    proof (rule raft_requestVote_step, goal_cases)
      case 2
      with True show ?case by (simp add: grantsVote_def)
    qed simp
    have vote: "vote_ok ?s' (j, ?t, ?c)" if "snd r"
    proof -
      have "beats (cc_stood s ?c ?t) ?L"
        using cmp True st(2,3) good_nonempty [OF l(1)] good_nonempty [OF t0(2)]
        by (intro upToDate_beats [of _ m]) (auto simp: grantsVote_def rf_def)
      moreover have "keeps (cc_lead s) (cc_took s) j (\<lambda>u. u < ?t) ?L" using l(4) True l(3) by (rule keeps_voted)
      ultimately show ?thesis using t0 st(1) l(1) unfolding vote_ok_def by (simp add: g cv Let_def)
    qed
    have pnd: "rf_identity rf = Follower \<or> pend rf' = [Follower] \<or> rf_state rf' = rf_state rf \<and> (pend rf' = [] \<or> pend rf' = [Follower])"
      using eff step True by (auto simp: votedState_def)
    have "server_ok servers ?s' j rf'"
      unfolding server_ok_def
    proof (intro conjI)
      show "voter_ok ?s' j rf'"
        using step parts(1) null g(9) by (auto simp: voter_ok_def votedState_def grantsVote_def True split: if_splits)
      show "log_ok ?s' j rf'" by (rule log_ok_later [OF parts(2) lead(1,3) g(1,2)])
      show "commit_known servers ?s' rf'"
        by (rule commit_known_later [OF parts(4) lead(1,3)]) (use step g(2) in auto)
      show "stand_ok ?s' j rf'"
        using pnd lead node pend g(3,7) unfolding server_ok_def stand_ok_def rf_def by auto
      show "leader_ok servers ?s' j rf'"
      proof -
        have "count_ok servers ?s' j rf'" if "rf_state rf' = rf_state rf" "count_ok servers s j rf"
          using that ld g(2) by (simp add: count_ok_def)
        with pnd lead ld parts(3) pend g(1,2) show ?thesis by (auto simp: leader_ok_def rf_def)
      qed
    qed
    then show ?thesis
      by (intro cc_inv_go [OF inv(1,2), where i = j])
        (use inv(3) raft' g unvoted vote history_okD(1) [OF cc_invD(1) [OF inv(1)]] lead(3) in \<open>auto simp: rf_def split: if_splits\<close>)
  qed
qed

section \<open>Transformations\<close>

lemma run_transform_event:
  assumes "cl_do True (RunTransform i timeout) s = Some c"
  shows "raft_event (\<lambda>from to. to) True timeout (cl_raft s i) = Some (cl_raft c i)"
    "\<And>j. j \<noteq> i \<Longrightarrow> cl_raft c j = cl_raft s j"
  using assms by (auto simp: Let_def cl_put_def cl_stand_def split: if_splits list.splits)

lemma chain_insert:
  assumes "chain LL" "\<And>Z. (t, Z) \<in> LL \<Longrightarrow> prefix Z L"
  shows "chain (insert (t, L) LL)"
  using assms unfolding chain_def by blast

lemma good_led:
  assumes "good LL L" "(t, L') \<in> LL'" "LL \<subseteq> LL'" "L' = L @ [e]" "le_term e = t" "\<And>x. x \<in> set L \<Longrightarrow> le_term x \<le> t"
  shows "good LL' L'"
proof -
  from good_mono [OF assms(1,3)] obtain es where L: "L = LogEntry0 # es" "sorted (map le_term L)"
    and o: "\<And>k. 1 \<le> k \<Longrightarrow> k < length L \<Longrightarrow> \<exists>Z. (le_term (L ! k), Z) \<in> LL' \<and> prefix (take (k + 1) L) Z"
    unfolding good_def by blast
  have "\<exists>Z. (le_term (L' ! k), Z) \<in> LL' \<and> prefix (take (k + 1) L') Z" if "1 \<le> k" "k < length L'" for k
  proof (cases "k < length L")
    case True
    with o [OF that(1)] assms(4) show ?thesis by (simp add: nth_append)
  next
    case False
    then have "k = length L" using that(2) assms(4) by simp
    with assms(2,4,5) show ?thesis by (intro exI [of _ L']) simp
  qed
  moreover have "sorted (map le_term L')" using L(2) assms(4-6) by (auto simp: sorted_append)
  ultimately show ?thesis using L(1) assms(4) by (simp add: good_def)
qed

lemma matched_none: "(\<And>j n. followerNodes ld j = Some n \<Longrightarrow> matchIdx n < k) \<Longrightarrow> matched ld k = 0"
proof -
  assume "\<And>j n. followerNodes ld j = Some n \<Longrightarrow> matchIdx n < k"
  then have "{s. \<exists>n. followerNodes ld s = Some n \<and> k \<le> matchIdx n} = {}" by (auto dest: leD)
  then show ?thesis by (simp only: matched_def card.empty)
qed

lemma count_ok_entered:
  assumes "rf_leader rf = snd (reinitStates (sv, LeaderImpl0))" "entries (sv_state sv) = rf_log rf"
    and "sv_info sv = \<lparr>local = i, srvList = servers, electionTimeout = et\<rparr>" "rf_log rf \<noteq> []"
  shows "count_ok servers s i rf"
proof -
  have n: "followerNodes (rf_leader rf) j = (if j \<in> set (peers (sv_info sv)) then Some FollowerNode0 else None)" for j
    using assms(1) reinit_nodes [of sv] by simp
  have l: "logStates (rf_leader rf) = replicate (length (rf_log rf)) 1" using assms(1,2) by simp
  have "matched (rf_leader rf) k = 0" if "1 \<le> k" for k
    using that n by (intro matched_none) (auto simp: FollowerNode0_def split: if_splits)
  moreover have "0 < length (rf_log rf)" "1 \<le> length (rf_log rf)" using assms(4) by (auto simp: Suc_le_eq)
  moreover have "dom (followerNodes (rf_leader rf)) \<subseteq> set servers - {i}"
    using n assms(3) by (auto simp: peers_def split: if_splits)
  ultimately show ?thesis using n l by (auto simp: count_ok_def Let_def FollowerNode0_def split: if_splits)
qed

lemma cc_transform:
  assumes inv: "cc_inv servers s" "sound servers et (cc_lc s)" "sound servers et c'" and et: "2 \<le> et"
    and run: "cl_do True (RunTransform i timeout) (lc_cl (cc_lc s)) = Some c"
    and c': "c' = (cc_lc s)\<lparr>lc_cl := c, lc_led := cc_led s \<union> newly_led (RunTransform i timeout) (lc_cl (cc_lc s))\<rparr>"
  shows "cc_inv servers ((noted (Run (RunTransform i timeout)) c' s)\<lparr>cc_lc := c'\<rparr>)" (is "cc_inv servers ?s'")
proof -
  define rf rf' where defs: "rf = cc_raft s i" "rf' = cl_raft c i"
  note ok = soundD [OF inv(2)]
  have cfg: "rf_info rf = \<lparr>local = i, srvList = servers, electionTimeout = et\<rparr>" using ok(5) by (simp add: defs)
  have qok: "queue_ok (cc_won s) (cc_led s) (cl_elect (lc_cl (cc_lc s)) i) i rf"
    using lc_invD(4) [OF ok(1), of i] by (simp add: defs)
  obtain target rest where q: "pend rf = target # rest"
    and c: "c = (if target = Candidate then cl_stand i rf' (lc_cl (cc_lc s)) else cl_put i rf' (lc_cl (cc_lc s)))"
    and up: "target = Candidate \<longrightarrow> term_of rf < term_of rf + 1"
    and rf': "rf_identity rf' = target" "rf_state rf' = entered target (rf_info rf) (rf_state rf)"
      "rf_info rf' = rf_info rf" "pend rf' = rest @ entry_events target (rf_server rf)"
  proof (rule run_transform_effect [OF _ _ run ok(10)])
    show "raft_ok (cc_raft s i)" "2 \<le> electionTimeout (rf_info (cc_raft s i))" using ok(4,5) et by simp_all
  next
    fix target rest rf1
    assume 1: "pend (cc_raft s i) = target # rest"
      "c = (if target = Candidate then cl_stand i rf1 (lc_cl (cc_lc s)) else cl_put i rf1 (lc_cl (cc_lc s)))"
      "target = Candidate \<longrightarrow> term_of (cc_raft s i) < term_of (cc_raft s i) + 1" "rf_identity rf1 = target"
      "rf_state rf1 = entered target (rf_info (cc_raft s i)) (rf_state (cc_raft s i))"
      "rf_info rf1 = rf_info (cc_raft s i)" "pend rf1 = rest @ entry_events target (rf_server (cc_raft s i))"
    then have "rf1 = rf'" by (simp add: defs cl_stand_def cl_put_def Let_def)
    note 1 = 1 [unfolded this, folded defs(1)]
    show thesis by (rule that [OF 1])
  qed
  have rest: "rest = []" using q qok by (simp add: queue_ok_def)
  have raft': "cc_raft ?s' j = (if j = i then rf' else cc_raft s j)" for j
    using run_transform_event(2) [OF run] by (simp add: c' defs)
  have lc': "lc_raft c' i = rf'" by (simp add: c' defs)
  note node = cc_invD(5) [OF inv(1), of i, folded defs(1)]
  have parts: "voter_ok s i rf" "log_ok s i rf" "stand_ok s i rf" "leader_ok servers s i rf" "commit_known servers s rf"
    using node by (simp_all add: server_ok_def)
  note l = log_okD [OF parts(2)] and h = history_okD [OF cc_invD(1) [OF inv(1)]]
  have ld: "rf_leader rf' = (if target = Leader then snd (reinitStates ((rf_server rf)\<lparr>sv_state := rf_state rf\<rparr>, LeaderImpl0))
      else LeaderImpl0)"
    using raft_event_leader [OF run_transform_event(1) [OF run], folded defs, OF q] ok(4) parts(4)
    by (simp add: leader_ok_def defs)
  have log: "rf_log rf' = rf_log rf" "commitIdx (rf_state rf') = commitIdx (rf_state rf)" "term_of rf \<le> term_of rf'"
    using rf'(2) up by (auto simp: entered_def)
  consider (cand) "target = Candidate" | (lead) "target = Leader" | (other) "target \<noteq> Candidate" "target \<noteq> Leader" by blast
  then show ?thesis
  proof cases
    case other
    have s': "?s' = s\<lparr>cc_lc := c'\<rparr>" using other rf'(1) lc' by (simp add: Let_def)
    have h': "same_history s ?s'" unfolding s' using other by (auto simp: same_history_def c' c cl_put_def)
    have st: "rf_state rf' = rf_state rf" using rf'(2) other by (simp add: entered_def)
    have "server_ok servers ?s' i rf'"
      unfolding server_ok_def
    proof (intro conjI)
      show "voter_ok ?s' i rf'" using parts(1) st h' by (simp add: voter_ok_def same_history_def)
      show "log_ok ?s' i rf'" by (rule log_ok_later [OF parts(2) log(1,3)]) (use h' in \<open>simp_all add: same_history_def\<close>)
      show "commit_known servers ?s' rf'"
        by (rule commit_known_later [OF parts(5) log(1,3,2)]) (use h' in \<open>simp add: same_history_def\<close>)
    qed (use other rf'(1) ld in \<open>simp_all add: stand_ok_def leader_ok_def\<close>)
    with inv(3) raft' h' log(3) show ?thesis
      by (intro cc_inv_same [OF inv(1,2), where i = i]) (simp_all add: defs)
  next
    case cand
    let ?t = "term_of rf + 1" and ?L = "rf_log rf"
    have t: "term_of rf' = ?t" "votedFor (rf_state rf') = i" and lt: "term_of rf < ?t"
      using rf'(2) cand cfg up by (simp_all add: entered_def)
    have iN: "(i, ?t, c') \<notin> cc_votes s" for c' using ok(6) [of i ?t c'] lt by (auto simp: defs)
    define z where "z = ?s'"
    have s': "z = (note_stood i ?t ?L (note_voted i ?t ?L s))\<lparr>cc_lc := c'\<rparr>"
      unfolding z_def using cand rf'(1) lc' t(1) log(1) by (simp add: Let_def)
    have cs: "c = cl_stand i rf' (lc_cl (cc_lc s))" using c cand by simp
    have cr: "rf_candidate rf' = (left_candidate rf)\<lparr>votesReceived := 1, requests := requests (left_candidate rf) @
      map (\<lambda>srv. \<lparr>rq_srv = srv, rq_msg = voteMessage (rf_server rf'), rq_done = False\<rparr>) (peers (rf_info rf'))\<rparr>"
      using raft_event_candidate [OF run_transform_event(1) [OF run], folded defs, OF q] ok(4) cand by (simp add: defs)
    have "requests (left_candidate rf) = []"
      using tally_left(1) [OF cl_inv_node(3) [OF ok(2) refl]] by (simp add: defs)
    with cr have rq: "set (requests (rf_candidate rf')) =
        (\<lambda>srv. \<lparr>rq_srv = srv, rq_msg = voteMessage (rf_server rf'), rq_done = False\<rparr>) ` set (peers (rf_info rf'))" by simp
    have g: "cc_lead z = cc_lead s" "cc_took z = cc_took s" "cc_msgs z = cc_msgs s" "cc_answers z = cc_answers s"
      "cc_led z = cc_led s" "cc_won s \<subseteq> cc_won z" "cc_votes z = insert (i, ?t, i) (cc_votes s)"
      "cc_voted z = (cc_voted s)(i := (cc_voted s i)(?t := ?L))" "cc_stood z = (cc_stood s)(i := (cc_stood s i)(?t := ?L))"
      "cl_sent (lc_cl (cc_lc z)) = cl_sent (lc_cl (cc_lc s)) \<union> (\<lambda>srv. (srv, voteMessage (rf_server rf'))) ` set (peers (rf_info rf'))"
      unfolding s' using q cand t(1) rq
      by (auto simp: note_stood_def note_voted_def c' cs cl_stand_def Let_def defs(1) [symmetric] image_image)
    have "?t \<noteq> 0" using lt by (metis not_less_zero word_coorder.extremum_strict)
    have terms: "\<And>e. e \<in> set ?L \<Longrightarrow> le_term e < ?t" using l(2) lt by (meson le_less_trans)
    have vote: "vote_ok z (i, ?t, i)"
      unfolding vote_ok_def case_prod_conv g Let_def
      using \<open>?t \<noteq> 0\<close> l(1) terms keeps_voted(1) [OF l(4) lt l(3)] by (simp add: beats_def)
    have sent: "sent_ok z (voteMessage (rf_server rf'))"
      unfolding sent_ok_def g Let_def using t rf'(3) cfg log(1) good_nonempty [OF l(1)] by (simp add: voteMessage_def)
    have "server_ok servers z i rf'"
      unfolding server_ok_def
    proof (intro conjI)
      show "voter_ok z i rf'"
      proof -
        have "(i, ?t, i) \<in> cl_votes (lc_cl c')" using g(7) s' by simp
        then have "i \<noteq> NullServerId" using soundD(2) [OF inv(3)] unfolding cl_inv_def book_agrees_def by blast
        then show ?thesis using t g(7) by (simp add: voter_ok_def)
      qed
      show "log_ok z i rf'" by (rule log_ok_later [OF parts(2) log(1,3) g(1,2)])
      show "stand_ok z i rf'" using t log(1) g(9) by (simp add: stand_ok_def)
      show "leader_ok servers z i rf'" using cand rf'(1) ld by (simp add: leader_ok_def)
      show "commit_known servers z rf'" by (rule commit_known_later [OF parts(5) log(1,3,2)]) (simp only: g(2) order_refl)
    qed
    moreover have "lead_ok (cc_led z) (cc_stood z) (cc_lead z)"
    proof -
      have "cc_stood z c u = cc_stood s c u" if "(c, u) \<in> cc_led s" for c u
      proof -
        have "c \<noteq> i \<or> u \<noteq> ?t" using that qok lt by (force simp: queue_ok_def)
        then show ?thesis by (auto simp: g(9))
      qed
      with h(1) show ?thesis unfolding lead_ok_def g(1,5) by fastforce
    qed
    moreover have "cc_lc z = c'" "cc_raft z j = (if j = i then rf' else cc_raft s j)" for j
      using raft' s' by simp_all
    ultimately show ?thesis unfolding z_def [symmetric]
      using inv(3) g iN vote sent log(3)
      by (intro cc_inv_go [OF inv(1,2), where i = i]) (auto simp: defs)
  next
    case lead
    let ?t = "term_of rf" and ?L = "rf_log rf"
    have st: "rf_state rf' = rf_state rf" using rf'(2) lead by (simp add: entered_def)
    have was: "rf_identity rf = Candidate" "(i, ?t) \<in> cc_won s" using qok q lead by (simp_all add: queue_ok_def)
    have fresh: "(i, ?t) \<notin> cc_led s" using qok was(1) by (auto simp: queue_ok_def)
    have none: "(?t, Z) \<notin> cc_lead s" for Z
    proof
      assume "(?t, Z) \<in> cc_lead s"
      with h(1) obtain c where "(c, ?t) \<in> cc_led s" by (auto simp: lead_ok_def)
      with ok(3,7) was(2) fresh show False by metis
    qed
    have stood: "?L = cc_stood s i ?t"
      using parts(3) was q lead rest ok(3) by (auto simp: stand_ok_def)
    define z where "z = ?s'"
    have s': "z = (note_lead i rf' s)\<lparr>cc_lc := c'\<rparr>" unfolding z_def using lead rf'(1) lc' by (simp add: Let_def)
    have g: "cc_lead z = insert (?t, ?L) (cc_lead s)" "cc_took z = insert (i, ?t, ?L) (cc_took s)"
      "cc_msgs z = cc_msgs s" "cc_answers z = cc_answers s" "cc_led z = insert (i, ?t) (cc_led s)"
      "cc_won z = cc_won s" "cc_votes z = cc_votes s" "cc_voted z = cc_voted s" "cc_stood z = cc_stood s"
      "cl_sent (lc_cl (cc_lc z)) = cl_sent (lc_cl (cc_lc s))"
      unfolding s' using q lead rest st by (auto simp: note_lead_def c' c cl_put_def defs(1) [symmetric])
    have gd: "good (cc_lead z) ?L" by (rule good_mono [OF l(1)]) (auto simp: g(1))
    have node': "server_ok servers z i rf'"
      unfolding server_ok_def
    proof (intro conjI)
      show "voter_ok z i rf'" using parts(1) st g(7) by (simp add: voter_ok_def)
      have "keeps (cc_lead z) (cc_took z) i (\<lambda>u. u \<le> ?t) ?L"
        using keeps_mono [OF l(4), of "cc_lead z" "cc_took s"] unfolding g keeps_def by blast
      then show "log_ok z i rf'" using gd l(2,3) st unfolding log_ok_def by (auto simp: g(2))
      show "stand_ok z i rf'" using lead rf'(1) by (simp add: stand_ok_def)
      have "count_ok servers z i rf'"
      proof (rule count_ok_entered)
        show "rf_leader rf' = snd (reinitStates ((rf_server rf)\<lparr>sv_state := rf_state rf\<rparr>, LeaderImpl0))" using ld lead by simp
      qed (use st cfg good_nonempty [OF l(1)] in simp_all)
      then show "leader_ok servers z i rf'" using lead rf'(1) st none unfolding leader_ok_def g by auto
      show "commit_known servers z rf'"
        by (rule commit_known_later [OF parts(5) log(1,3,2)]) (auto simp: g(2))
    qed
    have "lead_ok (cc_led z) (cc_stood z) (cc_lead z)"
      unfolding lead_ok_def
    proof (intro conjI ballI)
      show "chain (cc_lead z)" unfolding g using h(1) none by (intro chain_insert) (auto simp: lead_ok_def)
      fix x assume x: "x \<in> cc_lead z"
      show "case x of (u, Y) \<Rightarrow> good (cc_lead z) Y \<and> (\<forall>e \<in> set Y. le_term e \<le> u) \<and>
          (\<exists>c. (c, u) \<in> cc_led z \<and> prefix (cc_stood z c u) Y)"
      proof (cases "x = (?t, ?L)")
        case True
        then show ?thesis using gd l(2) stood unfolding g(5,9) by (auto intro!: exI [of _ i])
      next
        case False
        obtain u Y where xy: "x = (u, Y)" by (cases x)
        with False x have "(u, Y) \<in> cc_lead s" unfolding g(1) by blast
        with h(1) have "good (cc_lead s) Y" "\<forall>e \<in> set Y. le_term e \<le> u" "\<exists>c. (c, u) \<in> cc_led s \<and> prefix (cc_stood s c u) Y"
          unfolding lead_ok_def by blast+
        with good_mono [OF this(1), of "cc_lead z"] xy show ?thesis unfolding g by auto
      qed
    qed
    moreover have "cc_lc z = c'" "cc_raft z j = (if j = i then rf' else cc_raft s j)" for j
      using raft' s' by simp_all
    ultimately show ?thesis unfolding z_def [symmetric]
      using inv(3) g log(3) node' st
      by (intro cc_inv_go [OF inv(1,2), where i = i]) (auto simp: defs)
  qed
qed

section \<open>Requests\<close>

lemma raft_addLog_result:
  assumes "raft_ok rf" "raft_addLog m rf = Some (r, rf')"
  shows "rf' = rf \<or> rf_identity rf = Leader \<and> rf' = rf\<lparr>
    rf_server := (rf_server rf)\<lparr>sv_state := (rf_state rf)\<lparr>entries := rf_log rf @ [newEntry m (rf_server rf)]\<rparr>\<rparr>,
    rf_leader := (rf_leader rf)\<lparr>logStates := logStates (rf_leader rf) @ [1]\<rparr>\<rparr>"
  using assms by (cases "rf_identity rf")
    (auto simp: addLog_same bogus_addLog_def leader_addLog_def Let_def raft_ok_def split: if_splits)

lemma matched_logStates [simp]: "matched (ld\<lparr>logStates := xs\<rparr>) k = matched ld k"
  by (simp add: matched_def)

lemma count_ok_logged:
  assumes "count_ok servers s i rf" "cc_took s \<subseteq> cc_took s'" "term_of rf' = term_of rf"
    and "rf_log rf' = rf_log rf @ [e]" "rf_leader rf' = (rf_leader rf)\<lparr>logStates := logStates (rf_leader rf) @ [1]\<rparr>"
  shows "count_ok servers s' i rf'"
proof -
  let ?ld = "rf_leader rf" and ?L = "rf_log rf"
  from assms(1) have o: "length (logStates ?ld) = length ?L" "dom (followerNodes ?ld) \<subseteq> set servers - {i}"
    and nodes: "\<And>j n. followerNodes ?ld j = Some n \<Longrightarrow> nextIdx n \<le> length ?L \<and> matchIdx n < length ?L \<and>
        (matchIdx n = 0 \<or> (\<exists>X. (j, term_of rf, X) \<in> cc_took s \<and> prefix (take (matchIdx n + 1) ?L) X))"
    and counts: "\<And>k. 1 \<le> k \<Longrightarrow> k < length ?L \<Longrightarrow> logStates ?ld ! k = 1 + matched ?ld k"
    unfolding count_ok_def Let_def by blast+
  have "logStates (rf_leader rf') ! k = 1 + matched (rf_leader rf') k" if "1 \<le> k" "k < length (rf_log rf')" for k
  proof (cases "k < length ?L")
    case True
    with counts [OF that(1)] assms(5) o(1) show ?thesis by (simp add: nth_append)
  next
    case False
    then have k: "k = length ?L" using that(2) assms(4) by simp
    have "matched ?ld k = 0" using nodes k by (intro matched_none) blast
    with assms(5) o(1) k show ?thesis by (simp add: nth_append)
  qed
  moreover have "nextIdx n \<le> length (rf_log rf') \<and> matchIdx n < length (rf_log rf') \<and>
      (matchIdx n = 0 \<or> (\<exists>X. (j, term_of rf', X) \<in> cc_took s' \<and> prefix (take (matchIdx n + 1) (rf_log rf')) X))"
    if "followerNodes (rf_leader rf') j = Some n" for j n
  proof -
    from nodes [of j n] that assms(5) have n: "nextIdx n \<le> length ?L" "matchIdx n < length ?L"
      "matchIdx n = 0 \<or> (\<exists>X. (j, term_of rf, X) \<in> cc_took s \<and> prefix (take (matchIdx n + 1) ?L) X)" by simp_all
    moreover have "take (matchIdx n + 1) (rf_log rf') = take (matchIdx n + 1) ?L" using n(2) assms(4) by simp
    ultimately show ?thesis using assms(2-4) by auto
  qed
  ultimately show ?thesis using o assms(4,5) unfolding count_ok_def Let_def by simp
qed

lemma cc_log:
  assumes inv: "cc_inv servers s" "sound servers et (cc_lc s)" "sound servers et ((cc_lc s)\<lparr>lc_cl := c\<rparr>)"
    and pend: "pend (cc_raft s i) = []" and run: "cl_do True (LogRequest i m) (lc_cl (cc_lc s)) = Some c"
  shows "cc_inv servers ((noted (Run (LogRequest i m)) ((cc_lc s)\<lparr>lc_cl := c\<rparr>) s)\<lparr>cc_lc := (cc_lc s)\<lparr>lc_cl := c\<rparr>\<rparr>)"
    (is "cc_inv servers ?s'")
proof -
  define rf z where defs: "rf = cc_raft s i" "z = ?s'"
  note ok = soundD [OF inv(2)]
  obtain r rf' where call: "raft_addLog m rf = Some (r, rf')" and c: "c = cl_put i rf' (lc_cl (cc_lc s))"
    using run by (auto simp: defs simp del: raft_addLog.simps)
  note res = raft_addLog_result [OF ok(4) [of i, folded defs(1)] call]
  have id: "rf_identity rf' = rf_identity rf" using res by auto
  have z: "z = (if rf_identity rf = Leader then note_lead i rf' s else s)\<lparr>cc_lc := (cc_lc s)\<lparr>lc_cl := c\<rparr>\<rparr>"
    unfolding defs(2) using id by (simp add: c cl_put_def)
  have raft': "cc_raft z j = (if j = i then rf' else cc_raft s j)" for j by (simp add: z c cl_put_def)
  note node = cc_invD(5) [OF inv(1), of i, folded defs(1)]
  have parts: "voter_ok s i rf" "log_ok s i rf" "leader_ok servers s i rf" "commit_known servers s rf"
    using node by (simp_all add: server_ok_def)
  note l = log_okD [OF parts(2)] and h = history_okD [OF cc_invD(1) [OF inv(1)]]
  let ?t = "term_of rf" and ?L = "rf_log rf"
  have lead: "(i, ?t, ?L) \<in> cc_took s" "(?t, ?L) \<in> cc_lead s" "\<And>Z. (?t, Z) \<in> cc_lead s \<Longrightarrow> prefix Z ?L" "count_ok servers s i rf"
    if "rf_identity rf = Leader"
    using parts(3) pend that h(3) by (auto simp: leader_ok_def defs(1))
  show ?thesis unfolding defs(2) [symmetric]
  proof (cases "rf' = rf")
    case True
    have "same_history s z"
      using lead(1,2) True by (auto simp: z same_history_def note_lead_def c cl_put_def insert_absorb)
    then show "cc_inv servers z"
      by (intro cc_inv_quiet [OF inv(1,2), where i = i]) (use inv(3) True raft' z pend in \<open>simp_all add: defs(1)\<close>)
  next
    case False
    with res have ldr: "rf_identity rf = Leader" and rf': "rf' = rf\<lparr>
      rf_server := (rf_server rf)\<lparr>sv_state := (rf_state rf)\<lparr>entries := ?L @ [newEntry m (rf_server rf)]\<rparr>\<rparr>,
      rf_leader := (rf_leader rf)\<lparr>logStates := logStates (rf_leader rf) @ [1]\<rparr>\<rparr>" by auto
    let ?e = "newEntry m (rf_server rf)"
    let ?L' = "?L @ [?e]"
    have new: "rf_log rf' = ?L'" "term_of rf' = ?t" "votedFor (rf_state rf') = votedFor (rf_state rf)"
      "commitIdx (rf_state rf') = commitIdx (rf_state rf)" "pend rf' = []" "le_term ?e = ?t"
      "rf_leader rf' = (rf_leader rf)\<lparr>logStates := logStates (rf_leader rf) @ [1]\<rparr>"
      using pend by (simp_all add: rf' newEntry_def defs(1))
    note ld = lead [OF ldr]
    have g: "cc_lead z = insert (?t, ?L') (cc_lead s)" "cc_took z = insert (i, ?t, ?L') (cc_took s)"
      "cc_msgs z = cc_msgs s" "cc_answers z = cc_answers s" "cc_led z = cc_led s"
      "cc_won z = cc_won s" "cc_votes z = cc_votes s" "cc_voted z = cc_voted s" "cc_stood z = cc_stood s"
      "cl_sent (lc_cl (cc_lc z)) = cl_sent (lc_cl (cc_lc s))"
      unfolding z using ldr new(1,2) by (simp_all add: note_lead_def c cl_put_def)
    have led: "(i, ?t) \<in> cc_led s" using ok(9) [of i] ldr pend by (simp add: defs(1))
    have gd: "good (cc_lead z) ?L'" by (rule good_led [OF l(1), of ?t _ _ ?e]) (use new(6) l(2) in \<open>auto simp: g(1)\<close>)
    have terms: "le_term e \<le> ?t" if "e \<in> set ?L'" for e using that l(2) new(6) by auto
    have node': "server_ok servers z i rf'"
      unfolding server_ok_def
    proof (intro conjI)
      show "voter_ok z i rf'" using parts(1) new(2,3) g(7) by (simp add: voter_ok_def)
      have "prefix P ?L'" if p: "(i, r, X) \<in> cc_took z" "r \<le> ?t" "prefix P X"
        "\<forall>u Y. (u, Y) \<in> cc_lead z \<longrightarrow> r < u \<longrightarrow> u \<le> ?t \<longrightarrow> prefix P Y" for r X P
      proof (cases "(i, r, X) \<in> cc_took s")
        case True
        have "prefix P ?L" using l(4) True p(2-4) unfolding keeps_def g by blast
        then show ?thesis by (rule prefix_order.trans) simp
      qed (use p(1,3) in \<open>auto simp: g(2)\<close>)
      then have "keeps (cc_lead z) (cc_took z) i (\<lambda>u. u \<le> ?t) ?L'" unfolding keeps_def by blast
      then show "log_ok z i rf'" using gd terms l(3) unfolding log_ok_def new(1,2) by (auto simp: g(2))
      show "stand_ok z i rf'" using ldr id by (simp add: stand_ok_def)
      have "count_ok servers z i rf'"
        by (rule count_ok_logged [OF ld(4) _ new(2,1,7)]) (auto simp: g(2))
      moreover have "prefix Z ?L'" if "(?t, Z) \<in> cc_lead z" for Z
      proof (cases "Z = ?L'")
        case False
        with that have "(?t, Z) \<in> cc_lead s" by (auto simp: g(1))
        from ld(3) [OF this] show ?thesis by (rule prefix_order.trans) simp
      qed simp
      ultimately show "leader_ok servers z i rf'"
        using ldr id unfolding leader_ok_def new(1,2) by (simp add: g(2))
      have "take (commitIdx (rf_state rf) + 1) ?L' = take (commitIdx (rf_state rf) + 1) ?L"
        using parts(4) by (simp add: commit_known_def)
      with parts(4) known_mono [of servers s ?t _ z ?t] show "commit_known servers z rf'"
        unfolding commit_known_def new(1,2,4) by (auto simp: g(2))
    qed
    have "lead_ok (cc_led z) (cc_stood z) (cc_lead z)"
      unfolding lead_ok_def
    proof (intro conjI ballI)
      have "prefix Z ?L'" if "(?t, Z) \<in> cc_lead s" for Z using ld(3) [OF that] by (rule prefix_order.trans) simp
      then show "chain (cc_lead z)" unfolding g using h(1) by (intro chain_insert) (auto simp: lead_ok_def)
      fix x assume x: "x \<in> cc_lead z"
      have old: "good (cc_lead s) Y" "\<forall>e \<in> set Y. le_term e \<le> u" "\<exists>c. (c, u) \<in> cc_led s \<and> prefix (cc_stood s c u) Y"
        if "(u, Y) \<in> cc_lead s" for u Y using h(1) that unfolding lead_ok_def by blast+
      show "case x of (u, Y) \<Rightarrow> good (cc_lead z) Y \<and> (\<forall>e \<in> set Y. le_term e \<le> u) \<and>
          (\<exists>c. (c, u) \<in> cc_led z \<and> prefix (cc_stood z c u) Y)"
      proof (cases "x = (?t, ?L')")
        case True
        have "\<exists>c. (c, ?t) \<in> cc_led s \<and> prefix (cc_stood s c ?t) ?L'"
          using old(3) [OF ld(2)] by (meson prefix_order.trans prefixI)
        with True gd terms show ?thesis unfolding g(5,9) by auto
      next
        case False
        obtain u Y where xy: "x = (u, Y)" by (cases x)
        with False x have "(u, Y) \<in> cc_lead s" unfolding g(1) by blast
        note o = old [OF this]
        with good_mono [OF o(1), of "cc_lead z"] xy show ?thesis unfolding g by auto
      qed
    qed
    moreover have "cc_lc z = (cc_lc s)\<lparr>lc_cl := c\<rparr>" by (simp add: z)
    ultimately show "cc_inv servers z"
      using inv(3) raft' g node' new(2) led
      by (intro cc_inv_go [OF inv(1,2), where i = i]) (auto simp: defs(1))
  qed
qed

end
