(* ===== verification/Commit_Entries.thy ===== *)
theory Commit_Entries
  imports Commit_Steps
begin

text \<open>Messages and answers of AppendEntries, and the counting of answers, keep the invariant.\<close>

section \<open>Messages\<close>

lemma cc_send:
  assumes inv: "cc_inv servers s" "sound servers et (cc_lc s)"
      "sound servers et ((cc_lc s)\<lparr>lc_msgs := insert (m, rf_log (cc_raft s i)) (cc_msgs s)\<rparr>)"
    and lead: "rf_identity (cc_raft s i) = Leader" "pend (cc_raft s i) = []"
    and m: "createAppendEntriesMessage (rf_server (cc_raft s i)) start = Some m"
  shows "cc_inv servers (s\<lparr>cc_lc := (cc_lc s)\<lparr>lc_msgs := insert (m, rf_log (cc_raft s i)) (cc_msgs s)\<rparr>\<rparr>)"
    (is "cc_inv servers ?s'")
proof -
  let ?rf = "cc_raft s i"
  note node = cc_invD(5) [OF inv(1), of i] and h = history_okD [OF cc_invD(1) [OF inv(1)]]
  have mm: "ae_term m = term_of ?rf" "ae_commitIdx m = commitIdx (rf_state ?rf)"
    using m by (cases start; auto simp: createAppendEntriesMessage_def Let_def split: if_splits)+
  have "(i, term_of ?rf, rf_log ?rf) \<in> cc_took s" using node lead by (simp add: server_ok_def leader_ok_def)
  then have "(term_of ?rf, rf_log ?rf) \<in> cc_lead s" by (rule h(3))
  moreover have "commit_known servers s ?rf" using node by (simp add: server_ok_def)
  moreover have same: "known servers ?s' = known servers s" by (simp add: known_def fun_eq_iff)
  ultimately have "msg_ok servers ?s' (m, rf_log ?rf)" using mm by (simp add: msg_ok_def commit_known_def)
  moreover have "server_ok servers ?s' i ?rf"
    using node same unfolding server_ok_def voter_ok_def log_ok_def stand_ok_def leader_ok_def count_ok_def commit_known_def Let_def
    by simp
  ultimately show ?thesis
    using inv(3) h(1) by (intro cc_inv_go [OF inv(1,2), where i = i]) auto
qed

section \<open>Merges\<close>

text \<open>
  A log \<open>L\<close> that receives a message cut from \<open>X\<close> stays if it has \<open>X\<close>, and becomes \<open>X\<close> otherwise.
\<close>

lemma merge_with:
  assumes "logMatching L X" "cut_from m X" "matchesPrev m st" "entries st = L"
  shows "appendLog L (ae_prevLogIdx m) (ae_logEntries m) = (if prefix X L then L else X)"
proof -
  let ?p = "ae_prevLogIdx m" and ?new = "ae_logEntries m"
  from assms(2) have x: "?p < length X" "ae_prevLogTerm m = le_term (X ! ?p)" "?new = drop (?p + 1) X"
    by (simp_all add: cut_from_def)
  from assms(3,4) have p: "?p < length L" "le_term (L ! ?p) = le_term (X ! ?p)" using x(2) by (simp_all add: matchesPrev_def)
  have either: "appendLog L ?p ?new = L \<or> appendLog L ?p ?new = X"
    unfolding x(3) by (rule appendLog_either [OF assms(1) p(1) x(1) p(2)])
  have take: "take (length X) (appendLog L ?p ?new) = X"
    unfolding x(3) by (rule appendLog_repairs [OF assms(1) p(1) x(1) p(2)])
  show ?thesis
  proof (cases "prefix X L")
    case True
    then have "length X \<le> length L" "\<And>k. k < length X \<Longrightarrow> L ! k = X ! k"
      by (simp_all add: prefix_length_le prefix_nth)
    then have "appendLog L ?p ?new = L" by (intro appendLog_present) (simp add: x(3))
    with True show ?thesis by simp
  next
    case False
    then have "appendLog L ?p ?new \<noteq> L" using take by (metis take_is_prefix)
    with either False show ?thesis by simp
  qed
qed

lemma chainD: "chain LL \<Longrightarrow> (u, Y) \<in> LL \<Longrightarrow> (u, Z) \<in> LL \<Longrightarrow> prefix Y Z \<or> prefix Z Y"
  unfolding chain_def by blast

text \<open>
  What is a prefix of \<open>L\<close> and of a log of the leader of the same term is a prefix of the merged log.
\<close>

lemma merge_line:
  assumes "chain LL" "(t, X) \<in> LL" "(t, Z) \<in> LL" "prefix P L" "prefix P Z"
  shows "prefix P (if prefix X L then L else X)"
proof (cases "prefix X L")
  case False
  from chainD [OF assms(1-3)] have "prefix P X \<or> prefix X P"
    using assms(5) by (meson prefix_of_same prefix_order.trans)
  moreover have "\<not> prefix X P" using False assms(4) by (meson prefix_order.trans)
  ultimately show ?thesis using False by simp
qed (use assms(4) in simp)

lemma merge_keeps:
  assumes "keeps LL took j (\<lambda>u. u \<le> t) L" "chain LL" "(t, X) \<in> LL"
    and old: "\<And>r Z. (j, r, Z) \<in> took \<Longrightarrow> (r, Z) \<in> LL"
    and new: "\<And>r Z. (j, r, Z) \<in> took' \<Longrightarrow> (j, r, Z) \<in> took \<or> r = t \<and> Z = X"
  shows "keeps LL took' j (\<lambda>u. u \<le> t) (if prefix X L then L else X)"
  unfolding keeps_def
proof (intro allI impI)
  fix r Z P
  assume p: "(j, r, Z) \<in> took'" "r \<le> t" "prefix P Z" "\<forall>u Y. (u, Y) \<in> LL \<longrightarrow> r < u \<longrightarrow> u \<le> t \<longrightarrow> prefix P Y"
  have X: "prefix X (if prefix X L then L else X)" by simp
  consider "r = t" "Z = X" | "(j, r, Z) \<in> took" "r < t" | "(j, r, Z) \<in> took" "r = t"
    using new [OF p(1)] p(2) by (auto simp: le_less)
  then show "prefix P (if prefix X L then L else X)"
  proof cases
    case 1
    with p(3) X show ?thesis by (meson prefix_order.trans)
  next
    case 2
    then have "prefix P X" using p(4) assms(3) by blast
    with X show ?thesis by (meson prefix_order.trans)
  next
    case 3
    have "prefix P L" using assms(1) 3(1) p(2-4) unfolding keeps_def by blast
    moreover have "(t, Z) \<in> LL" using old [OF 3(1)] 3(2) by simp
    ultimately show ?thesis using merge_line [OF assms(2,3)] p(3) by blast
  qed
qed

text \<open>The merged log has what is known to be committed.\<close>

lemma merge_known:
  assumes h: "history_ok servers s" "distinct servers" and X: "(t, X) \<in> cc_lead s" "good (cc_lead s) L"
    and P: "known servers s t P" "prefix P L"
  shows "prefix P (if prefix X L then L else X)"
proof -
  have lead: "chain (cc_lead s)" "good (cc_lead s) X" using h(1) X(1) by (auto simp: history_ok_def lead_ok_def)
  consider "length P \<le> 1" | u R where "u \<le> t" "committed servers (cc_took s) u R" "prefix P R"
    using P(1) unfolding known_def by blast
  then show ?thesis
  proof cases
    case 1
    obtain es es' where "L = LogEntry0 # es" "X = LogEntry0 # es'" using X(2) lead(2) unfolding good_def by blast
    with 1 P(2) have "prefix P X" by (cases P) (simp_all add: prefix_Cons)
    with P(2) show ?thesis by simp
  next
    case 2
    show ?thesis
    proof (cases "u = t")
      case True
      obtain Z where "(u, Z) \<in> cc_lead s" "prefix R Z" by (rule committed_took [OF h(1) 2(2)])
      moreover have "prefix P Z" using 2(3) calculation(2) by (rule prefix_order.trans)
      ultimately show ?thesis using True merge_line [OF lead(1) X(1) _ P(2)] by blast
    next
      case False
      then have "u < t" using 2(1) by simp
      from leader_complete [OF h 2(2) X(1) this] 2(3) have "prefix P X" by (meson prefix_order.trans)
      with P(2) show ?thesis by simp
    qed
  qed
qed

section \<open>Answers\<close>

lemma raft_appendEntries_identity: "raft_appendEntries m rf = Some (r, rf') \<Longrightarrow> rf_identity rf' = rf_identity rf"
  by (cases "rf_identity rf") (auto simp: set_server_def set_leader_def)

text \<open>What an AppendEntries message of the server's term does to its state.\<close>

lemma answer_state:
  assumes "raft_ok rf" "rf_identity rf \<noteq> Leader" "ae_term m = term_of rf" "raft_appendEntries m rf = Some (r, rf')"
    and "logMatching (rf_log rf) X" "cut_from m X" "ae_commitIdx m < length X"
  shows "rf_log rf' = (if snd r \<and> \<not> prefix X (rf_log rf) then X else rf_log rf)"
    "term_of rf' = term_of rf" "votedFor (rf_state rf') = votedFor (rf_state rf)" "fst r \<le> ae_term m"
    "commitIdx (rf_state rf') = commitIdx (rf_state rf) \<or>
      snd r \<and> commitIdx (rf_state rf) < ae_commitIdx m \<and> commitIdx (rf_state rf') = ae_commitIdx m"
proof -
  let ?st = "rf_state rf"
  note res = raft_appendEntries_result [OF assms(1) _ assms(4,2)]
  have "rf_log rf' = (if snd r \<and> \<not> prefix X (rf_log rf) then X else rf_log rf) \<and> term_of rf' = term_of rf \<and>
    votedFor (rf_state rf') = votedFor ?st \<and> fst r \<le> ae_term m \<and>
    (commitIdx (rf_state rf') = commitIdx ?st \<or>
      snd r \<and> commitIdx ?st < ae_commitIdx m \<and> commitIdx (rf_state rf') = ae_commitIdx m)"
  proof (cases "rf_state rf' = appendedState m ?st \<and> r = (term_of rf, matchesPrev m ?st)")
    case False
    with res assms(3) show ?thesis by (auto simp: InvalidTerm_def)
  next
    case True
    then have st: "rf_state rf' = appendedState m ?st" and r: "r = (term_of rf, matchesPrev m ?st)" by simp_all
    show ?thesis
    proof (cases "matchesPrev m ?st")
      case False
      with st r assms(3) show ?thesis by (simp add: appendedState_def mergedState_def Let_def)
    next
      case match: True
      let ?L' = "if prefix X (rf_log rf) then rf_log rf else X"
      have log: "appendLog (rf_log rf) (ae_prevLogIdx m) (ae_logEntries m) = ?L'"
        by (rule merge_with [OF assms(5,6) match refl])
      have "length X \<le> length ?L'" by (simp add: prefix_length_le)
      then have "min (ae_commitIdx m) (length ?L' - 1) = ae_commitIdx m" using assms(7) by simp
      with st r match log assms(3) show ?thesis
        by (cases "prefix X (rf_log rf)") (simp_all add: appendedState_def mergedState_def Let_def)
    qed
  qed
  then show "rf_log rf' = (if snd r \<and> \<not> prefix X (rf_log rf) then X else rf_log rf)"
    "term_of rf' = term_of rf" "votedFor (rf_state rf') = votedFor (rf_state rf)" "fst r \<le> ae_term m"
    "commitIdx (rf_state rf') = commitIdx (rf_state rf) \<or>
      snd r \<and> commitIdx (rf_state rf) < ae_commitIdx m \<and> commitIdx (rf_state rf') = ae_commitIdx m"
    by blast+
qed

lemma cc_entries:
  assumes inv: "cc_inv servers s" "sound servers et (cc_lc s)" "sound servers et ((cc_lc s)\<lparr>lc_cl := c\<rparr>)"
    and d: "distinct servers" and m: "m \<in> fst ` cc_msgs s" "rf_identity (cc_raft s j) \<noteq> Leader"
    and adopted: "ae_term m = term_of (cc_raft s j)" and run: "cl_do True (DeliverEntries j m) (lc_cl (cc_lc s)) = Some c"
  shows "cc_inv servers ((noted (Run (DeliverEntries j m)) ((cc_lc s)\<lparr>lc_cl := c\<rparr>) s)\<lparr>cc_lc := (cc_lc s)\<lparr>lc_cl := c\<rparr>\<rparr>)"
    (is "cc_inv servers ?s'")
proof -
  define rf z where defs: "rf = cc_raft s j" "z = ?s'"
  note ok = soundD [OF inv(2)] and li = lc_invD [OF soundD(1) [OF inv(2)]]
  let ?t = "term_of rf" and ?L = "rf_log rf"
  obtain r rf' where call: "raft_appendEntries m rf = Some (r, rf')" and c: "c = cl_put j rf' (lc_cl (cc_lc s))"
    using run by (auto simp: defs Let_def simp del: raft_appendEntries.simps split: if_splits)
  obtain X where X: "(m, X) \<in> cc_msgs s" using m(1) by force
  note h = history_okD [OF cc_invD(1) [OF inv(1)]]
  have lead: "chain (cc_lead s)" and leads: "\<And>u Y. (u, Y) \<in> cc_lead s \<Longrightarrow> good (cc_lead s) Y \<and> (\<forall>e \<in> set Y. le_term e \<le> u)"
    using h(1) unfolding lead_ok_def by blast+
  have sent: "(?t, Z) \<in> cc_lead s" "ae_commitIdx m < length Z" "known servers s ?t (take (ae_commitIdx m + 1) Z)"
    "cut_from m Z" if "(m, Z) \<in> cc_msgs s" for Z
    using cc_invD(3) [OF inv(1) that] li(2) [OF that] adopted by (simp_all add: msg_ok_def defs(1))
  note X' = sent [OF X]
  have one: "Z = X" if "(m, Z) \<in> cc_msgs s" for Z
  proof -
    have "length Z = length X"
      using sent(4) [OF that] X'(4) by (auto simp: cut_from_def dest: arg_cong [where f = length])
    moreover have "prefix Z X \<or> prefix X Z" by (rule chainD [OF lead sent(1) [OF that] X'(1)])
    ultimately show ?thesis by (auto simp: prefix_def)
  qed
  have "logMatching ?L X" using li(1) X by (simp add: logs_ok_def defs(1))
  note st = answer_state [OF ok(4) [of j, folded defs(1)] m(2) [folded defs(1)] adopted [folded defs(1)] call this X'(4,2)]
  have res: "rf_leader rf' = rf_leader rf" using raft_appendEntries_result [OF ok(4) [of j, folded defs(1)] _ call] m(2) adopted
    by (simp add: defs(1))
  note node = cc_invD(5) [OF inv(1), of j, folded defs(1)]
  have parts: "voter_ok s j rf" "log_ok s j rf" "leader_ok servers s j rf" "commit_known servers s rf"
    using node by (simp_all add: server_ok_def)
  note l = log_okD [OF parts(2)]
  have "(\<lambda>p. (j, ae_term m, snd p)) ` Set.filter (\<lambda>p. fst p = m) (cc_msgs s) = {(j, ?t, X)}"
  proof (intro set_eqI iffI)
    fix x assume "x \<in> (\<lambda>p. (j, ae_term m, snd p)) ` Set.filter (\<lambda>p. fst p = m) (cc_msgs s)"
    then obtain Z where Z: "(m, Z) \<in> cc_msgs s" "x = (j, ae_term m, Z)" by auto
    from one [OF Z(1)] Z(2) adopted show "x \<in> {(j, ?t, X)}" by (simp add: defs(1))
  qed (use X adopted in \<open>auto simp: defs(1) intro!: image_eqI [of _ _ "(m, X)"]\<close>)
  then have z: "z = s\<lparr>cc_answers := insert (j, m, r) (cc_answers s),
      cc_took := cc_took s \<union> (if snd r then {(j, ?t, X)} else {}), cc_lc := (cc_lc s)\<lparr>lc_cl := c\<rparr>\<rparr>"
    using call unfolding defs(2) by (simp add: note_answer_def defs(1) del: raft_appendEntries.simps)
  have g: "cc_lead z = cc_lead s" "cc_took z = cc_took s \<union> (if snd r then {(j, ?t, X)} else {})"
    "cc_msgs z = cc_msgs s" "cc_answers z = insert (j, m, r) (cc_answers s)" "cc_led z = cc_led s"
    "cc_won z = cc_won s" "cc_votes z = cc_votes s" "cc_voted z = cc_voted s" "cc_stood z = cc_stood s"
    "cl_sent (lc_cl (cc_lc z)) = cl_sent (lc_cl (cc_lc s))" "cc_lc z = (cc_lc s)\<lparr>lc_cl := c\<rparr>"
    unfolding z by (simp_all add: c cl_put_def)
  have raft': "cc_raft z i = (if i = j then rf' else cc_raft s i)" for i unfolding g(11) by (simp add: c cl_put_def)
  have id: "rf_identity rf' = rf_identity rf"
    using raft_appendEntries_identity [OF call] .
  let ?L' = "if snd r \<and> \<not> prefix X ?L then X else ?L"
  have merged: "?L' = (if snd r then (if prefix X ?L then ?L else X) else ?L)" by simp
  have sub: "cc_took s \<subseteq> cc_took z" by (simp add: g(2))
  have known: "known servers z ?t P" if "known servers s ?t P" for P using known_mono [OF that sub order_refl] .
  have node': "server_ok servers z j rf'"
    unfolding server_ok_def
  proof (intro conjI)
    show "voter_ok z j rf'" using parts(1) st(2,3) g(7) by (simp add: voter_ok_def)
    have "keeps (cc_lead s) (cc_took z) j (\<lambda>u. u \<le> ?t) ?L'"
    proof (cases "snd r")
      case True
      have "keeps (cc_lead s) (cc_took z) j (\<lambda>u. u \<le> ?t) (if prefix X ?L then ?L else X)"
        by (rule merge_keeps [OF l(4) lead X'(1) h(3)]) (auto simp: g(2) True)
      with True merged show ?thesis by simp
    qed (use l(4) in \<open>simp add: g(2)\<close>)
    then show "log_ok z j rf'"
      using l(1-3) leads [OF X'(1)] st(1,2) unfolding log_ok_def g(1) by (auto simp: g(2))
    show "stand_ok z j rf'"
    proof -
      obtain c where c: "(c, ?t) \<in> cc_led s" using h(1) X'(1) unfolding lead_ok_def by blast
      have "c \<noteq> j" if "rf_identity rf = Candidate"
        using li(4) [of j] c that by (auto simp: queue_ok_def defs(1))
      with ok(7) [OF c] id st(2) g(6) show ?thesis unfolding stand_ok_def by auto
    qed
    show "leader_ok servers z j rf'" using parts(3) m(2) id res by (simp add: leader_ok_def defs(1))
    have old: "commitIdx (rf_state rf) < length ?L" "known servers s ?t (take (commitIdx (rf_state rf) + 1) ?L)"
      using parts(4) by (simp_all add: commit_known_def)
    have *: "k < length ?L' \<and> known servers s ?t (take (k + 1) ?L')"
      if "prefix Y ?L'" "k < length Y" "known servers s ?t (take (k + 1) Y)" for Y k
      using that take_prefix [OF that(1), of "k + 1"] prefix_length_le [OF that(1)] by simp
    from st(5) have "commitIdx (rf_state rf') < length ?L' \<and> known servers s ?t (take (commitIdx (rf_state rf') + 1) ?L')"
    proof
      assume k: "commitIdx (rf_state rf') = commitIdx (rf_state rf)"
      have "prefix (take (commitIdx (rf_state rf) + 1) ?L) (if prefix X ?L then ?L else X)"
        by (rule merge_known [OF cc_invD(1) [OF inv(1)] d X'(1) l(1) old(2)]) (rule take_is_prefix)
      then have "prefix (take (commitIdx (rf_state rf) + 1) ?L) ?L'" using take_is_prefix by (auto split: if_splits)
      from * [OF this, of "commitIdx (rf_state rf)"] old k show ?thesis by simp
    next
      assume k: "snd r \<and> commitIdx (rf_state rf) < ae_commitIdx m \<and> commitIdx (rf_state rf') = ae_commitIdx m"
      then have "prefix X ?L'" by simp
      from * [OF this X'(2,3)] k show ?thesis by simp
    qed
    then show "commit_known servers z rf'" using known unfolding commit_known_def st(1,2) by blast
  qed
  have "answer_ok z (j, m, r)" using X st(4) adopted by (auto simp: answer_ok_def g defs(1))
  then show ?thesis unfolding defs(2) [symmetric]
    using inv(3) g raft' node' st(2) X'(1) h(1)
    by (intro cc_inv_go [OF inv(1,2), where i = j]) (auto simp: defs(1) split: if_splits)
qed

section \<open>Counting\<close>

text \<open>An entry of the leader's term that a majority matches is committed.\<close>

lemma counted_committed:
  assumes nodes: "\<And>j n. followerNodes ld j = Some n \<Longrightarrow>
      matchIdx n = 0 \<or> (\<exists>X. (j, t, X) \<in> took \<and> prefix (take (matchIdx n + 1) L) X)"
    and own: "(i, t, L) \<in> took" "i \<in> set servers" "dom (followerNodes ld) \<subseteq> set servers - {i}"
    and k: "1 \<le> k" "k < length L" "le_term (L ! k) = t" "t \<noteq> 0" "length servers div 2 < 1 + matched ld k"
  shows "committed servers took t (take (k + 1) L)"
proof -
  let ?M = "{j. \<exists>n. followerNodes ld j = Some n \<and> k \<le> matchIdx n}"
  have M: "?M \<subseteq> set servers - {i}" using own(3) by auto
  have "finite ?M" "i \<notin> ?M" using finite_subset [OF M] M by blast+
  then have "card (insert i ?M) = 1 + matched ld k" unfolding matched_def by (subst card_insert_disjoint) simp_all
  moreover have "insert i ?M \<subseteq> set servers" using M own(2) by auto
  moreover have "\<exists>X. (v, t, X) \<in> took \<and> prefix (take (k + 1) L) X" if v: "v \<in> insert i ?M" for v
  proof (cases "v = i")
    case True
    with own(1) take_is_prefix show ?thesis by blast
  next
    case False
    with v obtain n where n: "followerNodes ld v = Some n" "k \<le> matchIdx n" by blast
    with nodes [OF n(1)] k(1) obtain X where "(v, t, X) \<in> took" "prefix (take (matchIdx n + 1) L) X" by auto
    moreover have "prefix (take (k + 1) L) (take (matchIdx n + 1) L)" using n(2)
      by (metis add_le_cancel_right min.absorb1 take_is_prefix take_take)
    ultimately show ?thesis by (meson prefix_order.trans)
  qed
  moreover have "last (take (k + 1) L) = L ! k" using k(2) by (simp add: take_Suc_conv_app_nth)
  ultimately show ?thesis
    using k by (auto simp: committed_def intro!: exI [of _ "insert i ?M"])
qed

lemma cc_replicate:
  assumes inv: "cc_inv servers s" "sound servers et (cc_lc s)" "sound servers et ((cc_lc s)\<lparr>lc_cl := c\<rparr>)"
    and iN: "i \<in> set servers" and pend: "pend (cc_raft s i) = []"
    and run: "cl_do True (Replicate i t rs) (lc_cl (cc_lc s)) = Some c" and given: "list_all (given s i t) rs"
    and own: "commitIdx (rf_state (cl_raft c i)) = commitIdx (rf_state (cc_raft s i)) \<or>
      le_term (rf_log (cc_raft s i) ! commitIdx (rf_state (cl_raft c i))) = term_of (cc_raft s i)"
  shows "cc_inv servers (s\<lparr>cc_lc := (cc_lc s)\<lparr>lc_cl := c\<rparr>\<rparr>)" (is "cc_inv servers ?s'")
proof -
  define rf where "rf = cc_raft s i"
  note ok = soundD [OF inv(2)] and li = lc_invD [OF soundD(1) [OF inv(2)]]
  let ?t = "term_of rf" and ?L = "rf_log rf" and ?ld = "rf_leader rf"
  obtain sv ld where ldr: "rf_identity rf = Leader" and call: "tryAppendEntries t rs (rf_server rf, ?ld) = Some (sv, ld)"
    and c: "c = cl_put i (rf\<lparr>rf_server := sv, rf_leader := ld\<rparr>) (lc_cl (cc_lc s))"
    using run by (auto simp: rf_def Let_def split: if_splits)
  note node = cc_invD(5) [OF inv(1), of i, folded rf_def] and h = history_okD [OF cc_invD(1) [OF inv(1)]]
  have parts: "voter_ok s i rf" "log_ok s i rf" "leader_ok servers s i rf" "commit_known servers s rf"
    using node by (simp_all add: server_ok_def)
  have lead: "(i, ?t, ?L) \<in> cc_took s" "\<And>Z. (?t, Z) \<in> cc_lead s \<Longrightarrow> prefix Z ?L" and count: "count_ok servers s i rf"
    using parts(3) pend ldr unfolding leader_ok_def rf_def by blast+
  have len: "length (logStates ?ld) = length ?L" and dom: "dom (followerNodes ?ld) \<subseteq> set servers - {i}"
    and nodes: "\<And>j n. followerNodes ?ld j = Some n \<Longrightarrow> nextIdx n \<le> length ?L \<and> matchIdx n < length ?L \<and>
        (matchIdx n = 0 \<or> (\<exists>X. (j, ?t, X) \<in> cc_took s \<and> prefix (take (matchIdx n + 1) ?L) X))"
    and counts: "\<And>k. 1 \<le> k \<Longrightarrow> k < length ?L \<Longrightarrow> logStates ?ld ! k = 1 + matched ?ld k"
    using count unfolding count_ok_def Let_def by blast+
  have answer: "fst a \<le> ?t \<and> (snd a \<longrightarrow> (t, ?t, ?L) \<in> cc_took s)" if "Replied a \<in> set rs" for a
  proof -
    have "answered s i t a" using given that by (force simp: list_all_iff)
    then obtain m where m: "(t, m, a) \<in> cc_answers s" "ae_term m = ?t"
      "snd a \<longrightarrow> ae_prevLogIdx m + length (ae_logEntries m) + 1 = length ?L" unfolding answered_def rf_def by auto
    have "(t, ?t, ?L) \<in> cc_took s" if success: "snd a"
    proof -
      obtain X where X: "(m, X) \<in> cc_msgs s" "(t, ?t, X) \<in> cc_took s"
        using cc_invD(4) [OF inv(1) m(1)] success m(2) by (auto simp: answer_ok_def)
      have "length X = length ?L" using li(2) [OF X(1)] m(3) success by (auto simp: cut_from_def)
      moreover have "prefix X ?L" using lead(2) h(3) X(2) by blast
      ultimately have "X = ?L" by (auto simp: prefix_def)
      with X(2) show ?thesis by simp
    qed
    with cc_invD(4) [OF inv(1) m(1)] m(2) show ?thesis by (simp add: answer_ok_def)
  qed
  have fin: "finite (dom (followerNodes ?ld))" using dom by (simp add: finite_subset)
  have le: "\<And>a. Replied a \<in> set rs \<Longrightarrow> fst a \<le> currentTerm (sv_state (rf_server rf))" using answer by simp
  have nn: "\<And>j n. followerNodes ?ld j = Some n \<Longrightarrow>
      nextIdx n \<le> length (entries (sv_state (rf_server rf))) \<and> matchIdx n < length (entries (sv_state (rf_server rf)))"
    using nodes by simp
  have tc: "entries (sv_state sv) = ?L" "currentTerm (sv_state sv) = ?t" "votedFor (sv_state sv) = votedFor (rf_state rf)"
    "same_gate (rf_server rf) sv" "length (logStates ld) = length ?L"
    "\<exists>node node'. followerNodes ?ld t = Some node \<and> followerNodes ld = (followerNodes ?ld)(t \<mapsto> node') \<and>
      (matchIdx node' = matchIdx node \<and> nextIdx node' \<le> nextIdx node \<or>
       node' = synced (rf_server rf) node \<and> (\<exists>a. Replied a \<in> set rs \<and> snd a))"
    "\<And>k. 1 \<le> k \<Longrightarrow> k < length ?L \<Longrightarrow> logStates ld ! k = 1 + matched ld k"
    "commitIdx (rf_state rf) \<le> commitIdx (sv_state sv)"
    "commitIdx (rf_state rf) < commitIdx (sv_state sv) \<Longrightarrow> 1 \<le> commitIdx (sv_state sv) \<and>
      commitIdx (sv_state sv) < length ?L \<and> wins (1 + matched ld (commitIdx (sv_state sv))) (rf_info rf)"
    by (rule try_counts [OF call le len fin nn counts]; assumption)+
  let ?rf = "rf\<lparr>rf_server := sv, rf_leader := ld\<rparr>"
  define z where "z = ?s'"
  have g: "cc_lead z = cc_lead s" "cc_took z = cc_took s" "cc_msgs z = cc_msgs s" "cc_answers z = cc_answers s"
    "cc_led z = cc_led s" "cc_won z = cc_won s" "cc_votes z = cc_votes s" "cc_voted z = cc_voted s" "cc_stood z = cc_stood s"
    "cl_sent (lc_cl (cc_lc z)) = cl_sent (lc_cl (cc_lc s))"
    and raft': "cc_raft z j = (if j = i then ?rf else cc_raft s j)" and lc': "cc_lc z = (cc_lc s)\<lparr>lc_cl := c\<rparr>" for j
    by (simp_all add: z_def c cl_put_def)
  obtain n0 n1 where n: "followerNodes ?ld t = Some n0" "followerNodes ld = (followerNodes ?ld)(t \<mapsto> n1)"
    "matchIdx n1 = matchIdx n0 \<and> nextIdx n1 \<le> nextIdx n0 \<or>
     n1 = synced (rf_server rf) n0 \<and> (t, ?t, ?L) \<in> cc_took s" using tc(6) answer by blast
  have nodes': "nextIdx n \<le> length ?L \<and> matchIdx n < length ?L \<and>
      (matchIdx n = 0 \<or> (\<exists>X. (j, ?t, X) \<in> cc_took s \<and> prefix (take (matchIdx n + 1) ?L) X))"
    if j: "followerNodes ld j = Some n" for j n
  proof (cases "j = t")
    case True
    then have "n = n1" using j n(2) by simp
    from n(3) show ?thesis
    proof
      assume "matchIdx n1 = matchIdx n0 \<and> nextIdx n1 \<le> nextIdx n0"
      with nodes [OF n(1)] \<open>n = n1\<close> True show ?thesis by auto
    next
      assume "n1 = synced (rf_server rf) n0 \<and> (t, ?t, ?L) \<in> cc_took s"
      with \<open>n = n1\<close> True nodes [OF n(1)] show ?thesis by (auto intro!: exI [of _ ?L])
    qed
  qed (use nodes [of j] j n(2) in simp)
  have dom': "dom (followerNodes ld) \<subseteq> set servers - {i}" using dom n(1,2) by auto
  have node': "server_ok servers z i ?rf"
    unfolding server_ok_def
  proof (intro conjI)
    show "voter_ok z i ?rf" using parts(1) tc(2,3) by (simp add: voter_ok_def g)
    show "log_ok z i ?rf" using parts(2) tc(1,2) by (simp add: log_ok_def g)
    show "stand_ok z i ?rf" using ldr by (simp add: stand_ok_def)
    have "count_ok servers z i ?rf"
      using tc(1,2,5,7) nodes' dom' unfolding count_ok_def Let_def by (simp add: g)
    then show "leader_ok servers z i ?rf" using lead tc(1,2) ldr unfolding leader_ok_def g by simp
    show "commit_known servers z ?rf"
    proof (cases "commitIdx (sv_state sv) = commitIdx (rf_state rf)")
      case True
      have "commit_known servers z rf" by (rule commit_known_mono [OF parts(4)]) (simp add: g)
      with True tc(1,2) show ?thesis by (simp add: commit_known_def)
    next
      case False
      let ?k = "commitIdx (sv_state sv)"
      have k: "1 \<le> ?k" "?k < length ?L" "wins (1 + matched ld ?k) (rf_info rf)" using tc(8,9) False by auto
      have "le_term (?L ! ?k) = ?t" using own False by (simp add: c cl_put_def rf_def)
      moreover have "?t \<noteq> 0"
      proof -
        have "(i, ?t) \<in> cc_led s" using ok(9) [of i] ldr pend by (simp add: rf_def)
        from h(4) [OF this] obtain Q where "length servers div 2 < card Q" "\<forall>v \<in> Q. (v, ?t, i) \<in> cc_votes s"
          by (auto simp: backed_def)
        moreover from this(1) obtain v where "v \<in> Q" by (metis card.empty not_less_zero equals0I)
        ultimately have "vote_ok s (v, ?t, i)" using h(2) by blast
        then show ?thesis by (simp add: vote_ok_def Let_def)
      qed
      moreover have "length servers div 2 < 1 + matched ld ?k" using k(3) ok(5) [of i] by (simp add: wins_def rf_def)
      moreover have "\<And>j n. followerNodes ld j = Some n \<Longrightarrow>
          matchIdx n = 0 \<or> (\<exists>X. (j, ?t, X) \<in> cc_took s \<and> prefix (take (matchIdx n + 1) ?L) X)" using nodes' by blast
      ultimately have "committed servers (cc_took s) ?t (take (?k + 1) ?L)"
        using counted_committed [OF _ lead(1) iN dom' k(1,2)] by blast
      then have "known servers z ?t (take (?k + 1) ?L)" unfolding known_def g by blast
      with tc(1,2) k(2) show ?thesis by (simp add: commit_known_def)
    qed
  qed
  then show ?thesis unfolding z_def [symmetric]
    using inv(3) g raft' lc' h(1) tc(2)
    by (intro cc_inv_go [OF inv(1,2), where i = i]) (auto simp: rf_def)
qed

end
