(* ===== verification/Applied_Entries.thy ===== *)
theory Applied_Entries
  imports Commit_Steps
begin

text \<open>
  What a step of a cluster hands to the apply queue: when all that was committed had been applied,
  the entries that become committed are appended to the queue, in the order of the log. No operation
  lowers the commit index, but for an AppendEntries message, of which this is assumed here.
\<close>

section \<open>Operations\<close>

definition applies :: "Server \<Rightarrow> Server \<Rightarrow> bool" where
  "applies sv sv' \<longleftrightarrow> commitIdx (sv_state sv) \<le> commitIdx (sv_state sv') \<and>
     (lastApplied (sv_state sv) = commitIdx (sv_state sv) \<longrightarrow> lastApplied (sv_state sv') = commitIdx (sv_state sv') \<and>
       eq_events (sv_applyQueue sv') = eq_events (sv_applyQueue sv) @
         map basicEntry (slice (commitIdx (sv_state sv) + 1) (commitIdx (sv_state sv') + 1) (entries (sv_state sv'))))"

lemma applies_quiet:
  "commitIdx (sv_state sv') = commitIdx (sv_state sv) \<Longrightarrow> lastApplied (sv_state sv') = lastApplied (sv_state sv) \<Longrightarrow>
     eq_events (sv_applyQueue sv') = eq_events (sv_applyQueue sv) \<Longrightarrow> applies sv sv'"
  by (simp add: applies_def slice_def)

lemma applies_refl [simp]: "applies sv sv"
  by (rule applies_quiet) simp_all

lemma applies_vote:
  assumes "raft_ok rf" "raft_requestVote m rf = Some (r, rf')"
  shows "applies (rf_server rf) (rf_server rf')"
proof (cases "active rf")
  case True
  have ok: "sv_ok (rf_server rf)" using assms(1) True by (simp add: raft_ok_active)
  have "defaultRPCRequestVote m (rf_identity rf) (rf_server rf) = Some (r, rf_server rf')"
    using True assms(2)
    by (auto simp: active_def set_server_def set_leader_def follower_requestVote_def candidate_requestVote_def
        leader_requestVote_def Option.bind_eq_Some_conv)
  with requestVote_returns [OF ok, of m "rf_identity rf"] show ?thesis by (intro applies_quiet) auto
next
  case False
  then have "rf' = rf" using assms raft_ok_inactive [OF assms(1)] by (auto simp: set_server_def bogus_requestVote_def)
  then show ?thesis by simp
qed

lemma applies_entries:
  assumes "raft_ok rf" "term_of rf \<le> ae_term m" "raft_appendEntries m rf = Some (r, rf')" "rf_identity rf \<noteq> Leader"
    and "commitIdx (rf_state rf) \<le> commitIdx (rf_state rf')"
  shows "applies (rf_server rf) (rf_server rf')"
proof (cases "active rf")
  case True
  let ?sv = "rf_server rf"
  have ok: "sv_ok ?sv" using assms(1) True by (simp add: raft_ok_active)
  obtain sv i where d: "defaultRPCAppendEntries m i sv = Some (r, rf_server rf')" and sv: "sv_ok sv"
    "sv_state sv = rf_state rf" "sv_applyQueue sv = sv_applyQueue ?sv"
  proof -
    consider "rf_identity rf = Follower" | "rf_identity rf = Candidate" using True assms(4) by (auto simp: active_def)
    then show thesis
    proof cases
      case 1
      obtain h where "follower_appendEntries m ?sv = defaultRPCAppendEntries m Follower (?sv\<lparr>sv_heartBeat := h\<rparr>)"
        "sv_ok (?sv\<lparr>sv_heartBeat := h\<rparr>)" using ok assms(2) by (rule follower_appendEntries_fresh)
      then show thesis using 1 assms(3) by (intro that [of Follower "?sv\<lparr>sv_heartBeat := h\<rparr>"]) (auto simp: set_server_def)
    next
      case 2
      let ?sv' = "if ae_term m = term_of rf then sv_notify Follower (term_of rf) ?sv else ?sv"
      have "sv_ok ?sv'" using ok by (simp add: keeps_intros)
      then show thesis using 2 assms(3)
        by (intro that [of Candidate ?sv']) (auto simp: set_server_def candidate_appendEntries_def Let_def)
    qed
  qed
  note s = appendEntries_SomeD(3,5) [OF sv(1) d]
  have "lastApplied (mergedState m (rf_state rf)) = lastApplied (rf_state rf)" by (simp add: mergedState_def Let_def)
  with s sv(2,3) assms(5) show ?thesis by (auto simp: applies_def appendedState_def Let_def)
next
  case False
  then have "rf' = rf" using assms(3) raft_ok_inactive [OF assms(1)] by (auto simp: set_server_def bogus_appendEntries_def)
  then show ?thesis by simp
qed

lemma applies_log:
  assumes "raft_ok rf" "raft_addLog m rf = Some (r, rf')"
  shows "applies (rf_server rf) (rf_server rf')"
  using raft_addLog_result [OF assms] by (elim disjE) (auto intro: applies_quiet)

lemma applies_event:
  assumes "raft_event (\<lambda>from to. to) True timeout rf = Some rf'" "pend rf = target # rest" "raft_ok rf"
    and "rf_state rf' = entered target (rf_info rf) (rf_state rf)"
  shows "applies (rf_server rf) (rf_server rf')"
proof -
  have "eq_idle (sv_eventQueue (rf_server rf))" using assms(3) by (simp add: raft_ok_def raft_base_def)
  then obtain q where q: "eq_exec1 (sv_eventQueue (rf_server rf)) = Some (target, q)" "eq_idle q"
    using assms(2) by (rule eq_exec1_events)
  let ?rf = "rf\<lparr>rf_server := (rf_server rf)\<lparr>sv_eventQueue := q\<rparr>\<rparr>"
  obtain rf1 where leave: "leave_identity (rf_identity ?rf) (?rf\<lparr>rf_paused := True\<rparr>) = Some rf1"
    using raft_ok_queue [OF assms(3) q(2)] by (rule leave_identity_ok)
  have 1: "sv_applyQueue (rf_server rf1) = sv_applyQueue (rf_server rf)"
    using leave by (cases "rf_identity rf") (auto simp: follower_leave_def candidate_leave_def leader_leave_def)
  from assms(1) q(1) leave obtain rf2 where i: "init_identity True timeout target (rf1\<lparr>rf_identity := target\<rparr>) = Some rf2"
    "rf' = rf2\<lparr>rf_paused := False\<rparr>"
    by (auto simp: raft_event_def transform_def Let_def Option.bind_eq_Some_conv)
  have "sv_applyQueue (rf_server rf2) = sv_applyQueue (rf_server rf1)"
    using i(1) by (cases target) (auto simp: follower_init_def candidate_init_def requestVotes_def leader_init_def
      reinitStates_def Let_def Option.bind_eq_Some_conv split: if_splits)
  with 1 i(2) assms(4) show ?thesis by (intro applies_quiet) (auto simp: entered_def)
qed

lemma applies_vote_back: "vote_thread msg res (sv, d) = (sv', d') \<Longrightarrow> applies sv sv'"
  by (rule applies_quiet) (auto simp: vote_thread_def Let_def split: RpcResult.splits if_splits prod.splits)

lemma applies_timeout: "raft_timeout rf = Some rf' \<Longrightarrow> applies (rf_server rf) (rf_server rf')"
  by (rule applies_quiet) (auto simp: raft_timeout_def follower_timeout_def candidate_timeout_def split: option.splits HeartBeatFunc.splits)

text \<open>Only the commit at the end of \<open>tryAppendEntries\<close> applies anything.\<close>

lemma applies_ready:
  assumes "applyReadyEntries (sv\<lparr>sv_state := (sv_state sv)\<lparr>commitIdx := k\<rparr>\<rparr>) = Some sv'" "commitIdx (sv_state sv) \<le> k"
  shows "applies sv sv'"
  using assms by (auto simp: applies_def applyReadyEntries_def Let_def slice_def split: if_splits)

lemma ta_loop_quiet:
  "ta_loop t n rs (sv, ld) = Some (b, sv', ld') \<Longrightarrow> commitIdx (sv_state sv') = commitIdx (sv_state sv) \<and>
     lastApplied (sv_state sv') = lastApplied (sv_state sv) \<and> sv_applyQueue sv' = sv_applyQueue sv"
proof (induction rs arbitrary: n sv ld)
  case (Cons r rs)
  show ?case
  proof (cases r)
    case (Replied a)
    then obtain m q where "ta_build t (sv, ld) = Some m" and q: "ta_reply t m a (sv, ld) = Some q"
      using Cons.prems by (auto split: option.splits)
    obtain x sv1 ld1 where x: "q = (x, sv1, ld1)" by (cases q)
    have same: "commitIdx (sv_state sv1) = commitIdx (sv_state sv) \<and> lastApplied (sv_state sv1) = lastApplied (sv_state sv) \<and>
        sv_applyQueue sv1 = sv_applyQueue sv"
      using q x by (auto simp: ta_reply_def Let_def Option.bind_eq_Some_conv split: if_splits)
    then show ?thesis
      using Cons.prems Replied \<open>ta_build t (sv, ld) = Some m\<close> q x Cons.IH [of n sv1 ld1] by (cases x) auto
  qed (use Cons in \<open>auto split: option.splits if_splits\<close>)
qed simp

lemma applies_replicate:
  assumes "tryAppendEntries t rs (sv, ld) = Some (sv', ld')"
  shows "applies sv sv'"
  using assms
proof (rule tryAppendEntries_Some)
  fix node b st1
  assume l: "ta_loop t 0 rs (sv, ld) = Some (b, st1)" and c: "(if b then ta_commit (matchIdx node) st1 else Some st1) = Some (sv', ld')"
  obtain sv1 ld1 where st1: "st1 = (sv1, ld1)" by (cases st1)
  note q = ta_loop_quiet [OF l [unfolded st1]]
  have "applies sv1 sv'"
  proof (cases b)
    case True
    let ?is = "[matchIdx node + 1 ..< length (logStates ld1)]"
    let ?ws = "filter (\<lambda>i. wins (logStates ld1 ! i + 1) (sv_info sv1)) ?is"
    let ?k = "fold max ?ws (commitIdx (sv_state sv1))"
    have "fold ta_count ?is (sv1, ld1) =
        (sv1\<lparr>sv_state := (sv_state sv1)\<lparr>commitIdx := ?k\<rparr>\<rparr>, ld1\<lparr>logStates := bumps ?is (logStates ld1)\<rparr>)"
      by (rule fold_ta_count) auto
    with c st1 True have "applyReadyEntries (sv1\<lparr>sv_state := (sv_state sv1)\<lparr>commitIdx := ?k\<rparr>\<rparr>) = Some sv'"
      by (auto simp: ta_commit_def)
    then show ?thesis by (rule applies_ready) (use fold_max_ge in blast)
  qed (use c st1 in simp)
  with q show ?thesis by (simp add: applies_def)
qed

section \<open>Steps\<close>

lemma cl_do_applies:
  assumes run: "cl_do True l c = Some c'" and ok: "raft_ok (cl_raft c j)" "trig (cl_raft c j) \<le> term_of (cl_raft c j)"
    and et: "2 \<le> electionTimeout (rf_info (cl_raft c j))"
    and led: "\<And>i m. l = DeliverEntries i m \<Longrightarrow> rf_identity (cl_raft c i) \<noteq> Leader \<and>
      commitIdx (rf_state (cl_raft c i)) \<le> commitIdx (rf_state (cl_raft c' i))"
  shows "applies (rf_server (cl_raft c j)) (rf_server (cl_raft c' j))"
proof (cases "label_server l = j")
  case False
  with cl_do_other [OF run] show ?thesis by simp
next
  case True
  note ap = run True ok
  show ?thesis
  proof (cases l)
    case (RunTransform i timeout)
    with ap have run': "cl_do True (RunTransform j timeout) c = Some c'" by (simp only: label_server.simps)
    note ev = run_transform_event(1) [OF run']
    show ?thesis
    proof (rule run_transform_effect [OF ok(1) et run' ok(2)])
      fix target rest rf1
      assume q: "pend (cl_raft c j) = target # rest"
        "c' = (if target = Candidate then cl_stand j rf1 c else cl_put j rf1 c)"
        "rf_state rf1 = entered target (rf_info (cl_raft c j)) (rf_state (cl_raft c j))"
      then have "cl_raft c' j = rf1" by (auto simp: cl_put_def cl_stand_def Let_def)
      with q(3) applies_event [OF ev q(1) ok(1)] show ?thesis by simp
    qed
  next
    case (DeliverVote i m)
    with ap show ?thesis by (auto simp: Let_def cl_put_def simp del: raft_requestVote.simps split: if_splits intro: applies_vote)
  next
    case (DeliverEntries i m)
    then obtain r rf' where "raft_appendEntries m (cl_raft c j) = Some (r, rf')" "cl_raft c' j = rf'"
      "term_of (cl_raft c j) \<le> ae_term m"
      using ap by (auto simp: Let_def cl_put_def not_less simp del: raft_appendEntries.simps split: if_splits)
    with applies_entries [OF ok(1)] led [OF DeliverEntries] DeliverEntries True show ?thesis by simp
  next
    case (Replicate i t rs)
    with ap show ?thesis by (auto simp: Let_def cl_put_def split: if_splits intro: applies_replicate)
  next
    case (LogRequest i m)
    with ap show ?thesis by (auto simp: cl_put_def simp del: raft_addLog.simps intro: applies_log)
  next
    case (VoteBack i k r)
    with ap show ?thesis by (auto simp: Let_def cl_put_def cl_open_def split: if_splits prod.splits intro: applies_vote_back)
  next
    case (VoteFails i k)
    with ap show ?thesis by (auto simp: Let_def cl_put_def cl_open_def split: if_splits prod.splits intro: applies_vote_back)
  next
    case (TimerFires i)
    with ap show ?thesis by (auto simp: cl_put_def intro: applies_timeout)
  qed (use ap in \<open>auto simp: cl_put_def asyncRun_def triggerTransformation_def intro: applies_quiet\<close>)
qed

end
