(* ===== verification/State_Machine_Safety.thy ===== *)
theory State_Machine_Safety
  imports Commit_Entries Applied_Entries
begin

text \<open>
  With the three checks of \<open>Commit_Cluster\<close> every reachable state satisfies the invariant of
  \<open>Commit_Invariant\<close>. So what any two servers have committed is on one line, and is what they
  have applied; the leader of a later term has what servers of earlier terms have committed; and no
  step takes a committed entry back.
\<close>

section \<open>Every reachable state\<close>

definition all_checks :: Checks where
  "all_checks = \<lparr>compared = True, own_term = True, adopted = True\<rparr>"

lemma cc_reach_sound:
  assumes "cc_reach ck servers et s" and ok: "2 \<le> et" "distinct servers" "NullServerId \<notin> set servers"
  shows "sound servers et (cc_lc s)"
proof -
  have r: "lc_reach False servers et (cc_lc s)" using assms(1) by (rule cc_reach_lc)
  note cl = lc_reach_cl [OF r]
  show ?thesis unfolding sound_def
    using lc_reach_inv [OF r ok] cl_reach_inv [OF cl ok] won_once [OF cl ok] by blast
qed

lemma cc_inv_init: "cc_inv servers (cc_init servers et)"
proof -
  have raft: "cc_raft (cc_init servers et) i = configure \<lparr>local = i, srvList = servers, electionTimeout = et\<rparr>" for i
    by (simp add: cc_init_def lc_init_def cl_init_def)
  have state: "rf_state (configure cfg) = ServerState0" "rf_identity (configure cfg) = Down"
    "rf_leader (configure cfg) = LeaderImpl0" for cfg by (simp_all add: configure_def)
  have empty: "cc_lead (cc_init servers et) = {}" "cc_took (cc_init servers et) = {}" "cc_votes (cc_init servers et) = {}"
    "cc_led (cc_init servers et) = {}" "cc_msgs (cc_init servers et) = {}" "cc_answers (cc_init servers et) = {}"
    "cl_sent (lc_cl (cc_lc (cc_init servers et))) = {}"
    by (simp_all add: cc_init_def lc_init_def cl_init_def)
  show ?thesis
    unfolding cc_inv_def history_ok_def server_ok_def voter_ok_def log_ok_def stand_ok_def leader_ok_def commit_known_def
      known_def raft state empty
    by (simp add: lead_ok_def chain_def good_def keeps_def ServerState0_def LogEntry0_def InvalidTerm_def)
qed

lemma cc_inv_do:
  assumes inv: "cc_inv servers s" "sound servers et (cc_lc s)" "sound servers et (cc_lc s')"
    and ok: "2 \<le> et" "distinct servers" "lc_server l \<in> set servers" and run: "cc_do all_checks l s = Some s'"
  shows "cc_inv servers s'"
proof -
  obtain s1 where step: "lc_do False l (cc_lc s) = Some s1" and a: "allowed all_checks l s s1"
    and s': "s' = (noted l s1 s)\<lparr>cc_lc := s1\<rparr>"
    using run by (auto simp: cc_do_def split: option.splits if_splits)
  have snd1: "sound servers et s1" using inv(3) s' by simp
  show ?thesis
  proof (cases l)
    case (SendEntries i start)
    with step obtain m where "rf_identity (cc_raft s i) = Leader" "pend (cc_raft s i) = []"
      "createAppendEntriesMessage (rf_server (cc_raft s i)) start = Some m"
      "s1 = (cc_lc s)\<lparr>lc_msgs := insert (m, rf_log (cc_raft s i)) (cc_msgs s)\<rparr>"
      by (auto simp: Let_def split: if_splits)
    with cc_send [OF inv(1,2), of m i start] snd1 s' SendEntries show ?thesis by simp
  next
    case (Run k)
    with step obtain c where run: "prompt k (lc_cl (cc_lc s))" "deliverable False k (cc_lc s)"
      "cl_do True k (lc_cl (cc_lc s)) = Some c"
      and s1: "s1 = (cc_lc s)\<lparr>lc_cl := c, lc_led := cc_led s \<union> newly_led k (lc_cl (cc_lc s))\<rparr>"
      by (auto split: if_splits)
    have s1': "s1 = (cc_lc s)\<lparr>lc_cl := c\<rparr>" if "newly_led k (lc_cl (cc_lc s)) = {}" using s1 that by simp
    show ?thesis
    proof (cases k)
      case (RunTransform i timeout)
      with cc_transform [OF inv(1,2) snd1 ok(1), of i timeout c] run(3) s1 s' Run show ?thesis by blast
    next
      case (StartServer i)
      with run s1' s' Run cc_trigger [OF inv(1,2) snd1, of i Follower] show ?thesis by (simp add: asyncRun_def)
    next
      case (StopServer i)
      with run s1' s' Run cc_trigger [OF inv(1,2) snd1, of i Down] show ?thesis by simp
    next
      case (TimerFires i)
      with run obtain rf' where "raft_timeout (cc_raft s i) = Some rf'" "c = cl_put i rf' (lc_cl (cc_lc s))" by auto
      with TimerFires run(1) s1' s' Run cc_timer [OF inv(1,2) snd1, of i rf'] show ?thesis by simp
    next
      case (DeliverVote j m)
      have "grantsVote m (rf_state (cc_raft s j)) \<longrightarrow> logUpToDate (rf_log (cc_raft s j)) m"
        using a Run DeliverVote by (simp add: all_checks_def)
      with cc_vote [OF inv(1,2), of c j m] DeliverVote run(1,3) s1' snd1 s' Run show ?thesis by simp
    next
      case (VoteBack i n r)
      with cc_back [OF inv(1,2), of c i n r] run(1,3) s1' snd1 s' Run show ?thesis by simp
    next
      case (VoteFails i n)
      with cc_fails [OF inv(1,2), of c i n] run(1,3) s1' snd1 s' Run show ?thesis by simp
    next
      case (DeliverEntries j m)
      have "ae_term m = term_of (cc_raft s j)" using a Run DeliverEntries by (simp add: all_checks_def)
      with cc_entries [OF inv(1,2) _ ok(2), of c m j] DeliverEntries run(2,3) s1' snd1 s' Run show ?thesis by simp
    next
      case (Replicate i t rs)
      have "list_all (given s i t) rs" "commitIdx (rf_state (cl_raft c i)) = commitIdx (rf_state (cc_raft s i)) \<or>
          le_term (rf_log (cc_raft s i) ! commitIdx (rf_state (cl_raft c i))) = term_of (cc_raft s i)"
        using a Run Replicate s1 by (simp_all add: all_checks_def Let_def)
      with cc_replicate [OF inv(1,2), of c i t rs] Replicate run(1,3) s1' snd1 s' Run ok(3) show ?thesis by simp
    next
      case (LogRequest i m)
      with cc_log [OF inv(1,2), of c i m] run(1,3) s1' snd1 s' Run show ?thesis by simp
    qed
  qed
qed

theorem cc_reach_inv:
  assumes "cc_reach all_checks servers et s" and ok: "2 \<le> et" "distinct servers" "NullServerId \<notin> set servers"
  shows "cc_inv servers s"
  using assms(1)
proof (induction rule: cc_reach.induct)
  case cc_start
  show ?case by (rule cc_inv_init)
next
  case (cc_step s l s')
  have "cc_reach all_checks servers et s'" using cc_step.hyps by (rule cc_reach.cc_step)
  from cc_inv_do [OF cc_step.IH cc_reach_sound [OF cc_step.hyps(1) ok] cc_reach_sound [OF this ok] ok(1,2) cc_step.hyps(2,3)]
  show ?case .
qed

section \<open>One line of committed entries\<close>

lemma prefixes_line:
  "prefix P A \<Longrightarrow> prefix R B \<Longrightarrow> prefix A B \<or> prefix B A \<Longrightarrow> prefix P R \<or> prefix R P"
  by (meson prefix_of_same prefix_order.trans)

lemma good_short: "good LL L \<Longrightarrow> prefix P L \<Longrightarrow> length P \<le> 1 \<Longrightarrow> P = [] \<or> P = [LogEntry0]"
  by (cases P) (auto simp: good_def prefix_Cons)

lemma known_line:
  assumes h: "history_ok servers s" "distinct servers"
    and P: "known servers s t P" "good (cc_lead s) L" "prefix P L"
    and R: "known servers s u R" "good (cc_lead s) M" "prefix R M"
  shows "prefix P R \<or> prefix R P"
proof -
  have short: "prefix P R \<or> prefix R P" if "length P \<le> 1" "good (cc_lead s) L" "prefix P L" "good (cc_lead s) M" "prefix R M"
    for P R L M
  proof -
    have "prefix P M" using good_short [OF that(2,3,1)] that(4) by (auto simp: good_def)
    then show ?thesis using that(5) by (rule prefix_of_same)
  qed
  consider "length P \<le> 1" | "length R \<le> 1"
    | t' P' u' R' where "committed servers (cc_took s) t' P'" "prefix P P'" "committed servers (cc_took s) u' R'" "prefix R R'"
    using P(1) R(1) unfolding known_def by blast
  then show ?thesis
  proof cases
    case 3
    show ?thesis by (rule prefixes_line [OF 3(2,4) committed_line [OF h 3(1,3)]])
  qed (use short P R in blast)+
qed

lemma server_known:
  assumes "cc_inv servers s"
  shows "good (cc_lead s) (rf_log (cc_raft s i))" "commitIdx (rf_state (cc_raft s i)) < length (rf_log (cc_raft s i))"
    "known servers s (term_of (cc_raft s i)) (take (commitIdx (rf_state (cc_raft s i)) + 1) (rf_log (cc_raft s i)))"
  using cc_invD(5) [OF assms, of i] by (simp_all add: server_ok_def log_ok_def commit_known_def)

text \<open>A step keeps the committed entries of a server, whose commit index does not fall.\<close>

lemma cc_do_grows: "cc_do ck l s = Some s' \<Longrightarrow> cc_took s \<subseteq> cc_took s' \<and> cc_lead s \<subseteq> cc_lead s'"
proof -
  assume "cc_do ck l s = Some s'"
  then obtain s1 where "s' = (noted l s1 s)\<lparr>cc_lc := s1\<rparr>" by (auto simp: cc_do_def split: option.splits if_splits)
  then show ?thesis
    by (cases "(l, s1, s)" rule: noted.cases)
      (auto simp: note_voted_def note_stood_def note_lead_def note_answer_def Let_def
        simp del: raft_appendEntries.simps split: option.splits)
qed

lemma cc_entries_commit:
  assumes inv: "cc_inv servers s" "sound servers et (cc_lc s)" and m: "m \<in> fst ` cc_msgs s" "rf_identity (cc_raft s j) \<noteq> Leader"
    and adopted: "ae_term m = term_of (cc_raft s j)" and run: "cl_do True (DeliverEntries j m) (lc_cl (cc_lc s)) = Some c"
  shows "commitIdx (rf_state (cc_raft s j)) \<le> commitIdx (rf_state (cl_raft c j))"
proof -
  obtain r rf' where call: "raft_appendEntries m (cc_raft s j) = Some (r, rf')" and c: "cl_raft c j = rf'"
    using run by (auto simp: Let_def cl_put_def simp del: raft_appendEntries.simps split: if_splits)
  obtain X where X: "(m, X) \<in> cc_msgs s" using m(1) by force
  have X': "cut_from m X" "ae_commitIdx m < length X" "logMatching (rf_log (cc_raft s j)) X"
    using lc_invD(1,2) [OF soundD(1) [OF inv(2)]] X cc_invD(3) [OF inv(1) X] by (auto simp: msg_ok_def logs_ok_def)
  from answer_state(5) [OF soundD(4) [OF inv(2)] m(2) adopted call X'(3,1,2)] c show ?thesis by auto
qed

lemma cc_do_applies:
  assumes inv: "cc_inv servers s" "sound servers et (cc_lc s)" "2 \<le> et" and run: "cc_do all_checks l s = Some s'"
  shows "applies (rf_server (cc_raft s j)) (rf_server (cc_raft s' j))"
proof -
  obtain s1 where step: "lc_do False l (cc_lc s) = Some s1" and a: "allowed all_checks l s s1" and s': "cc_lc s' = s1"
    using run by (auto simp: cc_do_def split: option.splits if_splits)
  show ?thesis
  proof (cases l)
    case (SendEntries i start)
    with step have "lc_cl s1 = lc_cl (cc_lc s)" by (auto simp: Let_def split: if_splits)
    with s' show ?thesis by simp
  next
    case (Run k)
    with step obtain c where k: "deliverable False k (cc_lc s)" "cl_do True k (lc_cl (cc_lc s)) = Some c" "lc_cl s1 = c"
      by (auto split: if_splits)
    have "applies (rf_server (cc_raft s j)) (rf_server (cl_raft c j))"
    proof (rule cl_do_applies [OF k(2)])
      fix i m assume e: "k = DeliverEntries i m"
      have "ae_term m = term_of (cc_raft s i)" using a Run e by (simp add: all_checks_def)
      with cc_entries_commit [OF inv(1,2), of m i c] k(1,2) e
      show "rf_identity (cc_raft s i) \<noteq> Leader \<and> commitIdx (rf_state (cc_raft s i)) \<le> commitIdx (rf_state (cl_raft c i))" by simp
    qed (use soundD(4,5,10) [OF inv(2)] inv(3) in simp_all)
    with k(3) s' show ?thesis by simp
  qed
qed

text \<open>Every server has applied its committed entries, in the order of its log.\<close>

lemma applied_later:
  assumes "applies sv sv'" "committed_ok (sv_state sv)" "applied_inv [] sv"
    and "commitIdx (sv_state sv') < length (entries (sv_state sv'))"
    and "take (commitIdx (sv_state sv) + 1) (entries (sv_state sv')) = take (commitIdx (sv_state sv) + 1) (entries (sv_state sv))"
  shows "committed_ok (sv_state sv') \<and> applied_inv [] sv'"
proof -
  let ?s = "sv_state sv" and ?s' = "sv_state sv'"
  from assms(1,2) have n: "commitIdx ?s \<le> commitIdx ?s'" "lastApplied ?s' = commitIdx ?s'" "lastApplied ?s = commitIdx ?s"
    "eq_events (sv_applyQueue sv') = eq_events (sv_applyQueue sv) @
         map basicEntry (slice (commitIdx ?s + 1) (commitIdx ?s' + 1) (entries ?s'))"
    by (simp_all add: applies_def committed_ok_def)
  have "slice 1 (commitIdx ?s + 1) (entries ?s) = slice 1 (commitIdx ?s + 1) (entries ?s')"
    by (rule slice_cong) (simp only: assms(5))
  then have "eq_events (sv_applyQueue sv') = map basicEntry
      (slice 1 (commitIdx ?s + 1) (entries ?s') @ slice (commitIdx ?s + 1) (commitIdx ?s' + 1) (entries ?s'))"
    using n assms(3) by (simp add: applied_inv_def)
  also have "\<dots> = map basicEntry (slice 1 (commitIdx ?s' + 1) (entries ?s'))"
    using n(1) by (subst slice_append_slice) simp_all
  finally show ?thesis using n(2) assms(4) by (simp add: committed_ok_def applied_inv_def)
qed

abbreviation commit_at :: "CommitCluster \<Rightarrow> ServerId \<Rightarrow> index" where
  "commit_at s i \<equiv> commitIdx (rf_state (cc_raft s i))"

definition committed_log :: "CommitCluster \<Rightarrow> ServerId \<Rightarrow> LogEntry list" where
  "committed_log s i = take (commit_at s i + 1) (rf_log (cc_raft s i))"

lemma committed_logD:
  assumes "cc_inv servers s"
  shows "good (cc_lead s) (rf_log (cc_raft s i))" "known servers s (term_of (cc_raft s i)) (committed_log s i)"
    "length (committed_log s i) = commit_at s i + 1" "prefix (committed_log s i) (rf_log (cc_raft s i))"
  using server_known [OF assms, of i] by (simp_all add: committed_log_def take_is_prefix)

lemma committed_logs_line:
  assumes "cc_inv servers s" "distinct servers"
  shows "prefix (committed_log s i) (committed_log s j) \<or> prefix (committed_log s j) (committed_log s i)"
  using committed_logD [OF assms(1)]
  by (intro known_line [OF cc_invD(1) [OF assms(1)] assms(2)]) auto

lemma cc_do_committed:
  assumes reach: "cc_reach all_checks servers et s" and ok: "2 \<le> et" "distinct servers" "NullServerId \<notin> set servers"
    and step: "lc_server l \<in> set servers" "cc_do all_checks l s = Some s'"
  shows "commit_at s i \<le> commit_at s' i" "prefix (committed_log s i) (rf_log (cc_raft s' i))"
    "applies (rf_server (cc_raft s i)) (rf_server (cc_raft s' i))"
proof -
  note inv = cc_reach_inv [OF reach ok] and inv' = cc_reach_inv [OF cc_reach.cc_step [OF reach step] ok]
  note k = committed_logD [OF inv, of i] and k' = committed_logD [OF inv', of i]
  show ap: "applies (rf_server (cc_raft s i)) (rf_server (cc_raft s' i))"
    by (rule cc_do_applies [OF inv cc_reach_sound [OF reach ok] ok(1) step(2)])
  then show le: "commit_at s i \<le> commit_at s' i" by (simp add: applies_def)
  note grows = cc_do_grows [OF step(2)]
  have "prefix (committed_log s i) (committed_log s' i) \<or> prefix (committed_log s' i) (committed_log s i)"
  proof (rule known_line [OF cc_invD(1) [OF inv'] ok(2) _ _ k(4) k'(2,1,4)])
    show "known servers s' (term_of (cc_raft s i)) (committed_log s i)" using known_mono [OF k(2)] grows by blast
    show "good (cc_lead s') (rf_log (cc_raft s i))" using good_mono [OF k(1)] grows by blast
  qed
  then have "prefix (committed_log s i) (committed_log s' i)"
  proof
    assume p: "prefix (committed_log s' i) (committed_log s i)"
    have "length (committed_log s i) \<le> length (committed_log s' i)" using le k(3) k'(3) by simp
    then show ?thesis using prefix_shorter [OF prefix_order.refl p] by blast
  qed
  then show "prefix (committed_log s i) (rf_log (cc_raft s' i))" using k'(4) by (rule prefix_order.trans)
qed

lemma cc_reach_applied:
  assumes "cc_reach all_checks servers et s" and ok: "2 \<le> et" "distinct servers" "NullServerId \<notin> set servers"
  shows "committed_ok (rf_state (cc_raft s j)) \<and> applied_inv [] (rf_server (cc_raft s j))"
  using assms(1)
proof (induction rule: cc_reach.induct)
  case cc_start
  show ?case
    by (simp add: cc_init_def lc_init_def cl_init_def configure_def ServerState0_def committed_ok_def applied_inv_def
        slice_def EventQueue0_def eq_events_def)
next
  case (cc_step s l s')
  note inv = cc_reach_inv [OF cc_step.hyps(1) ok] and inv' = cc_reach_inv [OF cc_reach.cc_step [OF cc_step.hyps] ok]
  note step = cc_do_committed [OF cc_step.hyps(1) ok cc_step.hyps(2,3), of j]
  have "take (commit_at s j + 1) (rf_log (cc_raft s' j)) = take (commit_at s j + 1) (rf_log (cc_raft s j))"
    using step(2) committed_logD(3) [OF inv, of j] by (simp add: prefix_take_iff committed_log_def)
  then show ?case using applied_later [OF step(3)] cc_step.IH server_known(2) [OF inv', of j] by blast
qed

section \<open>State machine safety\<close>

abbreviation applied_of :: "CommitCluster \<Rightarrow> ServerId \<Rightarrow> BasicLogEntry list" where
  "applied_of s i \<equiv> eq_events (sv_applyQueue (rf_server (cc_raft s i)))"

lemma applied_committed:
  assumes "cc_reach all_checks servers et s" and ok: "2 \<le> et" "distinct servers" "NullServerId \<notin> set servers"
  shows "applied_of s i = map basicEntry (tl (committed_log s i))"
  using cc_reach_applied [OF assms, of i]
  by (simp add: applied_inv_def committed_ok_def committed_log_def slice_def drop_Suc)

text \<open>
  C3. State machine safety. On the schedules of \<open>Commit_Cluster\<close> with all three checks, every
  server has applied exactly the requests of its committed entries, in the order of its log, and
  of any two servers one has applied a prefix of what the other has applied: no two servers have
  applied different requests at the same index. On these schedules messages arrive in the order of
  terms, queued transformations run before anything else, a leader is handed no AppendEntries, its
  threads count answers that followers gave to messages reaching the end of its log, so that no
  request is logged while a call is in flight, and no step is taken that one of the checks would
  refuse. The code makes none of these sure.
\<close>

theorem state_machine_safety:
  assumes "cc_reach all_checks servers et s" "2 \<le> et" "distinct servers" "NullServerId \<notin> set servers"
  shows "applied_of s i = map basicEntry (tl (committed_log s i)) \<and>
    (prefix (applied_of s i) (applied_of s j) \<or> prefix (applied_of s j) (applied_of s i))"
proof -
  note inv = cc_reach_inv [OF assms]
  have "prefix (map basicEntry (tl A)) (map basicEntry (tl B))" if "prefix A B" for A B :: "LogEntry list"
    using that by (cases A; cases B) (auto simp: map_mono_prefix)
  then show ?thesis
    using committed_logs_line [OF inv assms(3), of i j] by (auto simp: applied_committed [OF assms])
qed

text \<open>
  A run with the three checks: \<open>a\<close> commits a request with \<open>c\<close>, tells \<open>c\<close> so, and \<open>c\<close> becomes the leader of
  the next term with the vote of \<open>b\<close>.
\<close>

definition commit_run :: "lc_label list" where
  "commit_run = (let a = sample_id ''a''; b = sample_id ''b''; c = sample_id ''c'' in
     up [a, b, c] @ stand a @ asks a 1 0 0 1 c @ turns a @ [Run (LogRequest a (run_request a 7))] @
     sends a 1 [entry_of a 1 7] [c] @ counts a 1 c @
     [SendEntries a 2, Run (DeliverEntries c \<lparr>ae_term = 1, ae_leaderId = a, ae_prevLogIdx = 1, ae_prevLogTerm = 1,
        ae_logEntries = [], ae_commitIdx = 1\<rparr>)] @
     stand c @ asks c 2 1 1 1 b @ turns c)"

definition commit_shown :: "(ServerId \<Rightarrow> Raft) \<Rightarrow> bool" where
  "commit_shown rfs \<longleftrightarrow> applied_at rfs ''a'' = [7] \<and> applied_at rfs ''c'' = [7] \<and> applied_at rfs ''b'' = [] \<and>
     rf_identity (rfs (sample_id ''c'')) = Leader \<and> pend (rfs (sample_id ''c'')) = [] \<and>
     term_of (rfs (sample_id ''a'')) = 1 \<and> term_of (rfs (sample_id ''c'')) = 2 \<and>
     commitIdx (rf_state (rfs (sample_id ''a''))) = 1 \<and> length (rf_log (rfs (sample_id ''a''))) = 2"

lemma commit_run_reaches: "\<exists>s. cc_reach all_checks three 100 s \<and> commit_shown (cl_raft (lc_cl (cc_lc s)))"
proof (rule cc_quick_shows)
  show "case cc_quick all_checks three 100 commit_run (cc_init three 100) of
      None \<Rightarrow> False | Some s \<Rightarrow> commit_shown (cl_raft (lc_cl (cc_lc s)))" by code_simp
  show "list_all (\<lambda>l. lc_server l \<in> set three) commit_run" by code_simp
qed

theorem state_machine_safety_witness:
  "\<exists>s. cc_reach all_checks three 100 s \<and> applied_at (cl_raft (lc_cl (cc_lc s))) ''a'' = [7] \<and>
     (prefix (applied_of s (sample_id ''a'')) (applied_of s (sample_id ''b'')) \<or>
      prefix (applied_of s (sample_id ''b'')) (applied_of s (sample_id ''a'')))"
proof -
  obtain s where s: "cc_reach all_checks three 100 s" "commit_shown (cl_raft (lc_cl (cc_lc s)))"
    using commit_run_reaches by blast
  have a: "applied_at (cl_raft (lc_cl (cc_lc s))) ''a'' = [7]" using s(2) by (simp add: commit_shown_def)
  have "(2 :: nat) \<le> 100" by simp
  note safe = state_machine_safety [OF s(1) this three_distinct, THEN conjunct2]
  show ?thesis by (intro exI [of _ s] conjI) (rule s(1) a safe)+
qed

text \<open>
  C4. Leader completeness. On the schedules of \<open>Commit_Cluster\<close> with all three checks, the log
  of a leader that has no transformation to run begins with everything that a server of a lower term has committed.
\<close>

theorem leader_completeness:
  assumes "cc_reach all_checks servers et s" "2 \<le> et" "distinct servers" "NullServerId \<notin> set servers"
    and "rf_identity (cc_raft s i) = Leader" "pend (cc_raft s i) = []" "term_of (cc_raft s j) < term_of (cc_raft s i)"
  shows "prefix (committed_log s j) (rf_log (cc_raft s i))"
proof -
  note inv = cc_reach_inv [OF assms(1-4)]
  note h = cc_invD(1) [OF inv] and k = committed_logD [OF inv]
  have "(i, term_of (cc_raft s i), rf_log (cc_raft s i)) \<in> cc_took s"
    using cc_invD(5) [OF inv, of i] assms(5,6) by (simp add: server_ok_def leader_ok_def)
  then have led: "(term_of (cc_raft s i), rf_log (cc_raft s i)) \<in> cc_lead s" by (rule history_okD(3) [OF h])
  consider "length (committed_log s j) \<le> 1"
    | u R where "u \<le> term_of (cc_raft s j)" "committed servers (cc_took s) u R" "prefix (committed_log s j) R"
    using k(2) [of j] unfolding known_def by blast
  then show ?thesis
  proof cases
    case 1
    from good_short [OF k(1) [of j] k(4) 1] k(1) [of i] show ?thesis by (auto simp: good_def)
  next
    case 2
    have "u < term_of (cc_raft s i)" using 2(1) assms(7) by simp
    from leader_complete [OF h assms(3) 2(2) led this] 2(3) show ?thesis by (meson prefix_order.trans)
  qed
qed

theorem leader_completeness_witness:
  "\<exists>s. cc_reach all_checks three 100 s \<and> commit_at s (sample_id ''a'') = 1 \<and>
     prefix (committed_log s (sample_id ''a'')) (rf_log (cc_raft s (sample_id ''c'')))"
proof -
  obtain s where s: "cc_reach all_checks three 100 s" "commit_shown (cl_raft (lc_cl (cc_lc s)))"
    using commit_run_reaches by blast
  then have c: "rf_identity (cc_raft s (sample_id ''c'')) = Leader" "pend (cc_raft s (sample_id ''c'')) = []"
    "term_of (cc_raft s (sample_id ''a'')) < term_of (cc_raft s (sample_id ''c''))"
    "commit_at s (sample_id ''a'') = 1" by (simp_all add: commit_shown_def)
  from leader_completeness [OF s(1) _ three_distinct c(1-3)] s(1) c(4) show ?thesis by (intro exI [of _ s] conjI) simp_all
qed

text \<open>
  C11. On the schedules of \<open>Commit_Cluster\<close> with all three checks, no step takes a committed entry
  back: the commit index of a server does not fall, and its log keeps the committed entries.
\<close>

theorem committed_stays:
  assumes "cc_reach all_checks servers et s" "2 \<le> et" "distinct servers" "NullServerId \<notin> set servers"
    and "lc_server l \<in> set servers" "cc_do all_checks l s = Some s'"
  shows "commit_at s i \<le> commit_at s' i \<and> take (commit_at s i + 1) (rf_log (cc_raft s' i)) = committed_log s i"
  using cc_do_committed(1,2) [OF assms, of i] committed_logD(3) [OF cc_reach_inv [OF assms(1-4)], of i]
  by (simp add: prefix_take_iff)

text \<open>\<open>a\<close> logs another request after the first is committed at \<open>a\<close> and \<open>c\<close>, and sends both to \<open>c\<close>.\<close>

definition growth_run :: "lc_label list" where
  "growth_run = (let a = sample_id ''a''; b = sample_id ''b''; c = sample_id ''c'' in
     up [a, b, c] @ stand a @ asks a 1 0 0 1 c @ turns a @ [Run (LogRequest a (run_request a 7))] @
     sends a 1 [entry_of a 1 7] [c] @ counts a 1 c @
     [SendEntries a 2, Run (DeliverEntries c \<lparr>ae_term = 1, ae_leaderId = a, ae_prevLogIdx = 1, ae_prevLogTerm = 1,
        ae_logEntries = [], ae_commitIdx = 1\<rparr>), Run (LogRequest a (run_request a 8)), SendEntries a 1])"

definition growth :: lc_label where
  "growth = (let a = sample_id ''a'' in Run (DeliverEntries (sample_id ''c'') \<lparr>ae_term = 1, ae_leaderId = a,
     ae_prevLogIdx = 0, ae_prevLogTerm = 0, ae_logEntries = [entry_of a 1 7, entry_of a 1 8], ae_commitIdx = 1\<rparr>))"

lemma growth_run_reaches:
  "\<exists>s s'. cc_reach all_checks three 100 s \<and> cc_do all_checks growth s = Some s' \<and>
     commit_at s (sample_id ''c'') = 1 \<and> length (rf_log (cc_raft s' (sample_id ''c''))) = 3"
proof -
  have "case cc_quick all_checks three 100 growth_run (cc_init three 100) of None \<Rightarrow> False
    | Some r \<Rightarrow> commit_at r (sample_id ''c'') = 1 \<and> (case cc_do all_checks growth r of None \<Rightarrow> False
        | Some r' \<Rightarrow> length (rf_log (cc_raft r' (sample_id ''c''))) = 3)" by code_simp
  then obtain r r' where r: "cc_quick all_checks three 100 growth_run (cc_init three 100) = Some r"
    "commit_at r (sample_id ''c'') = 1" "cc_do all_checks growth r = Some r'"
    "length (rf_log (cc_raft r' (sample_id ''c''))) = 3" by (auto split: option.splits)
  have "list_all (\<lambda>l. lc_server l \<in> set three) growth_run" by code_simp
  moreover have "fewer (cc_init three 100) (cc_init three 100)" by (simp add: fewer_def fewer_votes_def)
  ultimately obtain s where s: "cc_reach all_checks three 100 s" "fewer s r"
    using cc_quick_reach [OF cc_start _ _ r(1)] by blast
  from cc_do_fewer [OF s(2) r(3)] obtain s' where "cc_do all_checks growth s = Some s'" "fewer s' r'" by blast
  with s r(2,4) show ?thesis
    by (intro exI [of _ s] exI [of _ s']) (simp add: fewer_def fewer_votes_def)
qed

theorem committed_stays_witness:
  "\<exists>s s'. cc_do all_checks growth s = Some s' \<and> commit_at s (sample_id ''c'') = 1 \<and>
     length (rf_log (cc_raft s' (sample_id ''c''))) = 3 \<and> 1 \<le> commit_at s' (sample_id ''c'') \<and>
     take 2 (rf_log (cc_raft s' (sample_id ''c''))) = committed_log s (sample_id ''c'')"
proof -
  obtain s s' where s: "cc_reach all_checks three 100 s" "cc_do all_checks growth s = Some s'"
    "commit_at s (sample_id ''c'') = 1" "length (rf_log (cc_raft s' (sample_id ''c''))) = 3"
    using growth_run_reaches by blast
  have "lc_server growth \<in> set three" by (simp add: growth_def Let_def three_def)
  from committed_stays [OF s(1) _ three_distinct this s(2), of "sample_id ''c''"] s(2-4) show ?thesis
    by (auto simp: numeral_2_eq_2)
qed

end
