(* ===== verification/Leader_Threads.thy ===== *)
theory Leader_Threads
  imports Identity_Leader
begin

text \<open>
  The threads of the leader (\<open>identity/IdentityLeader.cpp\<close>): the heart beat interrupts the thread of
  every follower, waits for it and starts a new one; each thread runs \<open>tryAppendEntries\<close> and counts
  and commits under locks of its own; requests are logged meanwhile, and \<open>leave\<close> ends everything.

  It is a transition system with one step for each stretch of code between two points at which
  other threads can be seen. \<open>lt_pc\<close> is the place of each follower's thread in
  \<open>tryAppendEntries\<close>: \<open>Looping\<close> and \<open>Calling\<close> own the lock of the follower's node, \<open>Succeeded\<close>
  has given it back, \<open>Counting\<close> and \<open>Applying\<close> hold \<open>logStatesM\<close> shared. \<open>addLog\<close> takes two steps,
  since it appends to \<open>entries\<close> and to \<open>logStates\<close> under different locks. The worker of the apply
  queue is a thread of its own, since \<open>leave\<close> waits for that queue to be empty. Other leaders'
  messages are left out: a leader is given its commit index by its own threads only.

  With the flag \<open>quiet\<close> no request is logged while a call is in flight or its success not yet
  counted; without it any interleaving is possible.
\<close>

section \<open>State\<close>

datatype append_pc = NoThread | Started | Looping index nat | Calling index nat AppendEntriesMessage
  | Succeeded index | Counting index | Applying | Ended

datatype beat_pc = BeatIdle | BeatJoining "ServerId list" | BeatOver

datatype leave_pc = NotLeaving | LeaveStopping | LeaveJoining "ServerId list" | Left

record LeaderThreads =
  lt_st :: "Server \<times> LeaderImpl"
  lt_pc :: "ServerId \<Rightarrow> append_pc"
  lt_flag :: "ServerId \<Rightarrow> bool"
  lt_beat :: beat_pc
  lt_leave :: leave_pc
  lt_adding :: bool

text \<open>After \<open>init\<close> with a heart beat.\<close>

definition LeaderThreads0 :: "Server \<Rightarrow> LeaderThreads" where
  "LeaderThreads0 sv = \<lparr>lt_st = reinitStates (sv, LeaderImpl0), lt_pc = (\<lambda>_. NoThread), lt_flag = (\<lambda>_. False),
     lt_beat = BeatIdle, lt_leave = NotLeaving, lt_adding = False\<rparr>"

abbreviation lt_peers :: "LeaderThreads \<Rightarrow> ServerId list" where
  "lt_peers s \<equiv> peers (sv_info (fst (lt_st s)))"

definition lt_move :: "ServerId \<Rightarrow> append_pc \<Rightarrow> LeaderThreads \<Rightarrow> LeaderThreads" where
  "lt_move t pc s = s\<lparr>lt_pc := (lt_pc s)(t := pc)\<rparr>"

section \<open>The heart beat and leaving\<close>

text \<open>The closure bound to the heart beat: first every thread is interrupted.\<close>

definition beat_interrupt :: "LeaderThreads \<Rightarrow> LeaderThreads option" where
  "beat_interrupt s = (if lt_beat s = BeatIdle
     then Some (s\<lparr>lt_flag := (\<lambda>t. t \<in> set (lt_peers s) \<or> lt_flag s t), lt_beat := BeatJoining (lt_peers s)\<rparr>) else None)"

text \<open>A handle without a thread, or whose thread has ended, is joined at once.\<close>

definition joinable_now :: "ServerId \<Rightarrow> LeaderThreads \<Rightarrow> bool" where
  "joinable_now t s \<longleftrightarrow> lt_pc s t = NoThread \<or> lt_pc s t = Ended"

text \<open>Then they are joined and started anew, one after the other.\<close>

definition beat_join :: "LeaderThreads \<Rightarrow> LeaderThreads option" where
  "beat_join s = (case lt_beat s of
     BeatJoining [] \<Rightarrow> Some (s\<lparr>lt_beat := BeatIdle\<rparr>)
   | BeatJoining (t # ts) \<Rightarrow> (if joinable_now t s
       then Some (lt_move t Started (s\<lparr>lt_flag := (lt_flag s)(t := False), lt_beat := BeatJoining ts\<rparr>)) else None)
   | _ \<Rightarrow> None)"

text \<open>
  \<open>leave\<close> stops the heart beat, whose thread sees the interruption when it sleeps, then interrupts
  and joins the threads and clears the bookkeeping.
\<close>

definition leave_begin :: "LeaderThreads \<Rightarrow> LeaderThreads option" where
  "leave_begin s = (if lt_leave s = NotLeaving then Some (s\<lparr>lt_leave := LeaveStopping\<rparr>) else None)"

definition beat_end :: "LeaderThreads \<Rightarrow> LeaderThreads option" where
  "beat_end s = (if lt_beat s = BeatIdle \<and> lt_leave s = LeaveStopping then Some (s\<lparr>lt_beat := BeatOver\<rparr>) else None)"

definition leave_interrupt :: "LeaderThreads \<Rightarrow> LeaderThreads option" where
  "leave_interrupt s = (if lt_leave s = LeaveStopping \<and> lt_beat s = BeatOver
     then Some (s\<lparr>lt_flag := (\<lambda>t. t \<in> set (lt_peers s) \<or> lt_flag s t), lt_leave := LeaveJoining (lt_peers s)\<rparr>) else None)"

text \<open>
  When all threads are joined, \<open>service.apply.wait()\<close> blocks until the apply queue is empty; no
  one adds to it any more, so that the clearing follows in the same step.
\<close>

definition leave_join :: "LeaderThreads \<Rightarrow> LeaderThreads option" where
  "leave_join s = (case lt_leave s of
     LeaveJoining [] \<Rightarrow> (case lt_st s of (sv, ld) \<Rightarrow> if \<not> eq_wait_done (sv_applyQueue sv) then None else
       Some (s\<lparr>lt_st := (sv, ld\<lparr>followerNodes := (\<lambda>_. None), logStates := []\<rparr>), lt_leave := Left\<rparr>))
   | LeaveJoining (t # ts) \<Rightarrow> (if joinable_now t s
       then Some (lt_move t NoThread (s\<lparr>lt_leave := LeaveJoining ts\<rparr>)) else None)
   | _ \<Rightarrow> None)"

section \<open>A thread\<close>

definition ta_begin :: "ServerId \<Rightarrow> LeaderThreads \<Rightarrow> LeaderThreads option" where
  "ta_begin t s = (case lt_pc s t of
     Started \<Rightarrow> map_option (\<lambda>node. lt_move t (Looping (matchIdx node) 0) s) (nodes_of (lt_st s) t)
   | _ \<Rightarrow> None)"

definition ta_send :: "ServerId \<Rightarrow> LeaderThreads \<Rightarrow> LeaderThreads option" where
  "ta_send t s = (case lt_pc s t of
     Looping old retry \<Rightarrow> map_option (\<lambda>msg. lt_move t (Calling old retry msg) s) (ta_build t (lt_st s))
   | _ \<Rightarrow> None)"

text \<open>The two points at which an interruption is seen.\<close>

definition ta_interrupted :: "ServerId \<Rightarrow> LeaderThreads \<Rightarrow> LeaderThreads option" where
  "ta_interrupted t s = (if \<not> lt_flag s t then None else (case lt_pc s t of
     Looping old retry \<Rightarrow> Some (lt_move t Ended s)
   | Calling old retry msg \<Rightarrow> Some (lt_move t Ended s)
   | _ \<Rightarrow> None))"

definition ta_failed :: "ServerId \<Rightarrow> LeaderThreads \<Rightarrow> LeaderThreads option" where
  "ta_failed t s = (case lt_pc s t of
     Calling old retry msg \<Rightarrow> Some (lt_move t (if retry + 1 > 2 then Ended else Looping old (retry + 1)) s)
   | _ \<Rightarrow> None)"

fun afterReply :: "index \<Rightarrow> nat \<Rightarrow> ta_next \<Rightarrow> append_pc" where
  "afterReply old retry TaSucceeded = Succeeded old"
| "afterReply old retry TaReturn = Ended"
| "afterReply old retry TaRetry = Looping old retry"

definition ta_replied :: "ServerId \<Rightarrow> Reply \<Rightarrow> LeaderThreads \<Rightarrow> LeaderThreads option" where
  "ta_replied t res s = (case lt_pc s t of
     Calling old retry msg \<Rightarrow> map_option (\<lambda>(nx, st'). lt_move t (afterReply old retry nx) (s\<lparr>lt_st := st'\<rparr>))
       (ta_reply t msg res (lt_st s))
   | _ \<Rightarrow> None)"

text \<open>The loop over \<open>logStates\<close>, which is locked shared from here to the end.\<close>

definition ta_lock :: "ServerId \<Rightarrow> LeaderThreads \<Rightarrow> LeaderThreads option" where
  "ta_lock t s = (case lt_pc s t of Succeeded old \<Rightarrow> Some (lt_move t (Counting (old + 1)) s) | _ \<Rightarrow> None)"

definition ta_count_one :: "ServerId \<Rightarrow> LeaderThreads \<Rightarrow> LeaderThreads option" where
  "ta_count_one t s = (case lt_pc s t of
     Counting i \<Rightarrow> Some (if i < length (logStates (snd (lt_st s)))
       then lt_move t (Counting (i + 1)) (s\<lparr>lt_st := ta_count i (lt_st s)\<rparr>) else lt_move t Applying s)
   | _ \<Rightarrow> None)"

definition ta_apply :: "ServerId \<Rightarrow> LeaderThreads \<Rightarrow> LeaderThreads option" where
  "ta_apply t s = (case lt_pc s t of
     Applying \<Rightarrow> (case lt_st s of (sv, ld) \<Rightarrow>
       map_option (\<lambda>sv'. lt_move t Ended (s\<lparr>lt_st := (sv', ld)\<rparr>)) (applyReadyEntries sv))
   | _ \<Rightarrow> None)"

section \<open>The worker of the apply queue\<close>

text \<open>It takes an entry when the application's function has returned from the one before.\<close>

abbreviation applyQueue_of :: "Server \<times> LeaderImpl \<Rightarrow> BasicLogEntry EventQueue" where
  "applyQueue_of st \<equiv> sv_applyQueue (fst st)"

definition set_applyQueue :: "BasicLogEntry EventQueue \<Rightarrow> LeaderThreads \<Rightarrow> LeaderThreads" where
  "set_applyQueue q s = s\<lparr>lt_st := ((fst (lt_st s))\<lparr>sv_applyQueue := q\<rparr>, snd (lt_st s))\<rparr>"

definition apply_take :: "LeaderThreads \<Rightarrow> LeaderThreads option" where
  "apply_take s = map_option (\<lambda>q. set_applyQueue q s) (eq_take (applyQueue_of (lt_st s)))"

definition apply_done :: "LeaderThreads \<Rightarrow> LeaderThreads option" where
  "apply_done s = (let q = applyQueue_of (lt_st s) in
     if eq_event q = None then None else Some (set_applyQueue (eq_finish q) s))"

section \<open>Requests\<close>

definition in_flight :: "append_pc \<Rightarrow> bool" where
  "in_flight pc \<longleftrightarrow> (case pc of Calling old retry msg \<Rightarrow> True | Succeeded old \<Rightarrow> True | _ \<Rightarrow> False)"

definition holds_states :: "append_pc \<Rightarrow> bool" where
  "holds_states pc \<longleftrightarrow> (case pc of Counting i \<Rightarrow> True | Applying \<Rightarrow> True | _ \<Rightarrow> False)"

text \<open>\<open>addLog\<close>: under the lock of \<open>entries\<close>, and then under that of \<open>logStates\<close>. Handlers run one at a time.\<close>

definition addLog_entry :: "bool \<Rightarrow> AddLogMessage \<Rightarrow> LeaderThreads \<Rightarrow> LeaderThreads option" where
  "addLog_entry quiet msg s = (case lt_st s of (sv, ld) \<Rightarrow> (let es = entries (sv_state sv) in
     if lt_adding s \<or> lt_leave s \<noteq> NotLeaving then None
     else if quiet \<and> (\<exists>t \<in> set (lt_peers s). in_flight (lt_pc s t)) then None
     else if (\<exists>e \<in> set (rev es). sameRequest msg e) then Some s
     else Some (s\<lparr>lt_st := (sv\<lparr>sv_state := (sv_state sv)\<lparr>entries := es @ [newEntry msg sv]\<rparr>\<rparr>, ld), lt_adding := True\<rparr>)))"

definition addLog_state :: "LeaderThreads \<Rightarrow> LeaderThreads option" where
  "addLog_state s = (case lt_st s of (sv, ld) \<Rightarrow>
     if lt_adding s \<and> (\<forall>t \<in> set (lt_peers s). \<not> holds_states (lt_pc s t))
     then Some (s\<lparr>lt_st := (sv, ld\<lparr>logStates := logStates ld @ [1]\<rparr>), lt_adding := False\<rparr>) else None)"

section \<open>Runs\<close>

datatype lt_label = Beat | BeatJoin | BeatEnd | LeaveBegin | LeaveInterrupt | LeaveJoin
  | Begin ServerId | Send ServerId | Interrupt ServerId | CallFails ServerId | CallReplies ServerId Reply
  | LockStates ServerId | CountOne ServerId | ApplyReady ServerId | TakeRequest AddLogMessage | CountRequest
  | ApplyTake | ApplyDone

fun lt_do :: "bool \<Rightarrow> lt_label \<Rightarrow> LeaderThreads \<Rightarrow> LeaderThreads option" where
  "lt_do quiet Beat s = beat_interrupt s"
| "lt_do quiet BeatJoin s = beat_join s"
| "lt_do quiet BeatEnd s = beat_end s"
| "lt_do quiet LeaveBegin s = leave_begin s"
| "lt_do quiet LeaveInterrupt s = leave_interrupt s"
| "lt_do quiet LeaveJoin s = leave_join s"
| "lt_do quiet (Begin t) s = ta_begin t s"
| "lt_do quiet (Send t) s = ta_send t s"
| "lt_do quiet (Interrupt t) s = ta_interrupted t s"
| "lt_do quiet (CallFails t) s = ta_failed t s"
| "lt_do quiet (CallReplies t res) s = ta_replied t res s"
| "lt_do quiet (LockStates t) s = ta_lock t s"
| "lt_do quiet (CountOne t) s = ta_count_one t s"
| "lt_do quiet (ApplyReady t) s = ta_apply t s"
| "lt_do quiet (TakeRequest msg) s = addLog_entry quiet msg s"
| "lt_do quiet CountRequest s = addLog_state s"
| "lt_do quiet ApplyTake s = apply_take s"
| "lt_do quiet ApplyDone s = apply_done s"

inductive lt_reach :: "bool \<Rightarrow> Server \<Rightarrow> LeaderThreads \<Rightarrow> bool" for quiet sv where
  lt_init: "lt_reach quiet sv (LeaderThreads0 sv)"
| lt_step: "lt_reach quiet sv s \<Longrightarrow> lt_do quiet l s = Some s' \<Longrightarrow> lt_reach quiet sv s'"

fun lt_run :: "bool \<Rightarrow> lt_label list \<Rightarrow> LeaderThreads \<Rightarrow> LeaderThreads option" where
  "lt_run quiet [] s = Some s"
| "lt_run quiet (l # ls) s = Option.bind (lt_do quiet l s) (lt_run quiet ls)"

lemma lt_run_reach: "lt_reach quiet sv s \<Longrightarrow> lt_run quiet ls s = Some s' \<Longrightarrow> lt_reach quiet sv s'"
  by (induction ls arbitrary: s) (auto simp: Option.bind_eq_Some_conv intro: lt_step)

text \<open>The two steps of a request are the handler.\<close>

lemma addLog_two_steps:
  assumes "addLog_entry quiet msg s = Some s1"
  shows "if lt_adding s1 then \<forall>s2. addLog_state s1 = Some s2 \<longrightarrow> lt_st s2 = snd (leader_addLog msg (lt_st s))
    else lt_st s1 = snd (leader_addLog msg (lt_st s))"
  using assms by (auto simp: addLog_entry_def addLog_state_def leader_addLog_def Let_def split: prod.splits if_splits)

section \<open>Threads, nodes and leaving\<close>

text \<open>What each step needs and does.\<close>

named_theorems lt_do_Some

lemma beat_interrupt_Some [lt_do_Some]:
  "beat_interrupt s = Some s' \<longleftrightarrow> lt_beat s = BeatIdle \<and>
     s' = s\<lparr>lt_flag := (\<lambda>t. t \<in> set (lt_peers s) \<or> lt_flag s t), lt_beat := BeatJoining (lt_peers s)\<rparr>"
  by (auto simp: beat_interrupt_def Let_def )

lemma beat_join_Some [lt_do_Some]:
  "beat_join s = Some s' \<longleftrightarrow> lt_beat s = BeatJoining [] \<and> s' = s\<lparr>lt_beat := BeatIdle\<rparr> \<or>
     (\<exists>t ts. lt_beat s = BeatJoining (t # ts) \<and> joinable_now t s \<and>
       s' = lt_move t Started (s\<lparr>lt_flag := (lt_flag s)(t := False), lt_beat := BeatJoining ts\<rparr>))"
  by (auto simp: beat_join_def Let_def split: beat_pc.splits list.splits if_splits)

lemma beat_end_Some [lt_do_Some]:
  "beat_end s = Some s' \<longleftrightarrow> lt_beat s = BeatIdle \<and> lt_leave s = LeaveStopping \<and> s' = s\<lparr>lt_beat := BeatOver\<rparr>"
  by (auto simp: beat_end_def Let_def )

lemma leave_begin_Some [lt_do_Some]:
  "leave_begin s = Some s' \<longleftrightarrow> lt_leave s = NotLeaving \<and> s' = s\<lparr>lt_leave := LeaveStopping\<rparr>"
  by (auto simp: leave_begin_def Let_def )

lemma leave_interrupt_Some [lt_do_Some]:
  "leave_interrupt s = Some s' \<longleftrightarrow> lt_leave s = LeaveStopping \<and> lt_beat s = BeatOver \<and>
     s' = s\<lparr>lt_flag := (\<lambda>t. t \<in> set (lt_peers s) \<or> lt_flag s t), lt_leave := LeaveJoining (lt_peers s)\<rparr>"
  by (auto simp: leave_interrupt_def Let_def )

lemma leave_join_Some [lt_do_Some]:
  "leave_join s = Some s' \<longleftrightarrow> lt_leave s = LeaveJoining [] \<and> eq_wait_done (applyQueue_of (lt_st s)) \<and> s' = s\<lparr>lt_st := (fst (lt_st s),
       (snd (lt_st s))\<lparr>followerNodes := (\<lambda>_. None), logStates := []\<rparr>), lt_leave := Left\<rparr> \<or>
     (\<exists>t ts. lt_leave s = LeaveJoining (t # ts) \<and> joinable_now t s \<and>
       s' = lt_move t NoThread (s\<lparr>lt_leave := LeaveJoining ts\<rparr>))"
  by (auto simp: leave_join_def Let_def split: leave_pc.splits list.splits if_splits prod.splits)

lemma ta_begin_Some [lt_do_Some]:
  "ta_begin t s = Some s' \<longleftrightarrow> (\<exists>node. lt_pc s t = Started \<and> nodes_of (lt_st s) t = Some node \<and>
     s' = lt_move t (Looping (matchIdx node) 0) s)"
  by (auto simp: ta_begin_def Let_def split: append_pc.splits)

lemma ta_send_Some [lt_do_Some]:
  "ta_send t s = Some s' \<longleftrightarrow> (\<exists>old retry msg. lt_pc s t = Looping old retry \<and> ta_build t (lt_st s) = Some msg \<and>
     s' = lt_move t (Calling old retry msg) s)"
  by (auto simp: ta_send_def Let_def split: append_pc.splits)

lemma ta_interrupted_Some [lt_do_Some]:
  "ta_interrupted t s = Some s' \<longleftrightarrow> lt_flag s t \<and>
     ((\<exists>old retry. lt_pc s t = Looping old retry) \<or> (\<exists>old retry msg. lt_pc s t = Calling old retry msg)) \<and>
     s' = lt_move t Ended s"
  by (auto simp: ta_interrupted_def Let_def split: append_pc.splits)

lemma ta_failed_Some [lt_do_Some]:
  "ta_failed t s = Some s' \<longleftrightarrow> (\<exists>old retry msg. lt_pc s t = Calling old retry msg \<and>
     s' = lt_move t (if retry + 1 > 2 then Ended else Looping old (retry + 1)) s)"
  by (auto simp: ta_failed_def Let_def split: append_pc.splits)

lemma ta_replied_Some [lt_do_Some]:
  "ta_replied t res s = Some s' \<longleftrightarrow> (\<exists>old retry msg nx st'. lt_pc s t = Calling old retry msg \<and>
     ta_reply t msg res (lt_st s) = Some (nx, st') \<and> s' = lt_move t (afterReply old retry nx) (s\<lparr>lt_st := st'\<rparr>))"
  by (auto simp: ta_replied_def Let_def split: append_pc.splits)

lemma ta_lock_Some [lt_do_Some]:
  "ta_lock t s = Some s' \<longleftrightarrow> (\<exists>old. lt_pc s t = Succeeded old \<and> s' = lt_move t (Counting (old + 1)) s)"
  by (auto simp: ta_lock_def Let_def split: append_pc.splits)

lemma ta_count_one_Some [lt_do_Some]:
  "ta_count_one t s = Some s' \<longleftrightarrow> (\<exists>i. lt_pc s t = Counting i \<and>
     s' = (if i < length (logStates (snd (lt_st s))) then lt_move t (Counting (i + 1)) (s\<lparr>lt_st := ta_count i (lt_st s)\<rparr>)
       else lt_move t Applying s))"
  by (auto simp: ta_count_one_def Let_def split: append_pc.splits)

lemma ta_apply_Some [lt_do_Some]:
  "ta_apply t s = Some s' \<longleftrightarrow> (\<exists>sv'. lt_pc s t = Applying \<and> applyReadyEntries (fst (lt_st s)) = Some sv' \<and>
     s' = lt_move t Ended (s\<lparr>lt_st := (sv', snd (lt_st s))\<rparr>))"
  by (auto simp: ta_apply_def Let_def split: append_pc.splits prod.splits)

lemma addLog_entry_Some [lt_do_Some]:
  "addLog_entry quiet m s = Some s' \<longleftrightarrow> \<not> lt_adding s \<and> lt_leave s = NotLeaving \<and>
     (quiet \<longrightarrow> (\<forall>t \<in> set (lt_peers s). \<not> in_flight (lt_pc s t))) \<and>
     s' = (if \<exists>e \<in> set (log_of (lt_st s)). sameRequest m e then s
       else s\<lparr>lt_st := ((fst (lt_st s))\<lparr>sv_state := (sv_state (fst (lt_st s)))
         \<lparr>entries := log_of (lt_st s) @ [newEntry m (fst (lt_st s))]\<rparr>\<rparr>, snd (lt_st s)), lt_adding := True\<rparr>)"
  by (auto simp: addLog_entry_def Let_def split: prod.splits)

lemma apply_take_Some [lt_do_Some]:
  "apply_take s = Some s' \<longleftrightarrow> (\<exists>q. eq_take (applyQueue_of (lt_st s)) = Some q \<and> s' = set_applyQueue q s)"
  by (auto simp: apply_take_def)

lemma apply_done_Some [lt_do_Some]:
  "apply_done s = Some s' \<longleftrightarrow> eq_event (applyQueue_of (lt_st s)) \<noteq> None \<and>
     s' = set_applyQueue (eq_finish (applyQueue_of (lt_st s))) s"
  by (auto simp: apply_done_def Let_def)

lemma waited_queue [simp]:
  "eq_wait_done q \<Longrightarrow> eq_take q = None" "eq_wait_done (eq_finish q) = eq_wait_done q"
  by (simp_all add: eq_wait_done_def eq_take_def eq_can_take_def eq_finish_def)

lemma set_applyQueue_simps [simp]:
  "lt_pc (set_applyQueue q s) = lt_pc s" "lt_flag (set_applyQueue q s) = lt_flag s"
  "lt_beat (set_applyQueue q s) = lt_beat s" "lt_leave (set_applyQueue q s) = lt_leave s"
  "lt_adding (set_applyQueue q s) = lt_adding s" "snd (lt_st (set_applyQueue q s)) = snd (lt_st s)"
  "sv_state (fst (lt_st (set_applyQueue q s))) = sv_state (fst (lt_st s))"
  "sv_info (fst (lt_st (set_applyQueue q s))) = sv_info (fst (lt_st s))"
  "applyQueue_of (lt_st (set_applyQueue q s)) = q"
  by (simp_all add: set_applyQueue_def)

lemma addLog_state_Some [lt_do_Some]:
  "addLog_state s = Some s' \<longleftrightarrow> lt_adding s \<and> (\<forall>t \<in> set (lt_peers s). \<not> holds_states (lt_pc s t)) \<and>
     s' = s\<lparr>lt_st := (fst (lt_st s), (snd (lt_st s))\<lparr>logStates := logStates (snd (lt_st s)) @ [1]\<rparr>), lt_adding := False\<rparr>"
  by (auto simp: addLog_state_def Let_def split: prod.splits if_splits)

lemma ta_reply_keeps:
  assumes "ta_reply t msg res st = Some (nx, sv', ld')"
  shows "sv_info sv' = sv_info (fst st)" "dom (followerNodes ld') = dom (nodes_of st)"
    "logStates ld' = logStates (snd st)" "entries (sv_state sv') = log_of st" "commitIdx (sv_state sv') = commit_of st"
proof -
  obtain sv ld where st: "st = (sv, ld)" by (cases st)
  from assms obtain node where "nodes_of st t = Some node" by (auto simp: st ta_reply_def Option.bind_eq_Some_conv)
  with assms consider n where "(sv', ld') = (sv, ld\<lparr>followerNodes := (followerNodes ld)(t \<mapsto> n)\<rparr>)"
    | "(sv', ld') = (sv_notify Follower (fst res) (sv\<lparr>sv_state := (sv_state sv)\<lparr>currentTerm := fst res\<rparr>\<rparr>), ld)" | "(sv', ld') = st"
    by (auto simp: st ta_reply_def Let_def split: if_splits)
  note cases = this
  show "sv_info sv' = sv_info (fst st)" "logStates ld' = logStates (snd st)"
    "entries (sv_state sv') = log_of st" "commitIdx (sv_state sv') = commit_of st"
    by (cases rule: cases; simp add: st)+
  show "dom (followerNodes ld') = dom (nodes_of st)"
    using \<open>nodes_of st t = Some node\<close> by (cases rule: cases) (auto simp: st)
qed

lemma ta_count_frame [simp]:
  "sv_info (fst (ta_count i st)) = sv_info (fst st)" "nodes_of (ta_count i st) = nodes_of st"
  "log_of (ta_count i st) = log_of st"
  by (cases st; simp add: ta_count_def Let_def)+

definition beat_ok :: "LeaderThreads \<Rightarrow> bool" where
  "beat_ok s \<longleftrightarrow> (\<forall>ts. lt_beat s = BeatJoining ts \<longrightarrow> set ts \<subseteq> set (lt_peers s))"

definition leave_ok :: "LeaderThreads \<Rightarrow> bool" where
  "leave_ok s \<longleftrightarrow>
     (\<forall>ts. lt_leave s = LeaveJoining ts \<longrightarrow> lt_beat s = BeatOver \<and> (\<forall>t. lt_pc s t \<noteq> NoThread \<longrightarrow> t \<in> set ts)) \<and>
     (lt_leave s = Left \<longrightarrow> lt_beat s = BeatOver \<and> (\<forall>t. lt_pc s t = NoThread) \<and> nodes_of (lt_st s) = (\<lambda>_. None) \<and>
        eq_wait_done (applyQueue_of (lt_st s)))"

definition lt_base :: "LeaderThreads \<Rightarrow> bool" where
  "lt_base s \<longleftrightarrow> (\<forall>t. lt_pc s t \<noteq> NoThread \<longrightarrow> t \<in> set (lt_peers s)) \<and> beat_ok s \<and> leave_ok s \<and>
     (lt_leave s \<noteq> Left \<longrightarrow> dom (nodes_of (lt_st s)) = set (lt_peers s))"

lemma lt_move_simps [simp]:
  "lt_st (lt_move t pc s) = lt_st s" "lt_flag (lt_move t pc s) = lt_flag s" "lt_beat (lt_move t pc s) = lt_beat s"
  "lt_leave (lt_move t pc s) = lt_leave s" "lt_adding (lt_move t pc s) = lt_adding s"
  "lt_pc (lt_move t pc s) t' = (if t' = t then pc else lt_pc s t')"
  by (simp_all add: lt_move_def)

lemma lt_do_info: "lt_do q l s = Some s' \<Longrightarrow> sv_info (fst (lt_st s')) = sv_info (fst (lt_st s))"
  by (cases l) (auto simp: lt_do_Some ta_reply_keeps(1) applyReadyEntries_frame)

lemma lt_base_step:
  assumes "lt_base s" "lt_do q l s = Some s'"
  shows "lt_base s'"
proof -
  note info = lt_do_info [OF assms(2)]
  have "lt_pc s' t \<noteq> NoThread \<Longrightarrow> t \<in> set (lt_peers s)" for t
    using assms by (cases l) (auto simp: lt_base_def beat_ok_def lt_do_Some split: if_splits)
  moreover have "beat_ok s'"
    using assms info by (cases l) (auto simp: lt_base_def beat_ok_def lt_do_Some split: if_splits)
  moreover have "leave_ok s'"
    using assms by (cases l) (auto simp: lt_base_def leave_ok_def lt_do_Some split: if_splits)
  moreover have "lt_leave s' \<noteq> Left \<longrightarrow> dom (nodes_of (lt_st s')) = set (lt_peers s)"
    using assms by (cases l) (auto simp: lt_base_def lt_do_Some ta_reply_keeps(2) del: equalityI split: if_splits)
  ultimately show ?thesis using info by (auto simp: lt_base_def)
qed

lemma lt_reach_base: "lt_reach q sv s \<Longrightarrow> lt_base s \<and> sv_info (fst (lt_st s)) = sv_info sv"
proof (induction rule: lt_reach.induct)
  case lt_init
  show ?case by (auto simp: lt_base_def LeaderThreads0_def beat_ok_def leave_ok_def reinit_nodes
    split: if_splits)
next
  case (lt_step s l s')
  then show ?case using lt_base_step lt_do_info by metis
qed

section \<open>Counting in every interleaving\<close>

text \<open>Whether a thread is still going to count the entry at index \<open>i\<close>.\<close>

fun owes :: "index \<Rightarrow> append_pc \<Rightarrow> bool" where
  "owes i (Succeeded old) = (old < i)"
| "owes i (Counting k) = (k \<le> i)"
| "owes i _ = False"

definition pending :: "LeaderThreads \<Rightarrow> index \<Rightarrow> ServerId set" where
  "pending s i = {t. owes i (lt_pc s t)}"

text \<open>What a thread knows of its node; \<open>len\<close> is the length of the log.\<close>

fun pc_ok :: "nat \<Rightarrow> FollowerNode \<Rightarrow> append_pc \<Rightarrow> bool" where
  "pc_ok len n (Looping old retry) = (matchIdx n = old)"
| "pc_ok len n (Calling old retry msg) = (matchIdx n = old \<and> nextIdx n + length (ae_logEntries msg) = len)"
| "pc_ok len n (Succeeded old) = (matchIdx n = len - 1)"
| "pc_ok len n (Counting k) = (1 \<le> k)"
| "pc_ok len n _ = True"

definition nodes_ok :: "LeaderThreads \<Rightarrow> bool" where
  "nodes_ok s \<longleftrightarrow> length (log_of (lt_st s)) = length (logStates (snd (lt_st s))) + (if lt_adding s then 1 else 0) \<and>
     (\<forall>t n. nodes_of (lt_st s) t = Some n \<longrightarrow> matchIdx n < length (log_of (lt_st s)) \<and> 1 \<le> nextIdx n \<and>
        nextIdx n \<le> length (log_of (lt_st s)) \<and> pc_ok (length (log_of (lt_st s))) n (lt_pc s t))"

definition counted_ok :: "LeaderThreads \<Rightarrow> bool" where
  "counted_ok s \<longleftrightarrow> (\<forall>i. 1 \<le> i \<longrightarrow> i < length (logStates (snd (lt_st s))) \<longrightarrow>
     logStates (snd (lt_st s)) ! i + card (pending s i) \<le> 1 + matched (snd (lt_st s)) i)"

definition commit_ok :: "index \<Rightarrow> LeaderThreads \<Rightarrow> bool" where
  "commit_ok c s \<longleftrightarrow> (c < commit_of (lt_st s) \<longrightarrow> commit_of (lt_st s) < length (log_of (lt_st s)) \<and>
     wins (1 + matched (snd (lt_st s)) (commit_of (lt_st s))) (sv_info (fst (lt_st s))))"

definition lt_counts :: "index \<Rightarrow> LeaderThreads \<Rightarrow> bool" where
  "lt_counts c s \<longleftrightarrow> (lt_leave s \<noteq> Left \<longrightarrow> nodes_ok s \<and> counted_ok s \<and> commit_ok c s)"

lemma nodes_okD:
  "nodes_ok s \<Longrightarrow> nodes_of (lt_st s) t = Some n \<Longrightarrow> pc_ok (length (log_of (lt_st s))) n (lt_pc s t)"
  unfolding nodes_ok_def by blast

lemma pending_finite: "lt_base s \<Longrightarrow> finite (pending s i)"
proof (rule finite_subset [of _ "set (lt_peers s)"])
  assume "lt_base s"
  moreover have "owes i pc \<Longrightarrow> pc \<noteq> NoThread" for pc by (cases pc) simp_all
  ultimately show "pending s i \<subseteq> set (lt_peers s)" by (auto simp: pending_def lt_base_def)
qed simp

lemma pending_move:
  "pending (lt_move t pc s) i = (if owes i pc then insert t (pending s i) else pending s i - {t})"
  by (auto simp: pending_def split: if_splits)

lemma pending_cong [simp]: "pending (s\<lparr>lt_st := st\<rparr>) i = pending s i" "pending (s\<lparr>lt_flag := f\<rparr>) i = pending s i"
  "pending (s\<lparr>lt_beat := b\<rparr>) i = pending s i" "pending (s\<lparr>lt_leave := l\<rparr>) i = pending s i"
  "pending (s\<lparr>lt_adding := a\<rparr>) i = pending s i"
  by (simp_all add: pending_def)

text \<open>A step that only moves a thread to a place where it owes and knows no more than before.\<close>

lemma counted_move:
  assumes "lt_base s" "counted_ok s" "\<And>i. owes i pc \<Longrightarrow> owes i (lt_pc s t)"
  shows "counted_ok (lt_move t pc s)"
proof -
  have "card (pending (lt_move t pc s) i) \<le> card (pending s i)" for i
  proof (rule card_mono [OF pending_finite [OF assms(1)]])
    show "pending (lt_move t pc s) i \<subseteq> pending s i"
      using assms(3) by (auto simp: pending_def split: if_splits)
  qed
  with assms(2) show ?thesis by (auto simp: counted_ok_def intro: order_trans [OF add_left_mono])
qed

lemma matched_mono:
  assumes "finite (dom f)" "\<And>t n. followerNodes ld t = Some n \<Longrightarrow> i \<le> matchIdx n \<Longrightarrow>
    \<exists>n'. f t = Some n' \<and> i \<le> matchIdx n'"
  shows "matched ld i \<le> matched (ld\<lparr>followerNodes := f\<rparr>) i"
  unfolding matched_def
proof (rule card_mono)
  show "finite {s. \<exists>n. followerNodes (ld\<lparr>followerNodes := f\<rparr>) s = Some n \<and> i \<le> matchIdx n}"
    by (rule finite_subset [OF _ assms(1)]) auto
qed (use assms(2) in auto)

lemma ta_reply_cases:
  assumes "ta_reply t msg res st = Some (nx, st')" "nodes_of st t = Some n"
  obtains (success) "nx = TaSucceeded" "st' = (fst st, (snd st)\<lparr>followerNodes := (nodes_of st)(t \<mapsto>
      n\<lparr>nextIdx := nextIdx n + length (ae_logEntries msg), matchIdx := nextIdx n + length (ae_logEntries msg) - 1\<rparr>)\<rparr>)"
  | (return) sv' where "nx = TaReturn" "st' = (sv', snd st)" "entries (sv_state sv') = log_of st"
      "commitIdx (sv_state sv') = commit_of st" "sv_info sv' = sv_info (fst st)"
  | (retry) "nx = TaRetry" "nextIdx n \<noteq> 1"
      "st' = (fst st, (snd st)\<lparr>followerNodes := (nodes_of st)(t \<mapsto> n\<lparr>nextIdx := nextIdx n - 1\<rparr>)\<rparr>)"
proof -
  obtain sv' ld' where st': "st' = (sv', ld')" by (cases st')
  note frame = ta_reply_keeps [OF assms(1) [unfolded st']]
  show thesis
    using assms frame that unfolding st' by (cases st) (auto simp: ta_reply_def Let_def split: if_splits)
qed

lemma counted_replied:
  assumes "lt_base s" "lt_leave s \<noteq> Left" "nodes_ok s" "counted_ok s" "commit_ok c s" "ta_replied t res s = Some s'"
  shows "nodes_ok s' \<and> counted_ok s' \<and> commit_ok c s'"
proof -
  from assms(6) obtain old retry msg nx st' where pc: "lt_pc s t = Calling old retry msg"
    and r: "ta_reply t msg res (lt_st s) = Some (nx, st')"
    and s': "s' = lt_move t (afterReply old retry nx) (s\<lparr>lt_st := st'\<rparr>)" by (auto simp: lt_do_Some)
  let ?ld = "snd (lt_st s)" and ?len = "length (log_of (lt_st s))"
  have fin: "finite (dom (followerNodes ?ld))" using assms(1,2) by (simp add: lt_base_def)
  have "t \<in> dom (followerNodes ?ld)" using assms(1,2) pc by (simp add: lt_base_def)
  then obtain n where n: "followerNodes ?ld t = Some n" by auto
  with assms(3) pc have node: "matchIdx n = old" "nextIdx n + length (ae_logEntries msg) = ?len" "old < ?len" "1 \<le> nextIdx n"
    unfolding nodes_ok_def by (metis pc_ok.simps(2))+
  from r n show ?thesis
  proof (cases rule: ta_reply_cases)
    case success
    let ?ld' = "?ld\<lparr>followerNodes := (followerNodes ?ld)(t \<mapsto> n\<lparr>nextIdx := ?len, matchIdx := ?len - 1\<rparr>)\<rparr>"
    have s1: "s' = lt_move t (Succeeded old) (s\<lparr>lt_st := (fst (lt_st s), ?ld')\<rparr>)"
      using s' success node(2) by simp
    have m: "matched ?ld' i = matched ?ld i + (if old < i \<and> i \<le> ?len - 1 then 1 else 0)" for i
      using matched_update [OF fin n, of "?len - 1" ?len i] node by simp
    have "t \<notin> pending s i" for i using pc by (simp add: pending_def)
    then have p: "card (pending s' i) = card (pending s i) + (if old < i then 1 else 0)" for i
      using pending_finite [OF assms(1), of i] by (simp add: s1 pending_move)
    have "nodes_ok s'" using assms(3) node by (auto simp: nodes_ok_def s1)
    moreover have "counted_ok s'"
      using assms(3,4) m p by (auto simp: counted_ok_def nodes_ok_def s1)
    moreover have "commit_ok c s'" using assms(5) m by (auto simp: commit_ok_def s1 wins_def)
    ultimately show ?thesis by blast
  next
    case (return sv')
    then have "nodes_ok s'" "commit_ok c s'" using assms(3,5) by (auto simp: nodes_ok_def commit_ok_def s')
    moreover have "counted_ok s'"
      using counted_move [OF assms(1,4), of Ended t] return by (simp add: counted_ok_def pending_move s')
    ultimately show ?thesis by blast
  next
    case retry
    have m: "matched (?ld\<lparr>followerNodes := (followerNodes ?ld)(t \<mapsto> n\<lparr>nextIdx := k\<rparr>)\<rparr>) i = matched ?ld i" for i k
      using matched_update [OF fin n, of "matchIdx n" k i] by simp
    have "Suc 0 \<le> nextIdx n - Suc 0" using retry(2) node(4) by simp
    then have "nodes_ok s'" using assms(3) node n by (auto simp: nodes_ok_def s' retry(1,3))
    moreover have "counted_ok s'"
      using counted_move [OF assms(1,4), of "Looping old retry" t] m by (simp add: counted_ok_def pending_move s' retry(1,3))
    moreover have "commit_ok c s'" using assms(5) m by (simp add: commit_ok_def s' retry(1,3))
    ultimately show ?thesis by blast
  qed
qed

lemma counted_one:
  assumes "lt_base s" "lt_leave s \<noteq> Left" "nodes_ok s" "counted_ok s" "commit_ok c s" "ta_count_one t s = Some s'"
  shows "nodes_ok s' \<and> counted_ok s' \<and> commit_ok c s'"
proof -
  let ?ld = "snd (lt_st s)"
  let ?ls = "logStates ?ld"
  from assms(6) obtain k where pc: "lt_pc s t = Counting k" by (auto simp: lt_do_Some)
  have "t \<in> dom (followerNodes ?ld)" using assms(1,2) pc by (simp add: lt_base_def)
  then have "1 \<le> k" using assms(3) pc by (force simp: nodes_ok_def)
  show ?thesis
  proof (cases "k < length ?ls")
    case False
    with assms(6) pc have s': "s' = lt_move t Applying s" by (auto simp: lt_do_Some)
    have "length (logStates (snd (lt_st s'))) = length ?ls" by (simp add: s')
    moreover have "card (pending s' i) \<le> card (pending s i)" for i
      using pending_finite [OF assms(1), of i] by (auto simp: s' pending_move intro: card_mono)
    ultimately show ?thesis using assms(3-5) by (auto simp: s' nodes_ok_def counted_ok_def commit_ok_def intro: order_trans [OF add_left_mono])
  next
    case True
    with assms(6) pc have s': "s' = lt_move t (Counting (k + 1)) (s\<lparr>lt_st := ta_count k (lt_st s)\<rparr>)"
      by (auto simp: lt_do_Some)
    have fin: "finite (pending s i)" for i by (rule pending_finite [OF assms(1)])
    have mem: "t \<in> pending s i \<longleftrightarrow> k \<le> i" for i using pc by (simp add: pending_def)
    have p: "card (pending s' i) = card (pending s i) - (if i = k then 1 else 0)" for i
      using mem [of i] fin [of i] by (auto simp: s' pending_move insert_absorb card_Diff_singleton_if)
    have pos: "1 \<le> card (pending s k)" using mem [of k] fin [of k] by (auto simp: Suc_le_eq card_gt_0_iff)
    have ls: "logStates (snd (lt_st s')) = ?ls[k := ?ls ! k + 1]" "nodes_of (lt_st s') = nodes_of (lt_st s)"
      by (cases "lt_st s"; simp add: s' ta_count_def Let_def)+
    then have m: "matched (snd (lt_st s')) i = matched ?ld i" for i by (simp add: matched_def)
    have n1: "nodes_ok s'"
      using assms(3) ls pc by (auto simp: nodes_ok_def s')
    have "counted_ok s'"
      unfolding counted_ok_def
    proof (intro allI impI)
      fix i assume i: "1 \<le> i" "i < length (logStates (snd (lt_st s')))"
      then have "?ls ! i + card (pending s i) \<le> 1 + matched ?ld i" using assms(4) ls by (simp add: counted_ok_def)
      then show "logStates (snd (lt_st s')) ! i + card (pending s' i) \<le> 1 + matched (snd (lt_st s')) i"
        using p [of i] pos m i ls by (auto simp: nth_list_update)
    qed
    moreover have "commit_ok c s'"
    proof -
      have "?ls ! k + card (pending s k) \<le> 1 + matched ?ld k"
        using assms(4) \<open>1 \<le> k\<close> True by (simp add: counted_ok_def)
      then have "?ls ! k + 1 \<le> 1 + matched ?ld k" using pos by linarith
      moreover have "commit_of (lt_st s') = (if ?ls ! k + 1 > length (srvList (sv_info (fst (lt_st s)))) div 2
          then max (commit_of (lt_st s)) k else commit_of (lt_st s))"
        by (cases "lt_st s") (simp add: s' ta_count_def Let_def)
      moreover have "k < length (log_of (lt_st s))" using True assms(3) by (simp add: nodes_ok_def)
      ultimately show ?thesis
        using assms(5) m by (auto simp: commit_ok_def s' wins_def max_def split: if_splits)
    qed
    ultimately show ?thesis using n1 by blast
  qed
qed

lemma counted_request:
  assumes "lt_base s" "lt_leave s \<noteq> Left" "nodes_ok s" "counted_ok s" "commit_ok c s" "addLog_state s = Some s'"
  shows "nodes_ok s' \<and> counted_ok s' \<and> commit_ok c s'"
proof -
  let ?ld = "snd (lt_st s)" and ?L = "length (logStates (snd (lt_st s)))"
  from assms(6) have s': "s' = s\<lparr>lt_st := (fst (lt_st s), ?ld\<lparr>logStates := logStates ?ld @ [1]\<rparr>), lt_adding := False\<rparr>"
    and add: "lt_adding s" and free: "\<And>t. t \<in> set (lt_peers s) \<Longrightarrow> \<not> holds_states (lt_pc s t)"
    by (auto simp: lt_do_Some)
  from assms(3) add have len: "length (log_of (lt_st s)) = ?L + 1" by (simp add: nodes_ok_def)
  have m: "matched (snd (lt_st s')) i = matched ?ld i" for i by (simp add: s' matched_def)
  have "finite (dom (followerNodes ?ld))" using assms(1,2) by (simp add: lt_base_def)
  then have "finite {t. \<exists>n. followerNodes ?ld t = Some n \<and> ?L \<le> matchIdx n}" by (rule rev_finite_subset) auto
  moreover have "pending s ?L \<subseteq> {t. \<exists>n. followerNodes ?ld t = Some n \<and> ?L \<le> matchIdx n}"
  proof
    fix t assume "t \<in> pending s ?L"
    then have owes: "owes ?L (lt_pc s t)" by (simp add: pending_def)
    then have "t \<in> set (lt_peers s)" using assms(1) by (cases "lt_pc s t") (auto simp: lt_base_def)
    then obtain n where n: "followerNodes ?ld t = Some n" using assms(1,2) by (auto simp: lt_base_def)
    obtain old where "lt_pc s t = Succeeded old"
      using owes free [OF \<open>t \<in> set (lt_peers s)\<close>] by (cases "lt_pc s t") (auto simp: holds_states_def)
    then have "matchIdx n = ?L" using nodes_okD [OF assms(3) n] len by simp
    with n show "t \<in> {t. \<exists>n. followerNodes ?ld t = Some n \<and> ?L \<le> matchIdx n}" by simp
  qed
  ultimately have "card (pending s ?L) \<le> matched ?ld ?L" unfolding matched_def by (rule card_mono)
  then have "counted_ok s'"
    using assms(4) m by (auto simp: counted_ok_def s' nth_append less_Suc_eq)
  moreover have "nodes_ok s'" using assms(3) add by (auto simp: nodes_ok_def s')
  moreover have "commit_ok c s'" using assms(5) m by (simp add: commit_ok_def s')
  ultimately show ?thesis by blast
qed

text \<open>The steps that leave the bookkeeping of the leader alone.\<close>

lemma counted_still:
  assumes "lt_base s" "nodes_ok s" "counted_ok s" "commit_ok c s" "lt_st s' = lt_st s" "lt_adding s' = lt_adding s"
    and "\<And>t i. owes i (lt_pc s' t) \<Longrightarrow> owes i (lt_pc s t)"
    and "\<And>t n. nodes_of (lt_st s) t = Some n \<Longrightarrow> pc_ok (length (log_of (lt_st s))) n (lt_pc s t) \<Longrightarrow>
      pc_ok (length (log_of (lt_st s))) n (lt_pc s' t)"
  shows "nodes_ok s' \<and> counted_ok s' \<and> commit_ok c s'"
proof -
  have fewer: "card (pending s' i) \<le> card (pending s i)" for i
    by (rule card_mono [OF pending_finite [OF assms(1)]]) (auto simp: pending_def dest: assms(7))
  have "counted_ok s'"
    unfolding counted_ok_def assms(5)
  proof (intro allI impI)
    fix i assume "1 \<le> i" "i < length (logStates (snd (lt_st s)))"
    with assms(3) have "logStates (snd (lt_st s)) ! i + card (pending s i) \<le> 1 + matched (snd (lt_st s)) i"
      by (simp add: counted_ok_def)
    with fewer [of i] show "logStates (snd (lt_st s)) ! i + card (pending s' i) \<le> 1 + matched (snd (lt_st s)) i"
      by linarith
  qed
  moreover have "nodes_ok s'" using assms(2,8) by (auto simp: nodes_ok_def assms(5,6))
  moreover have "commit_ok c s'" using assms(4) by (simp add: commit_ok_def assms(5))
  ultimately show ?thesis by blast
qed

lemma counted_send:
  assumes "lt_base s" "nodes_ok s" "counted_ok s" "commit_ok c s" "ta_send t s = Some s'"
  shows "nodes_ok s' \<and> counted_ok s' \<and> commit_ok c s'"
proof -
  from assms(5) obtain old retry msg where pc: "lt_pc s t = Looping old retry" and b: "ta_build t (lt_st s) = Some msg"
    and s': "s' = lt_move t (Calling old retry msg) s" by (auto simp: lt_do_Some)
  have "nextIdx n + length (ae_logEntries msg) = length (log_of (lt_st s))" if "nodes_of (lt_st s) t = Some n" for n
    using ta_build_Some [of t "fst (lt_st s)" "snd (lt_st s)" msg n] that b by simp
  with pc show ?thesis
    by (intro counted_still [OF assms(1-4)]) (auto simp: s' split: if_splits)
qed

lemma counted_apply:
  assumes "lt_base s" "nodes_ok s" "counted_ok s" "commit_ok c s" "ta_apply t s = Some s'"
  shows "nodes_ok s' \<and> counted_ok s' \<and> commit_ok c s'"
proof -
  from assms(5) obtain sv' where pc: "lt_pc s t = Applying" and a: "applyReadyEntries (fst (lt_st s)) = Some sv'"
    and s': "s' = lt_move t Ended (s\<lparr>lt_st := (sv', snd (lt_st s))\<rparr>)" by (auto simp: lt_do_Some)
  have "nodes_ok (lt_move t Ended s) \<and> counted_ok (lt_move t Ended s) \<and> commit_ok c (lt_move t Ended s)"
    by (intro counted_still [OF assms(1-4)]) (auto split: if_splits)
  moreover have "nodes_ok s' = nodes_ok (lt_move t Ended s)" "counted_ok s' = counted_ok (lt_move t Ended s)"
    "commit_ok c s' = commit_ok c (lt_move t Ended s)"
    by (simp_all add: s' nodes_ok_def counted_ok_def commit_ok_def pending_move applyReadyEntries_frame [OF a])
  ultimately show ?thesis by simp
qed

lemma counted_queue:
  assumes "nodes_ok s" "counted_ok s" "commit_ok c s" "s' = set_applyQueue q s"
  shows "nodes_ok s' \<and> counted_ok s' \<and> commit_ok c s'"
proof -
  have "nodes_ok s' = nodes_ok s" by (simp add: nodes_ok_def assms(4))
  moreover have "counted_ok s' = counted_ok s" by (simp add: counted_ok_def pending_def assms(4))
  moreover have "commit_ok c s' = commit_ok c s" by (simp add: commit_ok_def assms(4))
  ultimately show ?thesis using assms(1-3) by simp
qed

lemma counted_entry:
  assumes "lt_base s" "nodes_ok s" "counted_ok s" "commit_ok c s" "addLog_entry True m s = Some s'"
  shows "nodes_ok s' \<and> counted_ok s' \<and> commit_ok c s'"
proof (cases "s' = s")
  case False
  let ?es = "log_of (lt_st s)"
  from assms(5) False have s': "s' = s\<lparr>lt_st := ((fst (lt_st s))\<lparr>sv_state := (sv_state (fst (lt_st s)))
         \<lparr>entries := ?es @ [newEntry m (fst (lt_st s))]\<rparr>\<rparr>, snd (lt_st s)), lt_adding := True\<rparr>"
    and add: "\<not> lt_adding s" and quiet: "\<And>t. t \<in> set (lt_peers s) \<Longrightarrow> \<not> in_flight (lt_pc s t)"
    by (auto simp: lt_do_Some split: if_splits)
  have "lt_leave s \<noteq> Left" using assms(5) by (auto simp: lt_do_Some)
  have "pc_ok (length ?es + 1) n (lt_pc s t)" if "nodes_of (lt_st s) t = Some n" for t n
  proof -
    have "t \<in> set (lt_peers s)" using assms(1) that \<open>lt_leave s \<noteq> Left\<close> by (auto simp: lt_base_def)
    moreover have "pc_ok (length ?es) n (lt_pc s t)" using assms(2) that unfolding nodes_ok_def by blast
    ultimately show ?thesis using quiet [of t] by (cases "lt_pc s t") (auto simp: in_flight_def)
  qed
  then have "nodes_ok s'" using assms(2) add unfolding nodes_ok_def s' by (fastforce intro: le_SucI)
  moreover have "counted_ok s'" using assms(3) by (simp add: counted_ok_def s')
  moreover have "commit_ok c s'" using assms(4) by (auto simp: commit_ok_def s')
  ultimately show ?thesis by blast
qed (use assms in simp)

lemma lt_counts_step:
  assumes "lt_base s" "lt_counts c s" "lt_do True l s = Some s'"
  shows "lt_counts c s'"
proof (cases "lt_leave s' = Left")
  case False
  with assms(3) have leave: "lt_leave s \<noteq> Left"
    by (cases l) (auto simp: lt_do_Some split: if_splits)
  with assms(2) have ok: "nodes_ok s" "counted_ok s" "commit_ok c s" by (simp_all add: lt_counts_def)
  note still = counted_still [OF assms(1) ok]
  have "nodes_ok s' \<and> counted_ok s' \<and> commit_ok c s'"
  proof (cases l)
    case (CallReplies t res)
    then show ?thesis using counted_replied [OF assms(1) leave ok] assms(3) by simp
  next
    case (CountOne t)
    then show ?thesis using counted_one [OF assms(1) leave ok] assms(3) by simp
  next
    case CountRequest
    then show ?thesis using counted_request [OF assms(1) leave ok] assms(3) by simp
  next
    case (TakeRequest m)
    then show ?thesis using counted_entry [OF assms(1) ok] assms(3) by simp
  next
    case (Send t)
    then show ?thesis using counted_send [OF assms(1) ok] assms(3) by simp
  next
    case (ApplyReady t)
    then show ?thesis using counted_apply [OF assms(1) ok] assms(3) by simp
  next
    case LeaveJoin
    with assms(3) False obtain t ts where "s' = lt_move t NoThread (s\<lparr>lt_leave := LeaveJoining ts\<rparr>)"
      by (auto simp: lt_do_Some)
    then show ?thesis by (intro still) (auto split: if_splits)
  next
    case ApplyTake
    with assms(3) obtain q where "s' = set_applyQueue q s" by (auto simp: lt_do_Some)
    then show ?thesis by (rule counted_queue [OF ok])
  next
    case ApplyDone
    with assms(3) obtain q where "s' = set_applyQueue q s" by (auto simp: lt_do_Some)
    then show ?thesis by (rule counted_queue [OF ok])
  next
    case BeatJoin
    with assms(3) show ?thesis by (intro still) (auto simp: lt_do_Some split: if_splits)
  qed (use assms(3) in \<open>intro still; auto simp: lt_do_Some split: if_splits\<close>)+
  then show ?thesis by (simp add: lt_counts_def)
qed (simp add: lt_counts_def)

lemma lt_counts_init:
  assumes "sv_ok sv"
  shows "lt_counts (commitIdx (sv_state sv)) (LeaderThreads0 sv)"
proof -
  let ?st = "reinitStates (sv, LeaderImpl0)"
  have "entries (sv_state sv) \<noteq> []" using assms by (simp add: sv_ok_def)
  then have "nodes_ok (LeaderThreads0 sv)"
    by (auto simp: nodes_ok_def LeaderThreads0_def reinit_nodes FollowerNode0_def Suc_le_eq split: if_splits)
  moreover have "counted_ok (LeaderThreads0 sv)"
    by (simp add: counted_ok_def LeaderThreads0_def pending_def)
  ultimately show ?thesis by (simp add: lt_counts_def commit_ok_def LeaderThreads0_def)
qed

lemma lt_reach_counts:
  "lt_reach True sv s \<Longrightarrow> sv_ok sv \<Longrightarrow> lt_counts (commitIdx (sv_state sv)) s"
proof (induction rule: lt_reach.induct)
  case (lt_step s l s')
  from lt_reach_base [OF lt_step.hyps(1)] lt_step.IH lt_step.prems lt_step.hyps(2) show ?case
    using lt_counts_step by blast
qed (rule lt_counts_init)

text \<open>
  C7. The leader commits only what a majority holds, in every interleaving of its threads: as long
  as no request is logged while a call is in flight or its success not yet counted, a commit
  index that is past that of the start of the leadership is the index of an entry that the
  leader and its matching followers, together more than half of the servers, all hold.
\<close>

theorem threads_commit_majority:
  assumes "sv_ok sv" "lt_reach True sv s" "lt_leave s \<noteq> Left" "commitIdx (sv_state sv) < commit_of (lt_st s)"
  shows "wins (1 + matched (snd (lt_st s)) (commit_of (lt_st s))) (sv_info sv) \<and>
    commit_of (lt_st s) < length (log_of (lt_st s))"
  using lt_reach_counts [OF assms(2,1)] lt_reach_base [OF assms(2)] assms(3,4)
  by (simp add: lt_counts_def commit_ok_def)

definition sample_round :: "lt_label list" where
  "sample_round = [Beat, BeatJoin, BeatJoin, BeatJoin, Begin (sample_id ''b''), Send (sample_id ''b''),
     CallReplies (sample_id ''b'') (1, True), LockStates (sample_id ''b''), CountOne (sample_id ''b''),
     CountOne (sample_id ''b''), CountOne (sample_id ''b''), ApplyReady (sample_id ''b'')]"

lemma sample_round:
  "case lt_run True sample_round (LeaderThreads0 sample_server) of None \<Rightarrow> False
   | Some s \<Rightarrow> commit_of (lt_st s) = 2 \<and> lt_leave s = NotLeaving"
  by code_simp

theorem threads_commit_majority_witness:
  "\<exists>s. lt_reach True sample_server s \<and> commit_of (lt_st s) = 2 \<and> wins (1 + matched (snd (lt_st s)) 2) (sv_info sample_server)"
proof -
  obtain s where s: "lt_run True sample_round (LeaderThreads0 sample_server) = Some s" "commit_of (lt_st s) = 2"
    "lt_leave s = NotLeaving" using sample_round by (auto split: option.splits)
  have reach: "lt_reach True sample_server s" by (rule lt_run_reach [OF lt_init s(1)])
  from threads_commit_majority [OF sample_server_ok reach] s(2,3) show ?thesis
    using reach by (auto simp: sample_server_def)
qed

text \<open>
  When \<open>leave\<close> has returned, the heart beat is over, no thread of the leader is left, the apply
  queue is empty, and only the end of a request or of a call of the application's function that
  was under way can still change anything; and before, a thread that has
  started and not ended always finds the node of its follower.
\<close>

theorem leave_quiet:
  assumes "lt_reach quiet sv s"
  shows "(lt_leave s = Left \<longrightarrow> lt_beat s = BeatOver \<and> (\<forall>t. lt_pc s t = NoThread) \<and>
      eq_wait_done (applyQueue_of (lt_st s)) \<and>
      (\<forall>l. l \<noteq> CountRequest \<and> l \<noteq> ApplyDone \<longrightarrow> lt_do quiet l s = None)) \<and>
    (\<forall>t. lt_pc s t \<noteq> NoThread \<longrightarrow> nodes_of (lt_st s) t \<noteq> None)"
proof -
  from lt_reach_base [OF assms] have base: "lt_base s" by blast
  have "lt_beat s = BeatOver \<and> (\<forall>t. lt_pc s t = NoThread) \<and> eq_wait_done (applyQueue_of (lt_st s)) \<and>
    (\<forall>l. l \<noteq> CountRequest \<and> l \<noteq> ApplyDone \<longrightarrow> lt_do quiet l s = None)"
    if left: "lt_leave s = Left"
  proof -
    from base left have over: "lt_beat s = BeatOver" "\<And>t. lt_pc s t = NoThread" "eq_wait_done (applyQueue_of (lt_st s))" by (auto simp: lt_base_def leave_ok_def)
    have "lt_do quiet l s = None" if "l \<noteq> CountRequest" "l \<noteq> ApplyDone" for l
    proof (cases "lt_do quiet l s")
      case (Some s')
      with left over that show ?thesis
        by (cases l) (auto simp: lt_do_Some)
    qed
    with over show ?thesis by blast
  qed
  moreover have "nodes_of (lt_st s) t \<noteq> None" if "lt_pc s t \<noteq> NoThread" for t
    using base that by (cases "lt_leave s = Left") (auto simp: lt_base_def leave_ok_def)
  ultimately show ?thesis by blast
qed

theorem leave_quiet_witness:
  "case lt_run False [LeaveBegin, BeatEnd, LeaveInterrupt, LeaveJoin, LeaveJoin, LeaveJoin] (LeaderThreads0 sample_server) of
     None \<Rightarrow> False | Some s \<Rightarrow> lt_do False (Begin (sample_id ''b'')) s = None"
proof -
  have "case lt_run False [LeaveBegin, BeatEnd, LeaveInterrupt, LeaveJoin, LeaveJoin, LeaveJoin] (LeaderThreads0 sample_server) of
     None \<Rightarrow> False | Some s \<Rightarrow> lt_leave s = Left" by code_simp
  then obtain s where s: "lt_run False [LeaveBegin, BeatEnd, LeaveInterrupt, LeaveJoin, LeaveJoin, LeaveJoin]
      (LeaderThreads0 sample_server) = Some s" "lt_leave s = Left" by (auto split: option.splits)
  from leave_quiet [OF lt_run_reach [OF lt_init s(1)]] s show ?thesis by auto
qed

section \<open>Leaving can always be completed\<close>

text \<open>
  The steps that need neither an answer of the network nor a new request or beat: those of the
  leader's own threads and of the worker of the apply queue.
\<close>

fun own :: "lt_label \<Rightarrow> bool" where
  "own (CallReplies t res) = False"
| "own (CallFails t) = False"
| "own (TakeRequest m) = False"
| "own (Send t) = False"
| "own Beat = False"
| "own _ = True"

definition own_step :: "bool \<Rightarrow> LeaderThreads \<Rightarrow> LeaderThreads \<Rightarrow> bool" where
  "own_step q s s' \<longleftrightarrow> (\<exists>l. own l \<and> lt_do q l s = Some s')"

lemma own_stepI: "lt_do q l s = Some s' \<Longrightarrow> own l \<Longrightarrow> (own_step q)\<^sup>*\<^sup>* s s'"
  by (rule r_into_rtranclp) (auto simp: own_step_def)

lemma own_reach: "(own_step q)\<^sup>*\<^sup>* s s' \<Longrightarrow> lt_reach q sv s \<Longrightarrow> lt_reach q sv s'"
  by (induction rule: rtranclp_induct) (auto simp: own_step_def intro: lt_step)

text \<open>Nobody pauses or stops the apply queue, so that its worker stays alive.\<close>

definition worker_lives :: "BasicLogEntry EventQueue \<Rightarrow> bool" where
  "worker_lives q \<longleftrightarrow> eq_thread q = Executing \<and> \<not> eq_paused q"

lemma worker_lives_turn:
  "worker_lives (eq_finish q) = worker_lives q" "eq_take q = Some p \<Longrightarrow> worker_lives p = worker_lives q"
  by (auto simp: worker_lives_def eq_finish_def eq_take_def split: if_splits)

lemma worker_lives_add: "worker_lives (fold addEvent es q) = worker_lives q"
  by (induction es arbitrary: q) (simp_all add: worker_lives_def addEvent_def Let_def)

lemma worker_lives_apply:
  "applyReadyEntries sv = Some sv' \<Longrightarrow> worker_lives (sv_applyQueue sv') = worker_lives (sv_applyQueue sv)"
  by (auto simp: applyReadyEntries_def sv_apply_def Let_def worker_lives_add split: if_splits)

lemma ta_reply_applyQueue:
  assumes "ta_reply t msg res st = Some (nx, sv', ld')"
  shows "sv_applyQueue sv' = applyQueue_of st"
proof -
  obtain sv ld where st: "st = (sv, ld)" by (cases st)
  from assms obtain node where "nodes_of st t = Some node" by (auto simp: st ta_reply_def Option.bind_eq_Some_conv)
  with assms show ?thesis by (auto simp: st ta_reply_def Let_def split: if_splits)
qed

lemma ta_count_applyQueue [simp]: "applyQueue_of (ta_count i st) = applyQueue_of st"
  by (cases st) (simp add: ta_count_def Let_def)

lemma worker_lives_step:
  assumes "worker_lives (applyQueue_of (lt_st s))" "lt_do q l s = Some s'"
  shows "worker_lives (applyQueue_of (lt_st s'))"
  using assms by (cases l) (auto simp: lt_do_Some worker_lives_apply ta_reply_applyQueue worker_lives_turn
      split: if_splits)

lemma worker_lives_reach:
  "lt_reach q sv s \<Longrightarrow> worker_lives (sv_applyQueue sv) \<Longrightarrow> worker_lives (applyQueue_of (lt_st s))"
  by (induction rule: lt_reach.induct)
    (auto simp: LeaderThreads0_def reinitStates_def intro: worker_lives_step)

text \<open>Whoever is waited for has been interrupted, and applying never fails.\<close>

definition lt_live :: "LeaderThreads \<Rightarrow> bool" where
  "lt_live s \<longleftrightarrow> distinct (lt_peers s) \<and>
     (\<forall>ts. lt_beat s = BeatJoining ts \<longrightarrow> distinct ts \<and> (\<forall>t \<in> set ts. lt_flag s t)) \<and>
     (\<forall>ts. lt_leave s = LeaveJoining ts \<longrightarrow> set ts \<subseteq> set (lt_peers s) \<and> (\<forall>t \<in> set ts. lt_flag s t)) \<and>
     (lt_leave s \<noteq> Left \<longrightarrow> length (logStates (snd (lt_st s))) + (if lt_adding s then 1 else 0) \<le>
        length (log_of (lt_st s))) \<and>
     apply_defined (sv_state (fst (lt_st s)))"

lemma ta_reply_apply_defined:
  assumes "ta_reply t msg res st = Some (nx, sv', ld')"
  shows "apply_defined (sv_state sv') = apply_defined (sv_state (fst st))"
proof -
  obtain sv ld where st: "st = (sv, ld)" by (cases st)
  from assms obtain node where "nodes_of st t = Some node" by (auto simp: st ta_reply_def Option.bind_eq_Some_conv)
  with assms have "sv' = sv \<or> sv' = sv_notify Follower (fst res) (sv\<lparr>sv_state := (sv_state sv)\<lparr>currentTerm := fst res\<rparr>\<rparr>)"
    by (auto simp: st ta_reply_def Let_def split: if_splits)
  then show ?thesis by (auto simp: st apply_defined_def)
qed

lemma ta_count_apply_defined:
  assumes "apply_defined (sv_state (fst st))" "k < length (log_of st)"
  shows "apply_defined (sv_state (fst (ta_count k st)))"
  using assms by (cases st) (auto simp: ta_count_def Let_def apply_defined_def max_def)

lemma applyReadyEntries_apply_defined:
  "applyReadyEntries sv = Some sv' \<Longrightarrow> apply_defined (sv_state sv')"
  by (auto simp: applyReadyEntries_def Let_def apply_defined_def split: if_splits)

lemma lt_live_step:
  assumes "lt_base s" "lt_live s" "lt_do q l s = Some s'"
  shows "lt_live s'"
proof -
  note info = lt_do_info [OF assms(3)]
  have "\<forall>ts. lt_beat s' = BeatJoining ts \<longrightarrow> distinct ts \<and> (\<forall>t \<in> set ts. lt_flag s' t)"
    using assms(2,3) by (cases l) (auto simp: lt_live_def lt_do_Some split: if_splits)
  moreover have "\<forall>ts. lt_leave s' = LeaveJoining ts \<longrightarrow> set ts \<subseteq> set (lt_peers s) \<and> (\<forall>t \<in> set ts. lt_flag s' t)"
    using assms by (cases l) (auto simp: lt_live_def lt_base_def leave_ok_def lt_do_Some split: if_splits)
  moreover have "lt_leave s' \<noteq> Left \<longrightarrow> length (logStates (snd (lt_st s'))) + (if lt_adding s' then 1 else 0) \<le>
        length (log_of (lt_st s'))"
    using assms(2,3)
    by (cases l) (auto simp: lt_live_def lt_do_Some ta_reply_keeps(3,4) applyReadyEntries_frame ta_count_def Let_def
        split: if_splits prod.splits)
  moreover have "apply_defined (sv_state (fst (lt_st s')))"
  proof (cases l)
    case (CountOne t)
    then obtain k where k: "lt_pc s t = Counting k" using assms(3) by (auto simp: lt_do_Some)
    with assms(1) have "lt_leave s \<noteq> Left" by (auto simp: lt_base_def leave_ok_def)
    with assms(2) have "k < length (log_of (lt_st s))" if "k < length (logStates (snd (lt_st s)))"
      using that by (simp add: lt_live_def)
    with CountOne k assms(2,3) show ?thesis
      by (auto simp: lt_live_def lt_do_Some ta_count_apply_defined)
  next
    case (CallReplies t res)
    with assms(2,3) show ?thesis by (auto simp: lt_live_def lt_do_Some ta_reply_apply_defined)
  next
    case (ApplyReady t)
    with assms(2,3) show ?thesis by (auto simp: lt_live_def lt_do_Some applyReadyEntries_apply_defined)
  next
    case (TakeRequest m)
    with assms(2,3) show ?thesis by (auto simp: lt_live_def lt_do_Some apply_defined_def)
  qed (use assms(2,3) in \<open>auto simp: lt_live_def lt_do_Some\<close>)
  ultimately show ?thesis using info assms(2) by (simp add: lt_live_def)
qed

lemma lt_reach_live:
  "lt_reach q sv s \<Longrightarrow> sv_ok sv \<Longrightarrow> distinct (srvList (sv_info sv)) \<Longrightarrow> lt_live s"
proof (induction rule: lt_reach.induct)
  case lt_init
  then show ?case by (simp add: lt_live_def LeaderThreads0_def peers_def sv_ok_defined)
next
  case (lt_step s l s')
  then show ?case using lt_reach_base lt_live_step by blast
qed

text \<open>A thread that has been interrupted comes to its end; the rest stays as it is.\<close>

definition same_main :: "LeaderThreads \<Rightarrow> LeaderThreads \<Rightarrow> bool" where
  "same_main s s' \<longleftrightarrow> lt_beat s' = lt_beat s \<and> lt_leave s' = lt_leave s"

lemma counting_ends:
  assumes "lt_pc s t = Counting k"
  shows "\<exists>s'. (own_step q)\<^sup>*\<^sup>* s s' \<and> lt_pc s' t = Applying \<and> same_main s s'"
  using assms
proof (induction "length (logStates (snd (lt_st s))) - k" arbitrary: s k)
  case 0
  then have "lt_do q (CountOne t) s = Some (lt_move t Applying s)" by (simp add: ta_count_one_def)
  from own_stepI [OF this] show ?case by (fastforce simp: same_main_def)
next
  case (Suc n)
  let ?s = "lt_move t (Counting (k + 1)) (s\<lparr>lt_st := ta_count k (lt_st s)\<rparr>)"
  have step: "lt_do q (CountOne t) s = Some ?s" using Suc by (simp add: ta_count_one_def)
  have "length (logStates (snd (ta_count k (lt_st s)))) = length (logStates (snd (lt_st s)))"
    by (cases "lt_st s") (simp add: ta_count_def Let_def)
  then have "n = length (logStates (snd (lt_st ?s))) - (k + 1)" using Suc.hyps(2) by simp
  then obtain s' where "(own_step q)\<^sup>*\<^sup>* ?s s'" "lt_pc s' t = Applying" "same_main ?s s'"
    using Suc.hyps(1) [of ?s "k + 1"] by auto
  with own_stepI [OF step] show ?case by (auto simp: same_main_def intro: rtranclp_trans)
qed

lemma applying_ends:
  assumes "lt_pc s t = Applying" "lt_live s"
  shows "\<exists>s'. (own_step q)\<^sup>*\<^sup>* s s' \<and> lt_pc s' t = Ended \<and> same_main s s'"
proof -
  obtain sv' where "applyReadyEntries (fst (lt_st s)) = Some sv'"
    using assms(2) applyReadyEntries_alt by (auto simp: lt_live_def)
  then have "lt_do q (ApplyReady t) s = Some (lt_move t Ended (s\<lparr>lt_st := (sv', snd (lt_st s))\<rparr>))"
    using assms(1) by (simp add: lt_do_Some)
  from own_stepI [OF this] show ?thesis by (fastforce simp: same_main_def)
qed

lemma thread_ends:
  assumes reach: "lt_reach q sv s" and sv: "sv_ok sv" "distinct (srvList (sv_info sv))" and "lt_flag s t"
  shows "\<exists>s'. (own_step q)\<^sup>*\<^sup>* s s' \<and> joinable_now t s' \<and> same_main s s'"
proof -
  have interrupt: "\<exists>s'. (own_step q)\<^sup>*\<^sup>* u s' \<and> joinable_now t s' \<and> same_main u s'"
    if "lt_do q (Interrupt t) u = Some (lt_move t Ended u)" for u
    using own_stepI [OF that] by (fastforce simp: joinable_now_def same_main_def)
  have counting: "\<exists>s'. (own_step q)\<^sup>*\<^sup>* u s' \<and> joinable_now t s' \<and> same_main u s'"
    if u: "lt_reach q sv u" "lt_pc u t = Counting k" for u k
  proof -
    obtain v where v: "(own_step q)\<^sup>*\<^sup>* u v" "lt_pc v t = Applying" "same_main u v"
      using counting_ends [OF u(2)] by blast
    obtain w where w: "(own_step q)\<^sup>*\<^sup>* v w" "lt_pc w t = Ended" "same_main v w"
      using applying_ends [OF v(2) lt_reach_live [OF own_reach [OF v(1) u(1)] sv]] by blast
    show ?thesis using rtranclp_trans [OF v(1) w(1)] v(3) w(2,3) by (auto simp: joinable_now_def same_main_def)
  qed
  show ?thesis
  proof (cases "lt_pc s t")
    case Started
    then obtain n where "nodes_of (lt_st s) t = Some n"
      using lt_reach_base [OF reach] by (force simp: lt_base_def leave_ok_def)
    with Started have step: "lt_do q (Begin t) s = Some (lt_move t (Looping (matchIdx n) 0) s)" by (simp add: ta_begin_def)
    obtain s' where "(own_step q)\<^sup>*\<^sup>* (lt_move t (Looping (matchIdx n) 0) s) s'" "joinable_now t s'"
      "same_main (lt_move t (Looping (matchIdx n) 0) s) s'"
      using interrupt [of "lt_move t (Looping (matchIdx n) 0) s"] assms(4) by (auto simp: ta_interrupted_def)
    with own_stepI [OF step] show ?thesis by (auto simp: same_main_def intro: rtranclp_trans)
  next
    case (Succeeded old)
    then have step: "lt_do q (LockStates t) s = Some (lt_move t (Counting (old + 1)) s)" by (simp add: ta_lock_def)
    obtain s' where "(own_step q)\<^sup>*\<^sup>* (lt_move t (Counting (old + 1)) s) s'" "joinable_now t s'"
      "same_main (lt_move t (Counting (old + 1)) s) s'"
      using counting [of "lt_move t (Counting (old + 1)) s"] lt_step [OF reach step] by auto
    with own_stepI [OF step] show ?thesis by (auto simp: same_main_def intro: rtranclp_trans)
  next
    case Applying
    with applying_ends [OF this lt_reach_live [OF reach sv], of q] show ?thesis by (auto simp: joinable_now_def)
  next
    case (Looping old retry)
    then show ?thesis using assms(4) by (intro interrupt) (simp add: ta_interrupted_def)
  next
    case (Calling old retry msg)
    then show ?thesis using assms(4) by (intro interrupt) (simp add: ta_interrupted_def)
  next
    case (Counting k)
    then show ?thesis by (rule counting [OF reach])
  qed (auto simp: joinable_now_def same_main_def)
qed

lemma beat_ends:
  assumes "lt_reach q sv s" "sv_ok sv" "distinct (srvList (sv_info sv))" "lt_beat s = BeatJoining ts"
  shows "\<exists>s'. (own_step q)\<^sup>*\<^sup>* s s' \<and> lt_beat s' = BeatIdle \<and> lt_leave s' = lt_leave s"
  using assms
proof (induction ts arbitrary: s)
  case Nil
  then have "lt_do q BeatJoin s = Some (s\<lparr>lt_beat := BeatIdle\<rparr>)" by (simp add: beat_join_def)
  from own_stepI [OF this] show ?case by fastforce
next
  case (Cons t ts)
  then have "lt_flag s t" using lt_reach_live by (fastforce simp: lt_live_def)
  from thread_ends [OF Cons.prems(1-3) this] obtain u where
    u: "(own_step q)\<^sup>*\<^sup>* s u" "joinable_now t u" "lt_beat u = BeatJoining (t # ts)" "lt_leave u = lt_leave s"
    using Cons.prems(4) by (auto simp: same_main_def)
  let ?v = "lt_move t Started (u\<lparr>lt_flag := (lt_flag u)(t := False), lt_beat := BeatJoining ts\<rparr>)"
  from u have step: "lt_do q BeatJoin u = Some ?v" by (simp add: beat_join_def)
  have "lt_reach q sv ?v" using lt_step [OF own_reach [OF u(1) Cons.prems(1)] step] .
  then obtain s' where "(own_step q)\<^sup>*\<^sup>* ?v s'" "lt_beat s' = BeatIdle" "lt_leave s' = lt_leave s"
    using Cons.IH [of ?v] Cons.prems(2,3) u(4) by auto
  with u(1) own_stepI [OF step] show ?case by (auto intro: rtranclp_trans)
qed

text \<open>The worker empties the queue.\<close>

lemma queue_turn:
  assumes "worker_lives q" "eq_event q = None" "eq_q q \<noteq> []"
  shows "\<exists>p. eq_take q = Some p \<and> length (eq_q p) = length (eq_q q) - 1 \<and> worker_lives p"
  using assms by (auto simp: worker_lives_def eq_take_def eq_can_take_def)

lemma queue_drains:
  assumes "worker_lives (applyQueue_of (lt_st s))"
  shows "\<exists>s'. (own_step q)\<^sup>*\<^sup>* s s' \<and> eq_wait_done (applyQueue_of (lt_st s')) \<and> lt_leave s' = lt_leave s"
  using assms
proof (induction "length (eq_q (applyQueue_of (lt_st s)))" arbitrary: s)
  case 0
  then show ?case by (auto simp: eq_wait_done_def)
next
  case (Suc n)
  have "\<exists>u. (own_step q)\<^sup>*\<^sup>* s u \<and> eq_event (applyQueue_of (lt_st u)) = None \<and>
    eq_q (applyQueue_of (lt_st u)) = eq_q (applyQueue_of (lt_st s)) \<and> lt_leave u = lt_leave s \<and>
    worker_lives (applyQueue_of (lt_st u))"
  proof (cases "eq_event (applyQueue_of (lt_st s))")
    case (Some e)
    let ?u = "set_applyQueue (eq_finish (applyQueue_of (lt_st s))) s"
    have "lt_do q ApplyDone s = Some ?u" using Some by (simp add: lt_do_Some)
    from own_stepI [OF this] Suc.prems show ?thesis
      by (intro exI [of _ ?u]) (auto simp: eq_finish_def worker_lives_def)
  qed (use Suc.prems in auto)
  then obtain u where u: "(own_step q)\<^sup>*\<^sup>* s u" "eq_event (applyQueue_of (lt_st u)) = None"
    "eq_q (applyQueue_of (lt_st u)) = eq_q (applyQueue_of (lt_st s))" "lt_leave u = lt_leave s"
    "worker_lives (applyQueue_of (lt_st u))" by blast
  have "eq_q (applyQueue_of (lt_st u)) \<noteq> []" using u(3) Suc.hyps(2) by auto
  with queue_turn [OF u(5,2)] obtain p where p: "eq_take (applyQueue_of (lt_st u)) = Some p"
    "length (eq_q p) = n" "worker_lives p" using u(3) Suc.hyps(2) by auto
  then have step: "lt_do q ApplyTake u = Some (set_applyQueue p u)" by (simp add: lt_do_Some)
  obtain s' where "(own_step q)\<^sup>*\<^sup>* (set_applyQueue p u) s'" "eq_wait_done (applyQueue_of (lt_st s'))"
    "lt_leave s' = lt_leave s" using Suc.hyps(1) [of "set_applyQueue p u"] p(2,3) u(4) by auto
  with u(1) own_stepI [OF step] show ?case by (auto intro: rtranclp_trans)
qed

lemma leave_ends:
  assumes "lt_reach q sv s" "sv_ok sv \<and> worker_lives (sv_applyQueue sv)" "distinct (srvList (sv_info sv))"
    "lt_leave s = LeaveJoining ts"
  shows "\<exists>s'. (own_step q)\<^sup>*\<^sup>* s s' \<and> lt_leave s' = Left"
  using assms
proof (induction ts arbitrary: s)
  case Nil
  from queue_drains [OF worker_lives_reach [OF Nil.prems(1)]] Nil.prems(2,4) obtain u where
    u: "(own_step q)\<^sup>*\<^sup>* s u" "eq_wait_done (applyQueue_of (lt_st u))" "lt_leave u = LeaveJoining []" by auto
  then obtain s' where "lt_do q LeaveJoin u = Some s'" "lt_leave s' = Left" by (cases "lt_st u") (simp add: leave_join_def)
  with own_stepI [OF this(1)] u(1) show ?case by (auto intro: rtranclp_trans)
next
  case (Cons t ts)
  then have "lt_flag s t" using lt_reach_live by (fastforce simp: lt_live_def)
  from thread_ends [OF Cons.prems(1) conjunct1 [OF Cons.prems(2)] Cons.prems(3) this] obtain u where
    u: "(own_step q)\<^sup>*\<^sup>* s u" "joinable_now t u" "lt_leave u = LeaveJoining (t # ts)"
    using Cons.prems(4) by (auto simp: same_main_def)
  let ?v = "lt_move t NoThread (u\<lparr>lt_leave := LeaveJoining ts\<rparr>)"
  from u have step: "lt_do q LeaveJoin u = Some ?v" by (simp add: leave_join_def)
  have "lt_reach q sv ?v" using lt_step [OF own_reach [OF u(1) Cons.prems(1)] step] .
  then obtain s' where "(own_step q)\<^sup>*\<^sup>* ?v s'" "lt_leave s' = Left"
    using Cons.IH [of ?v] Cons.prems(2,3) by auto
  with u(1) own_stepI [OF step] show ?case by (auto intro: rtranclp_trans)
qed

text \<open>
  C31. \<open>leave\<close> never hangs: from every state in which it has begun, whatever the threads and the heart
  beat are doing, steps of the leader's own threads and of the worker of the apply queue, for which
  it waits, bring it to its end; no answer of a follower is needed. The servers of the configuration
  are taken to be different, the worker of the apply queue to run, and the application's function
  to return.
\<close>

theorem leave_completes:
  assumes "lt_reach q sv s" "sv_ok sv" "distinct (srvList (sv_info sv))" "lt_leave s \<noteq> NotLeaving"
    and "worker_lives (sv_applyQueue sv)"
  shows "\<exists>s'. (own_step q)\<^sup>*\<^sup>* s s' \<and> lt_leave s' = Left"
proof (cases "lt_leave s")
  case (LeaveJoining ts)
  then show ?thesis using leave_ends [OF assms(1) conjI [OF assms(2,5)] assms(3)] by blast
next
  case LeaveStopping
  have joining: "\<exists>s'. (own_step q)\<^sup>*\<^sup>* u s' \<and> lt_leave s' = Left"
    if u: "lt_reach q sv u" "lt_leave u = LeaveStopping" "lt_beat u = BeatOver" for u
  proof -
    have "\<exists>v. lt_do q LeaveInterrupt u = Some v \<and> lt_leave v = LeaveJoining (lt_peers u)"
      using u by (simp add: leave_interrupt_def)
    then obtain v where step: "lt_do q LeaveInterrupt u = Some v" and v: "lt_leave v = LeaveJoining (lt_peers u)" by blast
    from leave_ends [OF lt_step [OF u(1) step] conjI [OF assms(2,5)] assms(3) v] own_stepI [OF step] show ?thesis
      by (auto intro: rtranclp_trans)
  qed
  have idle: "\<exists>s'. (own_step q)\<^sup>*\<^sup>* u s' \<and> lt_leave s' = Left"
    if u: "lt_reach q sv u" "lt_leave u = LeaveStopping" "lt_beat u = BeatIdle" for u
  proof -
    have step: "lt_do q BeatEnd u = Some (u\<lparr>lt_beat := BeatOver\<rparr>)" using u by (simp add: beat_end_def)
    from joining [OF lt_step [OF u(1) step]] u(2) own_stepI [OF step] show ?thesis by (auto intro: rtranclp_trans)
  qed
  show ?thesis
  proof (cases "lt_beat s")
    case (BeatJoining ts)
    from beat_ends [OF assms(1-3) this] obtain u where
      u: "(own_step q)\<^sup>*\<^sup>* s u" "lt_beat u = BeatIdle" "lt_leave u = LeaveStopping" using LeaveStopping by auto
    from idle [OF own_reach [OF u(1) assms(1)] u(3,2)] u(1) show ?thesis by (auto intro: rtranclp_trans)
  qed (use assms(1) LeaveStopping in \<open>auto intro: idle joining\<close>)
qed (use assms(4) in auto)

theorem leave_completes_witness:
  "\<exists>s s'. lt_run True (sample_round @ [LeaveBegin]) (LeaderThreads0 sample_server) = Some s \<and>
     \<not> eq_wait_done (applyQueue_of (lt_st s)) \<and> (own_step True)\<^sup>*\<^sup>* s s' \<and> lt_leave s' = Left"
proof -
  have "case lt_run True (sample_round @ [LeaveBegin]) (LeaderThreads0 sample_server) of None \<Rightarrow> False
    | Some s \<Rightarrow> \<not> eq_wait_done (applyQueue_of (lt_st s)) \<and> lt_leave s \<noteq> NotLeaving" by code_simp
  then obtain s where s: "lt_run True (sample_round @ [LeaveBegin]) (LeaderThreads0 sample_server) = Some s"
    "\<not> eq_wait_done (applyQueue_of (lt_st s))" "lt_leave s \<noteq> NotLeaving" by (auto split: option.splits)
  have "distinct (srvList (sv_info sample_server))" by (simp add: sample_server_def sample_id_def)
  moreover have "worker_lives (sv_applyQueue sample_server)"
    by (simp add: sample_server_def worker_lives_def EventQueue0_def)
  ultimately show ?thesis
    using leave_completes [OF lt_run_reach [OF lt_init s(1)] sample_server_ok _ s(3)] s(1,2) by blast
qed

section \<open>A leader without followers\<close>

text \<open>
  Only the threads commit, and there is one for each peer: a leader that is alone in its
  cluster takes requests and never commits one.
\<close>

theorem alone_never_commits:
  assumes "lt_reach q sv s" "peers (sv_info sv) = []"
  shows "commit_of (lt_st s) = commitIdx (sv_state sv)"
  using assms
proof (induction rule: lt_reach.induct)
  case (lt_step s l s')
  have "lt_pc s t = NoThread" for t
    using lt_reach_base [OF lt_step.hyps(1)] lt_step.prems by (auto simp: lt_base_def)
  with lt_step show ?case by (cases l) (auto simp: lt_do_Some)
qed (simp add: LeaderThreads0_def)

definition sample_alone :: Server where
  "sample_alone = sample_server\<lparr>sv_info := \<lparr>local = sample_id ''a'', srvList = [sample_id ''a''], electionTimeout = 2\<rparr>\<rparr>"

theorem alone_never_commits_witness:
  "case lt_run False [TakeRequest (sample_request 9), CountRequest, Beat, BeatJoin, TakeRequest (sample_request 8)]
     (LeaderThreads0 sample_alone) of None \<Rightarrow> False
   | Some s \<Rightarrow> length (log_of (lt_st s)) = 5 \<and> commit_of (lt_st s) = 1"
proof -
  have "case lt_run False [TakeRequest (sample_request 9), CountRequest, Beat, BeatJoin, TakeRequest (sample_request 8)]
     (LeaderThreads0 sample_alone) of None \<Rightarrow> False | Some s \<Rightarrow> length (log_of (lt_st s)) = 5" by code_simp
  then obtain s where s: "lt_run False [TakeRequest (sample_request 9), CountRequest, Beat, BeatJoin,
      TakeRequest (sample_request 8)] (LeaderThreads0 sample_alone) = Some s" "length (log_of (lt_st s)) = 5"
    by (auto split: option.splits)
  have "peers (sv_info sample_alone) = []" by (simp add: sample_alone_def peers_def)
  from alone_never_commits [OF lt_run_reach [OF lt_init s(1)] this] s show ?thesis
    by (simp add: sample_alone_def sample_server_def)
qed

section \<open>One thread alone\<close>

text \<open>
  A thread that runs without the others does what \<open>tryAppendEntries\<close> does; the end of the list of
  results and \<open>Interrupted\<close> are the interruption.
\<close>

definition any_step :: "bool \<Rightarrow> LeaderThreads \<Rightarrow> LeaderThreads \<Rightarrow> bool" where
  "any_step q s s' \<longleftrightarrow> (\<exists>l. lt_do q l s = Some s')"

lemma any_stepI: "lt_do q l s = Some s' \<Longrightarrow> any_step q s s'"
  by (auto simp: any_step_def)

lemma loop_alone:
  "ta_loop t retry rs st = Some (b, st') \<Longrightarrow> lt_pc s t = Looping old retry \<Longrightarrow> lt_st s = st \<Longrightarrow> lt_flag s t \<Longrightarrow>
   \<exists>s'. (any_step q)\<^sup>*\<^sup>* s s' \<and> lt_pc s' t = (if b then Succeeded old else Ended) \<and> lt_st s' = st'"
proof (induction t retry rs st arbitrary: s rule: ta_loop.induct)
  case (1 t retry st)
  then have "any_step q s (lt_move t Ended s)" by (intro any_stepI [of q "Interrupt t"]) (simp add: ta_interrupted_def)
  with 1 show ?case by (intro exI [of _ "lt_move t Ended s"]) auto
next
  case (2 t retry r rs st)
  have interrupted: "any_step q s (lt_move t Ended s)"
    using "2.prems" by (intro any_stepI [of q "Interrupt t"]) (simp add: ta_interrupted_def)
  show ?case
  proof (cases "r = Interrupted")
    case True
    with "2.prems" interrupted show ?thesis by (intro exI [of _ "lt_move t Ended s"]) auto
  next
    case False
    with "2.prems"(1) obtain msg where msg: "ta_build t st = Some msg" by (cases r) (auto split: option.splits)
    let ?s1 = "lt_move t (Calling old retry msg) s"
    have send: "any_step q s ?s1" using "2.prems" msg by (intro any_stepI [of q "Send t"]) (simp add: ta_send_def)
    show ?thesis
    proof (cases r)
      case RpcError
      let ?s2 = "lt_move t (if retry + 1 > 2 then Ended else Looping old (retry + 1)) ?s1"
      have two: "(any_step q)\<^sup>*\<^sup>* s ?s2"
        using send any_stepI [of q "CallFails t" ?s1 ?s2] by (simp add: ta_failed_def)
      show ?thesis
      proof (cases "retry + 1 > 2")
        case True
        with "2.prems" RpcError msg two show ?thesis by (intro exI [of _ ?s2]) auto
      next
        case False
        then obtain s' where "(any_step q)\<^sup>*\<^sup>* ?s2 s'" "lt_pc s' t = (if b then Succeeded old else Ended)" "lt_st s' = st'"
          using "2.IH"(2) [OF RpcError msg False, of ?s2] "2.prems" RpcError msg by auto
        with two show ?thesis by (auto intro: rtranclp_trans)
      qed
    next
      case (Replied res)
      with "2.prems"(1) msg obtain nx st1 where r: "ta_reply t msg res st = Some (nx, st1)"
        by (auto split: option.splits)
      let ?s2 = "lt_move t (afterReply old retry nx) (?s1\<lparr>lt_st := st1\<rparr>)"
      have two: "(any_step q)\<^sup>*\<^sup>* s ?s2"
        using send any_stepI [of q "CallReplies t res" ?s1 ?s2] "2.prems"(3) r by (simp add: ta_replied_def)
      show ?thesis
      proof (cases nx)
        case TaRetry
        then obtain s' where "(any_step q)\<^sup>*\<^sup>* ?s2 s'" "lt_pc s' t = (if b then Succeeded old else Ended)" "lt_st s' = st'"
          using "2.IH"(1) [OF Replied msg r refl TaRetry, of ?s2] "2.prems" Replied msg r by auto
        with two show ?thesis by (auto intro: rtranclp_trans)
      qed (use "2.prems"(1) Replied msg r two in \<open>auto intro!: exI [of _ ?s2]\<close>)
    qed (use False in simp)
  qed
qed

lemma counting_alone:
  assumes "lt_pc s t = Counting k"
  shows "\<exists>s'. (any_step q)\<^sup>*\<^sup>* s s' \<and> lt_pc s' t = Applying \<and>
    lt_st s' = fold ta_count [k ..< length (logStates (snd (lt_st s)))] (lt_st s)"
  using assms
proof (induction "length (logStates (snd (lt_st s))) - k" arbitrary: s k)
  case 0
  then have "any_step q s (lt_move t Applying s)" by (intro any_stepI [of q "CountOne t"]) (simp add: ta_count_one_def)
  with 0 show ?case by (intro exI [of _ "lt_move t Applying s"]) auto
next
  case (Suc n)
  let ?s = "lt_move t (Counting (k + 1)) (s\<lparr>lt_st := ta_count k (lt_st s)\<rparr>)"
  have step: "any_step q s ?s" using Suc by (intro any_stepI [of q "CountOne t"]) (simp add: ta_count_one_def)
  have len: "length (logStates (snd (ta_count k (lt_st s)))) = length (logStates (snd (lt_st s)))"
    by (cases "lt_st s") (simp add: ta_count_def Let_def)
  then have "n = length (logStates (snd (lt_st ?s))) - (k + 1)" using Suc.hyps(2) by simp
  then obtain s' where s': "(any_step q)\<^sup>*\<^sup>* ?s s'" "lt_pc s' t = Applying"
    "lt_st s' = fold ta_count [k + 1 ..< length (logStates (snd (lt_st ?s)))] (lt_st ?s)"
    using Suc.hyps(1) [of ?s "k + 1"] by auto
  have "k < length (logStates (snd (lt_st s)))" using Suc.hyps(2) by simp
  with s'(3) len have "lt_st s' = fold ta_count [k ..< length (logStates (snd (lt_st s)))] (lt_st s)"
    by (simp add: upt_conv_Cons)
  with s'(1,2) step show ?case by (blast intro: converse_rtranclp_into_rtranclp)
qed

text \<open>
  The transition system contains the function: whatever \<open>tryAppendEntries\<close> makes of the results of its
  calls, the thread can reach in the same state, when it has started and will be interrupted.
\<close>

theorem thread_alone:
  assumes "tryAppendEntries t rs (lt_st s) = Some st'" "lt_pc s t = Started" "lt_flag s t"
  shows "\<exists>s'. (any_step q)\<^sup>*\<^sup>* s s' \<and> lt_pc s' t = Ended \<and> lt_st s' = st'"
proof -
  from assms(1) obtain node b st1 where node: "nodes_of (lt_st s) t = Some node"
    and loop: "ta_loop t 0 rs (lt_st s) = Some (b, st1)"
    and rest: "(if b then ta_commit (matchIdx node) st1 else Some st1) = Some st'"
    by (rule tryAppendEntries_Some)
  let ?s1 = "lt_move t (Looping (matchIdx node) 0) s"
  have one: "any_step q s ?s1" using assms(2) node by (intro any_stepI [of q "Begin t"]) (simp add: ta_begin_def)
  from loop_alone [OF loop, of ?s1 "matchIdx node" q] assms(3) obtain s2 where
    s2: "(any_step q)\<^sup>*\<^sup>* ?s1 s2" "lt_pc s2 t = (if b then Succeeded (matchIdx node) else Ended)" "lt_st s2 = st1" by auto
  show ?thesis
  proof (cases b)
    case False
    with s2 rest one show ?thesis by (intro exI [of _ s2]) auto
  next
    case True
    let ?s3 = "lt_move t (Counting (matchIdx node + 1)) s2"
    have three: "any_step q s2 ?s3" using s2(2) True by (intro any_stepI [of q "LockStates t"]) (simp add: ta_lock_def)
    obtain s4 where s4: "(any_step q)\<^sup>*\<^sup>* ?s3 s4" "lt_pc s4 t = Applying"
      "lt_st s4 = fold ta_count [matchIdx node + 1 ..< length (logStates (snd st1))] st1"
      using counting_alone [of ?s3 t "matchIdx node + 1" q] s2(3) by auto
    from rest True s4(3) obtain sv' where ap: "applyReadyEntries (fst (lt_st s4)) = Some sv'" "st' = (sv', snd (lt_st s4))"
      by (cases st1) (auto simp: ta_commit_def split: prod.splits)
    let ?s5 = "lt_move t Ended (s4\<lparr>lt_st := (sv', snd (lt_st s4))\<rparr>)"
    have five: "any_step q s4 ?s5" using s4(2) ap(1) by (intro any_stepI [of q "ApplyReady t"]) (simp add: lt_do_Some)
    have "(any_step q)\<^sup>*\<^sup>* s ?s5"
      using one s2(1) three s4(1) five by (meson converse_rtranclp_into_rtranclp rtranclp.rtrancl_into_rtrancl rtranclp_trans)
    then show ?thesis using ap(2) by (intro exI [of _ ?s5]) simp
  qed
qed

theorem thread_alone_witness:
  "\<exists>s s'. lt_run True [Beat, BeatJoin, BeatJoin, BeatJoin, Beat] (LeaderThreads0 sample_server) = Some s \<and>
     (any_step True)\<^sup>*\<^sup>* s s' \<and> lt_pc s' (sample_id ''b'') = Ended \<and> commit_of (lt_st s') = 2"
proof -
  have "case lt_run True [Beat, BeatJoin, BeatJoin, BeatJoin, Beat] (LeaderThreads0 sample_server) of
      None \<Rightarrow> False | Some s \<Rightarrow> lt_pc s (sample_id ''b'') = Started \<and> lt_flag s (sample_id ''b'') \<and>
        (case tryAppendEntries (sample_id ''b'') [RpcError, Replied (1, True)] (lt_st s) of
           None \<Rightarrow> False | Some st \<Rightarrow> commit_of st = 2)" by code_simp
  then obtain s st where s: "lt_run True [Beat, BeatJoin, BeatJoin, BeatJoin, Beat] (LeaderThreads0 sample_server) = Some s"
    "lt_pc s (sample_id ''b'') = Started" "lt_flag s (sample_id ''b'')"
    "tryAppendEntries (sample_id ''b'') [RpcError, Replied (1, True)] (lt_st s) = Some st" "commit_of st = 2"
    by (auto split: option.splits)
  from thread_alone [OF s(4,2,3), of True] s(1,5) show ?thesis by metis
qed

end
