(* ===== verification/Pb_Messages.thy ===== *)
theory Pb_Messages
  imports Quintet_Prelude
begin

text \<open>
  The message classes that the protocol buffer compiler generated
  (\<open>service/rpc/RaftRpc.pb.h\<close>, \<open>RaftRpc.pb.cc\<close>): one record per class, with the members in
  the order of the class, and \<open>Clear\<close>, \<open>MergeFrom\<close>, \<open>CopyFrom\<close> and \<open>Swap\<close>.

  A scalar or string member is a field with its width; a sub-message is a pointer that may be
  null, hence an \<open>option\<close>; \<open>..._get_...\<close> is the accessor that falls back on the default
  instance and \<open>..._mutable_...\<close> the accessor that creates the sub-message, applied to what
  is done with the pointer. \<open>..._unknown\<close> is the content of \<open>_internal_metadata_\<close>, the raw
  bytes of the fields the parser did not know. Bytes are characters. Arenas are never used by
  these classes (\<open>GetArenaNoVirtual\<close> returns null) and the cached size is left out.
\<close>

section \<open>The contract of a message class\<close>

locale message =
  fixes clear :: "'m \<Rightarrow> 'm"
    and merge :: "'m \<Rightarrow> 'm \<Rightarrow> 'm"
    and copy :: "'m \<Rightarrow> 'm \<Rightarrow> 'm"
    and default :: 'm
    and swap_to :: "'m \<Rightarrow> 'm \<Rightarrow> 'm"
    and swap_from :: "'m \<Rightarrow> 'm \<Rightarrow> 'm"
  assumes clear_default: "clear m = default"
    and merge_default: "merge m default = m"
    and merge_nothing: "merge default m = m"
    and copy_clears: "copy from m = merge from (clear m)"
    and swap_exchanges: "swap_to a b = a" "swap_from a b = b"
begin

lemma copy_exact: "copy from m = from"
  by (simp add: copy_clears clear_default merge_default)

lemma copy_copy: "copy (copy a b) c = a"
  by (simp add: copy_exact)

lemma clear_clear: "clear (clear m) = clear m"
  by (simp add: clear_default)

end

section \<open>PbReply\<close>

record PbReply =
  rp_term :: "64 word"
  rp_ans :: bool
  rp_unknown :: string

definition PbReply0 :: PbReply where
  "PbReply0 = \<lparr>rp_term = 0, rp_ans = False,
     rp_unknown = []\<rparr>"

definition PbReply_Clear :: "PbReply \<Rightarrow> PbReply" where
  "PbReply_Clear m = m\<lparr>rp_term := 0, rp_ans := False,
     rp_unknown := []\<rparr>"

definition PbReply_MergeFrom :: "PbReply \<Rightarrow> PbReply \<Rightarrow> PbReply" where
  "PbReply_MergeFrom from m = (
     let m = m\<lparr>rp_unknown := rp_unknown m @ rp_unknown from\<rparr>;
         m = (if rp_term from \<noteq> 0 then m\<lparr>rp_term := rp_term from\<rparr> else m);
         m = (if rp_ans from then m\<lparr>rp_ans := rp_ans from\<rparr> else m)
     in m)"

definition PbReply_CopyFrom :: "PbReply \<Rightarrow> PbReply \<Rightarrow> PbReply" where
  "PbReply_CopyFrom from m = PbReply_MergeFrom from (PbReply_Clear m)"

definition PbReply_Swap :: "PbReply \<times> PbReply \<Rightarrow> PbReply \<times> PbReply" where
  "PbReply_Swap = (\<lambda>(a, b). (
     a\<lparr>rp_term := rp_term b, rp_ans := rp_ans b, rp_unknown := rp_unknown b\<rparr>,
     b\<lparr>rp_term := rp_term a, rp_ans := rp_ans a, rp_unknown := rp_unknown a\<rparr>))"

interpretation rp_msg: message PbReply_Clear PbReply_MergeFrom PbReply_CopyFrom PbReply0 "\<lambda>a b. snd (PbReply_Swap (a, b))" "\<lambda>a b. fst (PbReply_Swap (a, b))"
  by unfold_locales
    (auto simp: PbReply_Clear_def PbReply_MergeFrom_def PbReply_CopyFrom_def PbReply_Swap_def PbReply0_def Let_def 
       split: option.splits)

section \<open>PbServerId\<close>

record PbServerId =
  si_addr :: string
  si_port :: "32 word"
  si_unknown :: string

definition PbServerId0 :: PbServerId where
  "PbServerId0 = \<lparr>si_addr = [], si_port = 0,
     si_unknown = []\<rparr>"

definition PbServerId_Clear :: "PbServerId \<Rightarrow> PbServerId" where
  "PbServerId_Clear m = m\<lparr>si_addr := [], si_port := 0,
     si_unknown := []\<rparr>"

definition PbServerId_MergeFrom :: "PbServerId \<Rightarrow> PbServerId \<Rightarrow> PbServerId" where
  "PbServerId_MergeFrom from m = (
     let m = m\<lparr>si_unknown := si_unknown m @ si_unknown from\<rparr>;
         m = (if length (si_addr from) > 0 then m\<lparr>si_addr := si_addr from\<rparr> else m);
         m = (if si_port from \<noteq> 0 then m\<lparr>si_port := si_port from\<rparr> else m)
     in m)"

definition PbServerId_CopyFrom :: "PbServerId \<Rightarrow> PbServerId \<Rightarrow> PbServerId" where
  "PbServerId_CopyFrom from m = PbServerId_MergeFrom from (PbServerId_Clear m)"

definition PbServerId_Swap :: "PbServerId \<times> PbServerId \<Rightarrow> PbServerId \<times> PbServerId" where
  "PbServerId_Swap = (\<lambda>(a, b). (
     a\<lparr>si_addr := si_addr b, si_port := si_port b, si_unknown := si_unknown b\<rparr>,
     b\<lparr>si_addr := si_addr a, si_port := si_port a, si_unknown := si_unknown a\<rparr>))"

interpretation si_msg: message PbServerId_Clear PbServerId_MergeFrom PbServerId_CopyFrom PbServerId0 "\<lambda>a b. snd (PbServerId_Swap (a, b))" "\<lambda>a b. fst (PbServerId_Swap (a, b))"
  by unfold_locales
    (auto simp: PbServerId_Clear_def PbServerId_MergeFrom_def PbServerId_CopyFrom_def PbServerId_Swap_def PbServerId0_def Let_def 
       split: option.splits)

section \<open>PbLogEntry\<close>

record PbLogEntry =
  lg_opname :: string
  lg_args :: string
  lg_srvid :: "PbServerId option"
  lg_term :: "64 word"
  lg_prmidx :: "64 word"
  lg_unknown :: string

definition PbLogEntry0 :: PbLogEntry where
  "PbLogEntry0 = \<lparr>lg_opname = [], lg_args = [], lg_srvid = None, lg_term = 0, lg_prmidx = 0,
     lg_unknown = []\<rparr>"

definition lg_get_srvid :: "PbLogEntry \<Rightarrow> PbServerId" where
  "lg_get_srvid m = (case lg_srvid m of None \<Rightarrow> PbServerId0 | Some s \<Rightarrow> s)"

definition lg_mutable_srvid :: "(PbServerId \<Rightarrow> PbServerId) \<Rightarrow> PbLogEntry \<Rightarrow> PbLogEntry" where
  "lg_mutable_srvid f m = m\<lparr>lg_srvid := Some (f (lg_get_srvid m))\<rparr>"

definition PbLogEntry_Clear :: "PbLogEntry \<Rightarrow> PbLogEntry" where
  "PbLogEntry_Clear m = m\<lparr>lg_opname := [], lg_args := [], lg_srvid := None, lg_term := 0, lg_prmidx := 0,
     lg_unknown := []\<rparr>"

definition PbLogEntry_MergeFrom :: "PbLogEntry \<Rightarrow> PbLogEntry \<Rightarrow> PbLogEntry" where
  "PbLogEntry_MergeFrom from m = (
     let m = m\<lparr>lg_unknown := lg_unknown m @ lg_unknown from\<rparr>;
         m = (if length (lg_opname from) > 0 then m\<lparr>lg_opname := lg_opname from\<rparr> else m);
         m = (if length (lg_args from) > 0 then m\<lparr>lg_args := lg_args from\<rparr> else m);
         m = (if lg_srvid from \<noteq> None then lg_mutable_srvid (PbServerId_MergeFrom (lg_get_srvid from)) m else m);
         m = (if lg_term from \<noteq> 0 then m\<lparr>lg_term := lg_term from\<rparr> else m);
         m = (if lg_prmidx from \<noteq> 0 then m\<lparr>lg_prmidx := lg_prmidx from\<rparr> else m)
     in m)"

definition PbLogEntry_CopyFrom :: "PbLogEntry \<Rightarrow> PbLogEntry \<Rightarrow> PbLogEntry" where
  "PbLogEntry_CopyFrom from m = PbLogEntry_MergeFrom from (PbLogEntry_Clear m)"

definition PbLogEntry_Swap :: "PbLogEntry \<times> PbLogEntry \<Rightarrow> PbLogEntry \<times> PbLogEntry" where
  "PbLogEntry_Swap = (\<lambda>(a, b). (
     a\<lparr>lg_opname := lg_opname b, lg_args := lg_args b, lg_srvid := lg_srvid b, lg_term := lg_term b, lg_prmidx := lg_prmidx b, lg_unknown := lg_unknown b\<rparr>,
     b\<lparr>lg_opname := lg_opname a, lg_args := lg_args a, lg_srvid := lg_srvid a, lg_term := lg_term a, lg_prmidx := lg_prmidx a, lg_unknown := lg_unknown a\<rparr>))"

interpretation lg_msg: message PbLogEntry_Clear PbLogEntry_MergeFrom PbLogEntry_CopyFrom PbLogEntry0 "\<lambda>a b. snd (PbLogEntry_Swap (a, b))" "\<lambda>a b. fst (PbLogEntry_Swap (a, b))"
  by unfold_locales
    (auto simp: PbLogEntry_Clear_def PbLogEntry_MergeFrom_def PbLogEntry_CopyFrom_def PbLogEntry_Swap_def PbLogEntry0_def Let_def lg_get_srvid_def lg_mutable_srvid_def
      si_msg.merge_default split: option.splits)

section \<open>PbAppendEntriesMessage\<close>

record PbAppendEntriesMessage =
  am_logentries :: "PbLogEntry list"
  am_leaderid :: "PbServerId option"
  am_term :: "64 word"
  am_prevlogidx :: "64 word"
  am_prevlogterm :: "64 word"
  am_commitidx :: "64 word"
  am_unknown :: string

definition PbAppendEntriesMessage0 :: PbAppendEntriesMessage where
  "PbAppendEntriesMessage0 = \<lparr>am_logentries = [], am_leaderid = None, am_term = 0, am_prevlogidx = 0, am_prevlogterm = 0, am_commitidx = 0,
     am_unknown = []\<rparr>"

definition am_get_leaderid :: "PbAppendEntriesMessage \<Rightarrow> PbServerId" where
  "am_get_leaderid m = (case am_leaderid m of None \<Rightarrow> PbServerId0 | Some s \<Rightarrow> s)"

definition am_mutable_leaderid :: "(PbServerId \<Rightarrow> PbServerId) \<Rightarrow> PbAppendEntriesMessage \<Rightarrow> PbAppendEntriesMessage" where
  "am_mutable_leaderid f m = m\<lparr>am_leaderid := Some (f (am_get_leaderid m))\<rparr>"

definition PbAppendEntriesMessage_Clear :: "PbAppendEntriesMessage \<Rightarrow> PbAppendEntriesMessage" where
  "PbAppendEntriesMessage_Clear m = m\<lparr>am_logentries := [], am_leaderid := None, am_term := 0, am_prevlogidx := 0, am_prevlogterm := 0, am_commitidx := 0,
     am_unknown := []\<rparr>"

definition PbAppendEntriesMessage_MergeFrom :: "PbAppendEntriesMessage \<Rightarrow> PbAppendEntriesMessage \<Rightarrow> PbAppendEntriesMessage" where
  "PbAppendEntriesMessage_MergeFrom from m = (
     let m = m\<lparr>am_unknown := am_unknown m @ am_unknown from\<rparr>;
         m = m\<lparr>am_logentries := am_logentries m @ am_logentries from\<rparr>;
         m = (if am_leaderid from \<noteq> None then am_mutable_leaderid (PbServerId_MergeFrom (am_get_leaderid from)) m else m);
         m = (if am_term from \<noteq> 0 then m\<lparr>am_term := am_term from\<rparr> else m);
         m = (if am_prevlogidx from \<noteq> 0 then m\<lparr>am_prevlogidx := am_prevlogidx from\<rparr> else m);
         m = (if am_prevlogterm from \<noteq> 0 then m\<lparr>am_prevlogterm := am_prevlogterm from\<rparr> else m);
         m = (if am_commitidx from \<noteq> 0 then m\<lparr>am_commitidx := am_commitidx from\<rparr> else m)
     in m)"

definition PbAppendEntriesMessage_CopyFrom :: "PbAppendEntriesMessage \<Rightarrow> PbAppendEntriesMessage \<Rightarrow> PbAppendEntriesMessage" where
  "PbAppendEntriesMessage_CopyFrom from m = PbAppendEntriesMessage_MergeFrom from (PbAppendEntriesMessage_Clear m)"

definition PbAppendEntriesMessage_Swap :: "PbAppendEntriesMessage \<times> PbAppendEntriesMessage \<Rightarrow> PbAppendEntriesMessage \<times> PbAppendEntriesMessage" where
  "PbAppendEntriesMessage_Swap = (\<lambda>(a, b). (
     a\<lparr>am_logentries := am_logentries b, am_leaderid := am_leaderid b, am_term := am_term b, am_prevlogidx := am_prevlogidx b, am_prevlogterm := am_prevlogterm b, am_commitidx := am_commitidx b, am_unknown := am_unknown b\<rparr>,
     b\<lparr>am_logentries := am_logentries a, am_leaderid := am_leaderid a, am_term := am_term a, am_prevlogidx := am_prevlogidx a, am_prevlogterm := am_prevlogterm a, am_commitidx := am_commitidx a, am_unknown := am_unknown a\<rparr>))"

interpretation am_msg: message PbAppendEntriesMessage_Clear PbAppendEntriesMessage_MergeFrom PbAppendEntriesMessage_CopyFrom PbAppendEntriesMessage0 "\<lambda>a b. snd (PbAppendEntriesMessage_Swap (a, b))" "\<lambda>a b. fst (PbAppendEntriesMessage_Swap (a, b))"
  by unfold_locales
    (auto simp: PbAppendEntriesMessage_Clear_def PbAppendEntriesMessage_MergeFrom_def PbAppendEntriesMessage_CopyFrom_def PbAppendEntriesMessage_Swap_def PbAppendEntriesMessage0_def Let_def am_get_leaderid_def am_mutable_leaderid_def
      si_msg.merge_default split: option.splits)

section \<open>PbRequestVoteMessage\<close>

record PbRequestVoteMessage =
  vm_candidateid :: "PbServerId option"
  vm_term :: "64 word"
  vm_lastlogidx :: "64 word"
  vm_lastlogterm :: "64 word"
  vm_unknown :: string

definition PbRequestVoteMessage0 :: PbRequestVoteMessage where
  "PbRequestVoteMessage0 = \<lparr>vm_candidateid = None, vm_term = 0, vm_lastlogidx = 0, vm_lastlogterm = 0,
     vm_unknown = []\<rparr>"

definition vm_get_candidateid :: "PbRequestVoteMessage \<Rightarrow> PbServerId" where
  "vm_get_candidateid m = (case vm_candidateid m of None \<Rightarrow> PbServerId0 | Some s \<Rightarrow> s)"

definition vm_mutable_candidateid :: "(PbServerId \<Rightarrow> PbServerId) \<Rightarrow> PbRequestVoteMessage \<Rightarrow> PbRequestVoteMessage" where
  "vm_mutable_candidateid f m = m\<lparr>vm_candidateid := Some (f (vm_get_candidateid m))\<rparr>"

definition PbRequestVoteMessage_Clear :: "PbRequestVoteMessage \<Rightarrow> PbRequestVoteMessage" where
  "PbRequestVoteMessage_Clear m = m\<lparr>vm_candidateid := None, vm_term := 0, vm_lastlogidx := 0, vm_lastlogterm := 0,
     vm_unknown := []\<rparr>"

definition PbRequestVoteMessage_MergeFrom :: "PbRequestVoteMessage \<Rightarrow> PbRequestVoteMessage \<Rightarrow> PbRequestVoteMessage" where
  "PbRequestVoteMessage_MergeFrom from m = (
     let m = m\<lparr>vm_unknown := vm_unknown m @ vm_unknown from\<rparr>;
         m = (if vm_candidateid from \<noteq> None then vm_mutable_candidateid (PbServerId_MergeFrom (vm_get_candidateid from)) m else m);
         m = (if vm_term from \<noteq> 0 then m\<lparr>vm_term := vm_term from\<rparr> else m);
         m = (if vm_lastlogidx from \<noteq> 0 then m\<lparr>vm_lastlogidx := vm_lastlogidx from\<rparr> else m);
         m = (if vm_lastlogterm from \<noteq> 0 then m\<lparr>vm_lastlogterm := vm_lastlogterm from\<rparr> else m)
     in m)"

definition PbRequestVoteMessage_CopyFrom :: "PbRequestVoteMessage \<Rightarrow> PbRequestVoteMessage \<Rightarrow> PbRequestVoteMessage" where
  "PbRequestVoteMessage_CopyFrom from m = PbRequestVoteMessage_MergeFrom from (PbRequestVoteMessage_Clear m)"

definition PbRequestVoteMessage_Swap :: "PbRequestVoteMessage \<times> PbRequestVoteMessage \<Rightarrow> PbRequestVoteMessage \<times> PbRequestVoteMessage" where
  "PbRequestVoteMessage_Swap = (\<lambda>(a, b). (
     a\<lparr>vm_candidateid := vm_candidateid b, vm_term := vm_term b, vm_lastlogidx := vm_lastlogidx b, vm_lastlogterm := vm_lastlogterm b, vm_unknown := vm_unknown b\<rparr>,
     b\<lparr>vm_candidateid := vm_candidateid a, vm_term := vm_term a, vm_lastlogidx := vm_lastlogidx a, vm_lastlogterm := vm_lastlogterm a, vm_unknown := vm_unknown a\<rparr>))"

interpretation vm_msg: message PbRequestVoteMessage_Clear PbRequestVoteMessage_MergeFrom PbRequestVoteMessage_CopyFrom PbRequestVoteMessage0 "\<lambda>a b. snd (PbRequestVoteMessage_Swap (a, b))" "\<lambda>a b. fst (PbRequestVoteMessage_Swap (a, b))"
  by unfold_locales
    (auto simp: PbRequestVoteMessage_Clear_def PbRequestVoteMessage_MergeFrom_def PbRequestVoteMessage_CopyFrom_def PbRequestVoteMessage_Swap_def PbRequestVoteMessage0_def Let_def vm_get_candidateid_def vm_mutable_candidateid_def
      si_msg.merge_default split: option.splits)

section \<open>PbAddLogMessage\<close>

record PbAddLogMessage =
  lm_opname :: string
  lm_args :: string
  lm_srvid :: "PbServerId option"
  lm_prmidx :: "64 word"
  lm_unknown :: string

definition PbAddLogMessage0 :: PbAddLogMessage where
  "PbAddLogMessage0 = \<lparr>lm_opname = [], lm_args = [], lm_srvid = None, lm_prmidx = 0,
     lm_unknown = []\<rparr>"

definition lm_get_srvid :: "PbAddLogMessage \<Rightarrow> PbServerId" where
  "lm_get_srvid m = (case lm_srvid m of None \<Rightarrow> PbServerId0 | Some s \<Rightarrow> s)"

definition lm_mutable_srvid :: "(PbServerId \<Rightarrow> PbServerId) \<Rightarrow> PbAddLogMessage \<Rightarrow> PbAddLogMessage" where
  "lm_mutable_srvid f m = m\<lparr>lm_srvid := Some (f (lm_get_srvid m))\<rparr>"

definition PbAddLogMessage_Clear :: "PbAddLogMessage \<Rightarrow> PbAddLogMessage" where
  "PbAddLogMessage_Clear m = m\<lparr>lm_opname := [], lm_args := [], lm_srvid := None, lm_prmidx := 0,
     lm_unknown := []\<rparr>"

definition PbAddLogMessage_MergeFrom :: "PbAddLogMessage \<Rightarrow> PbAddLogMessage \<Rightarrow> PbAddLogMessage" where
  "PbAddLogMessage_MergeFrom from m = (
     let m = m\<lparr>lm_unknown := lm_unknown m @ lm_unknown from\<rparr>;
         m = (if length (lm_opname from) > 0 then m\<lparr>lm_opname := lm_opname from\<rparr> else m);
         m = (if length (lm_args from) > 0 then m\<lparr>lm_args := lm_args from\<rparr> else m);
         m = (if lm_srvid from \<noteq> None then lm_mutable_srvid (PbServerId_MergeFrom (lm_get_srvid from)) m else m);
         m = (if lm_prmidx from \<noteq> 0 then m\<lparr>lm_prmidx := lm_prmidx from\<rparr> else m)
     in m)"

definition PbAddLogMessage_CopyFrom :: "PbAddLogMessage \<Rightarrow> PbAddLogMessage \<Rightarrow> PbAddLogMessage" where
  "PbAddLogMessage_CopyFrom from m = PbAddLogMessage_MergeFrom from (PbAddLogMessage_Clear m)"

definition PbAddLogMessage_Swap :: "PbAddLogMessage \<times> PbAddLogMessage \<Rightarrow> PbAddLogMessage \<times> PbAddLogMessage" where
  "PbAddLogMessage_Swap = (\<lambda>(a, b). (
     a\<lparr>lm_opname := lm_opname b, lm_args := lm_args b, lm_srvid := lm_srvid b, lm_prmidx := lm_prmidx b, lm_unknown := lm_unknown b\<rparr>,
     b\<lparr>lm_opname := lm_opname a, lm_args := lm_args a, lm_srvid := lm_srvid a, lm_prmidx := lm_prmidx a, lm_unknown := lm_unknown a\<rparr>))"

interpretation lm_msg: message PbAddLogMessage_Clear PbAddLogMessage_MergeFrom PbAddLogMessage_CopyFrom PbAddLogMessage0 "\<lambda>a b. snd (PbAddLogMessage_Swap (a, b))" "\<lambda>a b. fst (PbAddLogMessage_Swap (a, b))"
  by unfold_locales
    (auto simp: PbAddLogMessage_Clear_def PbAddLogMessage_MergeFrom_def PbAddLogMessage_CopyFrom_def PbAddLogMessage_Swap_def PbAddLogMessage0_def Let_def lm_get_srvid_def lm_mutable_srvid_def
      si_msg.merge_default split: option.splits)

section \<open>PbAddLogReply\<close>

record PbAddLogReply =
  lr_leaderid :: "PbServerId option"
  lr_success :: bool
  lr_unknown :: string

definition PbAddLogReply0 :: PbAddLogReply where
  "PbAddLogReply0 = \<lparr>lr_leaderid = None, lr_success = False,
     lr_unknown = []\<rparr>"

definition lr_get_leaderid :: "PbAddLogReply \<Rightarrow> PbServerId" where
  "lr_get_leaderid m = (case lr_leaderid m of None \<Rightarrow> PbServerId0 | Some s \<Rightarrow> s)"

definition lr_mutable_leaderid :: "(PbServerId \<Rightarrow> PbServerId) \<Rightarrow> PbAddLogReply \<Rightarrow> PbAddLogReply" where
  "lr_mutable_leaderid f m = m\<lparr>lr_leaderid := Some (f (lr_get_leaderid m))\<rparr>"

definition PbAddLogReply_Clear :: "PbAddLogReply \<Rightarrow> PbAddLogReply" where
  "PbAddLogReply_Clear m = m\<lparr>lr_leaderid := None, lr_success := False,
     lr_unknown := []\<rparr>"

definition PbAddLogReply_MergeFrom :: "PbAddLogReply \<Rightarrow> PbAddLogReply \<Rightarrow> PbAddLogReply" where
  "PbAddLogReply_MergeFrom from m = (
     let m = m\<lparr>lr_unknown := lr_unknown m @ lr_unknown from\<rparr>;
         m = (if lr_leaderid from \<noteq> None then lr_mutable_leaderid (PbServerId_MergeFrom (lr_get_leaderid from)) m else m);
         m = (if lr_success from then m\<lparr>lr_success := lr_success from\<rparr> else m)
     in m)"

definition PbAddLogReply_CopyFrom :: "PbAddLogReply \<Rightarrow> PbAddLogReply \<Rightarrow> PbAddLogReply" where
  "PbAddLogReply_CopyFrom from m = PbAddLogReply_MergeFrom from (PbAddLogReply_Clear m)"

definition PbAddLogReply_Swap :: "PbAddLogReply \<times> PbAddLogReply \<Rightarrow> PbAddLogReply \<times> PbAddLogReply" where
  "PbAddLogReply_Swap = (\<lambda>(a, b). (
     a\<lparr>lr_leaderid := lr_leaderid b, lr_success := lr_success b, lr_unknown := lr_unknown b\<rparr>,
     b\<lparr>lr_leaderid := lr_leaderid a, lr_success := lr_success a, lr_unknown := lr_unknown a\<rparr>))"

interpretation lr_msg: message PbAddLogReply_Clear PbAddLogReply_MergeFrom PbAddLogReply_CopyFrom PbAddLogReply0 "\<lambda>a b. snd (PbAddLogReply_Swap (a, b))" "\<lambda>a b. fst (PbAddLogReply_Swap (a, b))"
  by unfold_locales
    (auto simp: PbAddLogReply_Clear_def PbAddLogReply_MergeFrom_def PbAddLogReply_CopyFrom_def PbAddLogReply_Swap_def PbAddLogReply0_def Let_def lr_get_leaderid_def lr_mutable_leaderid_def
      si_msg.merge_default split: option.splits)

end
