(* ===== verification/Pb_Wire.thy ===== *)
theory Pb_Wire
  imports Quintet_Prelude
begin

text \<open>
  What the generated message classes (\<open>service/rpc/RaftRpc.pb.cc\<close>) share when they write and
  read bytes. The protocol buffer library itself is a parameter: \<open>wire_format\<close> lists the
  functions of it that the classes call, and the locale \<open>protobuf\<close> states what the library
  documents of them. The loop around the \<open>switch\<close> of \<open>MergePartialFromCodedStream\<close>, which is the
  same in every class, is \<open>merge_loop\<close>; what differs is the \<open>switch\<close>, an argument of it.

  Bytes are characters, a stream is what is left to read or what has been written. The raw bytes
  of unknown fields stand for the \<open>UnknownFieldSet\<close>. The last section gives the library's wire
  format (base 128 numbers, tags of a field number and a wire type) as a concrete instance.
\<close>

section \<open>The library\<close>

text \<open>
  \<open>Write...\<close> yields the bytes that are written for a field, \<open>Write...ToArray\<close> extends what has
  been written to the array. A sub-message is written with the size it has cached, the value of
  its \<open>ByteSizeLong\<close>. \<open>ReadTag\<close> is \<open>ReadTagWithCutoffNoLastTag(127)\<close>: the tag, zero at the end of
  the input or on an error, whether it is within the cutoff, and the rest of the input.
  \<open>ReadDelimited\<close> is the common part of \<open>ReadString\<close> and \<open>ReadMessage\<close>: the bytes of a
  length-delimited field.
\<close>

record wire_format =
  WriteUInt64 :: "nat \<Rightarrow> 64 word \<Rightarrow> string"
  WriteUInt32 :: "nat \<Rightarrow> 32 word \<Rightarrow> string"
  WriteBool :: "nat \<Rightarrow> bool \<Rightarrow> string"
  WriteString :: "nat \<Rightarrow> string \<Rightarrow> string"
  WriteMessage :: "nat \<Rightarrow> nat \<Rightarrow> string \<Rightarrow> string"
  WriteUInt64ToArray :: "nat \<Rightarrow> 64 word \<Rightarrow> string \<Rightarrow> string"
  WriteUInt32ToArray :: "nat \<Rightarrow> 32 word \<Rightarrow> string \<Rightarrow> string"
  WriteBoolToArray :: "nat \<Rightarrow> bool \<Rightarrow> string \<Rightarrow> string"
  WriteStringToArray :: "nat \<Rightarrow> string \<Rightarrow> string \<Rightarrow> string"
  WriteMessageToArray :: "nat \<Rightarrow> nat \<Rightarrow> (string \<Rightarrow> string) \<Rightarrow> string \<Rightarrow> string"
  UInt64Size :: "64 word \<Rightarrow> nat"
  UInt32Size :: "32 word \<Rightarrow> nat"
  StringSize :: "string \<Rightarrow> nat"
  MessageSize :: "nat \<Rightarrow> nat"
  ReadTag :: "string \<Rightarrow> 32 word \<times> bool \<times> string"
  TagFieldNumber :: "32 word \<Rightarrow> nat"
  ReadUInt64 :: "string \<Rightarrow> (64 word \<times> string) option"
  ReadUInt32 :: "string \<Rightarrow> (32 word \<times> string) option"
  ReadBool :: "string \<Rightarrow> (bool \<times> string) option"
  ReadDelimited :: "string \<Rightarrow> (string \<times> string) option"
  SkipField :: "32 word \<Rightarrow> string \<Rightarrow> (string \<times> string) option"
  VerifyUtf8String :: "string \<Rightarrow> bool"
  PreserveUnknowns :: bool

section \<open>Reading\<close>

text \<open>
  The result of one branch of the \<open>switch\<close>: not a field of the class (\<open>handle_unusual\<close>), a failed
  read, or the rest of the input and the changed message. \<open>Stuck\<close> and \<open>OutOfFuel\<close> are never
  reached; that is a theorem. A successful parse says whether it stopped at the end of its input,
  which the library requires of a sub-message.
\<close>

datatype 'm field_result = Unusual | Failed | Stuck | Parsed string 'm

datatype 'm parse_result = ParseSuccess bool 'm | ParseFailure | OutOfFuel

fun merge_loop :: "nat \<Rightarrow> wire_format \<Rightarrow> (32 word \<Rightarrow> string \<Rightarrow> 'm \<Rightarrow> 'm field_result)
    \<Rightarrow> (string \<Rightarrow> 'm \<Rightarrow> 'm) \<Rightarrow> string \<Rightarrow> 'm \<Rightarrow> 'm parse_result" where
  "merge_loop 0 W field unknown input m = OutOfFuel"
| "merge_loop (Suc fuel) W field unknown input m = (case ReadTag W input of (tag, ok, r) \<Rightarrow>
     (case (if ok then field tag r m else Unusual) of
        Parsed rest m' \<Rightarrow> merge_loop fuel W field unknown rest m'
      | Failed \<Rightarrow> ParseFailure
      | Stuck \<Rightarrow> OutOfFuel
      | Unusual \<Rightarrow> if tag = 0 then ParseSuccess (input = []) m
          else (case SkipField W tag r of None \<Rightarrow> ParseFailure
            | Some (raw, rest) \<Rightarrow> merge_loop fuel W field unknown rest (unknown raw m))))"

text \<open>Every turn of the loop that goes on consumes a byte, so its fuel is the length of the input.\<close>

definition merge_stream :: "wire_format \<Rightarrow> (32 word \<Rightarrow> string \<Rightarrow> 'm \<Rightarrow> 'm field_result)
    \<Rightarrow> (string \<Rightarrow> 'm \<Rightarrow> 'm) \<Rightarrow> string \<Rightarrow> 'm \<Rightarrow> 'm parse_result" where
  "merge_stream W field unknown input m = merge_loop (Suc (length input)) W field unknown input m"

text \<open>Tags: a field number and a wire type (0 for a number, 2 for a length-delimited field).\<close>

definition MakeTag :: "nat \<Rightarrow> nat \<Rightarrow> 32 word" where
  "MakeTag n k = word_of_nat (8 * n + k)"

lemma unat_MakeTag: "n < 16 \<Longrightarrow> k < 8 \<Longrightarrow> unat (MakeTag n k) = 8 * n + k"
  by (simp add: MakeTag_def unat_of_nat take_bit_eq_mod del: of_nat_add of_nat_mult)

lemma MakeTag_nonzero: "0 < n \<Longrightarrow> n < 16 \<Longrightarrow> k < 8 \<Longrightarrow> MakeTag n k \<noteq> 0"
  using unat_MakeTag [of n k] by auto

definition tag_is :: "nat \<Rightarrow> 32 word \<Rightarrow> bool" where
  "tag_is t tag \<longleftrightarrow> (ucast tag :: 8 word) = of_nat t"

definition read_value :: "(string \<Rightarrow> ('v \<times> string) option) \<Rightarrow> ('v \<Rightarrow> 'm) \<Rightarrow> string \<Rightarrow> 'm field_result" where
  "read_value reader upd input = (case reader input of None \<Rightarrow> Failed | Some (v, rest) \<Rightarrow> Parsed rest (upd v))"

definition read_string :: "wire_format \<Rightarrow> (string \<Rightarrow> 'm) \<Rightarrow> string \<Rightarrow> 'm field_result" where
  "read_string W upd input = (case ReadDelimited W input of None \<Rightarrow> Failed
     | Some (s, rest) \<Rightarrow> if VerifyUtf8String W s then Parsed rest (upd s) else Failed)"

definition read_message :: "wire_format \<Rightarrow> (string \<Rightarrow> 's \<Rightarrow> 's parse_result) \<Rightarrow> 's \<Rightarrow> ('s \<Rightarrow> 'm) \<Rightarrow> string
    \<Rightarrow> 'm field_result" where
  "read_message W parse sub upd input = (case ReadDelimited W input of None \<Rightarrow> Failed
     | Some (payload, rest) \<Rightarrow> (case parse payload sub of
         ParseSuccess whole s \<Rightarrow> if whole then Parsed rest (upd s) else Failed
       | ParseFailure \<Rightarrow> Failed
       | OutOfFuel \<Rightarrow> Stuck))"

section \<open>What the library documents\<close>

locale protobuf =
  fixes W :: wire_format
  assumes tag_end: "fst (ReadTag W []) = 0"
    and tag_number: "n < 16 \<Longrightarrow> k < 8 \<Longrightarrow> TagFieldNumber W (MakeTag n k) = n"
    and tag_zero: "TagFieldNumber W 0 = 0"
    and tag_shorter: "ReadTag W s = (tag, ok, r) \<Longrightarrow> tag \<noteq> 0 \<Longrightarrow> length r < length s"
    and uint64_shorter: "ReadUInt64 W s = Some (v64, r) \<Longrightarrow> length r \<le> length s"
    and uint32_shorter: "ReadUInt32 W s = Some (v32, r) \<Longrightarrow> length r \<le> length s"
    and bool_shorter: "ReadBool W s = Some (b, r) \<Longrightarrow> length r \<le> length s"
    and delimited_shorter: "ReadDelimited W s = Some (d, r) \<Longrightarrow> length r \<le> length s"
    and skip_shorter: "SkipField W tag s = Some (raw, r) \<Longrightarrow> length r \<le> length s"
    and uint64_read: "0 < n \<Longrightarrow> n < 16 \<Longrightarrow> \<exists>r. ReadTag W (WriteUInt64 W n v64 @ rest) = (MakeTag n 0, True, r) \<and>
      ReadUInt64 W r = Some (v64, rest)"
    and uint32_read: "0 < n \<Longrightarrow> n < 16 \<Longrightarrow> \<exists>r. ReadTag W (WriteUInt32 W n v32 @ rest) = (MakeTag n 0, True, r) \<and>
      ReadUInt32 W r = Some (v32, rest)"
    and bool_read: "0 < n \<Longrightarrow> n < 16 \<Longrightarrow> \<exists>r. ReadTag W (WriteBool W n b @ rest) = (MakeTag n 0, True, r) \<and>
      ReadBool W r = Some (b, rest)"
    and string_read: "0 < n \<Longrightarrow> n < 16 \<Longrightarrow> length s < 2 ^ 31 \<Longrightarrow>
      \<exists>r. ReadTag W (WriteString W n s @ rest) = (MakeTag n 2, True, r) \<and> ReadDelimited W r = Some (s, rest)"
    and message_read: "0 < n \<Longrightarrow> n < 16 \<Longrightarrow> length s < 2 ^ 31 \<Longrightarrow>
      \<exists>r. ReadTag W (WriteMessage W n (length s) s @ rest) = (MakeTag n 2, True, r) \<and>
        ReadDelimited W r = Some (s, rest)"
    and uint64_size: "0 < n \<Longrightarrow> n < 16 \<Longrightarrow> length (WriteUInt64 W n v64) = 1 + UInt64Size W v64"
    and uint32_size: "0 < n \<Longrightarrow> n < 16 \<Longrightarrow> length (WriteUInt32 W n v32) = 1 + UInt32Size W v32"
    and bool_size: "0 < n \<Longrightarrow> n < 16 \<Longrightarrow> length (WriteBool W n b) = 1 + 1"
    and string_size: "0 < n \<Longrightarrow> n < 16 \<Longrightarrow> length s < 2 ^ 31 \<Longrightarrow> length (WriteString W n s) = 1 + StringSize W s"
    and message_size: "0 < n \<Longrightarrow> n < 16 \<Longrightarrow> length s < 2 ^ 31 \<Longrightarrow>
      length (WriteMessage W n (length s) s) = 1 + MessageSize W (length s)"
    and uint64_array: "WriteUInt64ToArray W n v64 target = target @ WriteUInt64 W n v64"
    and uint32_array: "WriteUInt32ToArray W n v32 target = target @ WriteUInt32 W n v32"
    and bool_array: "WriteBoolToArray W n b target = target @ WriteBool W n b"
    and string_array: "WriteStringToArray W n s target = target @ WriteString W n s"
    and message_array: "(\<And>t. body t = t @ s) \<Longrightarrow> WriteMessageToArray W n k body target = target @ WriteMessage W n k s"
begin

lemmas size_laws = uint64_size uint32_size bool_size string_size message_size

lemmas array_laws = uint64_array uint32_array bool_array string_array

text \<open>The result of the loop on an input, for every fuel above its length.\<close>

definition reads :: "(32 word \<Rightarrow> string \<Rightarrow> 'm \<Rightarrow> 'm field_result) \<Rightarrow> (string \<Rightarrow> 'm \<Rightarrow> 'm) \<Rightarrow> string \<Rightarrow> 'm
    \<Rightarrow> 'm parse_result \<Rightarrow> bool" where
  "reads field unknown input m res \<longleftrightarrow>
     (\<forall>fuel > length input. merge_loop fuel W field unknown input m = res)"

lemma reads_stream: "reads field unknown input m res \<Longrightarrow> merge_stream W field unknown input m = res"
  by (simp add: reads_def merge_stream_def del: merge_loop.simps)

lemma reads_end:
  assumes "\<And>r. field 0 r m = Unusual" "m = m'"
  shows "reads field unknown [] m (ParseSuccess True m')"
  unfolding reads_def assms(2) [symmetric]
proof (intro allI impI)
  fix fuel :: nat
  assume "fuel > length ([] :: string)"
  then obtain k where k: "fuel = Suc k" by (cases fuel) auto
  obtain ok r where "ReadTag W [] = (0, ok, r)" using tag_end by (cases "ReadTag W []") auto
  with assms(1) show "merge_loop fuel W field unknown [] m = ParseSuccess True m" by (simp add: k)
qed

lemma reads_turn:
  assumes "ReadTag W input = (tag, True, r)" "tag \<noteq> 0" "field tag r m = Parsed rest m1" "length rest \<le> length r"
    and "reads field unknown rest m1 res"
  shows "reads field unknown input m res"
  unfolding reads_def
proof (intro allI impI)
  fix fuel
  assume "fuel > length input"
  moreover from tag_shorter [OF assms(1,2)] assms(4) have "length rest < length input" by simp
  ultimately obtain k where k: "fuel = Suc k" "length rest < k" by (cases fuel) auto
  with assms(5) have "merge_loop k W field unknown rest m1 = res" by (simp add: reads_def)
  with assms(1,3) show "merge_loop fuel W field unknown input m = res" by (simp add: k)
qed

text \<open>One field that was written is one turn of the loop; a field with its default is not written.\<close>

lemma reads_uint64:
  assumes "0 < n" "n < 16"
    and "\<And>r. field (MakeTag n 0) r m = read_value (ReadUInt64 W) upd r"
    and "\<not> c \<Longrightarrow> upd v = m"
    and "reads field unknown rest (upd v) res"
  shows "reads field unknown ((if c then WriteUInt64 W n v else []) @ rest) m res"
proof (cases c)
  case True
  obtain r where "ReadTag W (WriteUInt64 W n v @ rest) = (MakeTag n 0, True, r)" "ReadUInt64 W r = Some (v, rest)"
    using uint64_read [OF assms(1,2)] by blast
  note r = this
  have "field (MakeTag n 0) r m = Parsed rest (upd v)" by (simp add: assms(3) read_value_def r(2))
  from reads_turn [OF r(1) MakeTag_nonzero [OF assms(1,2)] this uint64_shorter [OF r(2)] assms(5)] True
  show ?thesis by simp
qed (use assms in simp)

lemma reads_uint32:
  assumes "0 < n" "n < 16"
    and "\<And>r. field (MakeTag n 0) r m = read_value (ReadUInt32 W) upd r"
    and "\<not> c \<Longrightarrow> upd v = m"
    and "reads field unknown rest (upd v) res"
  shows "reads field unknown ((if c then WriteUInt32 W n v else []) @ rest) m res"
proof (cases c)
  case True
  obtain r where "ReadTag W (WriteUInt32 W n v @ rest) = (MakeTag n 0, True, r)" "ReadUInt32 W r = Some (v, rest)"
    using uint32_read [OF assms(1,2)] by blast
  note r = this
  have "field (MakeTag n 0) r m = Parsed rest (upd v)" by (simp add: assms(3) read_value_def r(2))
  from reads_turn [OF r(1) MakeTag_nonzero [OF assms(1,2)] this uint32_shorter [OF r(2)] assms(5)] True
  show ?thesis by simp
qed (use assms in simp)

lemma reads_bool:
  assumes "0 < n" "n < 16"
    and "\<And>r. field (MakeTag n 0) r m = read_value (ReadBool W) upd r"
    and "\<not> c \<Longrightarrow> upd v = m"
    and "reads field unknown rest (upd v) res"
  shows "reads field unknown ((if c then WriteBool W n v else []) @ rest) m res"
proof (cases c)
  case True
  obtain r where "ReadTag W (WriteBool W n v @ rest) = (MakeTag n 0, True, r)" "ReadBool W r = Some (v, rest)"
    using bool_read [OF assms(1,2)] by blast
  note r = this
  have "field (MakeTag n 0) r m = Parsed rest (upd v)" by (simp add: assms(3) read_value_def r(2))
  from reads_turn [OF r(1) MakeTag_nonzero [OF assms(1,2)] this bool_shorter [OF r(2)] assms(5)] True
  show ?thesis by simp
qed (use assms in simp)

lemma reads_string:
  assumes "0 < n" "n < 16" "length v < 2 ^ 31" "VerifyUtf8String W v"
    and "\<And>r. field (MakeTag n 2) r m = read_string W upd r"
    and "\<not> c \<Longrightarrow> upd v = m"
    and "reads field unknown rest (upd v) res"
  shows "reads field unknown ((if c then WriteString W n v else []) @ rest) m res"
proof (cases c)
  case True
  obtain r where "ReadTag W (WriteString W n v @ rest) = (MakeTag n 2, True, r)"
    "ReadDelimited W r = Some (v, rest)"
    using string_read [OF assms(1-3)] by blast
  note r = this
  have "field (MakeTag n 2) r m = Parsed rest (upd v)" by (simp add: assms(4,5) read_string_def r(2))
  from reads_turn [OF r(1) MakeTag_nonzero [OF assms(1,2)] this delimited_shorter [OF r(2)] assms(7)] True
  show ?thesis by simp
qed (use assms in simp)

lemma reads_message:
  assumes "0 < n" "n < 16" "length s < 2 ^ 31"
    and "parse s sub = ParseSuccess True v"
    and "\<And>r. field (MakeTag n 2) r m = read_message W parse sub upd r"
    and "reads field unknown rest (upd v) res"
  shows "reads field unknown (WriteMessage W n (length s) s @ rest) m res"
proof -
  obtain r where "ReadTag W (WriteMessage W n (length s) s @ rest) = (MakeTag n 2, True, r)"
    "ReadDelimited W r = Some (s, rest)"
    using message_read [OF assms(1-3)] by blast
  note r = this
  have "field (MakeTag n 2) r m = Parsed rest (upd v)" by (simp add: assms(4,5) read_message_def r(2))
  from reads_turn [OF r(1) MakeTag_nonzero [OF assms(1,2)] this delimited_shorter [OF r(2)] assms(6)]
  show ?thesis by simp
qed

text \<open>A pointer to a sub-message, and a repeated sub-message.\<close>

lemma reads_option:
  assumes "0 < n" "n < 16"
    and "\<And>r. field (MakeTag n 2) r m = read_message W parse sub upd r"
    and "\<And>s. v = Some s \<Longrightarrow> length (ser s) < 2 ^ 31 \<and> parse (ser s) sub = ParseSuccess True s"
    and "v = None \<Longrightarrow> m1 = m" "\<And>s. v = Some s \<Longrightarrow> m1 = upd s"
    and "reads field unknown rest m1 res"
  shows "reads field unknown ((case v of None \<Rightarrow> [] | Some s \<Rightarrow> WriteMessage W n (length (ser s)) (ser s)) @ rest) m res"
proof (cases v)
  case (Some s)
  with assms(4,6) have "length (ser s) < 2 ^ 31" "parse (ser s) sub = ParseSuccess True s" "m1 = upd s" by auto
  with Some assms(7) reads_message [of n "ser s" parse sub s field m upd, OF assms(1,2) _ _ assms(3)]
  show ?thesis by simp
qed (use assms in simp)

lemma reads_repeated:
  assumes "0 < n" "n < 16"
    and "\<And>r m. field (MakeTag n 2) r m = read_message W parse sub (add m) r"
    and "\<And>s. s \<in> set vs \<Longrightarrow> length (ser s) < 2 ^ 31 \<and> parse (ser s) sub = ParseSuccess True s"
    and "reads field unknown rest (foldl add m vs) res"
  shows "reads field unknown (concat (map (\<lambda>s. WriteMessage W n (length (ser s)) (ser s)) vs) @ rest) m res"
  using assms(4,5)
proof (induction vs arbitrary: m)
  case (Cons v vs)
  then have "length (ser v) < 2 ^ 31" "parse (ser v) sub = ParseSuccess True v" by auto
  with Cons reads_message [of n "ser v" parse sub v field m "add m", OF assms(1,2) _ _ assms(3)]
  show ?case by simp
qed simp

text \<open>A string that is not UTF-8 stops the loop.\<close>

lemma bad_string:
  assumes "0 < n" "n < 16" "length v < 2 ^ 31" "\<not> VerifyUtf8String W v"
    and "\<And>r. field (MakeTag n 2) r m = read_string W upd r"
  shows "reads field unknown (WriteString W n v @ rest) m ParseFailure"
  unfolding reads_def
proof (intro allI impI)
  fix fuel
  assume "fuel > length (WriteString W n v @ rest)"
  then obtain k where k: "fuel = Suc k" by (cases fuel) auto
  obtain r where "ReadTag W (WriteString W n v @ rest) = (MakeTag n 2, True, r)"
    "ReadDelimited W r = Some (v, rest)"
    using string_read [OF assms(1-3)] by blast
  with assms(4,5) show "merge_loop fuel W field unknown (WriteString W n v @ rest) m = ParseFailure"
    by (simp add: k read_string_def)
qed

text \<open>The loop ends on every input, if the branches only move forward.\<close>

definition forward :: "('m \<Rightarrow> string \<Rightarrow> 'm field_result) \<Rightarrow> bool" where
  "forward branch \<longleftrightarrow> (\<forall>m r. branch m r \<noteq> Stuck \<and> (\<forall>rest m'. branch m r = Parsed rest m' \<longrightarrow> length rest \<le> length r))"

lemma merge_loop_ends:
  assumes "\<And>tag. forward (\<lambda>m r. field tag r m)" "field 0 = (\<lambda>r m. Unusual)"
  shows "length input < fuel \<Longrightarrow> merge_loop fuel W field unknown input m \<noteq> OutOfFuel"
proof (induction fuel arbitrary: input m)
  case (Suc fuel)
  obtain tag ok r where t: "ReadTag W input = (tag, ok, r)" by (cases "ReadTag W input") auto
  show ?case
  proof (cases "tag = 0")
    case True
    with assms(2) show ?thesis by (simp add: t)
  next
    case False
    with tag_shorter [OF t] Suc.prems have r: "length r < fuel" by simp
    show ?thesis
    proof (cases "if ok then field tag r m else Unusual")
      case Unusual
      with False show ?thesis using r
        by (auto simp: t split: option.splits dest: skip_shorter intro!: Suc.IH)
    next
      case (Parsed rest m')
      with assms(1) r show ?thesis
        by (auto simp: t forward_def split: if_splits intro!: Suc.IH) (meson le_less_trans)
    next
      case Stuck
      with assms(1) show ?thesis by (auto simp: forward_def split: if_splits)
    qed (simp add: t)
  qed
qed simp

lemma merge_stream_ends:
  assumes "\<And>tag. forward (\<lambda>m r. field tag r m)" "field 0 = (\<lambda>r m. Unusual)"
  shows "merge_stream W field unknown input m \<noteq> OutOfFuel"
  using merge_loop_ends [of field input "Suc (length input)"] assms by (simp add: merge_stream_def del: merge_loop.simps)

lemma forward_unusual: "forward (\<lambda>m r. Unusual)"
  by (simp add: forward_def)

lemma forward_uint64: "forward (\<lambda>m r. read_value (ReadUInt64 W) (upd m) r)"
  by (auto simp: forward_def read_value_def uint64_shorter split: option.splits)

lemma forward_uint32: "forward (\<lambda>m r. read_value (ReadUInt32 W) (upd m) r)"
  by (auto simp: forward_def read_value_def uint32_shorter split: option.splits)

lemma forward_bool: "forward (\<lambda>m r. read_value (ReadBool W) (upd m) r)"
  by (auto simp: forward_def read_value_def bool_shorter split: option.splits)

lemma forward_string: "forward (\<lambda>m r. read_string W (upd m) r)"
  by (auto simp: forward_def read_string_def delimited_shorter split: option.splits)

lemma forward_message:
  "(\<And>s sub. parse s sub \<noteq> OutOfFuel) \<Longrightarrow> forward (\<lambda>m r. read_message W parse (sub m) (upd m) r)"
  by (auto simp: forward_def read_message_def delimited_shorter split: option.splits parse_result.splits)

lemma forward_if: "forward f \<Longrightarrow> forward g \<Longrightarrow> forward (\<lambda>m r. if b then f m r else g m r)"
  by (simp add: forward_def)

lemmas forward_laws = forward_if forward_unusual forward_uint64 forward_uint32 forward_bool forward_string forward_message

end

section \<open>The wire format\<close>

text \<open>Numbers in groups of seven bits, the lowest first, all but the last with the high bit set.\<close>

fun varint :: "nat \<Rightarrow> string" where
  "varint n = (if n < 128 then [char_of n] else char_of (n mod 128 + 128) # varint (n div 128))"

declare varint.simps [simp del]

fun read_varint :: "nat \<Rightarrow> string \<Rightarrow> (nat \<times> string) option" where
  "read_varint 0 s = None"
| "read_varint (Suc k) [] = None"
| "read_varint (Suc k) (c # s) = (let b = of_char c in
     if b < 128 then Some (b, s)
     else (case read_varint k s of None \<Rightarrow> None | Some (v, r) \<Rightarrow> Some (b - 128 + 128 * v, r)))"

lemma read_varint_inverse: "n < 128 ^ Suc k \<Longrightarrow> read_varint (Suc k) (varint n @ rest) = Some (n, rest)"
proof (induction k arbitrary: n)
  case 0
  then show ?case by (simp add: varint.simps)
next
  case (Suc k)
  show ?case
  proof (cases "n < 128")
    case False
    have "n div 128 < 128 ^ Suc k" using Suc.prems by (simp add: less_mult_imp_div_less mult.commute)
    from Suc.IH [OF this] False show ?thesis
      by (subst varint.simps) (simp del: read_varint.simps(3) add: read_varint.simps(3) [of "Suc k"])
  qed (simp add: varint.simps)
qed

lemma read_varint_shorter: "read_varint k s = Some (v, r) \<Longrightarrow> length r < length s"
proof (induction k s arbitrary: v r rule: read_varint.induct)
  case (3 k c s)
  from 3(2) show ?case
    by (auto simp: Let_def split: if_splits option.splits dest!: 3(1) [OF refl])
qed simp_all

lemma varint_nonempty [simp]: "varint n \<noteq> []"
  by (subst varint.simps) simp

definition read_delimited :: "string \<Rightarrow> (string \<times> string) option" where
  "read_delimited s = (case read_varint 10 s of None \<Rightarrow> None
     | Some (n, r) \<Rightarrow> if n \<le> length r \<and> n < 2 ^ 31 then Some (take n r, drop n r) else None)"

definition write_delimited :: "nat \<Rightarrow> nat \<Rightarrow> string \<Rightarrow> string" where
  "write_delimited n cached s = varint (8 * n + 2) @ varint cached @ s"

definition skip_field :: "32 word \<Rightarrow> string \<Rightarrow> string option" where
  "skip_field tag s = (case unat (take_bit 3 tag) of
     0 \<Rightarrow> map_option snd (read_varint 10 s)
   | Suc 0 \<Rightarrow> if 8 \<le> length s then Some (drop 8 s) else None
   | Suc (Suc 0) \<Rightarrow> map_option snd (read_delimited s)
   | k \<Rightarrow> if k = 5 \<and> 4 \<le> length s then Some (drop 4 s) else None)"

definition standard_format :: wire_format where
  "standard_format = \<lparr>
     WriteUInt64 = (\<lambda>n v. varint (8 * n) @ varint (unat v)),
     WriteUInt32 = (\<lambda>n v. varint (8 * n) @ varint (unat v)),
     WriteBool = (\<lambda>n b. varint (8 * n) @ varint (if b then 1 else 0)),
     WriteString = (\<lambda>n s. write_delimited n (length s) s),
     WriteMessage = write_delimited,
     WriteUInt64ToArray = (\<lambda>n v target. target @ varint (8 * n) @ varint (unat v)),
     WriteUInt32ToArray = (\<lambda>n v target. target @ varint (8 * n) @ varint (unat v)),
     WriteBoolToArray = (\<lambda>n b target. target @ varint (8 * n) @ varint (if b then 1 else 0)),
     WriteStringToArray = (\<lambda>n s target. target @ write_delimited n (length s) s),
     WriteMessageToArray = (\<lambda>n cached body target. body (target @ write_delimited n cached [])),
     UInt64Size = (\<lambda>v. length (varint (unat v))),
     UInt32Size = (\<lambda>v. length (varint (unat v))),
     StringSize = (\<lambda>s. length (varint (length s)) + length s),
     MessageSize = (\<lambda>k. length (varint k) + k),
     ReadTag = (\<lambda>s. case read_varint 5 s of None \<Rightarrow> (0, False, s)
       | Some (t, r) \<Rightarrow> (word_of_nat t, 0 < t \<and> t \<le> 127, r)),
     TagFieldNumber = (\<lambda>tag. unat (drop_bit 3 tag)),
     ReadUInt64 = (\<lambda>s. map_option (\<lambda>(v, r). (word_of_nat v, r)) (read_varint 10 s)),
     ReadUInt32 = (\<lambda>s. map_option (\<lambda>(v, r). (word_of_nat v, r)) (read_varint 10 s)),
     ReadBool = (\<lambda>s. map_option (\<lambda>(v, r). (v \<noteq> 0, r)) (read_varint 10 s)),
     ReadDelimited = read_delimited,
     SkipField = (\<lambda>tag s. map_option (\<lambda>r. (varint (unat tag) @ take (length s - length r) s, r)) (skip_field tag s)),
     VerifyUtf8String = list_all (\<lambda>c. of_char c < (128 :: nat)),
     PreserveUnknowns = True\<rparr>"

lemma standard_format_sizes:
  "UInt64Size standard_format v = length (varint (unat v))"
  "UInt32Size standard_format w = length (varint (unat w))"
  "StringSize standard_format s = length (varint (length s)) + length s"
  "MessageSize standard_format k = length (varint k) + k"
  "VerifyUtf8String standard_format s = list_all (\<lambda>c. of_char c < (128 :: nat)) s"
  "PreserveUnknowns standard_format"
  by (simp_all add: standard_format_def)

lemma varint_length: "n < 128 ^ Suc k \<Longrightarrow> length (varint n) \<le> Suc k"
proof (induction k arbitrary: n)
  case 0
  then show ?case by (simp add: varint.simps)
next
  case (Suc k)
  have "n div 128 < 128 ^ Suc k" using Suc.prems by (simp add: less_mult_imp_div_less mult.commute)
  from Suc.IH [OF this] show ?case by (subst varint.simps) simp
qed

lemma unat_varint_bounds: "unat (v :: 64 word) < 128 ^ Suc 9" "unat (w :: 32 word) < 128 ^ Suc 9"
  using unsigned_less [of v, where ?'a = nat] unsigned_less [of w, where ?'a = nat] by simp_all

lemma standard_sizes_bound:
  "UInt64Size standard_format v \<le> 10"
  "UInt32Size standard_format w \<le> 10"
  "k < 2 ^ 31 \<Longrightarrow> MessageSize standard_format k \<le> k + 10"
  "length s < 2 ^ 31 \<Longrightarrow> StringSize standard_format s \<le> length s + 10"
  using varint_length [OF unat_varint_bounds(1) [of v]] varint_length [OF unat_varint_bounds(2) [of w]]
    varint_length [of k 9] varint_length [of "length s" 9] by (simp_all add: standard_format_sizes)

lemma read_varint_word:
  "read_varint 10 (varint (unat (v :: 64 word)) @ rest) = Some (unat v, rest)"
  "read_varint 10 (varint (unat (w :: 32 word)) @ rest) = Some (unat w, rest)"
  using read_varint_inverse [OF unat_varint_bounds(1)] read_varint_inverse [OF unat_varint_bounds(2)]
  by (simp_all del: read_varint.simps power.simps)

lemma read_varint_tag: "n < 16 \<Longrightarrow> k < 8 \<Longrightarrow> read_varint 5 (varint (8 * n + k) @ rest) = Some (8 * n + k, rest)"
  using read_varint_inverse [of "8 * n + k" 4 rest] by (simp del: read_varint.simps)

lemma read_delimited_inverse:
  "length s < 2 ^ 31 \<Longrightarrow> read_delimited (varint (length s) @ s @ rest) = Some (s, rest)"
  using read_varint_inverse [of "length s" 9 "s @ rest"] by (simp add: read_delimited_def del: read_varint.simps)

lemma varint_tag_length: "n < 16 \<Longrightarrow> k < 8 \<Longrightarrow> length (varint (8 * n + k)) = 1"
  by (subst varint.simps) simp

lemma read_bool_inverse: "read_varint 10 (varint (if b then 1 else 0) @ rest) = Some (if b then 1 else 0, rest)"
  using read_varint_inverse [of "if b then 1 else 0" 9 rest] by (simp del: read_varint.simps)

lemma read_delimited_shorter: "read_delimited s = Some (d, r) \<Longrightarrow> length r \<le> length s"
  by (auto simp: read_delimited_def split: option.splits if_splits dest!: read_varint_shorter)

lemma skip_field_shorter: "skip_field tag s = Some r \<Longrightarrow> length r \<le> length s"
  by (auto simp: skip_field_def split: nat.splits if_splits dest!: read_varint_shorter read_delimited_shorter)

lemma standard_tag:
  assumes "0 < n" "n < 16" "k < 8"
  shows "ReadTag standard_format (varint (8 * n + k) @ rest) = (MakeTag n k, True, rest)"
  using assms by (simp add: standard_format_def read_varint_tag MakeTag_def del: read_varint.simps)

lemma standard_tag_number: "n < 16 \<Longrightarrow> k < 8 \<Longrightarrow> TagFieldNumber standard_format (MakeTag n k) = n"
  by (simp add: standard_format_def unat_MakeTag drop_bit_eq_div unat_div)

interpretation pb: protobuf standard_format
proof unfold_locales
  show "fst (ReadTag standard_format []) = 0"
    by (simp add: standard_format_def numeral_eq_Suc)
  show "TagFieldNumber standard_format 0 = 0"
    by (simp add: standard_format_def)
  show "length r < length s" if "ReadTag standard_format s = (tag, ok, r)" "tag \<noteq> 0" for s tag ok r
    using that by (auto simp: standard_format_def split: option.splits dest: read_varint_shorter)
  show "length r \<le> length s" if "SkipField standard_format tag s = Some (raw, r)" for tag s raw r
    using that by (auto simp: standard_format_def dest: skip_field_shorter)
  show "TagFieldNumber standard_format (MakeTag n k) = n" if "n < 16" "k < 8" for n k
    using that by (rule standard_tag_number)
next
  fix n :: nat and v64 :: "64 word" and v32 :: "32 word" and b :: bool and s rest :: string
  assume n: "0 < n" "n < 16"
  show "\<exists>r. ReadTag standard_format (WriteUInt64 standard_format n v64 @ rest) = (MakeTag n 0, True, r) \<and>
      ReadUInt64 standard_format r = Some (v64, rest)"
    using standard_tag [OF n, of 0] by (simp add: standard_format_def read_varint_word del: read_varint.simps)
  show "\<exists>r. ReadTag standard_format (WriteUInt32 standard_format n v32 @ rest) = (MakeTag n 0, True, r) \<and>
      ReadUInt32 standard_format r = Some (v32, rest)"
    using standard_tag [OF n, of 0] by (simp add: standard_format_def read_varint_word del: read_varint.simps)
  show "\<exists>r. ReadTag standard_format (WriteBool standard_format n b @ rest) = (MakeTag n 0, True, r) \<and>
      ReadBool standard_format r = Some (b, rest)"
    using standard_tag [OF n, of 0] by (simp add: standard_format_def read_bool_inverse del: read_varint.simps)
  show "length (WriteUInt64 standard_format n v64) = 1 + UInt64Size standard_format v64"
    "length (WriteUInt32 standard_format n v32) = 1 + UInt32Size standard_format v32"
    using varint_tag_length [OF n(2), of 0] by (simp_all add: standard_format_def)
  show "length (WriteBool standard_format n b) = 1 + 1"
    using varint_tag_length [OF n(2), of 0] by (simp add: standard_format_def varint.simps)
  assume len: "length s < 2 ^ 31"
  show "\<exists>r. ReadTag standard_format (WriteString standard_format n s @ rest) = (MakeTag n 2, True, r) \<and>
      ReadDelimited standard_format r = Some (s, rest)"
    "\<exists>r. ReadTag standard_format (WriteMessage standard_format n (length s) s @ rest) = (MakeTag n 2, True, r) \<and>
      ReadDelimited standard_format r = Some (s, rest)"
    using standard_tag [OF n, of 2] read_delimited_inverse [OF len]
    by (simp_all add: standard_format_def write_delimited_def del: read_varint.simps)
  show "length (WriteString standard_format n s) = 1 + StringSize standard_format s"
    "length (WriteMessage standard_format n (length s) s) = 1 + MessageSize standard_format (length s)"
    using varint_tag_length [OF n(2), of 2] by (simp_all add: standard_format_def write_delimited_def)
qed (auto simp: standard_format_def write_delimited_def dest: read_varint_shorter read_delimited_shorter)

end
