(* ===== verification/Pb_Codec.thy ===== *)
theory Pb_Codec
  imports Pb_Messages Pb_Wire
begin

text \<open>
  Writing, measuring and reading the seven message classes (\<open>service/rpc/RaftRpc.pb.cc\<close>), over the
  library functions of \<open>Pb_Wire\<close>: \<open>..._ByteSizeLong\<close>, \<open>..._Serialize\<close> for
  \<open>SerializeWithCachedSizes\<close>, \<open>..._SerializeToArray\<close> for \<open>InternalSerializeWithCachedSizesToArray\<close>,
  \<open>..._field\<close> for the \<open>switch\<close> of \<open>MergePartialFromCodedStream\<close> and \<open>..._MergePartial\<close> for the
  whole of it. A class is written after its sub-messages, since it uses their functions.

  \<open>..._valid\<close> are the messages that survive the wire: strings in UTF-8, lengths that fit an
  \<open>int\<close>, no unknown fields. For each class: both ways of writing agree, the size is the number of
  bytes written, reading ends on every input, and what was written is read back.
\<close>

lemma tag_is_MakeTag [simp]: "n < 16 \<Longrightarrow> k < 8 \<Longrightarrow> t < 256 \<Longrightarrow> tag_is t (MakeTag n k) \<longleftrightarrow> t = 8 * n + k"
  by (auto simp: tag_is_def word_unat_eq_iff unsigned_ucast_eq unat_MakeTag unat_of_nat take_bit_eq_mod)

lemma foldl_append_concat: "foldl (\<lambda>out s. out @ f s) out vs = out @ concat (map f vs)"
  by (induction vs arbitrary: out) simp_all

lemma foldl_plus_map: "foldl (\<lambda>n s. n + f s) (n :: nat) vs = n + sum_list (map f vs)"
  by (induction vs arbitrary: n) simp_all

lemma sum_list_Suc: "(\<And>s. s \<in> set vs \<Longrightarrow> f s = 1 + g s) \<Longrightarrow> sum_list (map f vs) = length vs + sum_list (map g vs)"
  by (induction vs) simp_all

lemma foldl_add_logentries:
  "foldl (\<lambda>m v. m\<lparr>am_logentries := am_logentries m @ [v]\<rparr>) m vs = m\<lparr>am_logentries := am_logentries m @ vs\<rparr>"
  by (induction vs arbitrary: m) simp_all

section \<open>PbReply\<close>

definition PbReply_ByteSizeLong :: "wire_format \<Rightarrow> PbReply \<Rightarrow> nat" where
  "PbReply_ByteSizeLong W m = (
     let total_size = (if rp_unknown m \<noteq> [] \<and> PreserveUnknowns W then length (rp_unknown m) else 0);
         total_size = (if rp_term m \<noteq> 0 then total_size + (1 + UInt64Size W (rp_term m)) else total_size);
         total_size = (if rp_ans m then total_size + (1 + 1) else total_size)
     in total_size)"

definition PbReply_Serialize :: "wire_format \<Rightarrow> PbReply \<Rightarrow> string \<Rightarrow> string" where
  "PbReply_Serialize W m out = (
     let out = (if rp_term m \<noteq> 0 then out @ WriteUInt64 W 1 (rp_term m) else out);
         out = (if rp_ans m then out @ WriteBool W 2 (rp_ans m) else out);
         out = (if rp_unknown m \<noteq> [] \<and> PreserveUnknowns W then out @ rp_unknown m else out)
     in out)"

definition PbReply_SerializeToArray :: "wire_format \<Rightarrow> PbReply \<Rightarrow> string \<Rightarrow> string" where
  "PbReply_SerializeToArray W m target = (
     let target = (if rp_term m \<noteq> 0 then WriteUInt64ToArray W 1 (rp_term m) target else target);
         target = (if rp_ans m then WriteBoolToArray W 2 (rp_ans m) target else target);
         target = (if rp_unknown m \<noteq> [] \<and> PreserveUnknowns W then target @ rp_unknown m else target)
     in target)"

definition PbReply_field :: "wire_format \<Rightarrow> 32 word \<Rightarrow> string \<Rightarrow> PbReply \<Rightarrow> PbReply field_result" where
  "PbReply_field W tag input m = (
     if TagFieldNumber W tag = 1 then
       (if tag_is 8 tag then read_value (ReadUInt64 W) (\<lambda>v. m\<lparr>rp_term := v\<rparr>) input
        else Unusual)
     else if TagFieldNumber W tag = 2 then
       (if tag_is 16 tag then read_value (ReadBool W) (\<lambda>v. m\<lparr>rp_ans := v\<rparr>) input
        else Unusual)
     else Unusual)"

definition PbReply_MergePartial :: "wire_format \<Rightarrow> string \<Rightarrow> PbReply \<Rightarrow> PbReply parse_result" where
  "PbReply_MergePartial W = merge_stream W (PbReply_field W) (\<lambda>raw m. m\<lparr>rp_unknown := rp_unknown m @ raw\<rparr>)"

definition PbReply_valid :: "wire_format \<Rightarrow> PbReply \<Rightarrow> bool" where
  "PbReply_valid W m \<longleftrightarrow> rp_unknown m = []"

context protobuf
begin

lemma PbReply_Serialize_fields:
  "PbReply_Serialize W m out = out @ (if rp_term m \<noteq> 0 then WriteUInt64 W 1 (rp_term m) else []) @
     (if rp_ans m then WriteBool W 2 (rp_ans m) else []) @
     (if rp_unknown m \<noteq> [] \<and> PreserveUnknowns W then rp_unknown m else [])"
  by (simp add: PbReply_Serialize_def Let_def split: option.split)

lemma PbReply_array: "PbReply_SerializeToArray W m target = target @ PbReply_Serialize W m []"
  by (subst PbReply_Serialize_fields) (simp add: PbReply_SerializeToArray_def Let_def array_laws)

lemma PbReply_size: "PbReply_valid W m \<Longrightarrow> length (PbReply_Serialize W m []) = PbReply_ByteSizeLong W m"
  by (simp add: PbReply_Serialize_fields PbReply_ByteSizeLong_def PbReply_valid_def Let_def size_laws)

lemma PbReply_fields:
  "PbReply_field W (MakeTag 1 0) input m = read_value (ReadUInt64 W) (\<lambda>v. m\<lparr>rp_term := v\<rparr>) input"
  "PbReply_field W (MakeTag 2 0) input m = read_value (ReadBool W) (\<lambda>v. m\<lparr>rp_ans := v\<rparr>) input"
  "PbReply_field W 0 = (\<lambda>input m. Unusual)"
  by (simp_all add: PbReply_field_def tag_number tag_zero tag_is_MakeTag fun_eq_iff)

lemma PbReply_ends: "PbReply_MergePartial W input m \<noteq> OutOfFuel"
  unfolding PbReply_MergePartial_def
  by (intro merge_stream_ends PbReply_fields(3))
    (simp add: PbReply_field_def, intro forward_laws )

lemma PbReply_roundtrip:
  assumes "PbReply_valid W m"
  shows "PbReply_MergePartial W (PbReply_Serialize W m []) PbReply0 = ParseSuccess True m"
proof -
  have bytes: "PbReply_Serialize W m [] = (if rp_term m \<noteq> 0 then WriteUInt64 W 1 (rp_term m) else []) @
     (if rp_ans m then WriteBool W 2 (rp_ans m) else []) @ []"
    using assms by (auto simp: PbReply_Serialize_fields PbReply_valid_def  cong: option.case_cong)
  show ?thesis
    unfolding PbReply_MergePartial_def bytes
    apply (rule reads_stream)
    apply (rule reads_uint64, simp, simp, rule PbReply_fields(1), simp add: PbReply0_def)
    apply (rule reads_bool, simp, simp, rule PbReply_fields(2), simp add: PbReply0_def)
    apply (rule reads_end, simp add: PbReply_fields, use assms in \<open>cases m, simp add: PbReply0_def PbReply_valid_def\<close>)
    done
qed

end

section \<open>PbServerId\<close>

definition PbServerId_ByteSizeLong :: "wire_format \<Rightarrow> PbServerId \<Rightarrow> nat" where
  "PbServerId_ByteSizeLong W m = (
     let total_size = (if si_unknown m \<noteq> [] \<and> PreserveUnknowns W then length (si_unknown m) else 0);
         total_size = (if length (si_addr m) > 0 then total_size + (1 + StringSize W (si_addr m)) else total_size);
         total_size = (if si_port m \<noteq> 0 then total_size + (1 + UInt32Size W (si_port m)) else total_size)
     in total_size)"

definition PbServerId_Serialize :: "wire_format \<Rightarrow> PbServerId \<Rightarrow> string \<Rightarrow> string" where
  "PbServerId_Serialize W m out = (
     let out = (if length (si_addr m) > 0 then out @ WriteString W 1 (si_addr m) else out);
         out = (if si_port m \<noteq> 0 then out @ WriteUInt32 W 2 (si_port m) else out);
         out = (if si_unknown m \<noteq> [] \<and> PreserveUnknowns W then out @ si_unknown m else out)
     in out)"

definition PbServerId_SerializeToArray :: "wire_format \<Rightarrow> PbServerId \<Rightarrow> string \<Rightarrow> string" where
  "PbServerId_SerializeToArray W m target = (
     let target = (if length (si_addr m) > 0 then WriteStringToArray W 1 (si_addr m) target else target);
         target = (if si_port m \<noteq> 0 then WriteUInt32ToArray W 2 (si_port m) target else target);
         target = (if si_unknown m \<noteq> [] \<and> PreserveUnknowns W then target @ si_unknown m else target)
     in target)"

definition PbServerId_field :: "wire_format \<Rightarrow> 32 word \<Rightarrow> string \<Rightarrow> PbServerId \<Rightarrow> PbServerId field_result" where
  "PbServerId_field W tag input m = (
     if TagFieldNumber W tag = 1 then
       (if tag_is 10 tag then read_string W (\<lambda>v. m\<lparr>si_addr := v\<rparr>) input
        else Unusual)
     else if TagFieldNumber W tag = 2 then
       (if tag_is 16 tag then read_value (ReadUInt32 W) (\<lambda>v. m\<lparr>si_port := v\<rparr>) input
        else Unusual)
     else Unusual)"

definition PbServerId_MergePartial :: "wire_format \<Rightarrow> string \<Rightarrow> PbServerId \<Rightarrow> PbServerId parse_result" where
  "PbServerId_MergePartial W = merge_stream W (PbServerId_field W) (\<lambda>raw m. m\<lparr>si_unknown := si_unknown m @ raw\<rparr>)"

definition PbServerId_valid :: "wire_format \<Rightarrow> PbServerId \<Rightarrow> bool" where
  "PbServerId_valid W m \<longleftrightarrow> si_unknown m = [] \<and>
     length (si_addr m) < 2 ^ 31 \<and> VerifyUtf8String W (si_addr m)"

context protobuf
begin

lemma PbServerId_Serialize_fields:
  "PbServerId_Serialize W m out = out @ (if length (si_addr m) > 0 then WriteString W 1 (si_addr m) else []) @
     (if si_port m \<noteq> 0 then WriteUInt32 W 2 (si_port m) else []) @
     (if si_unknown m \<noteq> [] \<and> PreserveUnknowns W then si_unknown m else [])"
  by (simp add: PbServerId_Serialize_def Let_def split: option.split)

lemma PbServerId_array: "PbServerId_SerializeToArray W m target = target @ PbServerId_Serialize W m []"
  by (subst PbServerId_Serialize_fields) (simp add: PbServerId_SerializeToArray_def Let_def array_laws)

lemma PbServerId_size: "PbServerId_valid W m \<Longrightarrow> length (PbServerId_Serialize W m []) = PbServerId_ByteSizeLong W m"
  by (simp add: PbServerId_Serialize_fields PbServerId_ByteSizeLong_def PbServerId_valid_def Let_def size_laws)

lemma PbServerId_written: "0 < n \<Longrightarrow> n < 16 \<Longrightarrow> PbServerId_valid W s \<Longrightarrow> PbServerId_ByteSizeLong W s < 2 ^ 31 \<Longrightarrow>
    length (WriteMessage W n (PbServerId_ByteSizeLong W s) (PbServerId_Serialize W s [])) = 1 + MessageSize W (PbServerId_ByteSizeLong W s)"
  using message_size [of n "PbServerId_Serialize W s []"] by (simp add: PbServerId_size)

lemma PbServerId_fields:
  "PbServerId_field W (MakeTag 1 2) input m = read_string W (\<lambda>v. m\<lparr>si_addr := v\<rparr>) input"
  "PbServerId_field W (MakeTag 2 0) input m = read_value (ReadUInt32 W) (\<lambda>v. m\<lparr>si_port := v\<rparr>) input"
  "PbServerId_field W 0 = (\<lambda>input m. Unusual)"
  by (simp_all add: PbServerId_field_def tag_number tag_zero tag_is_MakeTag fun_eq_iff)

lemma PbServerId_ends: "PbServerId_MergePartial W input m \<noteq> OutOfFuel"
  unfolding PbServerId_MergePartial_def
  by (intro merge_stream_ends PbServerId_fields(3))
    (simp add: PbServerId_field_def, intro forward_laws )

lemma PbServerId_roundtrip:
  assumes "PbServerId_valid W m"
  shows "PbServerId_MergePartial W (PbServerId_Serialize W m []) PbServerId0 = ParseSuccess True m"
proof -
  have bytes: "PbServerId_Serialize W m [] = (if length (si_addr m) > 0 then WriteString W 1 (si_addr m) else []) @
     (if si_port m \<noteq> 0 then WriteUInt32 W 2 (si_port m) else []) @ []"
    using assms by (auto simp: PbServerId_Serialize_fields PbServerId_valid_def  cong: option.case_cong)
  show ?thesis
    unfolding PbServerId_MergePartial_def bytes
    apply (rule reads_stream)
    apply (rule reads_string, simp, simp, use assms in \<open>simp add: PbServerId_valid_def\<close>, use assms in \<open>simp add: PbServerId_valid_def\<close>, rule PbServerId_fields(1), simp add: PbServerId0_def)
    apply (rule reads_uint32, simp, simp, rule PbServerId_fields(2), simp add: PbServerId0_def)
    apply (rule reads_end, simp add: PbServerId_fields, use assms in \<open>cases m, simp add: PbServerId0_def PbServerId_valid_def\<close>)
    done
qed

end

section \<open>PbLogEntry\<close>

definition PbLogEntry_ByteSizeLong :: "wire_format \<Rightarrow> PbLogEntry \<Rightarrow> nat" where
  "PbLogEntry_ByteSizeLong W m = (
     let total_size = (if lg_unknown m \<noteq> [] \<and> PreserveUnknowns W then length (lg_unknown m) else 0);
         total_size = (if length (lg_opname m) > 0 then total_size + (1 + StringSize W (lg_opname m)) else total_size);
         total_size = (if length (lg_args m) > 0 then total_size + (1 + StringSize W (lg_args m)) else total_size);
         total_size = (case lg_srvid m of None \<Rightarrow> total_size | Some s \<Rightarrow> total_size + (1 + MessageSize W (PbServerId_ByteSizeLong W s)));
         total_size = (if lg_term m \<noteq> 0 then total_size + (1 + UInt64Size W (lg_term m)) else total_size);
         total_size = (if lg_prmidx m \<noteq> 0 then total_size + (1 + UInt64Size W (lg_prmidx m)) else total_size)
     in total_size)"

definition PbLogEntry_Serialize :: "wire_format \<Rightarrow> PbLogEntry \<Rightarrow> string \<Rightarrow> string" where
  "PbLogEntry_Serialize W m out = (
     let out = (if lg_term m \<noteq> 0 then out @ WriteUInt64 W 1 (lg_term m) else out);
         out = (if length (lg_opname m) > 0 then out @ WriteString W 2 (lg_opname m) else out);
         out = (if length (lg_args m) > 0 then out @ WriteString W 3 (lg_args m) else out);
         out = (if lg_prmidx m \<noteq> 0 then out @ WriteUInt64 W 4 (lg_prmidx m) else out);
         out = (case lg_srvid m of None \<Rightarrow> out | Some s \<Rightarrow> out @ WriteMessage W 5 (PbServerId_ByteSizeLong W s) (PbServerId_Serialize W s []));
         out = (if lg_unknown m \<noteq> [] \<and> PreserveUnknowns W then out @ lg_unknown m else out)
     in out)"

definition PbLogEntry_SerializeToArray :: "wire_format \<Rightarrow> PbLogEntry \<Rightarrow> string \<Rightarrow> string" where
  "PbLogEntry_SerializeToArray W m target = (
     let target = (if lg_term m \<noteq> 0 then WriteUInt64ToArray W 1 (lg_term m) target else target);
         target = (if length (lg_opname m) > 0 then WriteStringToArray W 2 (lg_opname m) target else target);
         target = (if length (lg_args m) > 0 then WriteStringToArray W 3 (lg_args m) target else target);
         target = (if lg_prmidx m \<noteq> 0 then WriteUInt64ToArray W 4 (lg_prmidx m) target else target);
         target = (case lg_srvid m of None \<Rightarrow> target | Some s \<Rightarrow> WriteMessageToArray W 5 (PbServerId_ByteSizeLong W s) (PbServerId_SerializeToArray W s) target);
         target = (if lg_unknown m \<noteq> [] \<and> PreserveUnknowns W then target @ lg_unknown m else target)
     in target)"

definition PbLogEntry_field :: "wire_format \<Rightarrow> 32 word \<Rightarrow> string \<Rightarrow> PbLogEntry \<Rightarrow> PbLogEntry field_result" where
  "PbLogEntry_field W tag input m = (
     if TagFieldNumber W tag = 1 then
       (if tag_is 8 tag then read_value (ReadUInt64 W) (\<lambda>v. m\<lparr>lg_term := v\<rparr>) input
        else Unusual)
     else if TagFieldNumber W tag = 2 then
       (if tag_is 18 tag then read_string W (\<lambda>v. m\<lparr>lg_opname := v\<rparr>) input
        else Unusual)
     else if TagFieldNumber W tag = 3 then
       (if tag_is 26 tag then read_string W (\<lambda>v. m\<lparr>lg_args := v\<rparr>) input
        else Unusual)
     else if TagFieldNumber W tag = 4 then
       (if tag_is 32 tag then read_value (ReadUInt64 W) (\<lambda>v. m\<lparr>lg_prmidx := v\<rparr>) input
        else Unusual)
     else if TagFieldNumber W tag = 5 then
       (if tag_is 42 tag then read_message W (PbServerId_MergePartial W) (lg_get_srvid m) (\<lambda>v. m\<lparr>lg_srvid := Some v\<rparr>) input
        else Unusual)
     else Unusual)"

definition PbLogEntry_MergePartial :: "wire_format \<Rightarrow> string \<Rightarrow> PbLogEntry \<Rightarrow> PbLogEntry parse_result" where
  "PbLogEntry_MergePartial W = merge_stream W (PbLogEntry_field W) (\<lambda>raw m. m\<lparr>lg_unknown := lg_unknown m @ raw\<rparr>)"

definition PbLogEntry_valid :: "wire_format \<Rightarrow> PbLogEntry \<Rightarrow> bool" where
  "PbLogEntry_valid W m \<longleftrightarrow> lg_unknown m = [] \<and>
     length (lg_opname m) < 2 ^ 31 \<and> VerifyUtf8String W (lg_opname m) \<and>
     length (lg_args m) < 2 ^ 31 \<and> VerifyUtf8String W (lg_args m) \<and>
     (\<forall>s. lg_srvid m = Some s \<longrightarrow> PbServerId_valid W s \<and> PbServerId_ByteSizeLong W s < 2 ^ 31)"

context protobuf
begin

lemma PbLogEntry_Serialize_fields:
  "PbLogEntry_Serialize W m out = out @ (if lg_term m \<noteq> 0 then WriteUInt64 W 1 (lg_term m) else []) @
     (if length (lg_opname m) > 0 then WriteString W 2 (lg_opname m) else []) @
     (if length (lg_args m) > 0 then WriteString W 3 (lg_args m) else []) @
     (if lg_prmidx m \<noteq> 0 then WriteUInt64 W 4 (lg_prmidx m) else []) @
     (case lg_srvid m of None \<Rightarrow> [] | Some s \<Rightarrow> WriteMessage W 5 (PbServerId_ByteSizeLong W s) (PbServerId_Serialize W s [])) @
     (if lg_unknown m \<noteq> [] \<and> PreserveUnknowns W then lg_unknown m else [])"
  by (simp add: PbLogEntry_Serialize_def Let_def split: option.split)

lemma PbLogEntry_array: "PbLogEntry_SerializeToArray W m target = target @ PbLogEntry_Serialize W m []"
  by (subst PbLogEntry_Serialize_fields)
    (simp add: PbLogEntry_SerializeToArray_def Let_def array_laws message_array [OF PbServerId_array] split: option.split)

lemma PbLogEntry_size: "PbLogEntry_valid W m \<Longrightarrow> length (PbLogEntry_Serialize W m []) = PbLogEntry_ByteSizeLong W m"
  by (auto simp: PbLogEntry_Serialize_fields PbLogEntry_ByteSizeLong_def PbLogEntry_valid_def Let_def size_laws PbServerId_written
      split: option.splits)

lemma PbLogEntry_written: "0 < n \<Longrightarrow> n < 16 \<Longrightarrow> PbLogEntry_valid W s \<Longrightarrow> PbLogEntry_ByteSizeLong W s < 2 ^ 31 \<Longrightarrow>
    length (WriteMessage W n (PbLogEntry_ByteSizeLong W s) (PbLogEntry_Serialize W s [])) = 1 + MessageSize W (PbLogEntry_ByteSizeLong W s)"
  using message_size [of n "PbLogEntry_Serialize W s []"] by (simp add: PbLogEntry_size)

lemma PbLogEntry_fields:
  "PbLogEntry_field W (MakeTag 1 0) input m = read_value (ReadUInt64 W) (\<lambda>v. m\<lparr>lg_term := v\<rparr>) input"
  "PbLogEntry_field W (MakeTag 2 2) input m = read_string W (\<lambda>v. m\<lparr>lg_opname := v\<rparr>) input"
  "PbLogEntry_field W (MakeTag 3 2) input m = read_string W (\<lambda>v. m\<lparr>lg_args := v\<rparr>) input"
  "PbLogEntry_field W (MakeTag 4 0) input m = read_value (ReadUInt64 W) (\<lambda>v. m\<lparr>lg_prmidx := v\<rparr>) input"
  "PbLogEntry_field W (MakeTag 5 2) input m = read_message W (PbServerId_MergePartial W) (lg_get_srvid m) (\<lambda>v. m\<lparr>lg_srvid := Some v\<rparr>) input"
  "PbLogEntry_field W 0 = (\<lambda>input m. Unusual)"
  by (simp_all add: PbLogEntry_field_def tag_number tag_zero tag_is_MakeTag fun_eq_iff)

lemma PbLogEntry_ends: "PbLogEntry_MergePartial W input m \<noteq> OutOfFuel"
  unfolding PbLogEntry_MergePartial_def
  by (intro merge_stream_ends PbLogEntry_fields(6))
    (simp add: PbLogEntry_field_def, intro forward_laws forward_message [OF PbServerId_ends])

lemma PbLogEntry_roundtrip:
  assumes "PbLogEntry_valid W m"
  shows "PbLogEntry_MergePartial W (PbLogEntry_Serialize W m []) PbLogEntry0 = ParseSuccess True m"
proof -
  have bytes: "PbLogEntry_Serialize W m [] = (if lg_term m \<noteq> 0 then WriteUInt64 W 1 (lg_term m) else []) @
     (if length (lg_opname m) > 0 then WriteString W 2 (lg_opname m) else []) @
     (if length (lg_args m) > 0 then WriteString W 3 (lg_args m) else []) @
     (if lg_prmidx m \<noteq> 0 then WriteUInt64 W 4 (lg_prmidx m) else []) @
     (case lg_srvid m of None \<Rightarrow> [] | Some s \<Rightarrow> WriteMessage W 5 (length (PbServerId_Serialize W s [])) (PbServerId_Serialize W s [])) @ []"
    using assms by (auto simp: PbLogEntry_Serialize_fields PbLogEntry_valid_def PbServerId_size cong: option.case_cong)
  show ?thesis
    unfolding PbLogEntry_MergePartial_def bytes
    apply (rule reads_stream)
    apply (rule reads_uint64, simp, simp, rule PbLogEntry_fields(1), simp add: PbLogEntry0_def)
    apply (rule reads_string, simp, simp, use assms in \<open>simp add: PbLogEntry_valid_def\<close>, use assms in \<open>simp add: PbLogEntry_valid_def\<close>, rule PbLogEntry_fields(2), simp add: PbLogEntry0_def)
    apply (rule reads_string, simp, simp, use assms in \<open>simp add: PbLogEntry_valid_def\<close>, use assms in \<open>simp add: PbLogEntry_valid_def\<close>, rule PbLogEntry_fields(3), simp add: PbLogEntry0_def)
    apply (rule reads_uint64, simp, simp, rule PbLogEntry_fields(4), simp add: PbLogEntry0_def)
    apply (rule reads_option [where ?m1.0 = "PbLogEntry0\<lparr>lg_term := lg_term m, lg_opname := lg_opname m, lg_args := lg_args m, lg_prmidx := lg_prmidx m, lg_srvid := lg_srvid m\<rparr>"], simp, simp, rule PbLogEntry_fields(5),
      use assms in \<open>simp add: PbLogEntry_valid_def PbServerId_size lg_get_srvid_def PbLogEntry0_def PbServerId_roundtrip\<close>, simp add: PbLogEntry0_def, simp)
    apply (rule reads_end, simp add: PbLogEntry_fields, use assms in \<open>cases m, simp add: PbLogEntry0_def PbLogEntry_valid_def\<close>)
    done
qed

end

section \<open>PbAppendEntriesMessage\<close>

definition PbAppendEntriesMessage_ByteSizeLong :: "wire_format \<Rightarrow> PbAppendEntriesMessage \<Rightarrow> nat" where
  "PbAppendEntriesMessage_ByteSizeLong W m = (
     let total_size = (if am_unknown m \<noteq> [] \<and> PreserveUnknowns W then length (am_unknown m) else 0);
         total_size = total_size + 1 * length (am_logentries m);
         total_size = foldl (\<lambda>total_size s. total_size + MessageSize W (PbLogEntry_ByteSizeLong W s)) total_size (am_logentries m);
         total_size = (case am_leaderid m of None \<Rightarrow> total_size | Some s \<Rightarrow> total_size + (1 + MessageSize W (PbServerId_ByteSizeLong W s)));
         total_size = (if am_term m \<noteq> 0 then total_size + (1 + UInt64Size W (am_term m)) else total_size);
         total_size = (if am_prevlogidx m \<noteq> 0 then total_size + (1 + UInt64Size W (am_prevlogidx m)) else total_size);
         total_size = (if am_prevlogterm m \<noteq> 0 then total_size + (1 + UInt64Size W (am_prevlogterm m)) else total_size);
         total_size = (if am_commitidx m \<noteq> 0 then total_size + (1 + UInt64Size W (am_commitidx m)) else total_size)
     in total_size)"

definition PbAppendEntriesMessage_Serialize :: "wire_format \<Rightarrow> PbAppendEntriesMessage \<Rightarrow> string \<Rightarrow> string" where
  "PbAppendEntriesMessage_Serialize W m out = (
     let out = (if am_term m \<noteq> 0 then out @ WriteUInt64 W 1 (am_term m) else out);
         out = (case am_leaderid m of None \<Rightarrow> out | Some s \<Rightarrow> out @ WriteMessage W 2 (PbServerId_ByteSizeLong W s) (PbServerId_Serialize W s []));
         out = (if am_prevlogidx m \<noteq> 0 then out @ WriteUInt64 W 3 (am_prevlogidx m) else out);
         out = (if am_prevlogterm m \<noteq> 0 then out @ WriteUInt64 W 4 (am_prevlogterm m) else out);
         out = foldl (\<lambda>out s. out @ WriteMessage W 5 (PbLogEntry_ByteSizeLong W s) (PbLogEntry_Serialize W s [])) out (am_logentries m);
         out = (if am_commitidx m \<noteq> 0 then out @ WriteUInt64 W 6 (am_commitidx m) else out);
         out = (if am_unknown m \<noteq> [] \<and> PreserveUnknowns W then out @ am_unknown m else out)
     in out)"

definition PbAppendEntriesMessage_SerializeToArray :: "wire_format \<Rightarrow> PbAppendEntriesMessage \<Rightarrow> string \<Rightarrow> string" where
  "PbAppendEntriesMessage_SerializeToArray W m target = (
     let target = (if am_term m \<noteq> 0 then WriteUInt64ToArray W 1 (am_term m) target else target);
         target = (case am_leaderid m of None \<Rightarrow> target | Some s \<Rightarrow> WriteMessageToArray W 2 (PbServerId_ByteSizeLong W s) (PbServerId_SerializeToArray W s) target);
         target = (if am_prevlogidx m \<noteq> 0 then WriteUInt64ToArray W 3 (am_prevlogidx m) target else target);
         target = (if am_prevlogterm m \<noteq> 0 then WriteUInt64ToArray W 4 (am_prevlogterm m) target else target);
         target = foldl (\<lambda>target s. WriteMessageToArray W 5 (PbLogEntry_ByteSizeLong W s) (PbLogEntry_SerializeToArray W s) target) target (am_logentries m);
         target = (if am_commitidx m \<noteq> 0 then WriteUInt64ToArray W 6 (am_commitidx m) target else target);
         target = (if am_unknown m \<noteq> [] \<and> PreserveUnknowns W then target @ am_unknown m else target)
     in target)"

definition PbAppendEntriesMessage_field :: "wire_format \<Rightarrow> 32 word \<Rightarrow> string \<Rightarrow> PbAppendEntriesMessage \<Rightarrow> PbAppendEntriesMessage field_result" where
  "PbAppendEntriesMessage_field W tag input m = (
     if TagFieldNumber W tag = 1 then
       (if tag_is 8 tag then read_value (ReadUInt64 W) (\<lambda>v. m\<lparr>am_term := v\<rparr>) input
        else Unusual)
     else if TagFieldNumber W tag = 2 then
       (if tag_is 18 tag then read_message W (PbServerId_MergePartial W) (am_get_leaderid m) (\<lambda>v. m\<lparr>am_leaderid := Some v\<rparr>) input
        else Unusual)
     else if TagFieldNumber W tag = 3 then
       (if tag_is 24 tag then read_value (ReadUInt64 W) (\<lambda>v. m\<lparr>am_prevlogidx := v\<rparr>) input
        else Unusual)
     else if TagFieldNumber W tag = 4 then
       (if tag_is 32 tag then read_value (ReadUInt64 W) (\<lambda>v. m\<lparr>am_prevlogterm := v\<rparr>) input
        else Unusual)
     else if TagFieldNumber W tag = 5 then
       (if tag_is 42 tag then read_message W (PbLogEntry_MergePartial W) PbLogEntry0 (\<lambda>v. m\<lparr>am_logentries := am_logentries m @ [v]\<rparr>) input
        else Unusual)
     else if TagFieldNumber W tag = 6 then
       (if tag_is 48 tag then read_value (ReadUInt64 W) (\<lambda>v. m\<lparr>am_commitidx := v\<rparr>) input
        else Unusual)
     else Unusual)"

definition PbAppendEntriesMessage_MergePartial :: "wire_format \<Rightarrow> string \<Rightarrow> PbAppendEntriesMessage \<Rightarrow> PbAppendEntriesMessage parse_result" where
  "PbAppendEntriesMessage_MergePartial W = merge_stream W (PbAppendEntriesMessage_field W) (\<lambda>raw m. m\<lparr>am_unknown := am_unknown m @ raw\<rparr>)"

definition PbAppendEntriesMessage_valid :: "wire_format \<Rightarrow> PbAppendEntriesMessage \<Rightarrow> bool" where
  "PbAppendEntriesMessage_valid W m \<longleftrightarrow> am_unknown m = [] \<and>
     (\<forall>s. am_leaderid m = Some s \<longrightarrow> PbServerId_valid W s \<and> PbServerId_ByteSizeLong W s < 2 ^ 31) \<and>
     (\<forall>s \<in> set (am_logentries m). PbLogEntry_valid W s \<and> PbLogEntry_ByteSizeLong W s < 2 ^ 31)"

context protobuf
begin

lemma PbAppendEntriesMessage_Serialize_fields:
  "PbAppendEntriesMessage_Serialize W m out = out @ (if am_term m \<noteq> 0 then WriteUInt64 W 1 (am_term m) else []) @
     (case am_leaderid m of None \<Rightarrow> [] | Some s \<Rightarrow> WriteMessage W 2 (PbServerId_ByteSizeLong W s) (PbServerId_Serialize W s [])) @
     (if am_prevlogidx m \<noteq> 0 then WriteUInt64 W 3 (am_prevlogidx m) else []) @
     (if am_prevlogterm m \<noteq> 0 then WriteUInt64 W 4 (am_prevlogterm m) else []) @
     concat (map (\<lambda>s. WriteMessage W 5 (PbLogEntry_ByteSizeLong W s) (PbLogEntry_Serialize W s [])) (am_logentries m)) @
     (if am_commitidx m \<noteq> 0 then WriteUInt64 W 6 (am_commitidx m) else []) @
     (if am_unknown m \<noteq> [] \<and> PreserveUnknowns W then am_unknown m else [])"
  by (simp add: PbAppendEntriesMessage_Serialize_def Let_def foldl_append_concat split: option.split)

lemma PbAppendEntriesMessage_array: "PbAppendEntriesMessage_SerializeToArray W m target = target @ PbAppendEntriesMessage_Serialize W m []"
  by (subst PbAppendEntriesMessage_Serialize_fields)
    (simp add: PbAppendEntriesMessage_SerializeToArray_def Let_def array_laws message_array [OF PbLogEntry_array] message_array [OF PbServerId_array] foldl_append_concat split: option.split)

lemma PbAppendEntriesMessage_size: "PbAppendEntriesMessage_valid W m \<Longrightarrow> length (PbAppendEntriesMessage_Serialize W m []) = PbAppendEntriesMessage_ByteSizeLong W m"
  by (auto simp: PbAppendEntriesMessage_Serialize_fields PbAppendEntriesMessage_ByteSizeLong_def PbAppendEntriesMessage_valid_def Let_def size_laws PbLogEntry_written PbServerId_written length_concat comp_def foldl_plus_map sum_list_Suc [OF PbLogEntry_written]
      split: option.splits)

lemma PbAppendEntriesMessage_fields:
  "PbAppendEntriesMessage_field W (MakeTag 1 0) input m = read_value (ReadUInt64 W) (\<lambda>v. m\<lparr>am_term := v\<rparr>) input"
  "PbAppendEntriesMessage_field W (MakeTag 2 2) input m = read_message W (PbServerId_MergePartial W) (am_get_leaderid m) (\<lambda>v. m\<lparr>am_leaderid := Some v\<rparr>) input"
  "PbAppendEntriesMessage_field W (MakeTag 3 0) input m = read_value (ReadUInt64 W) (\<lambda>v. m\<lparr>am_prevlogidx := v\<rparr>) input"
  "PbAppendEntriesMessage_field W (MakeTag 4 0) input m = read_value (ReadUInt64 W) (\<lambda>v. m\<lparr>am_prevlogterm := v\<rparr>) input"
  "PbAppendEntriesMessage_field W (MakeTag 5 2) input m = read_message W (PbLogEntry_MergePartial W) PbLogEntry0 (\<lambda>v. m\<lparr>am_logentries := am_logentries m @ [v]\<rparr>) input"
  "PbAppendEntriesMessage_field W (MakeTag 6 0) input m = read_value (ReadUInt64 W) (\<lambda>v. m\<lparr>am_commitidx := v\<rparr>) input"
  "PbAppendEntriesMessage_field W 0 = (\<lambda>input m. Unusual)"
  by (simp_all add: PbAppendEntriesMessage_field_def tag_number tag_zero tag_is_MakeTag fun_eq_iff)

lemma PbAppendEntriesMessage_ends: "PbAppendEntriesMessage_MergePartial W input m \<noteq> OutOfFuel"
  unfolding PbAppendEntriesMessage_MergePartial_def
  by (intro merge_stream_ends PbAppendEntriesMessage_fields(7))
    (simp add: PbAppendEntriesMessage_field_def, intro forward_laws forward_message [OF PbLogEntry_ends] forward_message [OF PbServerId_ends])

lemma PbAppendEntriesMessage_roundtrip:
  assumes "PbAppendEntriesMessage_valid W m"
  shows "PbAppendEntriesMessage_MergePartial W (PbAppendEntriesMessage_Serialize W m []) PbAppendEntriesMessage0 = ParseSuccess True m"
proof -
  have bytes: "PbAppendEntriesMessage_Serialize W m [] = (if am_term m \<noteq> 0 then WriteUInt64 W 1 (am_term m) else []) @
     (case am_leaderid m of None \<Rightarrow> [] | Some s \<Rightarrow> WriteMessage W 2 (length (PbServerId_Serialize W s [])) (PbServerId_Serialize W s [])) @
     (if am_prevlogidx m \<noteq> 0 then WriteUInt64 W 3 (am_prevlogidx m) else []) @
     (if am_prevlogterm m \<noteq> 0 then WriteUInt64 W 4 (am_prevlogterm m) else []) @
     concat (map (\<lambda>s. WriteMessage W 5 (length (PbLogEntry_Serialize W s [])) (PbLogEntry_Serialize W s [])) (am_logentries m)) @
     (if am_commitidx m \<noteq> 0 then WriteUInt64 W 6 (am_commitidx m) else []) @ []"
    using assms by (auto simp: PbAppendEntriesMessage_Serialize_fields PbAppendEntriesMessage_valid_def PbLogEntry_size PbServerId_size cong: option.case_cong intro!: arg_cong [where f = concat] map_cong)
  show ?thesis
    unfolding PbAppendEntriesMessage_MergePartial_def bytes
    apply (rule reads_stream)
    apply (rule reads_uint64, simp, simp, rule PbAppendEntriesMessage_fields(1), simp add: PbAppendEntriesMessage0_def)
    apply (rule reads_option [where ?m1.0 = "PbAppendEntriesMessage0\<lparr>am_term := am_term m, am_leaderid := am_leaderid m\<rparr>"], simp, simp, rule PbAppendEntriesMessage_fields(2),
      use assms in \<open>simp add: PbAppendEntriesMessage_valid_def PbServerId_size am_get_leaderid_def PbAppendEntriesMessage0_def PbServerId_roundtrip\<close>, simp add: PbAppendEntriesMessage0_def, simp)
    apply (rule reads_uint64, simp, simp, rule PbAppendEntriesMessage_fields(3), simp add: PbAppendEntriesMessage0_def)
    apply (rule reads_uint64, simp, simp, rule PbAppendEntriesMessage_fields(4), simp add: PbAppendEntriesMessage0_def)
    apply (rule reads_repeated, simp, simp, rule PbAppendEntriesMessage_fields(5), use assms in \<open>simp add: PbAppendEntriesMessage_valid_def PbLogEntry_size PbLogEntry_roundtrip\<close>)
    apply (subst foldl_add_logentries)
    apply (rule reads_uint64, simp, simp, rule PbAppendEntriesMessage_fields(6), simp add: PbAppendEntriesMessage0_def)
    apply (rule reads_end, simp add: PbAppendEntriesMessage_fields, use assms in \<open>cases m, simp add: PbAppendEntriesMessage0_def PbAppendEntriesMessage_valid_def\<close>)
    done
qed

end

section \<open>PbRequestVoteMessage\<close>

definition PbRequestVoteMessage_ByteSizeLong :: "wire_format \<Rightarrow> PbRequestVoteMessage \<Rightarrow> nat" where
  "PbRequestVoteMessage_ByteSizeLong W m = (
     let total_size = (if vm_unknown m \<noteq> [] \<and> PreserveUnknowns W then length (vm_unknown m) else 0);
         total_size = (case vm_candidateid m of None \<Rightarrow> total_size | Some s \<Rightarrow> total_size + (1 + MessageSize W (PbServerId_ByteSizeLong W s)));
         total_size = (if vm_term m \<noteq> 0 then total_size + (1 + UInt64Size W (vm_term m)) else total_size);
         total_size = (if vm_lastlogidx m \<noteq> 0 then total_size + (1 + UInt64Size W (vm_lastlogidx m)) else total_size);
         total_size = (if vm_lastlogterm m \<noteq> 0 then total_size + (1 + UInt64Size W (vm_lastlogterm m)) else total_size)
     in total_size)"

definition PbRequestVoteMessage_Serialize :: "wire_format \<Rightarrow> PbRequestVoteMessage \<Rightarrow> string \<Rightarrow> string" where
  "PbRequestVoteMessage_Serialize W m out = (
     let out = (if vm_term m \<noteq> 0 then out @ WriteUInt64 W 1 (vm_term m) else out);
         out = (case vm_candidateid m of None \<Rightarrow> out | Some s \<Rightarrow> out @ WriteMessage W 2 (PbServerId_ByteSizeLong W s) (PbServerId_Serialize W s []));
         out = (if vm_lastlogidx m \<noteq> 0 then out @ WriteUInt64 W 3 (vm_lastlogidx m) else out);
         out = (if vm_lastlogterm m \<noteq> 0 then out @ WriteUInt64 W 4 (vm_lastlogterm m) else out);
         out = (if vm_unknown m \<noteq> [] \<and> PreserveUnknowns W then out @ vm_unknown m else out)
     in out)"

definition PbRequestVoteMessage_SerializeToArray :: "wire_format \<Rightarrow> PbRequestVoteMessage \<Rightarrow> string \<Rightarrow> string" where
  "PbRequestVoteMessage_SerializeToArray W m target = (
     let target = (if vm_term m \<noteq> 0 then WriteUInt64ToArray W 1 (vm_term m) target else target);
         target = (case vm_candidateid m of None \<Rightarrow> target | Some s \<Rightarrow> WriteMessageToArray W 2 (PbServerId_ByteSizeLong W s) (PbServerId_SerializeToArray W s) target);
         target = (if vm_lastlogidx m \<noteq> 0 then WriteUInt64ToArray W 3 (vm_lastlogidx m) target else target);
         target = (if vm_lastlogterm m \<noteq> 0 then WriteUInt64ToArray W 4 (vm_lastlogterm m) target else target);
         target = (if vm_unknown m \<noteq> [] \<and> PreserveUnknowns W then target @ vm_unknown m else target)
     in target)"

definition PbRequestVoteMessage_field :: "wire_format \<Rightarrow> 32 word \<Rightarrow> string \<Rightarrow> PbRequestVoteMessage \<Rightarrow> PbRequestVoteMessage field_result" where
  "PbRequestVoteMessage_field W tag input m = (
     if TagFieldNumber W tag = 1 then
       (if tag_is 8 tag then read_value (ReadUInt64 W) (\<lambda>v. m\<lparr>vm_term := v\<rparr>) input
        else Unusual)
     else if TagFieldNumber W tag = 2 then
       (if tag_is 18 tag then read_message W (PbServerId_MergePartial W) (vm_get_candidateid m) (\<lambda>v. m\<lparr>vm_candidateid := Some v\<rparr>) input
        else Unusual)
     else if TagFieldNumber W tag = 3 then
       (if tag_is 24 tag then read_value (ReadUInt64 W) (\<lambda>v. m\<lparr>vm_lastlogidx := v\<rparr>) input
        else Unusual)
     else if TagFieldNumber W tag = 4 then
       (if tag_is 32 tag then read_value (ReadUInt64 W) (\<lambda>v. m\<lparr>vm_lastlogterm := v\<rparr>) input
        else Unusual)
     else Unusual)"

definition PbRequestVoteMessage_MergePartial :: "wire_format \<Rightarrow> string \<Rightarrow> PbRequestVoteMessage \<Rightarrow> PbRequestVoteMessage parse_result" where
  "PbRequestVoteMessage_MergePartial W = merge_stream W (PbRequestVoteMessage_field W) (\<lambda>raw m. m\<lparr>vm_unknown := vm_unknown m @ raw\<rparr>)"

definition PbRequestVoteMessage_valid :: "wire_format \<Rightarrow> PbRequestVoteMessage \<Rightarrow> bool" where
  "PbRequestVoteMessage_valid W m \<longleftrightarrow> vm_unknown m = [] \<and>
     (\<forall>s. vm_candidateid m = Some s \<longrightarrow> PbServerId_valid W s \<and> PbServerId_ByteSizeLong W s < 2 ^ 31)"

context protobuf
begin

lemma PbRequestVoteMessage_Serialize_fields:
  "PbRequestVoteMessage_Serialize W m out = out @ (if vm_term m \<noteq> 0 then WriteUInt64 W 1 (vm_term m) else []) @
     (case vm_candidateid m of None \<Rightarrow> [] | Some s \<Rightarrow> WriteMessage W 2 (PbServerId_ByteSizeLong W s) (PbServerId_Serialize W s [])) @
     (if vm_lastlogidx m \<noteq> 0 then WriteUInt64 W 3 (vm_lastlogidx m) else []) @
     (if vm_lastlogterm m \<noteq> 0 then WriteUInt64 W 4 (vm_lastlogterm m) else []) @
     (if vm_unknown m \<noteq> [] \<and> PreserveUnknowns W then vm_unknown m else [])"
  by (simp add: PbRequestVoteMessage_Serialize_def Let_def split: option.split)

lemma PbRequestVoteMessage_array: "PbRequestVoteMessage_SerializeToArray W m target = target @ PbRequestVoteMessage_Serialize W m []"
  by (subst PbRequestVoteMessage_Serialize_fields)
    (simp add: PbRequestVoteMessage_SerializeToArray_def Let_def array_laws message_array [OF PbServerId_array] split: option.split)

lemma PbRequestVoteMessage_size: "PbRequestVoteMessage_valid W m \<Longrightarrow> length (PbRequestVoteMessage_Serialize W m []) = PbRequestVoteMessage_ByteSizeLong W m"
  by (auto simp: PbRequestVoteMessage_Serialize_fields PbRequestVoteMessage_ByteSizeLong_def PbRequestVoteMessage_valid_def Let_def size_laws PbServerId_written
      split: option.splits)

lemma PbRequestVoteMessage_fields:
  "PbRequestVoteMessage_field W (MakeTag 1 0) input m = read_value (ReadUInt64 W) (\<lambda>v. m\<lparr>vm_term := v\<rparr>) input"
  "PbRequestVoteMessage_field W (MakeTag 2 2) input m = read_message W (PbServerId_MergePartial W) (vm_get_candidateid m) (\<lambda>v. m\<lparr>vm_candidateid := Some v\<rparr>) input"
  "PbRequestVoteMessage_field W (MakeTag 3 0) input m = read_value (ReadUInt64 W) (\<lambda>v. m\<lparr>vm_lastlogidx := v\<rparr>) input"
  "PbRequestVoteMessage_field W (MakeTag 4 0) input m = read_value (ReadUInt64 W) (\<lambda>v. m\<lparr>vm_lastlogterm := v\<rparr>) input"
  "PbRequestVoteMessage_field W 0 = (\<lambda>input m. Unusual)"
  by (simp_all add: PbRequestVoteMessage_field_def tag_number tag_zero tag_is_MakeTag fun_eq_iff)

lemma PbRequestVoteMessage_ends: "PbRequestVoteMessage_MergePartial W input m \<noteq> OutOfFuel"
  unfolding PbRequestVoteMessage_MergePartial_def
  by (intro merge_stream_ends PbRequestVoteMessage_fields(5))
    (simp add: PbRequestVoteMessage_field_def, intro forward_laws forward_message [OF PbServerId_ends])

lemma PbRequestVoteMessage_roundtrip:
  assumes "PbRequestVoteMessage_valid W m"
  shows "PbRequestVoteMessage_MergePartial W (PbRequestVoteMessage_Serialize W m []) PbRequestVoteMessage0 = ParseSuccess True m"
proof -
  have bytes: "PbRequestVoteMessage_Serialize W m [] = (if vm_term m \<noteq> 0 then WriteUInt64 W 1 (vm_term m) else []) @
     (case vm_candidateid m of None \<Rightarrow> [] | Some s \<Rightarrow> WriteMessage W 2 (length (PbServerId_Serialize W s [])) (PbServerId_Serialize W s [])) @
     (if vm_lastlogidx m \<noteq> 0 then WriteUInt64 W 3 (vm_lastlogidx m) else []) @
     (if vm_lastlogterm m \<noteq> 0 then WriteUInt64 W 4 (vm_lastlogterm m) else []) @ []"
    using assms by (auto simp: PbRequestVoteMessage_Serialize_fields PbRequestVoteMessage_valid_def PbServerId_size cong: option.case_cong)
  show ?thesis
    unfolding PbRequestVoteMessage_MergePartial_def bytes
    apply (rule reads_stream)
    apply (rule reads_uint64, simp, simp, rule PbRequestVoteMessage_fields(1), simp add: PbRequestVoteMessage0_def)
    apply (rule reads_option [where ?m1.0 = "PbRequestVoteMessage0\<lparr>vm_term := vm_term m, vm_candidateid := vm_candidateid m\<rparr>"], simp, simp, rule PbRequestVoteMessage_fields(2),
      use assms in \<open>simp add: PbRequestVoteMessage_valid_def PbServerId_size vm_get_candidateid_def PbRequestVoteMessage0_def PbServerId_roundtrip\<close>, simp add: PbRequestVoteMessage0_def, simp)
    apply (rule reads_uint64, simp, simp, rule PbRequestVoteMessage_fields(3), simp add: PbRequestVoteMessage0_def)
    apply (rule reads_uint64, simp, simp, rule PbRequestVoteMessage_fields(4), simp add: PbRequestVoteMessage0_def)
    apply (rule reads_end, simp add: PbRequestVoteMessage_fields, use assms in \<open>cases m, simp add: PbRequestVoteMessage0_def PbRequestVoteMessage_valid_def\<close>)
    done
qed

end

section \<open>PbAddLogMessage\<close>

definition PbAddLogMessage_ByteSizeLong :: "wire_format \<Rightarrow> PbAddLogMessage \<Rightarrow> nat" where
  "PbAddLogMessage_ByteSizeLong W m = (
     let total_size = (if lm_unknown m \<noteq> [] \<and> PreserveUnknowns W then length (lm_unknown m) else 0);
         total_size = (if length (lm_opname m) > 0 then total_size + (1 + StringSize W (lm_opname m)) else total_size);
         total_size = (if length (lm_args m) > 0 then total_size + (1 + StringSize W (lm_args m)) else total_size);
         total_size = (case lm_srvid m of None \<Rightarrow> total_size | Some s \<Rightarrow> total_size + (1 + MessageSize W (PbServerId_ByteSizeLong W s)));
         total_size = (if lm_prmidx m \<noteq> 0 then total_size + (1 + UInt64Size W (lm_prmidx m)) else total_size)
     in total_size)"

definition PbAddLogMessage_Serialize :: "wire_format \<Rightarrow> PbAddLogMessage \<Rightarrow> string \<Rightarrow> string" where
  "PbAddLogMessage_Serialize W m out = (
     let out = (if length (lm_opname m) > 0 then out @ WriteString W 1 (lm_opname m) else out);
         out = (if length (lm_args m) > 0 then out @ WriteString W 2 (lm_args m) else out);
         out = (if lm_prmidx m \<noteq> 0 then out @ WriteUInt64 W 3 (lm_prmidx m) else out);
         out = (case lm_srvid m of None \<Rightarrow> out | Some s \<Rightarrow> out @ WriteMessage W 4 (PbServerId_ByteSizeLong W s) (PbServerId_Serialize W s []));
         out = (if lm_unknown m \<noteq> [] \<and> PreserveUnknowns W then out @ lm_unknown m else out)
     in out)"

definition PbAddLogMessage_SerializeToArray :: "wire_format \<Rightarrow> PbAddLogMessage \<Rightarrow> string \<Rightarrow> string" where
  "PbAddLogMessage_SerializeToArray W m target = (
     let target = (if length (lm_opname m) > 0 then WriteStringToArray W 1 (lm_opname m) target else target);
         target = (if length (lm_args m) > 0 then WriteStringToArray W 2 (lm_args m) target else target);
         target = (if lm_prmidx m \<noteq> 0 then WriteUInt64ToArray W 3 (lm_prmidx m) target else target);
         target = (case lm_srvid m of None \<Rightarrow> target | Some s \<Rightarrow> WriteMessageToArray W 4 (PbServerId_ByteSizeLong W s) (PbServerId_SerializeToArray W s) target);
         target = (if lm_unknown m \<noteq> [] \<and> PreserveUnknowns W then target @ lm_unknown m else target)
     in target)"

definition PbAddLogMessage_field :: "wire_format \<Rightarrow> 32 word \<Rightarrow> string \<Rightarrow> PbAddLogMessage \<Rightarrow> PbAddLogMessage field_result" where
  "PbAddLogMessage_field W tag input m = (
     if TagFieldNumber W tag = 1 then
       (if tag_is 10 tag then read_string W (\<lambda>v. m\<lparr>lm_opname := v\<rparr>) input
        else Unusual)
     else if TagFieldNumber W tag = 2 then
       (if tag_is 18 tag then read_string W (\<lambda>v. m\<lparr>lm_args := v\<rparr>) input
        else Unusual)
     else if TagFieldNumber W tag = 3 then
       (if tag_is 24 tag then read_value (ReadUInt64 W) (\<lambda>v. m\<lparr>lm_prmidx := v\<rparr>) input
        else Unusual)
     else if TagFieldNumber W tag = 4 then
       (if tag_is 34 tag then read_message W (PbServerId_MergePartial W) (lm_get_srvid m) (\<lambda>v. m\<lparr>lm_srvid := Some v\<rparr>) input
        else Unusual)
     else Unusual)"

definition PbAddLogMessage_MergePartial :: "wire_format \<Rightarrow> string \<Rightarrow> PbAddLogMessage \<Rightarrow> PbAddLogMessage parse_result" where
  "PbAddLogMessage_MergePartial W = merge_stream W (PbAddLogMessage_field W) (\<lambda>raw m. m\<lparr>lm_unknown := lm_unknown m @ raw\<rparr>)"

definition PbAddLogMessage_valid :: "wire_format \<Rightarrow> PbAddLogMessage \<Rightarrow> bool" where
  "PbAddLogMessage_valid W m \<longleftrightarrow> lm_unknown m = [] \<and>
     length (lm_opname m) < 2 ^ 31 \<and> VerifyUtf8String W (lm_opname m) \<and>
     length (lm_args m) < 2 ^ 31 \<and> VerifyUtf8String W (lm_args m) \<and>
     (\<forall>s. lm_srvid m = Some s \<longrightarrow> PbServerId_valid W s \<and> PbServerId_ByteSizeLong W s < 2 ^ 31)"

context protobuf
begin

lemma PbAddLogMessage_Serialize_fields:
  "PbAddLogMessage_Serialize W m out = out @ (if length (lm_opname m) > 0 then WriteString W 1 (lm_opname m) else []) @
     (if length (lm_args m) > 0 then WriteString W 2 (lm_args m) else []) @
     (if lm_prmidx m \<noteq> 0 then WriteUInt64 W 3 (lm_prmidx m) else []) @
     (case lm_srvid m of None \<Rightarrow> [] | Some s \<Rightarrow> WriteMessage W 4 (PbServerId_ByteSizeLong W s) (PbServerId_Serialize W s [])) @
     (if lm_unknown m \<noteq> [] \<and> PreserveUnknowns W then lm_unknown m else [])"
  by (simp add: PbAddLogMessage_Serialize_def Let_def split: option.split)

lemma PbAddLogMessage_array: "PbAddLogMessage_SerializeToArray W m target = target @ PbAddLogMessage_Serialize W m []"
  by (subst PbAddLogMessage_Serialize_fields)
    (simp add: PbAddLogMessage_SerializeToArray_def Let_def array_laws message_array [OF PbServerId_array] split: option.split)

lemma PbAddLogMessage_size: "PbAddLogMessage_valid W m \<Longrightarrow> length (PbAddLogMessage_Serialize W m []) = PbAddLogMessage_ByteSizeLong W m"
  by (auto simp: PbAddLogMessage_Serialize_fields PbAddLogMessage_ByteSizeLong_def PbAddLogMessage_valid_def Let_def size_laws PbServerId_written
      split: option.splits)

lemma PbAddLogMessage_fields:
  "PbAddLogMessage_field W (MakeTag 1 2) input m = read_string W (\<lambda>v. m\<lparr>lm_opname := v\<rparr>) input"
  "PbAddLogMessage_field W (MakeTag 2 2) input m = read_string W (\<lambda>v. m\<lparr>lm_args := v\<rparr>) input"
  "PbAddLogMessage_field W (MakeTag 3 0) input m = read_value (ReadUInt64 W) (\<lambda>v. m\<lparr>lm_prmidx := v\<rparr>) input"
  "PbAddLogMessage_field W (MakeTag 4 2) input m = read_message W (PbServerId_MergePartial W) (lm_get_srvid m) (\<lambda>v. m\<lparr>lm_srvid := Some v\<rparr>) input"
  "PbAddLogMessage_field W 0 = (\<lambda>input m. Unusual)"
  by (simp_all add: PbAddLogMessage_field_def tag_number tag_zero tag_is_MakeTag fun_eq_iff)

lemma PbAddLogMessage_ends: "PbAddLogMessage_MergePartial W input m \<noteq> OutOfFuel"
  unfolding PbAddLogMessage_MergePartial_def
  by (intro merge_stream_ends PbAddLogMessage_fields(5))
    (simp add: PbAddLogMessage_field_def, intro forward_laws forward_message [OF PbServerId_ends])

lemma PbAddLogMessage_roundtrip:
  assumes "PbAddLogMessage_valid W m"
  shows "PbAddLogMessage_MergePartial W (PbAddLogMessage_Serialize W m []) PbAddLogMessage0 = ParseSuccess True m"
proof -
  have bytes: "PbAddLogMessage_Serialize W m [] = (if length (lm_opname m) > 0 then WriteString W 1 (lm_opname m) else []) @
     (if length (lm_args m) > 0 then WriteString W 2 (lm_args m) else []) @
     (if lm_prmidx m \<noteq> 0 then WriteUInt64 W 3 (lm_prmidx m) else []) @
     (case lm_srvid m of None \<Rightarrow> [] | Some s \<Rightarrow> WriteMessage W 4 (length (PbServerId_Serialize W s [])) (PbServerId_Serialize W s [])) @ []"
    using assms by (auto simp: PbAddLogMessage_Serialize_fields PbAddLogMessage_valid_def PbServerId_size cong: option.case_cong)
  show ?thesis
    unfolding PbAddLogMessage_MergePartial_def bytes
    apply (rule reads_stream)
    apply (rule reads_string, simp, simp, use assms in \<open>simp add: PbAddLogMessage_valid_def\<close>, use assms in \<open>simp add: PbAddLogMessage_valid_def\<close>, rule PbAddLogMessage_fields(1), simp add: PbAddLogMessage0_def)
    apply (rule reads_string, simp, simp, use assms in \<open>simp add: PbAddLogMessage_valid_def\<close>, use assms in \<open>simp add: PbAddLogMessage_valid_def\<close>, rule PbAddLogMessage_fields(2), simp add: PbAddLogMessage0_def)
    apply (rule reads_uint64, simp, simp, rule PbAddLogMessage_fields(3), simp add: PbAddLogMessage0_def)
    apply (rule reads_option [where ?m1.0 = "PbAddLogMessage0\<lparr>lm_opname := lm_opname m, lm_args := lm_args m, lm_prmidx := lm_prmidx m, lm_srvid := lm_srvid m\<rparr>"], simp, simp, rule PbAddLogMessage_fields(4),
      use assms in \<open>simp add: PbAddLogMessage_valid_def PbServerId_size lm_get_srvid_def PbAddLogMessage0_def PbServerId_roundtrip\<close>, simp add: PbAddLogMessage0_def, simp)
    apply (rule reads_end, simp add: PbAddLogMessage_fields, use assms in \<open>cases m, simp add: PbAddLogMessage0_def PbAddLogMessage_valid_def\<close>)
    done
qed

end

section \<open>PbAddLogReply\<close>

definition PbAddLogReply_ByteSizeLong :: "wire_format \<Rightarrow> PbAddLogReply \<Rightarrow> nat" where
  "PbAddLogReply_ByteSizeLong W m = (
     let total_size = (if lr_unknown m \<noteq> [] \<and> PreserveUnknowns W then length (lr_unknown m) else 0);
         total_size = (case lr_leaderid m of None \<Rightarrow> total_size | Some s \<Rightarrow> total_size + (1 + MessageSize W (PbServerId_ByteSizeLong W s)));
         total_size = (if lr_success m then total_size + (1 + 1) else total_size)
     in total_size)"

definition PbAddLogReply_Serialize :: "wire_format \<Rightarrow> PbAddLogReply \<Rightarrow> string \<Rightarrow> string" where
  "PbAddLogReply_Serialize W m out = (
     let out = (if lr_success m then out @ WriteBool W 1 (lr_success m) else out);
         out = (case lr_leaderid m of None \<Rightarrow> out | Some s \<Rightarrow> out @ WriteMessage W 2 (PbServerId_ByteSizeLong W s) (PbServerId_Serialize W s []));
         out = (if lr_unknown m \<noteq> [] \<and> PreserveUnknowns W then out @ lr_unknown m else out)
     in out)"

definition PbAddLogReply_SerializeToArray :: "wire_format \<Rightarrow> PbAddLogReply \<Rightarrow> string \<Rightarrow> string" where
  "PbAddLogReply_SerializeToArray W m target = (
     let target = (if lr_success m then WriteBoolToArray W 1 (lr_success m) target else target);
         target = (case lr_leaderid m of None \<Rightarrow> target | Some s \<Rightarrow> WriteMessageToArray W 2 (PbServerId_ByteSizeLong W s) (PbServerId_SerializeToArray W s) target);
         target = (if lr_unknown m \<noteq> [] \<and> PreserveUnknowns W then target @ lr_unknown m else target)
     in target)"

definition PbAddLogReply_field :: "wire_format \<Rightarrow> 32 word \<Rightarrow> string \<Rightarrow> PbAddLogReply \<Rightarrow> PbAddLogReply field_result" where
  "PbAddLogReply_field W tag input m = (
     if TagFieldNumber W tag = 1 then
       (if tag_is 8 tag then read_value (ReadBool W) (\<lambda>v. m\<lparr>lr_success := v\<rparr>) input
        else Unusual)
     else if TagFieldNumber W tag = 2 then
       (if tag_is 18 tag then read_message W (PbServerId_MergePartial W) (lr_get_leaderid m) (\<lambda>v. m\<lparr>lr_leaderid := Some v\<rparr>) input
        else Unusual)
     else Unusual)"

definition PbAddLogReply_MergePartial :: "wire_format \<Rightarrow> string \<Rightarrow> PbAddLogReply \<Rightarrow> PbAddLogReply parse_result" where
  "PbAddLogReply_MergePartial W = merge_stream W (PbAddLogReply_field W) (\<lambda>raw m. m\<lparr>lr_unknown := lr_unknown m @ raw\<rparr>)"

definition PbAddLogReply_valid :: "wire_format \<Rightarrow> PbAddLogReply \<Rightarrow> bool" where
  "PbAddLogReply_valid W m \<longleftrightarrow> lr_unknown m = [] \<and>
     (\<forall>s. lr_leaderid m = Some s \<longrightarrow> PbServerId_valid W s \<and> PbServerId_ByteSizeLong W s < 2 ^ 31)"

context protobuf
begin

lemma PbAddLogReply_Serialize_fields:
  "PbAddLogReply_Serialize W m out = out @ (if lr_success m then WriteBool W 1 (lr_success m) else []) @
     (case lr_leaderid m of None \<Rightarrow> [] | Some s \<Rightarrow> WriteMessage W 2 (PbServerId_ByteSizeLong W s) (PbServerId_Serialize W s [])) @
     (if lr_unknown m \<noteq> [] \<and> PreserveUnknowns W then lr_unknown m else [])"
  by (simp add: PbAddLogReply_Serialize_def Let_def split: option.split)

lemma PbAddLogReply_array: "PbAddLogReply_SerializeToArray W m target = target @ PbAddLogReply_Serialize W m []"
  by (subst PbAddLogReply_Serialize_fields)
    (simp add: PbAddLogReply_SerializeToArray_def Let_def array_laws message_array [OF PbServerId_array] split: option.split)

lemma PbAddLogReply_size: "PbAddLogReply_valid W m \<Longrightarrow> length (PbAddLogReply_Serialize W m []) = PbAddLogReply_ByteSizeLong W m"
  by (auto simp: PbAddLogReply_Serialize_fields PbAddLogReply_ByteSizeLong_def PbAddLogReply_valid_def Let_def size_laws PbServerId_written
      split: option.splits)

lemma PbAddLogReply_fields:
  "PbAddLogReply_field W (MakeTag 1 0) input m = read_value (ReadBool W) (\<lambda>v. m\<lparr>lr_success := v\<rparr>) input"
  "PbAddLogReply_field W (MakeTag 2 2) input m = read_message W (PbServerId_MergePartial W) (lr_get_leaderid m) (\<lambda>v. m\<lparr>lr_leaderid := Some v\<rparr>) input"
  "PbAddLogReply_field W 0 = (\<lambda>input m. Unusual)"
  by (simp_all add: PbAddLogReply_field_def tag_number tag_zero tag_is_MakeTag fun_eq_iff)

lemma PbAddLogReply_ends: "PbAddLogReply_MergePartial W input m \<noteq> OutOfFuel"
  unfolding PbAddLogReply_MergePartial_def
  by (intro merge_stream_ends PbAddLogReply_fields(3))
    (simp add: PbAddLogReply_field_def, intro forward_laws forward_message [OF PbServerId_ends])

lemma PbAddLogReply_roundtrip:
  assumes "PbAddLogReply_valid W m"
  shows "PbAddLogReply_MergePartial W (PbAddLogReply_Serialize W m []) PbAddLogReply0 = ParseSuccess True m"
proof -
  have bytes: "PbAddLogReply_Serialize W m [] = (if lr_success m then WriteBool W 1 (lr_success m) else []) @
     (case lr_leaderid m of None \<Rightarrow> [] | Some s \<Rightarrow> WriteMessage W 2 (length (PbServerId_Serialize W s [])) (PbServerId_Serialize W s [])) @ []"
    using assms by (auto simp: PbAddLogReply_Serialize_fields PbAddLogReply_valid_def PbServerId_size cong: option.case_cong)
  show ?thesis
    unfolding PbAddLogReply_MergePartial_def bytes
    apply (rule reads_stream)
    apply (rule reads_bool, simp, simp, rule PbAddLogReply_fields(1), simp add: PbAddLogReply0_def)
    apply (rule reads_option [where ?m1.0 = "PbAddLogReply0\<lparr>lr_success := lr_success m, lr_leaderid := lr_leaderid m\<rparr>"], simp, simp, rule PbAddLogReply_fields(2),
      use assms in \<open>simp add: PbAddLogReply_valid_def PbServerId_size lr_get_leaderid_def PbAddLogReply0_def PbServerId_roundtrip\<close>, simp add: PbAddLogReply0_def, simp)
    apply (rule reads_end, simp add: PbAddLogReply_fields, use assms in \<open>cases m, simp add: PbAddLogReply0_def PbAddLogReply_valid_def\<close>)
    done
qed

end

end
