(* ===== verification/Conversion.thy ===== *)
theory Conversion
  imports Quintet_Types Pb_Messages
begin

text \<open>
  The conversions between the messages of the program and the generated message classes
  (\<open>service/rpc/Conversion.cpp\<close>). The C++ functions are overloaded; here \<open>..._pb\<close> goes to the
  generated class and \<open>..._common\<close> comes back. An \<open>Index\<close> is a \<open>std::size_t\<close>, a natural number
  in the model, and travels as a 64-bit word; a \<open>Port\<close> is a 16-bit word and travels in 32.
\<close>

section \<open>The contract of a pair of conversions\<close>

locale codec =
  fixes enc :: "'a \<Rightarrow> 'b"
    and dec :: "'b \<Rightarrow> 'a"
    and valid :: "'a \<Rightarrow> bool"
  assumes dec_enc: "valid x \<Longrightarrow> dec (enc x) = x"
begin

lemma enc_inj: "valid x \<Longrightarrow> valid y \<Longrightarrow> enc x = enc y \<Longrightarrow> x = y"
  using dec_enc by metis

lemma dec_enc_list: "(\<And>x. x \<in> set xs \<Longrightarrow> valid x) \<Longrightarrow> map dec (map enc xs) = xs"
  by (induction xs) (simp_all add: dec_enc)

end

section \<open>To the generated classes\<close>

definition convertReply_pb :: "Reply \<Rightarrow> PbReply" where
  "convertReply_pb r = PbReply0\<lparr>rp_term := fst r, rp_ans := snd r\<rparr>"

definition convertServerId_pb :: "ServerId \<Rightarrow> PbServerId" where
  "convertServerId_pb s = PbServerId0\<lparr>si_addr := addr s, si_port := ucast (port s)\<rparr>"

definition convertLogEntry_pb :: "LogEntry \<Rightarrow> PbLogEntry" where
  "convertLogEntry_pb e = PbLogEntry0\<lparr>lg_term := le_term e, lg_opname := le_opName e,
     lg_args := le_args e, lg_prmidx := le_prmIdx e, lg_srvid := Some (convertServerId_pb (le_srvId e))\<rparr>"

definition convertAppendEntriesMessage_pb :: "AppendEntriesMessage \<Rightarrow> PbAppendEntriesMessage" where
  "convertAppendEntriesMessage_pb m = PbAppendEntriesMessage0\<lparr>am_term := ae_term m,
     am_leaderid := Some (convertServerId_pb (ae_leaderId m)),
     am_prevlogidx := of_nat (ae_prevLogIdx m), am_prevlogterm := ae_prevLogTerm m,
     am_logentries := map convertLogEntry_pb (ae_logEntries m), am_commitidx := of_nat (ae_commitIdx m)\<rparr>"

definition convertRequestVoteMessage_pb :: "RequestVoteMessage \<Rightarrow> PbRequestVoteMessage" where
  "convertRequestVoteMessage_pb m = PbRequestVoteMessage0\<lparr>vm_term := rv_term m,
     vm_candidateid := Some (convertServerId_pb (rv_candidateId m)),
     vm_lastlogidx := of_nat (rv_lastLogIdx m), vm_lastlogterm := rv_lastLogTerm m\<rparr>"

definition convertAddLogMessage_pb :: "AddLogMessage \<Rightarrow> PbAddLogMessage" where
  "convertAddLogMessage_pb m = PbAddLogMessage0\<lparr>lm_opname := al_opName m, lm_args := al_args m,
     lm_prmidx := al_prmIdx m, lm_srvid := Some (convertServerId_pb (al_srvId m))\<rparr>"

definition convertAddLogReply_pb :: "AddLogReply \<Rightarrow> PbAddLogReply" where
  "convertAddLogReply_pb r = PbAddLogReply0\<lparr>lr_success := ar_success r,
     lr_leaderid := Some (convertServerId_pb (ar_leaderId r))\<rparr>"

section \<open>From the generated classes\<close>

definition convertReply_common :: "PbReply \<Rightarrow> Reply" where
  "convertReply_common r = (rp_term r, rp_ans r)"

definition convertServerId_common :: "PbServerId \<Rightarrow> ServerId" where
  "convertServerId_common s = \<lparr>addr = si_addr s, port = ucast (si_port s)\<rparr>"

definition convertLogEntry_common :: "PbLogEntry \<Rightarrow> LogEntry" where
  "convertLogEntry_common e = \<lparr>le_term = lg_term e, le_opName = lg_opname e, le_args = lg_args e,
     le_prmIdx = lg_prmidx e, le_srvId = convertServerId_common (lg_get_srvid e)\<rparr>"

definition convertAppendEntriesMessage_common :: "PbAppendEntriesMessage \<Rightarrow> AppendEntriesMessage" where
  "convertAppendEntriesMessage_common m = \<lparr>ae_term = am_term m,
     ae_leaderId = convertServerId_common (am_get_leaderid m), ae_prevLogIdx = unat (am_prevlogidx m),
     ae_prevLogTerm = am_prevlogterm m, ae_logEntries = map convertLogEntry_common (am_logentries m),
     ae_commitIdx = unat (am_commitidx m)\<rparr>"

definition convertRequestVoteMessage_common :: "PbRequestVoteMessage \<Rightarrow> RequestVoteMessage" where
  "convertRequestVoteMessage_common m = \<lparr>rv_term = vm_term m,
     rv_candidateId = convertServerId_common (vm_get_candidateid m),
     rv_lastLogIdx = unat (vm_lastlogidx m), rv_lastLogTerm = vm_lastlogterm m\<rparr>"

definition convertAddLogMessage_common :: "PbAddLogMessage \<Rightarrow> AddLogMessage" where
  "convertAddLogMessage_common m = \<lparr>al_opName = lm_opname m, al_args = lm_args m,
     al_prmIdx = lm_prmidx m, al_srvId = convertServerId_common (lm_get_srvid m)\<rparr>"

definition convertAddLogReply_common :: "PbAddLogReply \<Rightarrow> AddLogReply" where
  "convertAddLogReply_common r = \<lparr>ar_success = lr_success r,
     ar_leaderId = convertServerId_common (lr_get_leaderid r)\<rparr>"

section \<open>Round trips\<close>

definition index_fits :: "index \<Rightarrow> bool" where
  "index_fits i \<longleftrightarrow> i < 2 ^ 64"

lemma index_roundtrip: "index_fits i \<Longrightarrow> unat (of_nat i :: 64 word) = i"
  by (simp add: index_fits_def unat_of_nat)

interpretation serverId: codec convertServerId_pb convertServerId_common "\<lambda>_. True"
  by unfold_locales
    (simp add: convertServerId_pb_def convertServerId_common_def ucast_up_ucast_id is_up)

interpretation logEntry: codec convertLogEntry_pb convertLogEntry_common "\<lambda>_. True"
  by unfold_locales
    (simp add: convertLogEntry_pb_def convertLogEntry_common_def lg_get_srvid_def serverId.dec_enc)

interpretation reply: codec convertReply_pb convertReply_common "\<lambda>_. True"
  by unfold_locales (simp add: convertReply_pb_def convertReply_common_def)

interpretation appendEntriesMessage: codec convertAppendEntriesMessage_pb
  convertAppendEntriesMessage_common "\<lambda>m. index_fits (ae_prevLogIdx m) \<and> index_fits (ae_commitIdx m)"
proof unfold_locales
  fix m :: AppendEntriesMessage
  assume "index_fits (ae_prevLogIdx m) \<and> index_fits (ae_commitIdx m)"
  then show "convertAppendEntriesMessage_common (convertAppendEntriesMessage_pb m) = m"
    using logEntry.dec_enc_list [of "ae_logEntries m"]
    by (simp add: convertAppendEntriesMessage_pb_def convertAppendEntriesMessage_common_def
        am_get_leaderid_def serverId.dec_enc index_roundtrip)
qed

interpretation requestVoteMessage: codec convertRequestVoteMessage_pb
  convertRequestVoteMessage_common "\<lambda>m. index_fits (rv_lastLogIdx m)"
  by unfold_locales
    (simp add: convertRequestVoteMessage_pb_def convertRequestVoteMessage_common_def
      vm_get_candidateid_def serverId.dec_enc index_roundtrip)

interpretation addLogMessage: codec convertAddLogMessage_pb convertAddLogMessage_common "\<lambda>_. True"
  by unfold_locales
    (simp add: convertAddLogMessage_pb_def convertAddLogMessage_common_def lm_get_srvid_def
      serverId.dec_enc)

interpretation addLogReply: codec convertAddLogReply_pb convertAddLogReply_common "\<lambda>_. True"
  by unfold_locales
    (simp add: convertAddLogReply_pb_def convertAddLogReply_common_def lr_get_leaderid_def
      serverId.dec_enc)

text \<open>
  Every message survives the conversion to its generated class, the copy that gRPC's
  handler makes of it (\<open>CopyFrom\<close> into any object), and the conversion back: no field of an
  AppendEntries, RequestVote or AddLog message or reply is lost or mixed up.
\<close>

theorem conversion_roundtrip:
  assumes "index_fits (ae_prevLogIdx ae)" "index_fits (ae_commitIdx ae)" "index_fits (rv_lastLogIdx rv)"
  shows "convertAppendEntriesMessage_common
      (PbAppendEntriesMessage_CopyFrom (convertAppendEntriesMessage_pb ae) am) = ae \<and>
    convertRequestVoteMessage_common
      (PbRequestVoteMessage_CopyFrom (convertRequestVoteMessage_pb rv) vm) = rv \<and>
    convertAddLogMessage_common (PbAddLogMessage_CopyFrom (convertAddLogMessage_pb al) lm) = al \<and>
    convertReply_common (PbReply_CopyFrom (convertReply_pb r) rp) = r \<and>
    convertAddLogReply_common (PbAddLogReply_CopyFrom (convertAddLogReply_pb ar) lr) = ar"
  using assms
  by (simp add: am_msg.copy_exact vm_msg.copy_exact lm_msg.copy_exact rp_msg.copy_exact
      lr_msg.copy_exact appendEntriesMessage.dec_enc requestVoteMessage.dec_enc addLogMessage.dec_enc
      reply.dec_enc addLogReply.dec_enc)

theorem conversion_roundtrip_witness:
  "convertRequestVoteMessage_common (PbRequestVoteMessage_CopyFrom (convertRequestVoteMessage_pb
     \<lparr>rv_term = 3, rv_candidateId = \<lparr>addr = ''a'', port = 65535\<rparr>, rv_lastLogIdx = 9, rv_lastLogTerm = 2\<rparr>)
     PbRequestVoteMessage0) =
     \<lparr>rv_term = 3, rv_candidateId = \<lparr>addr = ''a'', port = 65535\<rparr>, rv_lastLogIdx = 9, rv_lastLogTerm = 2\<rparr>"
  using conversion_roundtrip [of "\<lparr>ae_term = 0, ae_leaderId = NullServerId, ae_prevLogIdx = 0,
      ae_prevLogTerm = 0, ae_logEntries = [], ae_commitIdx = 0\<rparr>"
      "\<lparr>rv_term = 3, rv_candidateId = \<lparr>addr = ''a'', port = 65535\<rparr>, rv_lastLogIdx = 9, rv_lastLogTerm = 2\<rparr>"]
  by (simp add: index_fits_def)

text \<open>
  A port that does not fit into 16 bits is cut to its low 16 bits when a message comes
  in, silently: two different ports on the wire can become the same server.
\<close>

theorem convertServerId_port:
  "unat (port (convertServerId_common s)) = unat (si_port s) mod 65536"
  by (simp add: convertServerId_common_def unsigned_ucast_eq take_bit_eq_mod)

end
