(* ===== verification/Rpc_Service.thy ===== *)
theory Rpc_Service
  imports Conversion
begin

text \<open>
  The RPC service (\<open>service/rpc/RpcService.cpp\<close>), the part that gRPC calls: the handlers, which
  convert the request, call the bound function and copy the converted reply into the response.
  An unbound function is \<open>None\<close> in \<open>RaftRpcImpl\<close>, and so is the outcome of calling it
  (\<open>std::bad_function_call\<close>). The wrapper put around each bound function is in \<open>Rpc_Gate\<close>.
\<close>

section \<open>The handlers\<close>

definition rpc_AppendEntries :: "(AppendEntriesMessage \<Rightarrow> 's \<Rightarrow> (Reply \<times> 's) option)
    \<Rightarrow> PbAppendEntriesMessage \<Rightarrow> PbReply \<Rightarrow> 's \<Rightarrow> (PbReply \<times> 's) option" where
  "rpc_AppendEntries f request response s =
     map_option (\<lambda>(r, s'). (PbReply_CopyFrom (convertReply_pb r) response, s'))
       (f (convertAppendEntriesMessage_common request) s)"

definition rpc_RequestVote :: "(RequestVoteMessage \<Rightarrow> 's \<Rightarrow> (Reply \<times> 's) option)
    \<Rightarrow> PbRequestVoteMessage \<Rightarrow> PbReply \<Rightarrow> 's \<Rightarrow> (PbReply \<times> 's) option" where
  "rpc_RequestVote f request response s =
     map_option (\<lambda>(r, s'). (PbReply_CopyFrom (convertReply_pb r) response, s'))
       (f (convertRequestVoteMessage_common request) s)"

definition rpc_AddLog :: "(AddLogMessage \<Rightarrow> 's \<Rightarrow> (AddLogReply \<times> 's) option)
    \<Rightarrow> PbAddLogMessage \<Rightarrow> PbAddLogReply \<Rightarrow> 's \<Rightarrow> (PbAddLogReply \<times> 's) option" where
  "rpc_AddLog f request response s =
     map_option (\<lambda>(r, s'). (PbAddLogReply_CopyFrom (convertAddLogReply_pb r) response, s'))
       (f (convertAddLogMessage_common request) s)"

section \<open>The bound functions\<close>

text \<open>The functions are given the state of the server they are bound to.\<close>

record 's RaftRpcImpl =
  rr_appendEntries :: "(AppendEntriesMessage \<Rightarrow> 's \<Rightarrow> (Reply \<times> 's) option) option"
  rr_requestVote :: "(RequestVoteMessage \<Rightarrow> 's \<Rightarrow> (Reply \<times> 's) option) option"
  rr_addLog :: "(AddLogMessage \<Rightarrow> 's \<Rightarrow> (AddLogReply \<times> 's) option) option"

definition RaftRpcImpl0 :: "'s RaftRpcImpl" where
  "RaftRpcImpl0 = \<lparr>rr_appendEntries = None, rr_requestVote = None, rr_addLog = None\<rparr>"

definition bindAppendEntries ::
  "(AppendEntriesMessage \<Rightarrow> 's \<Rightarrow> (Reply \<times> 's) option) \<Rightarrow> 's RaftRpcImpl \<Rightarrow> 's RaftRpcImpl" where
  "bindAppendEntries f impl = impl\<lparr>rr_appendEntries := Some f\<rparr>"

definition bindRequestVote ::
  "(RequestVoteMessage \<Rightarrow> 's \<Rightarrow> (Reply \<times> 's) option) \<Rightarrow> 's RaftRpcImpl \<Rightarrow> 's RaftRpcImpl" where
  "bindRequestVote f impl = impl\<lparr>rr_requestVote := Some f\<rparr>"

definition bindAddLog ::
  "(AddLogMessage \<Rightarrow> 's \<Rightarrow> (AddLogReply \<times> 's) option) \<Rightarrow> 's RaftRpcImpl \<Rightarrow> 's RaftRpcImpl" where
  "bindAddLog f impl = impl\<lparr>rr_addLog := Some f\<rparr>"

text \<open>The calls that gRPC makes on the service object.\<close>

definition serve_AppendEntries ::
  "'s RaftRpcImpl \<Rightarrow> PbAppendEntriesMessage \<Rightarrow> PbReply \<Rightarrow> 's \<Rightarrow> (PbReply \<times> 's) option" where
  "serve_AppendEntries impl request response s =
     Option.bind (rr_appendEntries impl) (\<lambda>f. rpc_AppendEntries f request response s)"

definition serve_RequestVote ::
  "'s RaftRpcImpl \<Rightarrow> PbRequestVoteMessage \<Rightarrow> PbReply \<Rightarrow> 's \<Rightarrow> (PbReply \<times> 's) option" where
  "serve_RequestVote impl request response s =
     Option.bind (rr_requestVote impl) (\<lambda>f. rpc_RequestVote f request response s)"

definition serve_AddLog ::
  "'s RaftRpcImpl \<Rightarrow> PbAddLogMessage \<Rightarrow> PbAddLogReply \<Rightarrow> 's \<Rightarrow> (PbAddLogReply \<times> 's) option" where
  "serve_AddLog impl request response s =
     Option.bind (rr_addLog impl) (\<lambda>f. rpc_AddLog f request response s)"

lemma serve_bound [simp]:
  "serve_AppendEntries (bindAppendEntries f impl) = rpc_AppendEntries f"
  "serve_AppendEntries (bindRequestVote g impl) = serve_AppendEntries impl"
  "serve_AppendEntries (bindAddLog h impl) = serve_AppendEntries impl"
  "serve_RequestVote (bindRequestVote g impl) = rpc_RequestVote g"
  "serve_RequestVote (bindAppendEntries f impl) = serve_RequestVote impl"
  "serve_RequestVote (bindAddLog h impl) = serve_RequestVote impl"
  "serve_AddLog (bindAddLog h impl) = rpc_AddLog h"
  "serve_AddLog (bindAppendEntries f impl) = serve_AddLog impl"
  "serve_AddLog (bindRequestVote g impl) = serve_AddLog impl"
  by (simp_all add: fun_eq_iff serve_AppendEntries_def serve_RequestVote_def serve_AddLog_def
      bindAppendEntries_def bindRequestVote_def bindAddLog_def)

end
