(* ===== verification/Rpc_Client.thy ===== *)
theory Rpc_Client
  imports Rpc_Service
begin

text \<open>
  The clients (\<open>service/rpc/RpcClient.cpp\<close>, \<open>RaftClient.cpp\<close> and the deprecated
  \<open>service/rpc/RpcClients.cpp\<close>): an asynchronous call converts its message, hands it to gRPC
  with a fresh tag and returns the future of a promise; one thread per client takes the
  completed calls from the completion queue and sets their promises.

  The three clients share the loop; they differ in the messages and in how a reply is read,
  which are parameters. A client is stopped by shutting its completion queue down: gRPC hands
  out the calls that are still under way as they complete, and then ends the loop. A call is a
  number. \<open>rc_calls\<close> are the calls handed to gRPC and not yet
  taken from the completion queue; \<open>rc_promises\<close> is what each promise has been set to. The
  order of completions, their status and their replies are arguments.
\<close>

section \<open>Client and loop\<close>

datatype 'r outcome = Value 'r | Exception string

record ('q, 'r) RpcClient =
  rc_calls :: "(nat \<times> 'q) list"
  rc_fresh :: nat
  rc_promises :: "nat \<Rightarrow> 'r outcome option"
  rc_running :: bool

definition RpcClient0 :: "('q, 'r) RpcClient" where
  "RpcClient0 = \<lparr>rc_calls = [], rc_fresh = 0, rc_promises = (\<lambda>_. None), rc_running = True\<rparr>"

definition makeClientContext :: "nat \<Rightarrow> nat \<Rightarrow> nat" where
  "makeClientContext now timeout = now + timeout"

definition asyncCall :: "('m \<Rightarrow> 'q) \<Rightarrow> 'm \<Rightarrow> ('q, 'r) RpcClient \<Rightarrow> nat \<times> ('q, 'r) RpcClient" where
  "asyncCall convert msg c = (rc_fresh c,
     c\<lparr>rc_calls := rc_calls c @ [(rc_fresh c, convert msg)], rc_fresh := rc_fresh c + 1\<rparr>)"

text \<open>The status of a completed call: fine, or an error code and its message.\<close>

datatype status = StatusOk | StatusError nat string

definition rpc_error :: "nat \<Rightarrow> string \<Rightarrow> string" where
  "rpc_error code m = to_string code @ '', '' @ m"

text \<open>One turn of \<open>run\<close>: a completed call is taken, if the loop still runs.\<close>

definition run1 :: "('p \<Rightarrow> 'r) \<Rightarrow> nat \<times> status \<times> 'p \<Rightarrow> ('q, 'r) RpcClient \<Rightarrow> ('q, 'r) RpcClient" where
  "run1 read = (\<lambda>(tag, st, reply) c.
     if \<not> rc_running c \<or> tag \<notin> fst ` set (rc_calls c) then c
     else (let c = c\<lparr>rc_calls := filter (\<lambda>p. fst p \<noteq> tag) (rc_calls c)\<rparr> in
       case st of
         StatusError code m \<Rightarrow> c\<lparr>rc_promises := (rc_promises c)(tag \<mapsto> Exception (rpc_error code m)),
           rc_running := False\<rparr>
       | StatusOk \<Rightarrow> c\<lparr>rc_promises := (rc_promises c)(tag \<mapsto> Value (read reply))\<rparr>))"

text \<open>What a client does and what happens to it: a call is made, or one completes.\<close>

datatype ('m, 'p) client_op = MakeCall 'm | Complete nat status 'p

fun client_do :: "('m \<Rightarrow> 'q) \<Rightarrow> ('p \<Rightarrow> 'r) \<Rightarrow> ('m, 'p) client_op \<Rightarrow> ('q, 'r) RpcClient \<Rightarrow> ('q, 'r) RpcClient" where
  "client_do convert read (MakeCall msg) c = snd (asyncCall convert msg c)"
| "client_do convert read (Complete tag st reply) c = run1 read (tag, st, reply) c"

definition client_run :: "('m \<Rightarrow> 'q) \<Rightarrow> ('p \<Rightarrow> 'r) \<Rightarrow> ('m, 'p) client_op list \<Rightarrow> ('q, 'r) RpcClient
    \<Rightarrow> ('q, 'r) RpcClient" where
  "client_run convert read ops c = fold (client_do convert read) ops c"

text \<open>
  \<open>stop\<close> shuts the queue down and joins the thread; \<open>completions\<close> are the calls that still
  complete. \<open>None\<close>: the join does not return, because the loop runs and a call is left. A call
  that completes after the loop has ended is not looked at.
\<close>

definition client_stop :: "('p \<Rightarrow> 'r) \<Rightarrow> (nat \<times> status \<times> 'p) list \<Rightarrow> ('q, 'r) RpcClient
    \<Rightarrow> ('q, 'r) RpcClient option" where
  "client_stop read completions c = (let c = fold (run1 read) completions c in
     if rc_running c \<and> rc_calls c \<noteq> [] then None else Some (c\<lparr>rc_running := False\<rparr>))"

text \<open>
  A client object owns its \<open>Impl\<close> through a pointer; moving the object leaves the null pointer
  behind, and the destructor calls \<open>stop\<close> through the pointer: \<open>None\<close> for the null pointer.
\<close>

type_synonym ('q, 'r) client_object = "('q, 'r) RpcClient option"

definition client_move :: "('q, 'r) client_object \<Rightarrow> ('q, 'r) client_object \<times> ('q, 'r) client_object" where
  "client_move obj = (obj, None)"

definition client_destroy :: "('p \<Rightarrow> 'r) \<Rightarrow> (nat \<times> status \<times> 'p) list \<Rightarrow> ('q, 'r) client_object
    \<Rightarrow> ('q, 'r) RpcClient option" where
  "client_destroy read completions obj = Option.bind obj (client_stop read completions)"

section \<open>The calls of the three clients\<close>

definition read_reply :: "PbReply \<Rightarrow> Reply" where
  "read_reply reply = (rp_term reply, rp_ans reply)"

definition asyncCallRpcAppendEntries ::
  "AppendEntriesMessage \<Rightarrow> (PbAppendEntriesMessage, Reply) RpcClient \<Rightarrow> nat \<times> (PbAppendEntriesMessage, Reply) RpcClient" where
  "asyncCallRpcAppendEntries = asyncCall convertAppendEntriesMessage_pb"

definition asyncCallRequestVote ::
  "RequestVoteMessage \<Rightarrow> (PbRequestVoteMessage, Reply) RpcClient \<Rightarrow> nat \<times> (PbRequestVoteMessage, Reply) RpcClient" where
  "asyncCallRequestVote = asyncCall convertRequestVoteMessage_pb"

definition asyncCallRpcAddLog ::
  "AddLogMessage \<Rightarrow> (PbAddLogMessage, AddLogReply) RpcClient \<Rightarrow> nat \<times> (PbAddLogMessage, AddLogReply) RpcClient" where
  "asyncCallRpcAddLog = asyncCall convertAddLogMessage_pb"

text \<open>\<open>get\<close> on the future of a call: what its promise is set to when \<open>completions\<close> have come in.\<close>

definition blocking_call :: "('p \<Rightarrow> 'r) \<Rightarrow> (nat \<times> status \<times> 'p) list \<Rightarrow> nat \<times> ('q, 'r) RpcClient
    \<Rightarrow> 'r outcome option \<times> ('q, 'r) RpcClient" where
  "blocking_call read completions = (\<lambda>(tag, c).
     let c = fold (run1 read) completions c in (rc_promises c tag, c))"

definition RpcClient_callRpcAppendEntries :: "AppendEntriesMessage \<Rightarrow> (nat \<times> status \<times> PbReply) list
    \<Rightarrow> (PbAppendEntriesMessage, Reply) RpcClient \<Rightarrow> Reply outcome option \<times> (PbAppendEntriesMessage, Reply) RpcClient" where
  "RpcClient_callRpcAppendEntries msg completions c =
     blocking_call read_reply completions (asyncCallRpcAppendEntries msg c)"

definition RpcClient_callRpcRequestVote :: "RequestVoteMessage \<Rightarrow> (nat \<times> status \<times> PbReply) list
    \<Rightarrow> (PbRequestVoteMessage, Reply) RpcClient \<Rightarrow> Reply outcome option \<times> (PbRequestVoteMessage, Reply) RpcClient" where
  "RpcClient_callRpcRequestVote msg completions c =
     blocking_call read_reply completions (asyncCallRequestVote msg c)"

definition RaftClient_callRpcAddLog :: "AddLogMessage \<Rightarrow> (nat \<times> status \<times> PbAddLogReply) list
    \<Rightarrow> (PbAddLogMessage, AddLogReply) RpcClient \<Rightarrow> AddLogReply outcome option \<times> (PbAddLogMessage, AddLogReply) RpcClient" where
  "RaftClient_callRpcAddLog msg completions c =
     blocking_call convertAddLogReply_common completions (asyncCallRpcAddLog msg c)"

text \<open>A call that reaches a handler and whose response comes back, seen from the caller.\<close>

definition callRpcAppendEntries :: "(PbAppendEntriesMessage \<Rightarrow> PbReply \<Rightarrow> 's \<Rightarrow> (PbReply \<times> 's) option)
    \<Rightarrow> AppendEntriesMessage \<Rightarrow> 's \<Rightarrow> (Reply \<times> 's) option" where
  "callRpcAppendEntries handler msg s = map_option (\<lambda>(r, s'). (read_reply r, s'))
     (handler (convertAppendEntriesMessage_pb msg) PbReply0 s)"

definition callRpcRequestVote :: "(PbRequestVoteMessage \<Rightarrow> PbReply \<Rightarrow> 's \<Rightarrow> (PbReply \<times> 's) option)
    \<Rightarrow> RequestVoteMessage \<Rightarrow> 's \<Rightarrow> (Reply \<times> 's) option" where
  "callRpcRequestVote handler msg s = map_option (\<lambda>(r, s'). (read_reply r, s'))
     (handler (convertRequestVoteMessage_pb msg) PbReply0 s)"

definition callRpcAddLog :: "(PbAddLogMessage \<Rightarrow> PbAddLogReply \<Rightarrow> 's \<Rightarrow> (PbAddLogReply \<times> 's) option)
    \<Rightarrow> AddLogMessage \<Rightarrow> 's \<Rightarrow> (AddLogReply \<times> 's) option" where
  "callRpcAddLog handler msg s = map_option (\<lambda>(r, s'). (convertAddLogReply_common r, s'))
     (handler (convertAddLogMessage_pb msg) PbAddLogReply0 s)"

section \<open>Properties\<close>

text \<open>
  A remote call is transparent: converting the request, handling it on the server and
  reading the reply gives the caller what the bound function returns for its message, and the
  server the state the function leaves it in.
\<close>

theorem rpc_transparent:
  assumes "index_fits (ae_prevLogIdx ae)" "index_fits (ae_commitIdx ae)" "index_fits (rv_lastLogIdx rv)"
  shows "callRpcAppendEntries (rpc_AppendEntries f) ae (s :: 's) = f ae s \<and>
    callRpcRequestVote (rpc_RequestVote g) rv s = g rv s \<and>
    callRpcAddLog (rpc_AddLog h) al s = h al s"
proof -
  have "map_option (\<lambda>(r, s'). (read_reply r, s')) (map_option
      (\<lambda>(r, s'). (PbReply_CopyFrom (convertReply_pb r) PbReply0, s')) x) = x" for x :: "(Reply \<times> 's) option"
    by (cases x) (auto simp: rp_msg.copy_exact read_reply_def convertReply_pb_def)
  moreover have "map_option (\<lambda>(r, s'). (convertAddLogReply_common r, s')) (map_option
      (\<lambda>(r, s'). (PbAddLogReply_CopyFrom (convertAddLogReply_pb r) PbAddLogReply0, s')) x) = x"
    for x :: "(AddLogReply \<times> 's) option"
    by (cases x) (auto simp: lr_msg.copy_exact addLogReply.dec_enc)
  ultimately show ?thesis
    using assms by (simp add: callRpcAppendEntries_def rpc_AppendEntries_def callRpcRequestVote_def
        rpc_RequestVote_def callRpcAddLog_def rpc_AddLog_def appendEntriesMessage.dec_enc
        requestVoteMessage.dec_enc addLogMessage.dec_enc)
qed

theorem rpc_transparent_witness:
  "callRpcRequestVote (rpc_RequestVote (\<lambda>m n. Some ((rv_term m, True), Suc n)))
     \<lparr>rv_term = 4, rv_candidateId = NullServerId, rv_lastLogIdx = 7, rv_lastLogTerm = 3\<rparr> 0 =
     Some ((4, True), 1)"
  using rpc_transparent [of "\<lparr>ae_term = 0, ae_leaderId = NullServerId, ae_prevLogIdx = 0,
      ae_prevLogTerm = 0, ae_logEntries = [], ae_commitIdx = 0\<rparr>"
      "\<lparr>rv_term = 4, rv_candidateId = NullServerId, rv_lastLogIdx = 7, rv_lastLogTerm = 3\<rparr>"
      "\<lambda>_ _. None" "0 :: nat" "\<lambda>m n. Some ((rv_term m, True), Suc n)" "\<lambda>_ _. None"]
  by (simp add: index_fits_def)

lemma client_do_stopped:
  "\<not> rc_running c \<Longrightarrow> rc_running (client_do convert read op c) = False \<and>
     rc_promises (client_do convert read op c) = rc_promises c"
  by (cases op) (auto simp: asyncCall_def run1_def)

lemma client_run_stopped:
  "\<not> rc_running c \<Longrightarrow> rc_promises (client_run convert read ops c) = rc_promises c"
  by (induction ops arbitrary: c) (simp_all add: client_run_def client_do_stopped)

definition client_ok :: "('q, 'r) RpcClient \<Rightarrow> bool" where
  "client_ok c \<longleftrightarrow> (\<forall>tag. rc_fresh c \<le> tag \<longrightarrow> rc_promises c tag = None \<and> tag \<notin> fst ` set (rc_calls c)) \<and>
     (\<forall>tag \<in> fst ` set (rc_calls c). rc_promises c tag = None)"

lemma client_ok0: "client_ok RpcClient0"
  by (simp add: client_ok_def RpcClient0_def)

lemma client_ok_do: "client_ok c \<Longrightarrow> client_ok (client_do convert read op c)"
  by (cases op) (auto simp: client_ok_def asyncCall_def run1_def Let_def split: status.splits)

text \<open>
  While the loop of a client runs, a call that completes sets exactly its own promise: to
  the reply as read, or to the error of its status.
\<close>

theorem client_completes:
  assumes "rc_running c" "tag \<in> fst ` set (rc_calls c)"
  shows "rc_promises (client_do convert read (Complete tag st reply) c) = (rc_promises c)(tag \<mapsto>
    (case st of StatusOk \<Rightarrow> Value (read reply) | StatusError code m \<Rightarrow> Exception (rpc_error code m)))"
  using assms by (simp add: run1_def Let_def split: status.splits)

theorem client_completes_witness:
  "rc_promises (client_run id id [MakeCall ''x'', Complete 0 (StatusError 14 ''gone'') ''none''] RpcClient0) 0 =
     Some (Exception ''14, gone'')"
proof -
  let ?c = "client_run id id [MakeCall ''x''] RpcClient0 :: (string, string) RpcClient"
  have "rc_running ?c" "0 \<in> fst ` set (rc_calls ?c)"
    by (simp_all add: client_run_def asyncCall_def RpcClient0_def)
  have "to_string 14 = ''14''" by code_simp
  with client_completes [OF \<open>rc_running ?c\<close> \<open>0 \<in> fst ` set (rc_calls ?c)\<close>, of id id "StatusError 14 ''gone''" "''none''"] show ?thesis
    by (simp add: client_run_def rpc_error_def)
qed

text \<open>
  One error ends the loop of a client for good: whatever is called and whatever completes
  afterwards, no later call on the same client ever gets its promise set. \<open>tryAppendEntries\<close>
  retries on one client, so its first retry waits for ever.
\<close>

theorem client_dead_after_error:
  assumes "client_ok c" "tag \<in> fst ` set (rc_calls c)" "rc_fresh c \<le> later"
  shows "rc_promises (client_run convert read (Complete tag (StatusError code m) reply # ops) c) later = None"
proof -
  let ?c = "client_do convert read (Complete tag (StatusError code m) reply) c"
  have "\<not> rc_running ?c" using assms(2) by (simp add: run1_def Let_def)
  then have "rc_promises (client_run convert read ops ?c) later = rc_promises ?c later"
    by (simp add: client_run_stopped)
  moreover have "rc_promises ?c later = None"
    using client_ok_do [OF assms(1), of convert read "Complete tag (StatusError code m) reply"] assms(3)
    by (simp add: client_ok_def run1_def Let_def)
  ultimately show ?thesis by (simp add: client_run_def)
qed

theorem client_dead_after_error_witness:
  "rc_promises (client_run id id [MakeCall ''try'', Complete 0 (StatusError 14 ''gone'') '''',
     MakeCall ''retry'', Complete 1 StatusOk ''reply''] RpcClient0) 1 = None"
proof -
  let ?c = "client_run id id [MakeCall ''try''] RpcClient0 :: (string, string) RpcClient"
  have "client_ok ?c" "0 \<in> fst ` set (rc_calls ?c)" "rc_fresh ?c \<le> 1"
    by (simp_all add: client_run_def client_ok_do [of _ id id "MakeCall ''try''", simplified] client_ok0
        asyncCall_def RpcClient0_def)
      (simp add: client_ok_def)
  from client_dead_after_error [OF this, of id id 14 "''gone''" "''''"
      "[MakeCall ''retry'', Complete 1 StatusOk ''reply'']"]
  show ?thesis by (simp add: client_run_def)
qed

lemma run1_ok_calls:
  "rc_running c \<Longrightarrow> rc_running (run1 read (tag, StatusOk, reply) c) \<and>
     rc_calls (run1 read (tag, StatusOk, reply) c) = filter (\<lambda>p. fst p \<noteq> tag) (rc_calls c) \<and>
     rc_promises (run1 read (tag, StatusOk, reply) c) =
       (if tag \<in> fst ` set (rc_calls c) then (rc_promises c)(tag \<mapsto> Value (read reply)) else rc_promises c)"
proof (cases "tag \<in> fst ` set (rc_calls c)")
  case False
  then have "filter (\<lambda>p. fst p \<noteq> tag) (rc_calls c) = rc_calls c" by (force simp: filter_id_conv)
  with False show "rc_running c \<Longrightarrow> ?thesis" by (simp add: run1_def)
qed (simp add: run1_def Let_def)

lemma drain_ok:
  assumes "rc_running c" "list_all (\<lambda>(tag, st, reply). st = StatusOk) completions"
  shows "rc_running (fold (run1 read) completions c) \<and>
    rc_calls (fold (run1 read) completions c) = filter (\<lambda>p. fst p \<notin> fst ` set completions) (rc_calls c) \<and>
    (\<forall>tag. rc_promises (fold (run1 read) completions c) tag =
      (if tag \<in> fst ` set (rc_calls c)
       then (case map_of completions tag of None \<Rightarrow> rc_promises c tag | Some (st, reply) \<Rightarrow> Some (Value (read reply)))
       else rc_promises c tag))"
  using assms
proof (induction completions arbitrary: c)
  case (Cons x completions)
  obtain t reply where x: "x = (t, StatusOk, reply)" using Cons.prems(2) by (cases x) auto
  note 1 = run1_ok_calls [OF Cons.prems(1), of read t reply]
  from Cons.IH [of "run1 read x c"] Cons.prems(2) 1 x show ?case
    by (auto simp: filter_filter conj_commute intro!: filter_cong split: option.splits) 
qed simp

lemma run1_absent:
  "tag \<notin> fst ` set (rc_calls c) \<Longrightarrow> tag \<notin> fst ` set (rc_calls (run1 read x c)) \<and>
     rc_promises (run1 read x c) tag = rc_promises c tag"
  by (cases x) (auto simp: run1_def Let_def split: status.splits)

lemma drain_absent:
  "tag \<notin> fst ` set (rc_calls c) \<Longrightarrow> rc_promises (fold (run1 read) completions c) tag = rc_promises c tag"
proof (induction completions arbitrary: c)
  case (Cons x completions)
  with run1_absent [OF Cons.prems, of read x] show ?case by simp
qed simp

text \<open>
  A blocking call gets the outcome of its own completion, the reply as read or the error of its
  status, whichever other calls of the client complete before it without an error, and whatever
  completes afterwards.
\<close>

theorem blocking_call_outcome:
  assumes "rc_running c" "list_all (\<lambda>(tag, st, reply). st = StatusOk \<and> tag \<noteq> rc_fresh c) before"
  shows "fst (blocking_call read (before @ (rc_fresh c, st, reply) # later) (asyncCall convert msg c)) =
      Some (case st of StatusOk \<Rightarrow> Value (read reply) | StatusError code m \<Rightarrow> Exception (rpc_error code m))"
proof -
  let ?c = "snd (asyncCall convert msg c)" and ?tag = "rc_fresh c"
  let ?c1 = "fold (run1 read) before ?c" and ?c2 = "run1 read (?tag, st, reply) (fold (run1 read) before ?c)"
  have call: "asyncCall convert msg c = (?tag, ?c)" and pending: "rc_running ?c" "?tag \<in> fst ` set (rc_calls ?c)"
    using assms(1) by (simp_all add: asyncCall_def)
  have "list_all (\<lambda>(tag, st, reply). st = StatusOk) before" "?tag \<notin> fst ` set before"
    using assms(2) by (auto simp: list_all_iff)
  with drain_ok [OF pending(1), of before read]
  have "rc_running ?c1" "rc_calls ?c1 = filter (\<lambda>p. fst p \<notin> fst ` set before) (rc_calls ?c)" by auto
  with pending(2) \<open>?tag \<notin> fst ` set before\<close> have "rc_running ?c1" "?tag \<in> fst ` set (rc_calls ?c1)"
    by auto (metis (mono_tags, lifting) fst_conv image_iff mem_Collect_eq)
  then have outcome: "rc_promises ?c2 ?tag = Some (case st of StatusOk \<Rightarrow> Value (read reply)
      | StatusError code m \<Rightarrow> Exception (rpc_error code m))"
    and "?tag \<notin> fst ` set (rc_calls ?c2)"
    by (auto simp: run1_def Let_def split: status.splits)
  from drain_absent [OF this(2), of read later] outcome have "rc_promises (fold (run1 read)
      (before @ (?tag, st, reply) # later) ?c) ?tag = Some (case st of StatusOk \<Rightarrow> Value (read reply)
      | StatusError code m \<Rightarrow> Exception (rpc_error code m))" by simp
  then show ?thesis by (subst call) (simp add: blocking_call_def Let_def)
qed

theorem blocking_call_outcome_witness:
  "fst (RpcClient_callRpcRequestVote \<lparr>rv_term = 4, rv_candidateId = NullServerId, rv_lastLogIdx = 7, rv_lastLogTerm = 3\<rparr>
     [(0, StatusError 14 ''gone'', PbReply0)] RpcClient0) = Some (Exception (rpc_error 14 ''gone''))"
  using blocking_call_outcome [of RpcClient0 "[]" read_reply "StatusError 14 ''gone''" PbReply0 "[]"
      convertRequestVoteMessage_pb "\<lparr>rv_term = 4, rv_candidateId = NullServerId, rv_lastLogIdx = 7, rv_lastLogTerm = 3\<rparr>"]
  by (simp add: RpcClient_callRpcRequestVote_def asyncCallRequestVote_def) (simp add: RpcClient0_def)

text \<open>
  Stopping a client is graceful: when every call under way completes without an error, \<open>stop\<close>
  returns, and the promise of each of these calls has been set to its reply.
\<close>

theorem client_stop_completes:
  assumes "rc_running c" "list_all (\<lambda>(tag, st, reply). st = StatusOk) completions"
    and "fst ` set (rc_calls c) = fst ` set completions" "map_of completions tag = Some (StatusOk, reply)"
  shows "\<exists>c'. client_stop read completions c = Some c' \<and> \<not> rc_running c' \<and> rc_calls c' = [] \<and>
    rc_promises c' tag = Some (Value (read reply))"
proof -
  have "tag \<in> fst ` set (rc_calls c)" using assms(3,4) by (force dest: map_of_SomeD)
  moreover have "filter (\<lambda>p. fst p \<notin> fst ` set completions) (rc_calls c) = []"
    using assms(3) by (auto simp: filter_empty_conv)
  ultimately show ?thesis using drain_ok [OF assms(1,2), of read] assms(4)
    by (simp add: client_stop_def Let_def)
qed

theorem client_stop_completes_witness:
  "\<exists>c'. client_stop id [(1, StatusOk, ''b''), (0, StatusOk, ''a'')]
      (client_run id id [MakeCall ''x'', MakeCall ''y''] RpcClient0) = Some c' \<and>
    rc_promises c' 0 = Some (Value ''a'')"
  using client_stop_completes [of "client_run id id [MakeCall ''x'', MakeCall ''y''] RpcClient0"
      "[(1, StatusOk, ''b''), (0, StatusOk, ''a'')]" 0 "''a''" id]
  by (auto simp: client_run_def asyncCall_def RpcClient0_def)

text \<open>
  After an error the loop has ended, \<open>stop\<close> returns at once, and the other calls under way are
  abandoned: their promises are not set.
\<close>

lemma run1_stopped: "\<not> rc_running c \<Longrightarrow> run1 read x c = c"
  by (cases x) (simp add: run1_def)

lemma client_stop_abandons:
  assumes "\<not> rc_running c"
  shows "\<exists>c'. client_stop read completions c = Some c' \<and> rc_promises c' = rc_promises c"
proof -
  have "fold (run1 read) completions c = c"
    using assms by (induction completions arbitrary: c) (simp_all add: run1_stopped)
  with assms show ?thesis by (simp add: client_stop_def Let_def)
qed

text \<open>The destructor of a client that has been moved from goes through the null pointer.\<close>

lemma destroy_moved_from: "client_destroy read completions (snd (client_move obj)) = None"
  by (simp add: client_move_def client_destroy_def)

end
