(* ===== verification/Wire_Calls.thy ===== *)
theory Wire_Calls
  imports Pb_Codec Rpc_Client "HOL-Library.Monad_Syntax"
begin

text \<open>
  A remote call with its bytes: the client converts the message (\<open>RpcClient.cpp\<close>,
  \<open>RaftClient.cpp\<close>), gRPC writes it and reads it on the other side with the generated classes,
  the handler of \<open>RpcService.cpp\<close> answers, and the answer comes back the same way. gRPC itself is
  taken to bring the bytes of a call to the other side when they are no more than \<open>limit\<close>, the
  largest message that it receives (4 MB unless it is configured, which the code does not do);
  a message that is longer, or cannot be read, ends the call with an error, \<open>None\<close>.
\<close>

definition deliver :: "nat \<Rightarrow> ('m \<Rightarrow> string \<Rightarrow> string) \<Rightarrow> (string \<Rightarrow> 'm \<Rightarrow> 'm parse_result) \<Rightarrow> 'm \<Rightarrow> 'm \<Rightarrow> 'm option" where
  "deliver limit serialize parse blank m = (if limit < length (serialize m []) then None else
     case parse (serialize m []) blank of
     ParseSuccess whole m' \<Rightarrow> if whole then Some m' else None
   | ParseFailure \<Rightarrow> None | OutOfFuel \<Rightarrow> None)"

definition deliver_reply :: "nat \<Rightarrow> wire_format \<Rightarrow> PbReply \<times> 's \<Rightarrow> (Reply \<times> 's) option" where
  "deliver_reply limit W = (\<lambda>(r, s). map_option (\<lambda>r'. (read_reply r', s))
     (deliver limit (PbReply_Serialize W) (PbReply_MergePartial W) PbReply0 r))"

definition appendEntries_over_wire :: "nat \<Rightarrow> wire_format \<Rightarrow> (AppendEntriesMessage \<Rightarrow> 's \<Rightarrow> (Reply \<times> 's) option)
    \<Rightarrow> AppendEntriesMessage \<Rightarrow> 's \<Rightarrow> (Reply \<times> 's) option" where
  "appendEntries_over_wire limit W f msg s = do {
     request \<leftarrow> deliver limit (PbAppendEntriesMessage_Serialize W) (PbAppendEntriesMessage_MergePartial W)
       PbAppendEntriesMessage0 (convertAppendEntriesMessage_pb msg);
     response \<leftarrow> rpc_AppendEntries f request PbReply0 s;
     deliver_reply limit W response
   }"

definition requestVote_over_wire :: "nat \<Rightarrow> wire_format \<Rightarrow> (RequestVoteMessage \<Rightarrow> 's \<Rightarrow> (Reply \<times> 's) option)
    \<Rightarrow> RequestVoteMessage \<Rightarrow> 's \<Rightarrow> (Reply \<times> 's) option" where
  "requestVote_over_wire limit W f msg s = do {
     request \<leftarrow> deliver limit (PbRequestVoteMessage_Serialize W) (PbRequestVoteMessage_MergePartial W)
       PbRequestVoteMessage0 (convertRequestVoteMessage_pb msg);
     response \<leftarrow> rpc_RequestVote f request PbReply0 s;
     deliver_reply limit W response
   }"

definition addLog_over_wire :: "nat \<Rightarrow> wire_format \<Rightarrow> (AddLogMessage \<Rightarrow> 's \<Rightarrow> (AddLogReply \<times> 's) option)
    \<Rightarrow> AddLogMessage \<Rightarrow> 's \<Rightarrow> (AddLogReply \<times> 's) option" where
  "addLog_over_wire limit W f msg s = do {
     request \<leftarrow> deliver limit (PbAddLogMessage_Serialize W) (PbAddLogMessage_MergePartial W)
       PbAddLogMessage0 (convertAddLogMessage_pb msg);
     (response, s') \<leftarrow> rpc_AddLog f request PbAddLogReply0 s;
     r \<leftarrow> deliver limit (PbAddLogReply_Serialize W) (PbAddLogReply_MergePartial W) PbAddLogReply0 response;
     Some (convertAddLogReply_common r, s')
   }"

text \<open>On the library's wire format, a server id or an entry of moderate strings is small enough.\<close>

lemma standard_server_size:
  assumes "length (si_addr m) < 2 ^ 29" "si_unknown m = []"
  shows "PbServerId_ByteSizeLong standard_format m < 1073741824"
    "PbServerId_ByteSizeLong standard_format m < 2147483648"
  using assms standard_sizes_bound(2) [of "si_port m"] standard_sizes_bound(4) [of "si_addr m"]
  by (simp_all add: PbServerId_ByteSizeLong_def)

lemma standard_entry_size:
  assumes "length (lg_opname m) < 2 ^ 28" "length (lg_args m) < 2 ^ 28" "lg_unknown m = []"
    and "case lg_srvid m of None \<Rightarrow> True | Some s \<Rightarrow> PbServerId_ByteSizeLong standard_format s < 1073741824"
  shows "PbLogEntry_ByteSizeLong standard_format m < 2147483648"
  using assms standard_sizes_bound(1) [of "lg_term m"] standard_sizes_bound(1) [of "lg_prmidx m"]
    standard_sizes_bound(4) [of "lg_opname m"] standard_sizes_bound(4) [of "lg_args m"]
    standard_sizes_bound(3) [of "PbServerId_ByteSizeLong standard_format (the (lg_srvid m))"]
  by (cases "lg_srvid m") (auto simp: PbLogEntry_ByteSizeLong_def)

text \<open>The number of bytes is that of the strings and a constant.\<close>

lemma standard_server_bound:
  assumes "length (si_addr m) < 2 ^ 29" "si_unknown m = []"
  shows "PbServerId_ByteSizeLong standard_format m \<le> length (si_addr m) + 22"
  using assms standard_sizes_bound(2) [of "si_port m"] standard_sizes_bound(4) [of "si_addr m"]
  by (simp add: PbServerId_ByteSizeLong_def)

lemma standard_entry_bound:
  assumes "length (lg_opname m) < 2 ^ 28" "length (lg_args m) < 2 ^ 28" "lg_unknown m = []"
    and "case lg_srvid m of None \<Rightarrow> True | Some s \<Rightarrow> length (si_addr s) < 2 ^ 28 \<and> si_unknown s = []"
  shows "PbLogEntry_ByteSizeLong standard_format m \<le> length (lg_opname m) + length (lg_args m) +
    (case lg_srvid m of None \<Rightarrow> 0 | Some s \<Rightarrow> length (si_addr s)) + 77"
  using assms standard_sizes_bound(1) [of "lg_term m"] standard_sizes_bound(1) [of "lg_prmidx m"]
    standard_sizes_bound(4) [of "lg_opname m"] standard_sizes_bound(4) [of "lg_args m"]
    standard_sizes_bound(3) [of "PbServerId_ByteSizeLong standard_format (the (lg_srvid m))"]
    standard_server_bound [of "the (lg_srvid m)"]
  by (cases "lg_srvid m") (auto simp: PbLogEntry_ByteSizeLong_def)

section \<open>The bytes of one message\<close>

context protobuf
begin

lemma deliver_roundtrip:
  "parse (serialize m []) blank = ParseSuccess True m \<Longrightarrow> length (serialize m []) \<le> limit \<Longrightarrow>
     deliver limit serialize parse blank m = Some m"
  by (simp add: deliver_def)

lemma deliver_reply:
  assumes "PbReply_ByteSizeLong W (convertReply_pb r) \<le> limit"
  shows "deliver_reply limit W (PbReply_CopyFrom (convertReply_pb r) PbReply0, s) = Some (r, s)"
proof -
  have "PbReply_valid W (convertReply_pb r)" "read_reply (convertReply_pb r) = r"
    by (simp_all add: PbReply_valid_def convertReply_pb_def PbReply0_def read_reply_def)
  then show ?thesis using assms
    by (simp add: deliver_reply_def deliver_roundtrip rp_msg.copy_exact PbReply_roundtrip PbReply_size)
qed

lemma appendEntries_delivered:
  assumes "index_fits (ae_prevLogIdx msg)" "index_fits (ae_commitIdx msg)"
    and "PbAppendEntriesMessage_valid W (convertAppendEntriesMessage_pb msg)"
    and "PbAppendEntriesMessage_ByteSizeLong W (convertAppendEntriesMessage_pb msg) \<le> limit"
    and "\<And>r s'. f msg s = Some (r, s') \<Longrightarrow> PbReply_ByteSizeLong W (convertReply_pb r) \<le> limit"
  shows "appendEntries_over_wire limit W f msg s = f msg s"
  using assms
  by (cases "f msg s")
    (auto simp: appendEntries_over_wire_def deliver_roundtrip PbAppendEntriesMessage_roundtrip
      PbAppendEntriesMessage_size rpc_AppendEntries_def
      appendEntriesMessage.dec_enc deliver_reply)

lemma requestVote_delivered:
  assumes "index_fits (rv_lastLogIdx msg)" "PbRequestVoteMessage_valid W (convertRequestVoteMessage_pb msg)"
    and "PbRequestVoteMessage_ByteSizeLong W (convertRequestVoteMessage_pb msg) \<le> limit"
    and "\<And>r s'. f msg s = Some (r, s') \<Longrightarrow> PbReply_ByteSizeLong W (convertReply_pb r) \<le> limit"
  shows "requestVote_over_wire limit W f msg s = f msg s"
  using assms
  by (cases "f msg s")
    (auto simp: requestVote_over_wire_def deliver_roundtrip PbRequestVoteMessage_roundtrip
      PbRequestVoteMessage_size rpc_RequestVote_def
      requestVoteMessage.dec_enc deliver_reply)

lemma addLog_delivered:
  assumes "PbAddLogMessage_valid W (convertAddLogMessage_pb msg)"
    and "PbAddLogMessage_ByteSizeLong W (convertAddLogMessage_pb msg) \<le> limit"
    and "\<And>r s'. f msg s = Some (r, s') \<Longrightarrow> PbAddLogReply_valid W (convertAddLogReply_pb r) \<and>
      PbAddLogReply_ByteSizeLong W (convertAddLogReply_pb r) \<le> limit"
  shows "addLog_over_wire limit W f msg s = f msg s"
  using assms
  by (cases "f msg s")
    (auto simp: addLog_over_wire_def deliver_roundtrip PbAddLogMessage_roundtrip PbAddLogMessage_size rpc_AddLog_def
      addLogMessage.dec_enc lr_msg.copy_exact PbAddLogReply_roundtrip PbAddLogReply_size addLogReply.dec_enc)

lemma addLog_args_rejected:
  assumes "length (lm_opname m) < 2 ^ 31" "length (lm_args m) < 2 ^ 31" "\<not> VerifyUtf8String W (lm_args m)"
    and "lm_args m \<noteq> []"
  shows "PbAddLogMessage_MergePartial W (PbAddLogMessage_Serialize W m []) PbAddLogMessage0 = ParseFailure"
proof -
  let ?rest = "(if lm_prmidx m \<noteq> 0 then WriteUInt64 W 3 (lm_prmidx m) else []) @
     (case lm_srvid m of None \<Rightarrow> []
      | Some s \<Rightarrow> WriteMessage W 4 (PbServerId_ByteSizeLong W s) (PbServerId_Serialize W s [])) @
     (if lm_unknown m \<noteq> [] \<and> PreserveUnknowns W then lm_unknown m else [])"
  have bytes: "PbAddLogMessage_Serialize W m [] =
      (if length (lm_opname m) > 0 then WriteString W 1 (lm_opname m) else []) @ WriteString W 2 (lm_args m) @ ?rest"
    using assms(4) by (simp add: PbAddLogMessage_Serialize_fields)
  have args: "reads (PbAddLogMessage_field W) unknown (WriteString W 2 (lm_args m) @ ?rest) m' ParseFailure"
    for unknown m' by (rule bad_string, simp, simp, rule assms(2), rule assms(3), rule PbAddLogMessage_fields(2))
  have "reads (PbAddLogMessage_field W) unknown ((if length (lm_opname m) > 0 then WriteString W 1 (lm_opname m) else []) @
      WriteString W 2 (lm_args m) @ ?rest) PbAddLogMessage0 ParseFailure" for unknown
  proof (cases "lm_opname m = []")
    case False
    show ?thesis
    proof (cases "VerifyUtf8String W (lm_opname m)")
      case True
      show ?thesis
        by (rule reads_string, simp, simp, rule assms(1), rule True, rule PbAddLogMessage_fields(1),
          simp add: PbAddLogMessage0_def, rule args)
    next
      case bad: False
      have "reads (PbAddLogMessage_field W) unknown (WriteString W 1 (lm_opname m) @ WriteString W 2 (lm_args m) @ ?rest)
          PbAddLogMessage0 ParseFailure"
        by (rule bad_string, simp, simp, rule assms(1), rule bad, rule PbAddLogMessage_fields(1))
      with False show ?thesis by simp
    qed
  qed (use args in simp)
  then show ?thesis
    unfolding PbAddLogMessage_MergePartial_def bytes by (rule reads_stream)
qed

end

section \<open>Properties\<close>

text \<open>
  C23. An AppendEntries call goes through the wire unchanged: the message is converted, written
  as bytes, read on the other side and handled, and the reply comes back, as if the caller had
  called the function that is bound on the server. It holds for every implementation of the
  protocol buffer library that keeps its documented laws, and every message whose indices and
  lengths fit and whose strings are UTF-8, when neither message is longer than gRPC receives.
\<close>

theorem appendEntries_wire:
  assumes "protobuf W" "index_fits (ae_prevLogIdx msg)" "index_fits (ae_commitIdx msg)"
    and "PbAppendEntriesMessage_valid W (convertAppendEntriesMessage_pb msg)"
    and "PbAppendEntriesMessage_ByteSizeLong W (convertAppendEntriesMessage_pb msg) \<le> limit"
    and "\<And>r s'. f msg s = Some (r, s') \<Longrightarrow> PbReply_ByteSizeLong W (convertReply_pb r) \<le> limit"
  shows "appendEntries_over_wire limit W f msg s = f msg s"
  using assms by (rule protobuf.appendEntries_delivered)

definition sample_wire :: AppendEntriesMessage where
  "sample_wire = \<lparr>ae_term = 300, ae_leaderId = \<lparr>addr = ''10.0.0.1'', port = 50000\<rparr>, ae_prevLogIdx = 1,
     ae_prevLogTerm = 299, ae_logEntries = [LogEntry0, LogEntry0\<lparr>le_term := 7, le_args := ''22''\<rparr>], ae_commitIdx = 1\<rparr>"

lemma sample_wire_size: "PbAppendEntriesMessage_ByteSizeLong standard_format (convertAppendEntriesMessage_pb sample_wire) \<le> 1024"
proof -
  let ?m = "convertAppendEntriesMessage_pb sample_wire"
  obtain e1 e2 s where m: "am_logentries ?m = [e1, e2]" "am_leaderid ?m = Some s" "am_unknown ?m = []"
    "length (si_addr s) = 8" "si_unknown s = []"
    "lg_unknown e1 = []" "lg_unknown e2 = []" "lg_opname e1 = []" "lg_opname e2 = []" "length (lg_args e1) \<le> 2" "length (lg_args e2) \<le> 2"
    "\<forall>e \<in> {e1, e2}. case lg_srvid e of None \<Rightarrow> True | Some s \<Rightarrow> si_addr s = [] \<and> si_unknown s = []"
    by (simp add: sample_wire_def convertAppendEntriesMessage_pb_def convertLogEntry_pb_def convertServerId_pb_def
      PbAppendEntriesMessage0_def PbLogEntry0_def PbServerId0_def LogEntry0_def NullServerId_def)
  have s: "PbServerId_ByteSizeLong standard_format s \<le> 30" using standard_server_bound [of s] m(4,5) by simp
  have e: "PbLogEntry_ByteSizeLong standard_format e \<le> 79" if "e \<in> {e1, e2}" for e
    using standard_entry_bound [of e] m that by (auto split: option.splits)
  show ?thesis
    using s e [of e1] e [of e2] standard_sizes_bound(3) [of "PbServerId_ByteSizeLong standard_format s"]
      standard_sizes_bound(3) [of "PbLogEntry_ByteSizeLong standard_format e1"]
      standard_sizes_bound(3) [of "PbLogEntry_ByteSizeLong standard_format e2"]
      standard_sizes_bound(1) [of "am_term ?m"] standard_sizes_bound(1) [of "am_prevlogidx ?m"]
      standard_sizes_bound(1) [of "am_prevlogterm ?m"] standard_sizes_bound(1) [of "am_commitidx ?m"]
    unfolding PbAppendEntriesMessage_ByteSizeLong_def Let_def m(1-3) by simp
qed

theorem appendEntries_wire_witness:
  "appendEntries_over_wire 4194304 standard_format (\<lambda>m n. Some ((ae_term m, ae_commitIdx m = n), n + length (ae_logEntries m)))
     sample_wire 1 = Some ((300, True), 3)"
proof -
  have "PbAppendEntriesMessage_valid standard_format (convertAppendEntriesMessage_pb sample_wire)"
    by (simp add: PbAppendEntriesMessage_valid_def PbLogEntry_valid_def PbServerId_valid_def sample_wire_def
        convertAppendEntriesMessage_pb_def convertLogEntry_pb_def convertServerId_pb_def PbAppendEntriesMessage0_def
        PbLogEntry0_def PbServerId0_def LogEntry0_def NullServerId_def standard_format_sizes(5) standard_server_size standard_entry_size)
  moreover have "PbReply_ByteSizeLong standard_format (convertReply_pb (300, True)) \<le> 4194304"
    by (simp add: PbReply_ByteSizeLong_def convertReply_pb_def PbReply0_def standard_format_sizes varint.simps)
  ultimately show ?thesis
    using sample_wire_size
    by (subst appendEntries_wire [OF pb.protobuf_axioms]) (auto simp: sample_wire_def index_fits_def)
qed

text \<open>
  An AddLog request whose serialized arguments are not UTF-8 cannot be delivered: the client
  writes it, but the generated parser rejects it, because the field is declared a \<open>string\<close> and not
  \<open>bytes\<close>; the call fails whatever server it is sent to.
\<close>

theorem addLog_not_utf8:
  assumes "protobuf W" "length (al_opName msg) < 2 ^ 31" "length (al_args msg) < 2 ^ 31"
    and "al_args msg \<noteq> []" "\<not> VerifyUtf8String W (al_args msg)"
  shows "addLog_over_wire limit W f msg s = None"
  using protobuf.addLog_args_rejected [OF assms(1), of "convertAddLogMessage_pb msg"] assms(2-)
  by (simp add: addLog_over_wire_def deliver_def convertAddLogMessage_pb_def PbAddLogMessage0_def)

theorem addLog_not_utf8_witness:
  "addLog_over_wire 4194304 standard_format (\<lambda>m n. Some (\<lparr>ar_success = True, ar_leaderId = NullServerId\<rparr>, n + 1))
     \<lparr>al_opName = ''put'', al_args = [CHR 0xFF], al_prmIdx = 0, al_srvId = NullServerId\<rparr> (0 :: nat) = None"
  by (rule addLog_not_utf8 [OF pb.protobuf_axioms]) (simp_all add: standard_format_sizes)

text \<open>
  Both generated ways of writing an AppendEntries message produce the same bytes, and
  \<open>ByteSizeLong\<close>, from which the sizes on the wire are taken, is the number of bytes written.
\<close>

theorem appendEntries_bytes:
  assumes "protobuf W" "PbAppendEntriesMessage_valid W m"
  shows "PbAppendEntriesMessage_SerializeToArray W m [] = PbAppendEntriesMessage_Serialize W m [] \<and>
    length (PbAppendEntriesMessage_Serialize W m []) = PbAppendEntriesMessage_ByteSizeLong W m"
  using assms by (simp add: protobuf.PbAppendEntriesMessage_array protobuf.PbAppendEntriesMessage_size)

theorem appendEntries_bytes_witness:
  "length (PbAppendEntriesMessage_Serialize standard_format (PbAppendEntriesMessage0\<lparr>am_term := 300\<rparr>) []) = 3"
  using appendEntries_bytes [OF pb.protobuf_axioms, of "PbAppendEntriesMessage0\<lparr>am_term := 300\<rparr>"]
  by (simp add: PbAppendEntriesMessage_valid_def PbAppendEntriesMessage0_def PbAppendEntriesMessage_ByteSizeLong_def
      standard_format_sizes varint.simps)

text \<open>
  C32. The generated parser of AppendEntries ends on every input, also a malformed one and one
  with unknown fields, for it always consumes a byte before it goes on.
\<close>

theorem appendEntries_parser_ends:
  assumes "protobuf W"
  shows "PbAppendEntriesMessage_MergePartial W input m \<noteq> OutOfFuel"
  using assms by (rule protobuf.PbAppendEntriesMessage_ends)

theorem appendEntries_parser_ends_witness:
  "PbAppendEntriesMessage_MergePartial standard_format [CHR 0xFF, CHR 0x08] PbAppendEntriesMessage0 \<noteq> OutOfFuel"
  by (rule appendEntries_parser_ends [OF pb.protobuf_axioms])

end
