(* ===== verification/Serialization.thy ===== *)
theory Serialization
  imports Quintet_Prelude "HOL-Library.Monad_Syntax"
begin

text \<open>
  The serialization of arguments (\<open>Serialization.h\<close>): the arguments of a call are written one
  after the other into a text archive of Boost, and the tuple of the parameters of the bound
  function is read from it in the same order.

  The archives are a parameter: \<open>archive\<close> lists what the code calls of them, and the locale
  \<open>text_archive\<close> states what Boost documents, that what was saved is loaded back in the same
  order and with the same types. Values and types are those of the program, \<open>'v\<close> and \<open>'ty\<close>.
  \<open>None\<close> is an exception of the archive. The last section gives an archive that keeps the
  promises, with numbers and strings as decimal, length-prefixed tokens.
\<close>

section \<open>The code\<close>

text \<open>
  \<open>oa_open\<close> and \<open>ia_open\<close> are the constructors, \<open>oa_text\<close> what the stream holds when the archive
  has been destroyed.
\<close>

record ('v, 'ty, 'oa, 'ia) archive =
  oa_open :: 'oa
  oa_write :: "'v \<Rightarrow> 'oa \<Rightarrow> 'oa"
  oa_text :: "'oa \<Rightarrow> string"
  ia_open :: "string \<Rightarrow> 'ia option"
  ia_read :: "'ty \<Rightarrow> 'ia \<Rightarrow> ('v \<times> 'ia) option"

fun serialize_impl :: "('v, 'ty, 'oa, 'ia) archive \<Rightarrow> 'oa \<Rightarrow> 'v list \<Rightarrow> 'oa" where
  "serialize_impl A oa [] = oa"
| "serialize_impl A oa (x # args) = serialize_impl A (oa_write A x oa) args"

definition serialize :: "('v, 'ty, 'oa, 'ia) archive \<Rightarrow> 'v list \<Rightarrow> string" where
  "serialize A args = oa_text A (serialize_impl A (oa_open A) args)"

text \<open>\<open>for_each\<close> over the elements of the tuple.\<close>

fun read_each :: "('v, 'ty, 'oa, 'ia) archive \<Rightarrow> 'ty list \<Rightarrow> 'ia \<Rightarrow> ('v list \<times> 'ia) option" where
  "read_each A [] ia = Some ([], ia)"
| "read_each A (ty # tys) ia = do {
     (v, ia1) \<leftarrow> ia_read A ty ia;
     (vs, ia2) \<leftarrow> read_each A tys ia1;
     Some (v # vs, ia2)
   }"

definition deserialize :: "('v, 'ty, 'oa, 'ia) archive \<Rightarrow> 'ty list \<Rightarrow> string \<Rightarrow> 'v list option" where
  "deserialize A tys str = Option.bind (ia_open A str) (\<lambda>ia. map_option fst (read_each A tys ia))"

text \<open>The hash codes of the types, which the code computes for no use: both uses are commented out.\<close>

fun serializeTypeInfo :: "('ty \<Rightarrow> 64 word) \<Rightarrow> 'ty list \<Rightarrow> 64 word list \<Rightarrow> 64 word list" where
  "serializeTypeInfo hash_code [] types = types"
| "serializeTypeInfo hash_code (ty # tys) types = serializeTypeInfo hash_code tys (types @ [hash_code ty])"

lemma serializeTypeInfo_map: "serializeTypeInfo hash_code tys types = types @ map hash_code tys"
  by (induction tys arbitrary: types) simp_all

section \<open>What the archives promise\<close>

text \<open>
  \<open>typed v ty\<close>: \<open>v\<close> is a value of the type \<open>ty\<close>; \<open>delivers ia vs\<close>: the input archive has the
  values \<open>vs\<close> still to give.
\<close>

locale text_archive =
  fixes A :: "('v, 'ty, 'oa, 'ia) archive"
    and typed :: "'v \<Rightarrow> 'ty \<Rightarrow> bool"
    and delivers :: "'ia \<Rightarrow> 'v list \<Rightarrow> bool"
  assumes opened: "list_all (\<lambda>v. \<exists>ty. typed v ty) vs \<Longrightarrow>
      \<exists>ia. ia_open A (oa_text A (fold (oa_write A) vs (oa_open A))) = Some ia \<and> delivers ia vs"
    and loaded: "delivers ia (v # vs) \<Longrightarrow> typed v ty \<Longrightarrow> \<exists>ia'. ia_read A ty ia = Some (v, ia') \<and> delivers ia' vs"
begin

lemma serialize_impl_fold: "serialize_impl A oa vs = fold (oa_write A) vs oa"
  by (induction vs arbitrary: oa) simp_all

lemma read_each_typed:
  "list_all2 typed vs tys \<Longrightarrow> delivers ia (vs @ ws) \<Longrightarrow> \<exists>ia'. read_each A tys ia = Some (vs, ia') \<and> delivers ia' ws"
proof (induction arbitrary: ia rule: list_all2_induct)
  case (Cons v vs ty tys)
  obtain ia1 where 1: "ia_read A ty ia = Some (v, ia1)" "delivers ia1 (vs @ ws)"
    using loaded [of ia v "vs @ ws" ty] Cons.prems Cons.hyps(1) by auto
  from Cons.IH [OF 1(2)] obtain ia2 where "read_each A tys ia1 = Some (vs, ia2)" "delivers ia2 ws" by blast
  with 1(1) show ?case by simp
qed simp

lemma typed_all: "list_all2 typed vs tys \<Longrightarrow> list_all (\<lambda>v. \<exists>ty. typed v ty) vs"
  by (induction rule: list_all2_induct) auto

lemma deserialize_more:
  assumes "list_all2 typed vs tys" "list_all2 typed ws tys'"
  shows "deserialize A tys (serialize A (vs @ ws)) = Some vs"
proof -
  have "list_all (\<lambda>v. \<exists>ty. typed v ty) (vs @ ws)" using typed_all assms by simp
  from opened [OF this] obtain ia where ia: "ia_open A (serialize A (vs @ ws)) = Some ia" "delivers ia (vs @ ws)"
    by (auto simp: serialize_def serialize_impl_fold)
  with read_each_typed [OF assms(1)] show ?thesis by (auto simp: deserialize_def)
qed

lemma deserialize_serialize:
  assumes "list_all2 typed vs tys"
  shows "deserialize A tys (serialize A vs) = Some vs"
  using deserialize_more [OF assms, of "[]" "[]"] by simp

end

section \<open>An archive that keeps the promises\<close>

datatype arg = NumArg nat | TextArg string

datatype arg_type = NumType | TextType

fun arg_typed :: "arg \<Rightarrow> arg_type \<Rightarrow> bool" where
  "arg_typed (NumArg n) NumType \<longleftrightarrow> n < 2 ^ 64"
| "arg_typed (TextArg s) TextType \<longleftrightarrow> length s < 2 ^ 64"
| "arg_typed _ _ \<longleftrightarrow> False"

fun arg_token :: "arg \<Rightarrow> string" where
  "arg_token (NumArg n) = '' '' @ to_string n"
| "arg_token (TextArg s) = '' '' @ to_string (length s) @ '' '' @ s"

fun read_token :: "arg_type \<Rightarrow> string \<Rightarrow> (arg \<times> string) option" where
  "read_token NumType s = map_option (\<lambda>(n, s). (NumArg n, s)) (read_number (2 ^ 64) s)"
| "read_token TextType s = (case read_number (2 ^ 64) s of None \<Rightarrow> None
     | Some (n, s) \<Rightarrow> if length s < n + 1 then None
         else Some (TextArg (take n (drop 1 s)), drop (n + 1) s))"

definition token_archive :: "(arg, arg_type, string, string) archive" where
  "token_archive = \<lparr>oa_open = [], oa_write = (\<lambda>v s. s @ arg_token v), oa_text = id, ia_open = Some,
     ia_read = read_token\<rparr>"

abbreviation token_text :: "arg list \<Rightarrow> string" where
  "token_text vs \<equiv> concat (map arg_token vs)"

lemma is_digit_space [simp]: "\<not> is_digit CHR '' ''"
  by (simp add: is_digit_def)

lemma token_text_head: "token_text vs = [] \<or> \<not> is_digit (hd (token_text vs))"
proof (cases vs)
  case (Cons v ws)
  then show ?thesis by (cases v) simp_all
qed simp

lemma fold_tokens: "fold (\<lambda>v s. s @ arg_token v) vs s = s @ token_text vs"
  by (induction vs arbitrary: s) simp_all

interpretation tokens: text_archive token_archive arg_typed "\<lambda>s vs. s = token_text vs"
proof unfold_locales
  show "\<exists>ia. ia_open token_archive (oa_text token_archive
      (fold (oa_write token_archive) vs (oa_open token_archive))) = Some ia \<and> ia = token_text vs" for vs
    by (simp add: token_archive_def fold_tokens)
next
  fix ia v vs ty
  assume ia: "ia = token_text (v # vs)" and ty: "arg_typed v ty"
  show "\<exists>ia'. ia_read token_archive ty ia = Some (v, ia') \<and> ia' = token_text vs"
  proof (cases v)
    case (NumArg n)
    with ty have "ty = NumType" "n < 2 ^ 64" by (cases ty; simp)+
    with read_number_token [of n "2 ^ 64" "token_text vs" "'' ''"] token_text_head [of vs] NumArg ia
    show ?thesis by (simp add: token_archive_def)
  next
    case (TextArg s)
    with ty have "ty = TextType" "length s < 2 ^ 64" by (cases ty; simp)+
    with read_number_token [of "length s" "2 ^ 64" "'' '' @ s @ token_text vs" "'' ''"] TextArg ia
    show ?thesis by (simp add: token_archive_def)
  qed
qed

section \<open>Properties\<close>

text \<open>
  What is written is read back: for an archive that keeps its promises, the tuple read from
  serialized arguments of the right types holds exactly these arguments, in order.
\<close>

theorem serialize_roundtrip:
  assumes "text_archive A typed delivers" "list_all2 typed args tys"
  shows "deserialize A tys (serialize A args) = Some args"
  using assms by (rule text_archive.deserialize_serialize)

theorem serialize_roundtrip_witness:
  "deserialize token_archive [NumType, TextType, NumType]
     (serialize token_archive [NumArg 42, TextArg ''7 up'', NumArg 0]) = Some [NumArg 42, TextArg ''7 up'', NumArg 0]"
  using serialize_roundtrip [OF tokens.text_archive_axioms] by simp

text \<open>
  A call with more arguments than the bound function has parameters is not noticed: the
  arguments left over are dropped. The comparison of the types that would notice it is
  commented out, and \<open>TypeMismatched\<close> is never thrown.
\<close>

theorem extra_arguments_dropped:
  assumes "text_archive A typed delivers" "list_all2 typed args tys" "list_all2 typed extra tys'"
  shows "deserialize A tys (serialize A (args @ extra)) = Some args"
  using assms by (rule text_archive.deserialize_more)

end
