(* ===== verification/Client_Interface.thy ===== *)
theory Client_Interface
  imports Raft_Server Rpc_Client
begin

text \<open>
  The interface of the library (\<open>Interface.h\<close>, \<open>Interface.cpp\<close>): operations bound by name,
  asynchronous calls with a promise each, the threads that bring a call to the leader, and
  the application of committed entries; and the pool those threads are kept in
  (\<open>misc/Thread.cpp\<close>).

  A bound operation is a function from its serialized arguments and the state of the
  application to \<open>Some\<close> of a result and a state, or \<open>None\<close> where it throws. The archives of
  Boost are parameters: \<open>ser\<close> writes the arguments, \<open>deser\<close> reads them back. A promise is
  pending while its index is in \<open>if_prms\<close>; \<open>if_results\<close> records what promises were set to.
\<close>

section \<open>The thread pool\<close>

datatype thread_state = ThreadRunning | ThreadInterrupted | ThreadJoined

definition pool_add :: "thread_state \<Rightarrow> thread_state list \<Rightarrow> thread_state list" where
  "pool_add t ts = ts @ [t]"

definition clearWithInterruption :: "thread_state list \<Rightarrow> thread_state list \<times> thread_state list" where
  "clearWithInterruption ts = (let ts = map (\<lambda>_. ThreadInterrupted) ts; ts = map (\<lambda>_. ThreadJoined) ts in (ts, []))"

definition pool_size :: "thread_state list \<Rightarrow> nat" where
  "pool_size ts = length ts"

section \<open>State and operations\<close>

type_synonym ('app, 'any) bound = "string \<Rightarrow> 'app \<Rightarrow> ('any \<times> 'app) option"

record ('app, 'any) Interface =
  if_local :: ServerId
  if_fs :: "string \<Rightarrow> ('app, 'any) bound option"
  if_prms :: "prm_idx set"
  if_curPrmIdx :: prm_idx
  if_threads :: "AddLogMessage list"
  if_results :: "(prm_idx \<times> 'any) list"

definition Interface0 :: "ServerId \<Rightarrow> ('app, 'any) Interface" where
  "Interface0 srv = \<lparr>if_local = srv, if_fs = (\<lambda>_. None), if_prms = {}, if_curPrmIdx = 0,
     if_threads = [], if_results = []\<rparr>"

definition interface_addLog :: "BasicLogEntry \<Rightarrow> ('app, 'any) Interface \<Rightarrow> ('app, 'any) Interface" where
  "interface_addLog e s = s\<lparr>if_threads := if_threads s @
     [\<lparr>al_opName = be_opName e, al_args = be_args e, al_prmIdx = be_prmIdx e, al_srvId = if_local s\<rparr>]\<rparr>"

definition asyncCall_op :: "('args \<Rightarrow> string) \<Rightarrow> string \<Rightarrow> 'args \<Rightarrow> ('app, 'any) Interface
    \<Rightarrow> prm_idx \<times> ('app, 'any) Interface" where
  "asyncCall_op ser opName rawArgs s = (let args = ser rawArgs; idx = if_curPrmIdx s;
     s = s\<lparr>if_curPrmIdx := if_curPrmIdx s + 1\<rparr>;
     s = s\<lparr>if_prms := insert idx (if_prms s)\<rparr>
     in (idx, interface_addLog \<lparr>be_opName = opName, be_args = args, be_prmIdx = idx,
       be_srvId = if_local s\<rparr> s))"

text \<open>\<open>bindImpl\<close>, for a function with a result and for one without (an empty \<open>any\<close>).\<close>

definition bindImpl :: "(string \<Rightarrow> 'args option) \<Rightarrow> ('args \<Rightarrow> 'app \<Rightarrow> ('any \<times> 'app) option)
    \<Rightarrow> ('app, 'any) bound" where
  "bindImpl deser rawF rawArgs app = Option.bind (deser rawArgs) (\<lambda>tup. rawF tup app)"

definition bindImpl_void :: "'any \<Rightarrow> (string \<Rightarrow> 'args option) \<Rightarrow> ('args \<Rightarrow> 'app \<Rightarrow> 'app option)
    \<Rightarrow> ('app, 'any) bound" where
  "bindImpl_void empty_any deser rawF rawArgs app =
     Option.bind (deser rawArgs) (\<lambda>tup. map_option (\<lambda>app'. (empty_any, app')) (rawF tup app))"

text \<open>\<open>fs.insert\<close> keeps a function that is already bound to the name.\<close>

definition bind_op :: "string \<Rightarrow> ('app, 'any) bound \<Rightarrow> ('app, 'any) Interface \<Rightarrow> ('app, 'any) Interface" where
  "bind_op opName f s = (if if_fs s opName = None then s\<lparr>if_fs := (if_fs s)(opName \<mapsto> f)\<rparr> else s)"

definition apply_op :: "BasicLogEntry \<Rightarrow> ('app, 'any) Interface \<times> 'app \<Rightarrow> (('app, 'any) Interface \<times> 'app) option" where
  "apply_op e = (\<lambda>(s, app). (case if_fs s (be_opName e) of None \<Rightarrow> None
     | Some f \<Rightarrow> (case f (be_args e) app of None \<Rightarrow> None
       | Some (res, app') \<Rightarrow>
           if be_srvId e = if_local s then
             (if be_prmIdx e \<notin> if_prms s then None
              else Some (s\<lparr>if_results := if_results s @ [(be_prmIdx e, res)],
                           if_prms := if_prms s - {be_prmIdx e}\<rparr>, app'))
           else Some (s, app'))))"

fun apply_all :: "BasicLogEntry list \<Rightarrow> ('app, 'any) Interface \<times> 'app \<Rightarrow> (('app, 'any) Interface \<times> 'app) option" where
  "apply_all [] st = Some st"
| "apply_all (e # es) st = Option.bind (apply_op e st) (apply_all es)"

text \<open>
  The loop of an \<open>addLog\<close> thread: the servers are asked in turn until one accepts. \<open>replies\<close>
  are the results of the successive calls, \<open>None\<close> an \<open>RpcError\<close>; the result is the number of
  calls made and the server that accepted, or \<open>None\<close> while the thread still tries. \<open>pos\<close> is
  the place of the iterator, which the code moves on before the call and resets at the end.
\<close>

fun addLog_loop :: "ServerId list \<Rightarrow> nat \<Rightarrow> AddLogReply option list \<Rightarrow> nat \<times> ServerId option" where
  "addLog_loop srvs pos [] = (0, None)"
| "addLog_loop srvs pos (r # rs) = (let srv = srvs ! pos; pos = pos + 1;
     success = (case r of None \<Rightarrow> False | Some reply \<Rightarrow> ar_success reply) in
     if success then (1, Some srv)
     else (case addLog_loop srvs (if pos = length srvs then 0 else pos) rs of (n, t) \<Rightarrow> (Suc n, t)))"

definition interface_shutdown :: "thread_state list \<Rightarrow> bool \<Rightarrow> nat list \<Rightarrow> Raft
    \<Rightarrow> (Raft \<times> thread_state list) option" where
  "interface_shutdown threads hbEnabled timeouts rf =
     map_option (\<lambda>rf'. (rf', snd (clearWithInterruption threads))) (raft_stop hbEnabled timeouts rf)"

section \<open>Properties\<close>

lemma apply_op_Some:
  assumes "apply_op e (s, app) = Some (s', app')"
  obtains f res where "if_fs s (be_opName e) = Some f" "f (be_args e) app = Some (res, app')"
    "s' = (if be_srvId e = if_local s then s\<lparr>if_results := if_results s @ [(be_prmIdx e, res)],
       if_prms := if_prms s - {be_prmIdx e}\<rparr> else s)"
    "be_srvId e = if_local s \<Longrightarrow> be_prmIdx e \<in> if_prms s"
  using assms by (auto simp: apply_op_def split: option.splits if_splits)

lemma apply_op_frame:
  "apply_op e (s, app) = Some (s', app') \<Longrightarrow> if_fs s' = if_fs s \<and> if_local s' = if_local s"
  by (erule apply_op_Some) simp

text \<open>
  The entries run one after the other on the state of the application, whatever server it is on, each
  with the result that its function returns.
\<close>

fun run_entries :: "(string \<Rightarrow> ('app, 'any) bound option) \<Rightarrow> BasicLogEntry list \<Rightarrow> 'app
    \<Rightarrow> ((BasicLogEntry \<times> 'any) list \<times> 'app) option" where
  "run_entries fs [] app = Some ([], app)"
| "run_entries fs (e # es) app = do {
     f \<leftarrow> fs (be_opName e);
     (res, app1) \<leftarrow> f (be_args e) app;
     (rs, app2) \<leftarrow> run_entries fs es app1;
     Some ((e, res) # rs, app2)
   }"

definition own_results :: "ServerId \<Rightarrow> (BasicLogEntry \<times> 'any) list \<Rightarrow> (prm_idx \<times> 'any) list" where
  "own_results srv rs = map (\<lambda>(e, res). (be_prmIdx e, res)) (filter (\<lambda>(e, res). be_srvId e = srv) rs)"

lemma own_results_Cons:
  "own_results srv ((e, res) # rs) = (if be_srvId e = srv then [(be_prmIdx e, res)] else []) @ own_results srv rs"
  by (simp add: own_results_def)

lemma apply_op_result:
  assumes "apply_op e (s, app) = Some (s', app')"
  obtains f res where "if_fs s (be_opName e) = Some f" "f (be_args e) app = Some (res, app')"
    "if_results s' = if_results s @ own_results (if_local s) [(e, res)]"
  using assms by (rule apply_op_Some) (auto simp: own_results_def)

lemma apply_all_results:
  "apply_all es (s, app) = Some (s', app') \<Longrightarrow> \<exists>rs. run_entries (if_fs s) es app = Some (rs, app') \<and>
     if_results s' = if_results s @ own_results (if_local s) rs"
proof (induction es arbitrary: s app)
  case (Cons e es)
  from Cons.prems obtain s1 app1 where 1: "apply_op e (s, app) = Some (s1, app1)" "apply_all es (s1, app1) = Some (s', app')"
    by (auto simp: Option.bind_eq_Some_conv)
  obtain f res where f: "if_fs s (be_opName e) = Some f" "f (be_args e) app = Some (res, app1)"
    "if_results s1 = if_results s @ own_results (if_local s) [(e, res)]" by (rule apply_op_result [OF 1(1)])
  from Cons.IH [OF 1(2)] apply_op_frame [OF 1(1)] obtain rs where "run_entries (if_fs s) es app1 = Some (rs, app')"
    "if_results s' = if_results s1 @ own_results (if_local s) rs" by auto
  with f show ?case by (intro exI [of _ "(e, res) # rs"]) (simp add: own_results_def)
qed (simp add: own_results_def)

text \<open>
  C19. Replicas agree: two servers with the same bound functions that apply the same entries to
  the same application state end in the same application state, and both set the promises of the
  calls that came from them to the results of one and the same run of the functions.
\<close>

theorem apply_all_agree:
  assumes "apply_all es (s1, app) = Some (s1', app1)" "apply_all es (s2, app) = Some (s2', app2)"
    and "if_fs s1 = if_fs s2"
  shows "app1 = app2 \<and> (\<exists>rs. run_entries (if_fs s1) es app = Some (rs, app1) \<and>
    if_results s1' = if_results s1 @ own_results (if_local s1) rs \<and>
    if_results s2' = if_results s2 @ own_results (if_local s2) rs)"
  using apply_all_results [OF assms(1)] apply_all_results [OF assms(2)] assms(3) by auto

definition counter_op :: "(nat, nat) bound" where
  "counter_op = bindImpl (\<lambda>s. if s = [] then None else Some (length s)) (\<lambda>n app. Some (app + n, app + n))"

theorem apply_all_agree_witness:
  "map_option snd (apply_all [\<lparr>be_opName = ''add'', be_args = ''xxx'', be_prmIdx = 0, be_srvId = sample_id ''a''\<rparr>]
      (snd (asyncCall_op id ''add'' ''xxx'' (bind_op ''add'' counter_op (Interface0 (sample_id ''a'')))), 4)) =
   map_option snd (apply_all [\<lparr>be_opName = ''add'', be_args = ''xxx'', be_prmIdx = 0, be_srvId = sample_id ''a''\<rparr>]
      (bind_op ''add'' counter_op (Interface0 (sample_id ''b'')), 4))"
proof -
  let ?es = "[\<lparr>be_opName = ''add'', be_args = ''xxx'', be_prmIdx = 0, be_srvId = sample_id ''a''\<rparr>]"
  let ?a = "snd (asyncCall_op id ''add'' ''xxx'' (bind_op ''add'' counter_op (Interface0 (sample_id ''a''))))"
  let ?b = "bind_op ''add'' counter_op (Interface0 (sample_id ''b''))"
  note defs = asyncCall_op_def bind_op_def Interface0_def interface_addLog_def apply_op_def counter_op_def
    bindImpl_def sample_id_def Let_def
  obtain a' n where a: "apply_all ?es (?a, 4) = Some (a', n)" by (simp add: defs)
  moreover obtain b' m where b: "apply_all ?es (?b, 4) = Some (b', m)" by (simp add: defs)
  moreover have "if_fs ?a = if_fs ?b" by (simp add: defs)
  from apply_all_agree [OF a b this] have "n = m" by blast
  ultimately show ?thesis by simp
qed

text \<open>A promise is pending, or has been set once, exactly when its index has been handed out.\<close>

definition promises_ok :: "('app, 'any) Interface \<Rightarrow> bool" where
  "promises_ok s \<longleftrightarrow> if_prms s \<union> fst ` set (if_results s) = {i. i < if_curPrmIdx s} \<and>
     if_prms s \<inter> fst ` set (if_results s) = {} \<and> distinct (map fst (if_results s))"

lemma promises_ok0: "promises_ok (Interface0 srv)"
  by (simp add: promises_ok_def Interface0_def)

lemma less_inc_word:
  assumes "(x :: prm_idx) + 1 \<noteq> 0"
  shows "i < x + 1 \<longleftrightarrow> i < x \<or> i = x"
proof -
  have "unat (x + 1) = Suc (unat x)" using unatSuc [of x] assms by (simp add: add.commute)
  then show ?thesis by (auto simp: word_less_nat_alt less_Suc_eq word_unat_eq_iff)
qed

lemma asyncCall_op_ok:
  assumes "promises_ok s" "if_curPrmIdx s + 1 \<noteq> 0"
  shows "promises_ok (snd (asyncCall_op ser opName raw s))"
  using assms less_inc_word [OF assms(2)]
  by (auto simp: promises_ok_def asyncCall_op_def interface_addLog_def Let_def)

lemma apply_op_ok:
  assumes "promises_ok s" "apply_op e (s, app) = Some (s', app')"
  shows "promises_ok s'"
  using assms(2) assms(1) by (elim apply_op_Some) (auto simp: promises_ok_def)

text \<open>What happens to an interface: a call of an operation, or the application of an entry.\<close>

datatype interface_event = CallOp string string | ApplyOp BasicLogEntry

fun interface_run :: "interface_event list \<Rightarrow> ('app, 'any) Interface \<times> 'app
    \<Rightarrow> (('app, 'any) Interface \<times> 'app) option" where
  "interface_run [] st = Some st"
| "interface_run (CallOp opName args # evs) (s, app) =
     interface_run evs (snd (asyncCall_op id opName args s), app)"
| "interface_run (ApplyOp e # evs) st = Option.bind (apply_op e st) (interface_run evs)"

definition calls_of :: "interface_event list \<Rightarrow> nat" where
  "calls_of evs = length (filter (\<lambda>ev. case ev of CallOp _ _ \<Rightarrow> True | ApplyOp _ \<Rightarrow> False) evs)"

lemma apply_op_cur: "apply_op e (s, app) = Some (s', app') \<Longrightarrow> if_curPrmIdx s' = if_curPrmIdx s"
  by (erule apply_op_Some) simp

lemma interface_run_ok:
  assumes "interface_run evs (s, app) = Some (s', app')" "promises_ok s"
    and "unat (if_curPrmIdx s) + calls_of evs < 2 ^ 64"
  shows "promises_ok s' \<and> unat (if_curPrmIdx s') = unat (if_curPrmIdx s) + calls_of evs"
  using assms
proof (induction evs arbitrary: s app)
  case (Cons ev evs)
  show ?case
  proof (cases ev)
    case (CallOp opName args)
    let ?s = "snd (asyncCall_op id opName args s)"
    have inc: "unat (if_curPrmIdx s + 1) = unat (if_curPrmIdx s) + 1"
      using Cons.prems(3) CallOp by (simp add: calls_of_def unat_add_lem [THEN iffD1])
    then have "if_curPrmIdx s + 1 \<noteq> 0" by (metis add_is_0 unsigned_0 zero_neq_one)
    from asyncCall_op_ok [OF Cons.prems(2) this] have ok: "promises_ok ?s" .
    have cur: "if_curPrmIdx ?s = if_curPrmIdx s + 1"
      by (simp add: asyncCall_op_def interface_addLog_def Let_def)
    from Cons.IH [of ?s app] Cons.prems CallOp ok cur inc show ?thesis by (simp add: calls_of_def)
  next
    case (ApplyOp e)
    with Cons.prems(1) obtain s1 a1 where 1: "apply_op e (s, app) = Some (s1, a1)"
      "interface_run evs (s1, a1) = Some (s', app')" by (auto simp: Option.bind_eq_Some_conv)
    from Cons.IH [OF 1(2)] Cons.prems(2,3) ApplyOp apply_op_ok [OF Cons.prems(2) 1(1)] apply_op_cur [OF 1(1)]
    show ?thesis by (simp add: calls_of_def)
  qed
qed (simp add: calls_of_def)

definition applied_entries :: "interface_event list \<Rightarrow> BasicLogEntry list" where
  "applied_entries evs = concat (map (\<lambda>ev. case ev of CallOp _ _ \<Rightarrow> [] | ApplyOp e \<Rightarrow> [e]) evs)"

lemma interface_run_results:
  "interface_run evs (s, app) = Some (s', app') \<Longrightarrow> \<exists>rs. run_entries (if_fs s) (applied_entries evs) app = Some (rs, app') \<and>
     if_results s' = if_results s @ own_results (if_local s) rs"
proof (induction evs arbitrary: s app)
  case (Cons ev evs)
  show ?case
  proof (cases ev)
    case (CallOp opName args)
    let ?s = "snd (asyncCall_op id opName args s)"
    have same: "if_fs ?s = if_fs s" "if_results ?s = if_results s" "if_local ?s = if_local s"
      by (simp_all add: asyncCall_op_def interface_addLog_def Let_def)
    have "interface_run evs (?s, app) = Some (s', app')" using Cons.prems CallOp by simp
    from Cons.IH [OF this] CallOp same show ?thesis by (simp add: applied_entries_def)
  next
    case (ApplyOp e)
    with Cons.prems obtain s1 app1 where 1: "apply_op e (s, app) = Some (s1, app1)"
      "interface_run evs (s1, app1) = Some (s', app')" by (auto simp: Option.bind_eq_Some_conv)
    obtain f res where f: "if_fs s (be_opName e) = Some f" "f (be_args e) app = Some (res, app1)"
      "if_results s1 = if_results s @ own_results (if_local s) [(e, res)]" by (rule apply_op_result [OF 1(1)])
    from Cons.IH [OF 1(2)] apply_op_frame [OF 1(1)] obtain rs where
      "run_entries (if_fs s) (applied_entries evs) app1 = Some (rs, app')"
      "if_results s' = if_results s1 @ own_results (if_local s) rs" by auto
    with f ApplyOp show ?thesis
      by (intro exI [of _ "(e, res) # rs"]) (simp add: own_results_def applied_entries_def)
  qed
qed (simp add: own_results_def applied_entries_def)

text \<open>
  C20. Promises are set at most once, each to the result of its entry: whatever calls are made and
  entries applied, in any order, no promise is set twice, the promises pending or set are those of
  the calls made, the first \<open>n\<close> indices after \<open>n\<close> calls, and what they are set to are the results of
  the functions run on the entries of this server, in the order of the entries.
\<close>

theorem promises_once:
  assumes "interface_run evs ((Interface0 srv)\<lparr>if_fs := fs\<rparr>, app) = Some (s, app')" "calls_of evs < 2 ^ 64"
  shows "distinct (map fst (if_results s)) \<and> if_prms s \<inter> fst ` set (if_results s) = {} \<and>
    (\<forall>i. i \<in> if_prms s \<or> i \<in> fst ` set (if_results s) \<longleftrightarrow> unat i < calls_of evs) \<and>
    (\<exists>rs. run_entries fs (applied_entries evs) app = Some (rs, app') \<and> if_results s = own_results srv rs)"
proof -
  have "promises_ok s \<and> unat (if_curPrmIdx s) = calls_of evs"
    using interface_run_ok [OF assms(1)] assms(2) promises_ok0 [of srv]
    by (simp add: Interface0_def promises_ok_def)
  moreover have "\<exists>rs. run_entries fs (applied_entries evs) app = Some (rs, app') \<and> if_results s = own_results srv rs"
    using interface_run_results [OF assms(1)] by (simp add: Interface0_def)
  ultimately show ?thesis by (simp add: promises_ok_def word_less_nat_alt set_eq_iff)
qed

theorem promises_once_witness:
  "\<exists>s app. interface_run [CallOp ''add'' ''x'', CallOp ''add'' ''xx'',
      ApplyOp \<lparr>be_opName = ''add'', be_args = ''xx'', be_prmIdx = 1, be_srvId = sample_id ''a''\<rparr>]
      (Interface0 (sample_id ''a'')\<lparr>if_fs := [''add'' \<mapsto> counter_op]\<rparr>, 0) = Some (s, app) \<and>
    if_prms s = {0} \<and> distinct (map fst (if_results s)) \<and> if_results s = [(1, 2)]"
proof -
  let ?evs = "[CallOp ''add'' ''x'', CallOp ''add'' ''xx'',
    ApplyOp \<lparr>be_opName = ''add'', be_args = ''xx'', be_prmIdx = 1, be_srvId = sample_id ''a''\<rparr>]"
  let ?st = "((Interface0 (sample_id ''a''))\<lparr>if_fs := [''add'' \<mapsto> counter_op]\<rparr>, 0)"
  obtain s app where run: "interface_run ?evs ?st = Some (s, app)" "if_prms s = {0}"
    by (auto simp: asyncCall_op_def Interface0_def interface_addLog_def apply_op_def counter_op_def
        bindImpl_def sample_id_def Let_def)
  have "calls_of ?evs < 2 ^ 64" by (simp add: calls_of_def)
  note once = promises_once [OF run(1) this]
  then have "if_results s = [(1, 2)]"
    by (auto simp: applied_entries_def own_results_def counter_op_def bindImpl_def sample_id_def)
  with run once have "interface_run ?evs ?st = Some (s, app) \<and> if_prms s = {0} \<and>
      distinct (map fst (if_results s)) \<and> if_results s = [(1, 2)]" by simp
  then show ?thesis by (intro exI [of _ s] exI [of _ app])
qed

definition accepted :: "AddLogReply option \<Rightarrow> bool" where
  "accepted r \<longleftrightarrow> (case r of None \<Rightarrow> False | Some reply \<Rightarrow> ar_success reply)"

text \<open>
  The threads ask the servers in turn: the first call that is accepted ends the loop, and
  the \<open>j\<close>-th call goes to the server \<open>j\<close> places further round the list, so that within as many
  calls as there are servers every server is asked.
\<close>

theorem addLog_round_robin:
  assumes "pos < length srvs" "j < length replies" "accepted (replies ! j)"
    and "\<And>k. k < j \<Longrightarrow> \<not> accepted (replies ! k)"
  shows "addLog_loop srvs pos replies = (j + 1, Some (srvs ! ((pos + j) mod length srvs)))"
  using assms
proof (induction j arbitrary: pos replies)
  case 0
  then show ?case by (cases replies) (simp_all add: accepted_def)
next
  case (Suc j)
  then obtain r rs where r: "replies = r # rs" by (cases replies) auto
  let ?pos = "if pos + 1 = length srvs then 0 else pos + 1"
  have "\<not> accepted r" using Suc.prems(4) [of 0] r by simp
  moreover have "\<not> accepted (rs ! k)" if "k < j" for k using Suc.prems(4) [of "Suc k"] r that by simp
  moreover have "(?pos + j) mod length srvs = (pos + Suc j) mod length srvs"
  proof (cases "pos + 1 = length srvs")
    case True
    then have "(pos + Suc j) mod length srvs = (length srvs + j) mod length srvs"
      by (metis add.assoc plus_1_eq_Suc)
    with True show ?thesis by (simp only: mod_add_self1 if_True) simp
  qed simp
  moreover have "?pos < length srvs" using Suc.prems(1) by auto
  ultimately show ?case using Suc.IH [of ?pos rs] Suc.prems r
    by (cases "Suc pos = length srvs") (simp_all add: accepted_def Let_def)
qed

theorem addLog_round_robin_witness:
  "addLog_loop [sample_id ''a'', sample_id ''b'', sample_id ''c''] 2
     [None, Some \<lparr>ar_success = False, ar_leaderId = NullServerId\<rparr>,
      Some \<lparr>ar_success = True, ar_leaderId = sample_id ''b''\<rparr>] = (3, Some (sample_id ''b''))"
  using addLog_round_robin [of 2 "[sample_id ''a'', sample_id ''b'', sample_id ''c'']" 2 "[None,
      Some \<lparr>ar_success = False, ar_leaderId = NullServerId\<rparr>,
      Some \<lparr>ar_success = True, ar_leaderId = sample_id ''b''\<rparr>]"]
  by (simp add: accepted_def less_Suc_eq numeral_2_eq_2 all_conj_distrib)

end
