(* ===== verification/Call_Path.thy ===== *)
theory Call_Path
  imports Serialization Client_Interface Wire_Calls
begin

text \<open>
  The path of a call through one program: an \<open>Interface\<close> with its \<open>Raft\<close> (\<open>Interface.h\<close>,
  \<open>Interface.cpp\<close>), the queue of entries to apply (\<open>service/Apply.h\<close>) and the application. The
  arguments are serialized by \<open>Serialization\<close>, carried as an \<open>AddLogMessage\<close> to the leader, logged
  there, handed to the apply queue of every server when committed, and taken apart again by the
  function that is bound to the operation.
\<close>

section \<open>A program\<close>

text \<open>\<open>nd_bound\<close>: the apply function of the service is bound; the null function throws.\<close>

record ('app, 'any) Node =
  nd_raft :: Raft
  nd_bound :: bool
  nd_if :: "('app, 'any) Interface"
  nd_app :: 'app

definition Node0 :: "'app \<Rightarrow> ('app, 'any) Node" where
  "Node0 app = \<lparr>nd_raft = configure \<lparr>local = NullServerId, srvList = [], electionTimeout = 0\<rparr>, nd_bound = False,
     nd_if = Interface0 NullServerId, nd_app = app\<rparr>"

definition interface_Configure :: "ServerInfo \<Rightarrow> ('app, 'any) Node \<Rightarrow> ('app, 'any) Node" where
  "interface_Configure cfg nd = nd\<lparr>nd_raft := configure cfg, nd_if := (nd_if nd)\<lparr>if_local := local cfg\<rparr>\<rparr>"

definition apply_bind :: "('app, 'any) Node \<Rightarrow> ('app, 'any) Node" where
  "apply_bind nd = nd\<lparr>nd_bound := True\<rparr>"

definition raft_BindApply :: "('app, 'any) Node \<Rightarrow> ('app, 'any) Node" where
  "raft_BindApply nd = apply_bind nd"

definition interface_Start :: "('app, 'any) Node \<Rightarrow> ('app, 'any) Node" where
  "interface_Start nd = (let nd = raft_BindApply nd in nd\<lparr>nd_raft := asyncRun (nd_raft nd)\<rparr>)"

text \<open>The worker of the apply queue runs its next event; \<open>None\<close> is an exception in it.\<close>

definition node_apply :: "('app, 'any) Node \<Rightarrow> ('app, 'any) Node option" where
  "node_apply nd = (case eq_exec1 (sv_applyQueue (rf_server (nd_raft nd))) of
       None \<Rightarrow> Some nd
     | Some (e, q) \<Rightarrow>
         if \<not> nd_bound nd then None
         else map_option (\<lambda>(s, app). nd\<lparr>nd_if := s, nd_app := app, nd_raft := (nd_raft nd)\<lparr>rf_server :=
           (rf_server (nd_raft nd))\<lparr>sv_applyQueue := q\<rparr>\<rparr>\<rparr>) (apply_op e (nd_if nd, nd_app nd)))"

fun node_drain :: "nat \<Rightarrow> ('app, 'any) Node \<Rightarrow> ('app, 'any) Node option" where
  "node_drain 0 nd = Some nd"
| "node_drain (Suc n) nd = Option.bind (node_apply nd) (node_drain n)"

abbreviation to_apply :: "('app, 'any) Node \<Rightarrow> BasicLogEntry list" where
  "to_apply nd \<equiv> eq_events (sv_applyQueue (rf_server (nd_raft nd)))"

section \<open>The application sees the entries in the order they were handed over\<close>

text \<open>
  Running the apply queue is applying its entries: with the apply function bound, as many
  turns of its worker as there are entries leave the queue empty and the application and the
  promises as applying the entries one after the other leaves them; an entry that cannot be
  applied stops the program.
\<close>

theorem node_drain_applies:
  assumes "nd_bound nd" "eq_idle (sv_applyQueue (rf_server (nd_raft nd)))"
  shows "map_option (\<lambda>nd'. (nd_if nd', nd_app nd')) (node_drain (length (to_apply nd)) nd) =
      apply_all (to_apply nd) (nd_if nd, nd_app nd) \<and>
    pred_option (\<lambda>nd'. to_apply nd' = []) (node_drain (length (to_apply nd)) nd)"
proof -
  have "map_option (\<lambda>nd'. (nd_if nd', nd_app nd')) (node_drain (length es) nd) =
      apply_all es (nd_if nd, nd_app nd) \<and> pred_option (\<lambda>nd'. to_apply nd' = []) (node_drain (length es) nd)"
    if "to_apply nd = es" for es
    using that assms
  proof (induction es arbitrary: nd)
    case (Cons e es)
    obtain q where q: "eq_exec1 (sv_applyQueue (rf_server (nd_raft nd))) = Some (e, q)" "eq_events q = es" "eq_idle q"
      using Cons.prems by (metis eq_exec1_events)
    show ?case
    proof (cases "apply_op e (nd_if nd, nd_app nd)")
      case None
      with q Cons.prems(2) show ?thesis by (simp add: node_apply_def)
    next
      case (Some st)
      let ?nd = "nd\<lparr>nd_if := fst st, nd_app := snd st, nd_raft := (nd_raft nd)\<lparr>rf_server :=
        (rf_server (nd_raft nd))\<lparr>sv_applyQueue := q\<rparr>\<rparr>\<rparr>"
      have "node_apply nd = Some ?nd" using Some q(1) Cons.prems(2) by (simp add: node_apply_def case_prod_beta)
      with Cons.IH [of ?nd] q Cons.prems(2) Some show ?thesis by simp
    qed
  qed simp
  then show ?thesis by simp
qed

section \<open>From the call to the result\<close>

text \<open>The message that the \<open>addLog\<close> thread of a call sends.\<close>

lemma asyncCall_message:
  "asyncCall_op ser opName args s = (if_curPrmIdx s,
     s\<lparr>if_curPrmIdx := if_curPrmIdx s + 1, if_prms := insert (if_curPrmIdx s) (if_prms s),
       if_threads := if_threads s @ [\<lparr>al_opName = opName, al_args = ser args, al_prmIdx = if_curPrmIdx s,
         al_srvId = if_local s\<rparr>]\<rparr>)"
  by (simp add: asyncCall_op_def interface_addLog_def Let_def)

lemma basicEntry_newEntry:
  "basicEntry (newEntry m sv) = \<lparr>be_opName = al_opName m, be_args = al_args m, be_prmIdx = al_prmIdx m,
     be_srvId = al_srvId m\<rparr>"
  by (simp add: basicEntry_def newEntry_def)

lemma apply_bound:
  assumes "text_archive A typed delivers" "list_all2 typed args tys"
    and "if_fs s opName = Some (bindImpl (deserialize A tys) f)" "f args app = Some (res, app')"
  shows "apply_op \<lparr>be_opName = opName, be_args = serialize A args, be_prmIdx = idx, be_srvId = srv\<rparr> (s, app) =
    (if srv \<noteq> if_local s then Some (s, app')
     else if idx \<notin> if_prms s then None
     else Some (s\<lparr>if_results := if_results s @ [(idx, res)], if_prms := if_prms s - {idx}\<rparr>, app'))"
  using assms(3,4) text_archive.deserialize_serialize [OF assms(1,2)]
  by (simp add: apply_op_def bindImpl_def)

text \<open>
  C29. A call reaches the function it is made for. Its arguments are serialized and sent as an
  AddLog request over the wire to a leader, which logs them in a new entry; applying that entry
  runs the function that is bound to the operation on just these arguments, and sets the promise
  of the call to the function's result on the server that made the call, while on any other only
  the application changes. The texts of the request have to be UTF-8 and short enough for gRPC,
  the request new to the log of the leader, and the function bound on both servers; that the entry
  is replicated, committed and handed to the apply queue is not part of this.
\<close>

theorem call_end_to_end:
  assumes "text_archive A typed delivers" "list_all2 typed args tys" "protobuf W"
    and call: "asyncCall_op (serialize A) opName args s = (idx, s')"
    and fits: "PbAddLogMessage_valid W (convertAddLogMessage_pb (last (if_threads s')))"
      "PbAddLogMessage_ByteSizeLong W (convertAddLogMessage_pb (last (if_threads s'))) \<le> limit"
      "PbAddLogReply_valid W (convertAddLogReply_pb \<lparr>ar_success = True, ar_leaderId = local (sv_info sv)\<rparr>)"
      "PbAddLogReply_ByteSizeLong W (convertAddLogReply_pb \<lparr>ar_success = True, ar_leaderId = local (sv_info sv)\<rparr>) \<le> limit"
    and fresh: "(if_local s, idx) \<notin> requestKey ` set (entries (sv_state sv))"
    and bound: "if_fs s opName = Some (bindImpl (deserialize A tys) f)" "if_fs t opName = if_fs s opName"
    and result: "f args app = Some (res, app')" and other: "if_local t \<noteq> if_local s"
  shows "\<exists>reply sv' ld'. addLog_over_wire limit W (\<lambda>m st. Some (leader_addLog m st)) (last (if_threads s')) (sv, ld) =
      Some (reply, sv', ld') \<and> ar_success reply \<and>
    apply_op (basicEntry (last (entries (sv_state sv')))) (s', app) =
      Some (s'\<lparr>if_results := if_results s @ [(idx, res)], if_prms := if_prms s - {idx}\<rparr>, app') \<and>
    apply_op (basicEntry (last (entries (sv_state sv')))) (t, app) = Some (t, app')"
proof -
  let ?m = "\<lparr>al_opName = opName, al_args = serialize A args, al_prmIdx = idx, al_srvId = if_local s\<rparr>"
  from call have s': "idx = if_curPrmIdx s" "s' = s\<lparr>if_curPrmIdx := if_curPrmIdx s + 1,
      if_prms := insert idx (if_prms s), if_threads := if_threads s @ [?m]\<rparr>"
    by (auto simp: asyncCall_message)
  obtain reply sv' ld' where logged: "leader_addLog ?m (sv, ld) = (reply, sv', ld')" by (metis prod_cases3)
  then have reply: "reply = \<lparr>ar_success = True, ar_leaderId = local (sv_info sv)\<rparr>"
    by (auto simp: leader_addLog_def Let_def split: if_splits)
  have wire: "addLog_over_wire limit W (\<lambda>m st. Some (leader_addLog m st)) ?m (sv, ld) = Some (reply, sv', ld')"
  proof (subst protobuf.addLog_delivered [OF assms(3)])
    show "PbAddLogMessage_valid W (convertAddLogMessage_pb ?m)"
      "PbAddLogMessage_ByteSizeLong W (convertAddLogMessage_pb ?m) \<le> limit" using fits(1,2) s'(2) by simp_all
    show "Some (leader_addLog ?m (sv, ld)) = Some (reply, sv', ld')" by (simp add: logged)
  qed (use logged reply fits(3,4) in auto)
  have "entries (sv_state sv') = entries (sv_state sv) @ [newEntry ?m sv]"
    using leader_addLog_log [of ?m "(sv, ld)"] logged fresh s' by simp
  then have e: "basicEntry (last (entries (sv_state sv'))) =
      \<lparr>be_opName = opName, be_args = serialize A args, be_prmIdx = idx, be_srvId = if_local s\<rparr>"
    by (simp add: basicEntry_newEntry)
  from apply_bound [OF assms(1,2), of s' opName f app res app'] apply_bound [OF assms(1,2), of t opName f app res app']
  have "apply_op (basicEntry (last (entries (sv_state sv')))) (s', app) =
      Some (s'\<lparr>if_results := if_results s @ [(idx, res)], if_prms := if_prms s - {idx}\<rparr>, app') \<and>
    apply_op (basicEntry (last (entries (sv_state sv')))) (t, app) = Some (t, app')"
    using bound result other s' by (simp add: e)
  with wire reply s' show ?thesis by (intro exI [of _ reply] exI [of _ sv'] exI [of _ ld']) simp
qed

text \<open>A bound operation on two numbers, and the servers \<open>a\<close> and \<open>b\<close> that both bind it.\<close>

fun add_args :: "arg list \<Rightarrow> nat \<Rightarrow> (nat \<times> nat) option" where
  "add_args [NumArg x, NumArg y] app = Some (app + x * y, app + x * y)"
| "add_args _ app = None"

definition adder :: "char list \<Rightarrow> (nat, nat) Interface" where
  "adder nm = bind_op ''add'' (bindImpl (deserialize token_archive [NumType, NumType]) add_args)
     (Interface0 (sample_id nm))"

lemma adder_call:
  assumes "asyncCall_op (serialize token_archive) ''add'' [NumArg 6, NumArg 7] (adder ''a'') = (idx, s')"
  shows "idx = 0" "last (if_threads s') =
    \<lparr>al_opName = ''add'', al_args = '' 6 7'', al_prmIdx = 0, al_srvId = sample_id ''a''\<rparr>"
proof -
  have "serialize token_archive [NumArg 6, NumArg 7] = '' 6 7''" by code_simp
  then show "idx = 0" "last (if_threads s') =
    \<lparr>al_opName = ''add'', al_args = '' 6 7'', al_prmIdx = 0, al_srvId = sample_id ''a''\<rparr>"
    using assms by (auto simp: asyncCall_message adder_def bind_op_def Interface0_def)
qed

theorem call_end_to_end_witness:
  "case asyncCall_op (serialize token_archive) ''add'' [NumArg 6, NumArg 7] (adder ''a'') of (idx, s') \<Rightarrow>
     (\<exists>reply sv' ld'. addLog_over_wire 4194304 standard_format (\<lambda>m st. Some (leader_addLog m st)) (last (if_threads s'))
        sample_leader = Some (reply, sv', ld') \<and>
       map_option (\<lambda>(s, app). (if_results s, app)) (apply_op (basicEntry (last (entries (sv_state sv')))) (s', 100)) =
         Some ([(0, 142)], 142) \<and>
       apply_op (basicEntry (last (entries (sv_state sv')))) (adder ''b'', 100) = Some (adder ''b'', 142))"
proof -
  obtain idx s' where call: "asyncCall_op (serialize token_archive) ''add'' [NumArg 6, NumArg 7] (adder ''a'') = (idx, s')"
    by fastforce
  note m = adder_call [OF call]
  let ?sv = "fst sample_leader"
  let ?r = "\<lparr>ar_success = True, ar_leaderId = local (sv_info ?sv)\<rparr>"
  have here: "local (sv_info ?sv) = sample_id ''a''"
    by (simp add: sample_leader_def reinitStates_def sample_server_def)
  have "PbAddLogMessage_valid standard_format (convertAddLogMessage_pb (last (if_threads s')))"
    "PbAddLogReply_valid standard_format (convertAddLogReply_pb ?r)"
    by (simp_all add: m(2) here PbAddLogMessage_valid_def PbAddLogReply_valid_def PbServerId_valid_def
        convertAddLogMessage_pb_def convertAddLogReply_pb_def convertServerId_pb_def PbAddLogMessage0_def
        PbAddLogReply0_def PbServerId0_def sample_id_def standard_format_sizes(5) standard_server_size)
  moreover have "PbAddLogMessage_ByteSizeLong standard_format (convertAddLogMessage_pb (last (if_threads s'))) \<le> 4194304"
    "PbAddLogReply_ByteSizeLong standard_format (convertAddLogReply_pb ?r) \<le> 4194304"
    by (simp_all add: m(2) here PbAddLogMessage_ByteSizeLong_def PbAddLogReply_ByteSizeLong_def
        PbServerId_ByteSizeLong_def convertAddLogMessage_pb_def convertAddLogReply_pb_def convertServerId_pb_def
        PbAddLogMessage0_def PbAddLogReply0_def PbServerId0_def sample_id_def standard_format_sizes varint.simps)
  moreover have "(if_local (adder ''a''), idx) \<notin> requestKey ` set (entries (sv_state ?sv))"
    using m(1) by (auto simp: adder_def bind_op_def Interface0_def sample_leader_def reinitStates_def
        sample_server_def sample_defs requestKey_def)
  ultimately show ?thesis
    using call_end_to_end [OF tokens.text_archive_axioms _ pb.protobuf_axioms call, where sv = ?sv and ld = "snd sample_leader"
        and limit = 4194304 and tys = "[NumType, NumType]" and f = add_args and t = "adder ''b''" and app = 100 and
        res = 142 and app' = 142] call
    by (auto simp: adder_def bind_op_def Interface0_def asyncCall_message sample_id_def)
qed

definition sample_node :: "(nat, nat) Node" where
  "sample_node = interface_Start ((Node0 5)\<lparr>nd_if := adder ''b'', nd_raft := (sample_raft Follower [])\<lparr>rf_server :=
     sample_server\<lparr>sv_applyQueue := addEvent \<lparr>be_opName = ''add'',
       be_args = serialize token_archive [NumArg 2, NumArg 3], be_prmIdx = 0, be_srvId = sample_id ''a''\<rparr> EventQueue0\<rparr>\<rparr>\<rparr>)"

theorem node_drain_applies_witness:
  "map_option (\<lambda>nd'. (nd_if nd', nd_app nd')) (node_drain 1 sample_node) = Some (adder ''b'', 11)"
proof -
  have q: "to_apply sample_node = [\<lparr>be_opName = ''add'', be_args = serialize token_archive [NumArg 2, NumArg 3],
      be_prmIdx = 0, be_srvId = sample_id ''a''\<rparr>]" "eq_idle (sv_applyQueue (rf_server (nd_raft sample_node)))"
    "nd_bound sample_node" "nd_if sample_node = adder ''b''" "nd_app sample_node = 5"
    by (simp_all add: sample_node_def interface_Start_def raft_BindApply_def apply_bind_def asyncRun_def triggerTransformation_def
        EventQueue0_def addEvent_def eq_events_def eq_idle_def Node0_def Let_def)
  have "apply_all (to_apply sample_node) (adder ''b'', 5) = Some (adder ''b'', 11)"
    using apply_bound [OF tokens.text_archive_axioms, of "[NumArg 2, NumArg 3]" "[NumType, NumType]" "adder ''b''"
      "''add''" add_args 5 11 11 0 "sample_id ''a''"] q(1)
    by (simp add: adder_def bind_op_def Interface0_def sample_id_def)
  with node_drain_applies [OF q(3,2)] q(1,4,5) show ?thesis by simp
qed

end
