(* ===== verification/File_IO.thy ===== *)
theory File_IO
  imports Quintet_Prelude
begin

text \<open>
  Variables in files (\<open>misc/FileIO.h\<close>, \<open>misc/FileIO.cpp\<close>): a value in a file of its own, or a
  vector that is appended to and popped in place. The file of a vector starts with its length
  in bytes (the four bytes of the length included); each element follows as its size, its
  serialized form and its size again, and what lies behind the length is left over from
  elements that were popped.

  A file is a list of characters (bytes), the file system a map from names. The archives of
  Boost are parameters: \<open>ser\<close> writes a value, \<open>deser\<close> reads one back. \<open>Inl\<close> is an
  exception (\<open>std::runtime_error\<close>, or that of \<open>new\<close> for a negative size). Integers are the 32-bit \<open>int\<close>s of the code, kept as natural numbers
  below \<open>2 ^ 31\<close>, in little-endian order. \<open>getValue\<close> and \<open>getVector\<close> hand the bytes of an
  element to \<open>deser\<close> through a \<open>char *\<close> without a terminator: what \<open>deser\<close> sees runs on to
  the first zero byte, past the end of the buffer; \<open>heap\<close> is the memory behind it.
\<close>

section \<open>Integers and positions\<close>

definition int2String :: "nat \<Rightarrow> string" where
  "int2String x = [char_of (x mod 256), char_of (x div 256 mod 256), char_of (x div 65536 mod 256),
     char_of (x div 16777216 mod 256)]"

definition string2int :: "string \<Rightarrow> nat" where
  "string2int s = of_char (s ! 0) + 256 * (of_char (s ! 1) + 256 * (of_char (s ! 2) + 256 * of_char (s ! 3)))"

definition read_at :: "nat \<Rightarrow> nat \<Rightarrow> string \<Rightarrow> string" where
  "read_at pos n file = take n (drop pos file)"

definition write_at :: "nat \<Rightarrow> string \<Rightarrow> string \<Rightarrow> string" where
  "write_at pos data file =
     take pos (file @ replicate (pos - length file) (CHR 0x00)) @ data @ drop (pos + length data) file"

text \<open>The string that a \<open>char *\<close> to a buffer denotes.\<close>

definition c_string :: "string \<Rightarrow> string \<Rightarrow> string" where
  "c_string heap buffer = takeWhile (\<lambda>c. c \<noteq> CHR 0x00) (buffer @ heap)"

section \<open>Variables\<close>

datatype file_type = FILE_VALUE | FILE_VECTOR

datatype file_error = NotRegistered | AlreadyRegistered | TypeError | CannotOpen | BadArchive | BadLength

type_synonym file_system = "string \<Rightarrow> string option"

definition registerVar :: "string \<Rightarrow> file_type \<Rightarrow> (string \<Rightarrow> file_type option)
    \<Rightarrow> file_error + (string \<Rightarrow> file_type option)" where
  "registerVar var ty vars = (if vars var \<noteq> None then Inl AlreadyRegistered else Inr (vars(var \<mapsto> ty)))"

definition checkVar :: "string \<Rightarrow> file_type \<Rightarrow> (string \<Rightarrow> file_type option) \<Rightarrow> file_error option" where
  "checkVar var ty vars = (case vars var of None \<Rightarrow> Some NotRegistered
     | Some t \<Rightarrow> if t \<noteq> ty then Some TypeError else None)"

definition file_name :: "string \<Rightarrow> string" where
  "file_name var = var @ ''.bin''"

text \<open>An operation on a checked variable.\<close>

definition checked_var :: "string \<Rightarrow> file_type \<Rightarrow> (string \<Rightarrow> file_type option) \<Rightarrow> (string \<Rightarrow> file_error + 'a)
    \<Rightarrow> file_error + 'a" where
  "checked_var var ty vars act = (case checkVar var ty vars of
     Some err \<Rightarrow> Inl err | None \<Rightarrow> act (file_name var))"

definition modify :: "('v \<Rightarrow> string) \<Rightarrow> (string \<Rightarrow> file_type option) \<Rightarrow> string \<Rightarrow> 'v \<Rightarrow> file_system
    \<Rightarrow> file_error + file_system" where
  "modify ser vars var val fs = checked_var var FILE_VALUE vars (\<lambda>f. Inr (fs(f \<mapsto> ser val)))"

definition getValue :: "(string \<Rightarrow> 'v option) \<Rightarrow> string \<Rightarrow> (string \<Rightarrow> file_type option) \<Rightarrow> string \<Rightarrow> file_system
    \<Rightarrow> file_error + 'v" where
  "getValue deser heap vars var fs = checked_var var FILE_VALUE vars (\<lambda>f.
     case fs f of None \<Rightarrow> Inl CannotOpen
     | Some file \<Rightarrow> (case deser (c_string heap file) of None \<Rightarrow> Inl BadArchive | Some v \<Rightarrow> Inr v))"

definition append_bytes :: "string \<Rightarrow> string option \<Rightarrow> string" where
  "append_bytes val_data old = (
     let file = (case old of None \<Rightarrow> int2String 4 | Some file \<Rightarrow> file);
         len = (case old of None \<Rightarrow> 4 | Some file \<Rightarrow> string2int (read_at 0 4 file));
         data_size = int2String (length val_data);
         val_data = data_size @ val_data @ data_size;
         file = write_at len val_data file
     in write_at 0 (int2String (len + length val_data)) file)"

definition append_val :: "('v \<Rightarrow> string) \<Rightarrow> (string \<Rightarrow> file_type option) \<Rightarrow> string \<Rightarrow> 'v \<Rightarrow> file_system
    \<Rightarrow> file_error + file_system" where
  "append_val ser vars var val fs = checked_var var FILE_VECTOR vars (\<lambda>f.
     Inr (fs(f \<mapsto> append_bytes (ser val) (fs f))))"

text \<open>
  The loop of \<open>getVector\<close>: the elements from \<open>pos\<close> up to the length. A difference between the
  two sizes of an element only constructs an exception, which is not thrown. A read past the
  end of the file puts the stream in its error state: \<open>tellg\<close> is then -1, below any length, and
  the loop goes on for ever with an uninitialised size (or until that size happens to make it
  throw). \<open>None\<close> stands for this: no vector is returned.
\<close>

function read_elems :: "(string \<Rightarrow> 'v option) \<Rightarrow> string \<Rightarrow> nat \<Rightarrow> nat \<Rightarrow> string
    \<Rightarrow> (file_error + 'v list) option" where
  "read_elems deser heap pos len file =
     (if \<not> pos < len then Some (Inr [])
      else if length file < pos + 4 then None
      else let size = string2int (read_at pos 4 file) in
        if 2 ^ 31 \<le> size then Some (Inl BadLength)
        else if length file < pos + 4 + size + 4 then None
        else case deser (c_string heap (read_at (pos + 4) size file)) of None \<Rightarrow> Some (Inl BadArchive)
          | Some v \<Rightarrow> map_option (map_sum id ((#) v)) (read_elems deser heap (pos + 4 + size + 4) len file))"
  by pat_completeness auto
termination by (relation "measure (\<lambda>(deser, heap, pos, len, file). len - pos)") auto

declare read_elems.simps [simp del]

text \<open>A negative length ends the loop at once; a file without four bytes gives no length.\<close>

definition getVector :: "(string \<Rightarrow> 'v option) \<Rightarrow> string \<Rightarrow> (string \<Rightarrow> file_type option) \<Rightarrow> string \<Rightarrow> file_system
    \<Rightarrow> (file_error + 'v list) option" where
  "getVector deser heap vars var fs = (case checkVar var FILE_VECTOR vars of Some err \<Rightarrow> Some (Inl err)
     | None \<Rightarrow> (case fs (file_name var) of None \<Rightarrow> Some (Inl CannotOpen)
         | Some file \<Rightarrow> if length file < 4 then None
             else let len = string2int (read_at 0 4 file) in
               if 2 ^ 31 \<le> len then Some (Inr []) else read_elems deser heap 4 len file))"

text \<open>
  \<open>pop\<close>: the length shrinks by the size read from the end of the vector; a seek before the
  start of the file, or a read past its end, puts the stream in its error state, in which the
  write does nothing.
\<close>

definition pop_bytes :: "string \<Rightarrow> string" where
  "pop_bytes file = (let len = string2int (read_at 0 4 file);
       size = string2int (read_at (len - 4) 4 file) in
     if length file < len \<or> len < size + 8 then file else write_at 0 (int2String (len - (size + 8))) file)"

definition pop_val :: "(string \<Rightarrow> file_type option) \<Rightarrow> string \<Rightarrow> file_system \<Rightarrow> file_error + file_system" where
  "pop_val vars var fs = checked_var var FILE_VECTOR vars (\<lambda>f.
     case fs f of None \<Rightarrow> Inl CannotOpen | Some file \<Rightarrow> Inr (fs(f \<mapsto> pop_bytes file)))"

definition clearFile :: "string \<Rightarrow> file_system \<Rightarrow> file_system" where
  "clearFile var fs = fs(file_name var := None)"

section \<open>The file of a vector as a list\<close>

definition elem_bytes :: "('v \<Rightarrow> string) \<Rightarrow> 'v \<Rightarrow> string" where
  "elem_bytes ser v = int2String (length (ser v)) @ ser v @ int2String (length (ser v))"

definition vector_bytes :: "('v \<Rightarrow> string) \<Rightarrow> 'v list \<Rightarrow> string" where
  "vector_bytes ser vs = concat (map (elem_bytes ser) vs)"

text \<open>The file holds the list \<open>vs\<close>; \<open>slack\<close> is what popped elements left behind it.\<close>

definition holds_vector :: "('v \<Rightarrow> string) \<Rightarrow> 'v list \<Rightarrow> string \<Rightarrow> bool" where
  "holds_vector ser vs file \<longleftrightarrow> 4 + length (vector_bytes ser vs) < 2 ^ 31 \<and>
     (\<exists>slack. file = int2String (4 + length (vector_bytes ser vs)) @ vector_bytes ser vs @ slack)"

lemma int2String_length [simp]: "length (int2String x) = 4"
  by (simp add: int2String_def)

lemma string2int_int2String:
  assumes "x < 2 ^ 32"
  shows "string2int (int2String x) = x"
proof -
  have "string2int (int2String x) = x mod 256 + 256 * (x div 256 mod 256 +
      256 * (x div 65536 mod 256 + 256 * (x div 16777216 mod 256)))"
    by (simp add: string2int_def int2String_def)
  moreover have "x div 16777216 mod 256 = x div 16777216" using assms by simp
  moreover have "x = x mod 256 + 256 * (x div 256)" by simp
  moreover have "x div 256 = x div 256 mod 256 + 256 * (x div 65536)"
    using div_mult2_eq [of x 256 256] by simp
  moreover have "x div 65536 = x div 65536 mod 256 + 256 * (x div 16777216)"
    using div_mult2_eq [of x 65536 256] by simp
  moreover have "x = a + 256 * p \<Longrightarrow> p = b + 256 * q \<Longrightarrow> q = c + 256 * r \<Longrightarrow>
      a + 256 * (b + 256 * (c + 256 * r)) = x" for a b c p q r
    by simp
  ultimately show ?thesis by presburger
qed

lemma vector_bytes_simps [simp]:
  "vector_bytes ser [] = []" "vector_bytes ser (vs @ ws) = vector_bytes ser vs @ vector_bytes ser ws"
  "vector_bytes ser (v # vs) = elem_bytes ser v @ vector_bytes ser vs"
  by (simp_all add: vector_bytes_def)

lemma elem_bytes_length [simp]: "length (elem_bytes ser v) = length (ser v) + 8"
  by (simp add: elem_bytes_def)

lemma holds_vectorD:
  assumes "holds_vector ser vs file"
  obtains slack where "file = int2String (4 + length (vector_bytes ser vs)) @ vector_bytes ser vs @ slack"
    "string2int (read_at 0 4 file) = 4 + length (vector_bytes ser vs)"
    "4 + length (vector_bytes ser vs) < 2 ^ 31"
  using assms by (auto simp: holds_vector_def read_at_def string2int_int2String)

lemma append_bytes_holds:
  assumes "(old = None \<and> vs = []) \<or> (\<exists>file. old = Some file \<and> holds_vector ser vs file)"
    and "4 + length (vector_bytes ser (vs @ [v])) < 2 ^ 31"
  shows "holds_vector ser (vs @ [v]) (append_bytes (ser v) old)"
proof -
  let ?n = "4 + length (vector_bytes ser vs)"
  define content where "content = (case old of None \<Rightarrow> int2String 4 | Some file \<Rightarrow> file)"
  define len where "len = (case old of None \<Rightarrow> 4 | Some file \<Rightarrow> string2int (read_at 0 4 file))"
  have "len = ?n \<and> (\<exists>slack. content = int2String ?n @ vector_bytes ser vs @ slack)"
    using assms(1) by (auto simp: content_def len_def elim!: holds_vectorD)
  then obtain slack where f: "content = int2String ?n @ vector_bytes ser vs @ slack" and len: "len = ?n" by auto
  let ?rest = "drop (length (elem_bytes ser v)) slack"
  have "write_at len (elem_bytes ser v) content = int2String ?n @ vector_bytes ser vs @ elem_bytes ser v @ ?rest"
    by (simp add: write_at_def f len add.commute)
  then have "append_bytes (ser v) old = int2String (len + length (elem_bytes ser v)) @
      vector_bytes ser vs @ elem_bytes ser v @ ?rest"
    unfolding append_bytes_def content_def [symmetric] len_def [symmetric] Let_def
    by (simp add: elem_bytes_def write_at_def ac_simps)
  then show ?thesis
    using assms(2) by (auto simp: holds_vector_def len add.assoc)
qed

lemma pop_bytes_holds:
  assumes "holds_vector ser (vs @ [v]) file"
  shows "holds_vector ser vs (pop_bytes file)"
proof -
  obtain slack where f: "file = int2String (4 + length (vector_bytes ser (vs @ [v]))) @
      vector_bytes ser (vs @ [v]) @ slack"
    and len: "string2int (read_at 0 4 file) = 4 + length (vector_bytes ser (vs @ [v]))"
    and bound: "4 + length (vector_bytes ser (vs @ [v])) < 2 ^ 31"
    using assms by (rule holds_vectorD)
  have shorter: "4 + length (vector_bytes ser (vs @ [v])) \<le> length file" by (simp add: f)
  have "read_at (4 + length (vector_bytes ser (vs @ [v])) - 4) 4 file = int2String (length (ser v))"
    by (simp add: read_at_def f elem_bytes_def)
  then have "pop_bytes file = write_at 0 (int2String (4 + length (vector_bytes ser vs))) file"
    using bound shorter by (simp add: pop_bytes_def len string2int_int2String Let_def)
  also have "\<dots> = int2String (4 + length (vector_bytes ser vs)) @ vector_bytes ser vs @ (elem_bytes ser v @ slack)"
    by (simp add: write_at_def f)
  finally show ?thesis using bound by (auto simp: holds_vector_def)
qed

lemma read_elems_done: "\<not> pos < len \<Longrightarrow> read_elems deser heap pos len content = Some (Inr [])"
  by (subst read_elems.simps) simp

lemma read_elems_step:
  assumes "pos < len" "pos + 4 + string2int (read_at pos 4 file) + 4 \<le> length file"
    and "string2int (read_at pos 4 file) < 2 ^ 31"
    and "deser (c_string heap (read_at (pos + 4) (string2int (read_at pos 4 file)) file)) = Some v"
    and "read_elems deser heap (pos + 4 + string2int (read_at pos 4 file) + 4) len file = Some (Inr vs)"
  shows "read_elems deser heap pos len file = Some (Inr (v # vs))"
  using assms by (subst read_elems.simps) (simp add: Let_def)

lemma read_elems_all:
  assumes "list_all2 (\<lambda>v w. deser (c_string heap (ser v)) = Some w) vs ws"
    and "length (vector_bytes ser vs) < 2 ^ 31"
  shows "read_elems deser heap (length pre) (length pre + length (vector_bytes ser vs))
    (pre @ vector_bytes ser vs @ slack) = Some (Inr ws)"
  using assms
proof (induction vs ws arbitrary: pre rule: list_all2_induct)
  case Nil
  then show ?case by (simp add: read_elems_done)
next
  case (Cons v vs w ws)
  let ?file = "pre @ elem_bytes ser v @ vector_bytes ser vs @ slack" and ?n = "length (ser v)"
  let ?len = "length pre + length (vector_bytes ser (v # vs))"
  have size: "string2int (read_at (length pre) 4 ?file) = ?n"
    using Cons.prems(1) by (simp add: read_at_def elem_bytes_def string2int_int2String)
  have buffer: "read_at (length pre + 4) ?n ?file = ser v"
    by (simp add: read_at_def elem_bytes_def)
  have "read_elems deser heap (length (pre @ elem_bytes ser v))
      (length (pre @ elem_bytes ser v) + length (vector_bytes ser vs))
      ((pre @ elem_bytes ser v) @ vector_bytes ser vs @ slack) = Some (Inr ws)"
    using Cons.prems by (intro Cons.IH) simp_all
  then have rest: "read_elems deser heap (length pre + 4 + ?n + 4) ?len ?file = Some (Inr ws)"
    by (simp add: ac_simps)
  have "read_elems deser heap (length pre) ?len ?file = Some (Inr (w # ws))"
    using Cons.prems Cons.hyps(1) rest by (intro read_elems_step) (simp_all add: size buffer)
  then show ?case by simp
qed

lemma getVector_holds:
  assumes "vars var = Some FILE_VECTOR" "fs (file_name var) = Some content" "holds_vector ser vs content"
    and "list_all2 (\<lambda>v w. deser (c_string heap (ser v)) = Some w) vs ws"
  shows "getVector deser heap vars var fs = Some (Inr ws)"
proof -
  obtain slack where f: "content = int2String (4 + length (vector_bytes ser vs)) @ vector_bytes ser vs @ slack"
    and len: "string2int (read_at 0 4 content) = 4 + length (vector_bytes ser vs)"
    and bound: "4 + length (vector_bytes ser vs) < 2 ^ 31"
    using assms(3) by (rule holds_vectorD)
  from read_elems_all [OF assms(4), of "int2String (4 + length (vector_bytes ser vs))" slack] bound
  have "read_elems deser heap 4 (4 + length (vector_bytes ser vs)) content = Some (Inr ws)"
    unfolding f by simp
  moreover have "\<not> length content < 4" by (simp add: f)
  ultimately show ?thesis using bound by (simp add: getVector_def checkVar_def assms(1,2) len Let_def)
qed

text \<open>With a zero byte behind the buffer, an archive without zero bytes is read as it is.\<close>

lemma c_string_zero:
  assumes "CHR 0x00 \<notin> set buffer"
  shows "c_string (CHR 0x00 # heap) buffer = buffer"
  using assms by (auto simp: c_string_def takeWhile_append)

text \<open>
  C24. A vector file is a stack: if it holds the list \<open>vs\<close>, then after \<open>append\<close> of \<open>v\<close> it reads
  back as \<open>vs @ [v]\<close>, and a \<open>pop\<close> after that as \<open>vs\<close> again; no other file is touched. This
  needs a zero byte behind each buffer of \<open>getVector\<close>, archives without zero bytes that read
  back what they wrote, and a file shorter than \<open>2 ^ 31\<close> bytes.
\<close>

theorem vector_file_stack:
  assumes "vars var = Some FILE_VECTOR" "fs (file_name var) = Some content" "holds_vector ser vs content"
    and "4 + length (vector_bytes ser (vs @ [v])) < 2 ^ 31"
    and "heap = CHR 0x00 # behind"
    and "\<And>w. w \<in> set (vs @ [v]) \<Longrightarrow> CHR 0x00 \<notin> set (ser w) \<and> deser (ser w) = Some w"
  shows "\<exists>fs1 fs2. append_val ser vars var v fs = Inr fs1 \<and>
    getVector deser heap vars var fs1 = Some (Inr (vs @ [v])) \<and> pop_val vars var fs1 = Inr fs2 \<and>
    getVector deser heap vars var fs2 = Some (Inr vs) \<and>
    (\<forall>f. f = file_name var \<or> fs1 f = fs f \<and> fs2 f = fs f)"
proof -
  let ?new = "append_bytes (ser v) (Some content)"
  let ?fs1 = "fs(file_name var \<mapsto> ?new)" and ?fs2 = "fs(file_name var \<mapsto> pop_bytes ?new)"
  have same: "list_all2 (\<lambda>v w. deser (c_string heap (ser v)) = Some w) ws ws" if "set ws \<subseteq> set (vs @ [v])" for ws
    using that assms(5,6) by (auto simp: list_all2_same c_string_zero)
  have new: "holds_vector ser (vs @ [v]) ?new"
    using assms(3,4) by (intro append_bytes_holds) auto
  have "append_val ser vars var v fs = Inr ?fs1" "pop_val vars var ?fs1 = Inr ?fs2"
    by (simp_all add: append_val_def pop_val_def checked_var_def checkVar_def assms(1,2))
  moreover have "getVector deser heap vars var ?fs1 = Some (Inr (vs @ [v]))"
    using assms(1) new same by (intro getVector_holds [where content = ?new and ser = ser]) auto
  moreover have "getVector deser heap vars var ?fs2 = Some (Inr vs)"
    using assms(1) pop_bytes_holds [OF new] same
    by (intro getVector_holds [where content = "pop_bytes ?new" and ser = ser]) auto
  ultimately show ?thesis by (intro exI [of _ ?fs1] exI [of _ ?fs2]) simp
qed

text \<open>An archive for naturals, written in unary.\<close>

definition ser_unary :: "nat \<Rightarrow> string" where
  "ser_unary n = replicate n (CHR ''1'')"

definition deser_unary :: "string \<Rightarrow> nat option" where
  "deser_unary s = Some (length s)"

theorem vector_file_stack_witness:
  "\<exists>fs1 fs2. append_val ser_unary [''v'' \<mapsto> FILE_VECTOR] ''v'' 3 [''v.bin'' \<mapsto> int2String 4] = Inr fs1 \<and>
     getVector deser_unary [CHR 0x00] [''v'' \<mapsto> FILE_VECTOR] ''v'' fs1 = Some (Inr [3]) \<and>
     pop_val [''v'' \<mapsto> FILE_VECTOR] ''v'' fs1 = Inr fs2 \<and>
     getVector deser_unary [CHR 0x00] [''v'' \<mapsto> FILE_VECTOR] ''v'' fs2 = Some (Inr [])"
proof -
  have "holds_vector ser_unary [] (int2String 4)" by (simp add: holds_vector_def)
  moreover have "CHR 0x00 \<notin> set (ser_unary 3)" "deser_unary (ser_unary 3) = Some 3"
    by (simp_all add: ser_unary_def deser_unary_def)
  ultimately show ?thesis
    using vector_file_stack [of "[''v'' \<mapsto> FILE_VECTOR]" "''v''" "[''v.bin'' \<mapsto> int2String 4]" "int2String 4"
        ser_unary "[]" 3 "[CHR 0x00]" "[]" deser_unary]
    by (auto simp: file_name_def ser_unary_def)
qed

text \<open>
  What is read depends on the memory behind the buffer: with the archive above, a vector
  that holds 3 reads back as 5 when two more digits happen to follow the buffer.
\<close>

theorem getVector_overrun:
  "getVector deser_unary (''11'' @ [CHR 0x00]) [''v'' \<mapsto> FILE_VECTOR] ''v''
     [''v.bin'' \<mapsto> append_bytes (ser_unary 3) None] = Some (Inr [5])"
proof (rule getVector_holds [where ser = ser_unary and vs = "[3]"])
  show "holds_vector ser_unary [3] (append_bytes (ser_unary 3) None)"
    using append_bytes_holds [of None "[]" ser_unary 3] by (simp add: ser_unary_def)
  show "list_all2 (\<lambda>v w. deser_unary (c_string (''11'' @ [CHR 0x00]) (ser_unary v)) = Some w) [3] [5]"
    by (simp add: deser_unary_def c_string_def ser_unary_def numeral_3_eq_3)
qed (simp_all add: file_name_def)

text \<open>
  A damaged vector is not noticed: whatever stands behind an element in place of its size,
  \<open>getVector\<close> constructs an exception, does not throw it, and returns the element.
\<close>

theorem damaged_vector_accepted:
  assumes "length data + 12 < 2 ^ 31" "deser (c_string heap data) = Some w" "vars var = Some FILE_VECTOR"
    and "fs (file_name var) = Some (int2String (length data + 12) @ int2String (length data) @ data @ int2String k)"
  shows "getVector deser heap vars var fs = Some (Inr [w])"
proof -
  let ?file = "int2String (length data + 12) @ int2String (length data) @ data @ int2String k"
  have reads: "string2int (read_at 0 4 ?file) = length data + 12" "string2int (read_at 4 4 ?file) = length data"
    "read_at (4 + 4) (length data) ?file = data"
    using assms(1) by (simp_all add: read_at_def string2int_int2String)
  have "read_elems deser heap 4 (length data + 12) ?file = Some (Inr [w])"
    using assms(1,2) by (intro read_elems_step) (simp_all add: reads [simplified] read_elems_done)
  then show ?thesis
    using assms(1) by (simp add: getVector_def checkVar_def assms(3,4) reads(1) [simplified] Let_def ac_simps)
qed

theorem damaged_vector_accepted_witness:
  "getVector deser_unary [CHR 0x00] [''v'' \<mapsto> FILE_VECTOR] ''v''
     [''v.bin'' \<mapsto> int2String 15 @ int2String 3 @ ''111'' @ int2String 7] = Some (Inr [3])"
  by (rule damaged_vector_accepted [where data = "''111''" and k = 7])
    (simp_all add: file_name_def deser_unary_def c_string_def numeral_3_eq_3)

text \<open>A vector file that is cut off where an element should begin gives no vector: the loop goes on.\<close>

theorem truncated_vector_hangs:
  assumes "vars var = Some FILE_VECTOR" "fs (file_name var) = Some (int2String len @ rest)"
    and "4 < len" "len < 2 ^ 31" "length rest < 4"
  shows "getVector deser heap vars var fs = None"
proof -
  have "string2int (read_at 0 4 (int2String len @ rest)) = len"
    using assms(4) by (simp add: read_at_def string2int_int2String)
  moreover have "read_elems deser heap 4 len (int2String len @ rest) = None"
    using assms(3,5) by (subst read_elems.simps) simp
  ultimately show ?thesis using assms(1,2,4) by (simp add: getVector_def checkVar_def Let_def)
qed

theorem truncated_vector_hangs_witness:
  "getVector deser_unary [CHR 0x00] [''v'' \<mapsto> FILE_VECTOR] ''v'' [''v.bin'' \<mapsto> int2String 15 @ ''11''] = None"
  by (rule truncated_vector_hangs [where len = 15 and rest = "''11''"]) (simp_all add: file_name_def)

end
