(* ===== verification/Rpc_Gate.thy ===== *)
theory Rpc_Gate
  imports Quintet_Types
begin

text \<open>
  The wrapper that the RPC service puts around each bound function
  (\<open>RpcService::Impl\<close> in \<open>service/rpc/RpcService.cpp\<close>): it counts the calls under way, runs them
  one at a time and holds them back while the service is paused; and the start and the stop of
  the service.

  It is a transition system with one step per access to shared state. Calls are numbered, and
  the place of a call in the wrapper is its \<open>call_pc\<close>. A call first counts itself (\<open>preRpc\<close>),
  takes the mutex \<open>rpcing\<close> and looks at \<open>paused\<close>; if paused it gives the mutex back and sleeps
  on the condition variable. Looking and falling asleep are two steps, since \<open>resume\<close> and
  the end of a call change what is looked at and notify without the mutex. \<open>stop\<close> waits in the
  same way for the count to be zero and then shuts the gRPC server down with the mutex still
  held. \<open>rs_notices\<close> counts the calls of \<open>notify_all\<close> that are due.

  Of gRPC the model uses what it documents: a server that is shut down accepts no new call, and
  \<open>Shutdown\<close> returns when the calls it has accepted are finished. Whether
  \<open>BuildAndStart\<close> gives a server or a null pointer is an argument of the step.
\<close>

section \<open>State\<close>

datatype call_pc = Absent | Entered | Checked | Blocked | Woken | Running | Unlocked | Finished

datatype stop_phase = NotStopped | StopEntered | StopChecked | StopBlocked | StopWoken | StopReady
  | ShuttingDown | Stopped

datatype holder = ByCall nat | ByStop

record RpcService =
  rs_serving :: bool
  rs_paused :: bool
  rs_num :: nat
  rs_lock :: "holder option"
  rs_pc :: "nat \<Rightarrow> call_pc"
  rs_notices :: nat
  rs_stop :: stop_phase

definition RpcService0 :: RpcService where
  "RpcService0 = \<lparr>rs_serving = False, rs_paused = False, rs_num = 0, rs_lock = None, rs_pc = (\<lambda>_. Absent),
     rs_notices = 0, rs_stop = NotStopped\<rparr>"

definition rs_move :: "nat \<Rightarrow> call_pc \<Rightarrow> RpcService \<Rightarrow> RpcService" where
  "rs_move c pc s = s\<lparr>rs_pc := (rs_pc s)(c := pc)\<rparr>"

section \<open>Operations\<close>

definition listen_address :: "port_no \<Rightarrow> string" where
  "listen_address p = ''0.0.0.0:'' @ to_string (unat p)"

text \<open>\<open>None\<close>: the thread calls \<open>Wait\<close> through the null pointer.\<close>

definition rs_asyncRun :: "(string \<Rightarrow> bool) \<Rightarrow> port_no \<Rightarrow> RpcService \<Rightarrow> RpcService option" where
  "rs_asyncRun BuildAndStart p s =
     (if BuildAndStart (listen_address p) then Some (s\<lparr>rs_serving := True\<rparr>) else None)"

text \<open>\<open>preRpc\<close>, and the deleter of the pointer that it returns, which runs when the call is left.\<close>

definition rs_preRpc :: "nat \<Rightarrow> RpcService \<Rightarrow> RpcService" where
  "rs_preRpc c s = rs_move c Entered (s\<lparr>rs_num := rs_num s + 1\<rparr>)"

definition rs_postRpc :: "nat \<Rightarrow> RpcService \<Rightarrow> RpcService" where
  "rs_postRpc c s = rs_move c Finished (s\<lparr>rs_num := rs_num s - 1, rs_notices := rs_notices s + 1\<rparr>)"

definition rs_pause :: "RpcService \<Rightarrow> RpcService" where
  "rs_pause s = s\<lparr>rs_paused := True\<rparr>"

definition rs_resume :: "RpcService \<Rightarrow> RpcService" where
  "rs_resume s = s\<lparr>rs_paused := False, rs_notices := rs_notices s + 1\<rparr>"

definition rs_notify_all :: "RpcService \<Rightarrow> RpcService" where
  "rs_notify_all s = s\<lparr>rs_notices := rs_notices s - 1,
     rs_pc := (\<lambda>c. if rs_pc s c = Blocked then Woken else rs_pc s c),
     rs_stop := (if rs_stop s = StopBlocked then StopWoken else rs_stop s)\<rparr>"

section \<open>Steps\<close>

datatype rs_label = AsyncRun | Arrive nat | Check nat | Block nat | Return nat | Leave nat
  | Pause | Resume | Notify | Spurious nat
  | StopResume | StopCheck | StopBlock | StopSpurious | StopClose | StopReturn

text \<open>
  \<open>StopReturn\<close> is the return of \<open>Shutdown\<close> and of the join behind it. Its condition \<open>no_calls\<close> is what
  gRPC documents of \<open>Shutdown\<close>, not something that the code does; what the code does is the wait
  for the count (\<open>StopCheck\<close>).
\<close>

definition no_calls :: "RpcService \<Rightarrow> bool" where
  "no_calls s \<longleftrightarrow> (\<forall>c. rs_pc s c = Absent \<or> rs_pc s c = Finished)"

fun rs_do :: "rs_label \<Rightarrow> RpcService \<Rightarrow> RpcService option" where
  "rs_do AsyncRun s = (if rs_serving s \<or> rs_stop s \<noteq> NotStopped then None else Some (s\<lparr>rs_serving := True\<rparr>))"
| "rs_do (Arrive c) s = (if rs_serving s \<and> rs_pc s c = Absent then Some (rs_preRpc c s) else None)"
| "rs_do (Check c) s = (if (rs_pc s c = Entered \<or> rs_pc s c = Woken) \<and> rs_lock s = None
     then Some (rs_move c (if rs_paused s then Checked else Running) (s\<lparr>rs_lock := Some (ByCall c)\<rparr>)) else None)"
| "rs_do (Block c) s = (if rs_pc s c = Checked
     then Some (rs_move c Blocked (s\<lparr>rs_lock := None\<rparr>)) else None)"
| "rs_do (Return c) s = (if rs_pc s c = Running
     then Some (rs_move c Unlocked (s\<lparr>rs_lock := None\<rparr>)) else None)"
| "rs_do (Leave c) s = (if rs_pc s c = Unlocked then Some (rs_postRpc c s) else None)"
| "rs_do Pause s = Some (rs_pause s)"
| "rs_do Resume s = Some (rs_resume s)"
| "rs_do Notify s = (if rs_notices s > 0 then Some (rs_notify_all s) else None)"
| "rs_do (Spurious c) s = (if rs_pc s c = Blocked then Some (rs_move c Woken s) else None)"
| "rs_do StopResume s = (if rs_stop s = NotStopped
     then Some ((rs_resume s)\<lparr>rs_stop := StopEntered\<rparr>) else None)"
| "rs_do StopCheck s = (if (rs_stop s = StopEntered \<or> rs_stop s = StopWoken) \<and> rs_lock s = None
     then Some (s\<lparr>rs_lock := Some ByStop, rs_stop := (if rs_num s = 0 then StopReady else StopChecked)\<rparr>) else None)"
| "rs_do StopBlock s = (if rs_stop s = StopChecked
     then Some (s\<lparr>rs_lock := None, rs_stop := StopBlocked\<rparr>) else None)"
| "rs_do StopSpurious s = (if rs_stop s = StopBlocked then Some (s\<lparr>rs_stop := StopWoken\<rparr>) else None)"
| "rs_do StopClose s = (if rs_stop s = StopReady
     then Some (s\<lparr>rs_serving := False, rs_stop := ShuttingDown\<rparr>) else None)"
| "rs_do StopReturn s = (if rs_stop s = ShuttingDown \<and> no_calls s
     then Some (s\<lparr>rs_lock := None, rs_stop := Stopped\<rparr>) else None)"

inductive rs_reach :: "rs_label list \<Rightarrow> RpcService \<Rightarrow> bool" where
  rs_start: "rs_reach [] RpcService0"
| rs_step: "rs_reach ls s \<Longrightarrow> rs_do l s = Some s' \<Longrightarrow> rs_reach (ls @ [l]) s'"

inductive_cases rs_reach_snocE: "rs_reach (ls @ [l]) s"

fun rs_replay :: "rs_label list \<Rightarrow> RpcService \<Rightarrow> RpcService option" where
  "rs_replay [] s = Some s"
| "rs_replay (l # ls) s = Option.bind (rs_do l s) (rs_replay ls)"

lemma rs_replay_reach: "rs_reach ks s \<Longrightarrow> rs_replay ls s = Some s' \<Longrightarrow> rs_reach (ks @ ls) s'"
proof (induction ls arbitrary: ks s)
  case (Cons l ls)
  from Cons.prems(2) obtain s1 where "rs_do l s = Some s1" "rs_replay ls s1 = Some s'"
    by (auto simp: Option.bind_eq_Some_conv)
  with Cons.IH [of "ks @ [l]" s1] rs_step [OF Cons.prems(1)] show ?case by simp
qed simp

text \<open>Starting the service is the step \<open>AsyncRun\<close>, when gRPC gives a server.\<close>

lemma rs_do_asyncRun:
  "\<not> rs_serving s \<Longrightarrow> rs_stop s = NotStopped \<Longrightarrow> BuildAndStart (listen_address p) \<Longrightarrow>
     rs_do AsyncRun s = rs_asyncRun BuildAndStart p s"
  by (simp add: rs_asyncRun_def)

section \<open>The invariant\<close>

definition under_way :: "RpcService \<Rightarrow> nat set" where
  "under_way s = {c. rs_pc s c \<noteq> Absent \<and> rs_pc s c \<noteq> Finished}"

definition stop_holds :: "stop_phase \<Rightarrow> bool" where
  "stop_holds p \<longleftrightarrow> p = StopChecked \<or> p = StopReady \<or> p = ShuttingDown"

definition rs_inv :: "RpcService \<Rightarrow> bool" where
  "rs_inv s \<longleftrightarrow> finite (under_way s) \<and> rs_num s = card (under_way s) \<and>
     (\<forall>c. rs_lock s = Some (ByCall c) \<longleftrightarrow> rs_pc s c = Checked \<or> rs_pc s c = Running) \<and>
     (rs_lock s = Some ByStop \<longleftrightarrow> stop_holds (rs_stop s)) \<and>
     (rs_stop s = ShuttingDown \<or> rs_stop s = Stopped \<longrightarrow> \<not> rs_serving s) \<and>
     (rs_stop s = Stopped \<longrightarrow> under_way s = {})"

lemma no_calls_iff: "no_calls s \<longleftrightarrow> under_way s = {}"
  by (auto simp: no_calls_def under_way_def)

lemma under_way_move:
  "under_way (rs_move c pc s) =
     (if pc \<noteq> Absent \<and> pc \<noteq> Finished then insert c (under_way s) else under_way s - {c})"
  by (auto simp: under_way_def rs_move_def)

lemma under_way_frame [simp]:
  "under_way (s\<lparr>rs_num := n\<rparr>) = under_way s" "under_way (s\<lparr>rs_lock := l\<rparr>) = under_way s"
  "under_way (s\<lparr>rs_notices := n\<rparr>) = under_way s" "under_way (s\<lparr>rs_stop := p\<rparr>) = under_way s"
  "under_way (s\<lparr>rs_serving := b\<rparr>) = under_way s" "under_way (s\<lparr>rs_paused := b\<rparr>) = under_way s"
  by (simp_all add: under_way_def)

lemma under_way_notify [simp]: "under_way (rs_notify_all s) = under_way s"
  by (auto simp: under_way_def rs_notify_all_def)

lemma rs_move_frame [simp]:
  "rs_num (rs_move c pc s) = rs_num s" "rs_lock (rs_move c pc s) = rs_lock s"
  "rs_pc (rs_move c pc s) = (rs_pc s)(c := pc)" "rs_stop (rs_move c pc s) = rs_stop s"
  "rs_serving (rs_move c pc s) = rs_serving s"
  by (simp_all add: rs_move_def)

lemma rs_inv_lock:
  assumes "rs_inv s" "c \<in> under_way s" "rs_lock s = None \<or> rs_lock s = Some (ByCall c)"
    and "pc \<noteq> Absent" "pc \<noteq> Finished"
  shows "rs_inv (rs_move c pc (s\<lparr>rs_lock := (if pc = Checked \<or> pc = Running then Some (ByCall c) else None)\<rparr>))"
proof -
  have "under_way (rs_move c pc (s\<lparr>rs_lock := l\<rparr>)) = under_way s" for l
    using assms(2,4,5) by (simp add: under_way_move insert_absorb)
  moreover have "rs_pc s d \<noteq> Checked \<and> rs_pc s d \<noteq> Running" if "d \<noteq> c" for d
    using assms(1,3) that unfolding rs_inv_def by fastforce
  moreover have "\<not> stop_holds (rs_stop s)" using assms(1,3) by (auto simp: rs_inv_def)
  ultimately show ?thesis using assms(1,2) by (auto simp: rs_inv_def)
qed

lemma rs_inv_wake:
  assumes "rs_inv s" "rs_pc s c = Blocked"
  shows "rs_inv (rs_move c Woken s)"
proof -
  have "c \<in> under_way s" using assms(2) by (simp add: under_way_def)
  then have "under_way (rs_move c Woken s) = under_way s" by (simp add: under_way_move insert_absorb)
  then show ?thesis using assms by (auto simp: rs_inv_def)
qed

lemma rs_inv_notify: "rs_inv s \<Longrightarrow> rs_inv (rs_notify_all s)"
  by (simp add: rs_inv_def) (simp add: rs_notify_all_def stop_holds_def)

lemma rs_inv_frame [simp]:
  "rs_inv (s\<lparr>rs_notices := n\<rparr>) = rs_inv s" "rs_inv (rs_pause s) = rs_inv s" "rs_inv (rs_resume s) = rs_inv s"
  by (simp_all add: rs_inv_def rs_pause_def rs_resume_def)

lemma rs_inv_enter:
  assumes "rs_inv s" "rs_pc s c = Absent" "rs_serving s"
  shows "rs_inv (rs_preRpc c s)"
proof -
  have "c \<notin> under_way s" using assms(2) by (simp add: under_way_def)
  with assms show ?thesis by (simp add: rs_inv_def under_way_move rs_preRpc_def)
qed

lemma rs_inv_exit:
  assumes "rs_inv s" "rs_pc s c = Unlocked"
  shows "rs_inv (rs_postRpc c s)"
proof -
  have "c \<in> under_way s" using assms(2) by (simp add: under_way_def)
  with assms show ?thesis by (auto simp: rs_inv_def under_way_move rs_postRpc_def)
qed

text \<open>The steps of \<open>stop\<close>: the mutex is taken, kept and given back with the phase.\<close>

lemma rs_inv_stop:
  assumes "rs_inv s" "rs_lock s = None \<or> rs_lock s = Some ByStop"
    and "lk = (if stop_holds p then Some ByStop else None)"
    and "p = ShuttingDown \<or> p = Stopped \<longrightarrow> \<not> rs_serving s" "p = Stopped \<longrightarrow> under_way s = {}"
  shows "rs_inv (s\<lparr>rs_lock := lk, rs_stop := p\<rparr>)"
proof -
  have "rs_pc s d \<noteq> Checked \<and> rs_pc s d \<noteq> Running" for d
    using assms(1,2) unfolding rs_inv_def by fastforce
  with assms show ?thesis by (auto simp: rs_inv_def)
qed

lemma rs_inv_do: "rs_inv s \<Longrightarrow> rs_do l s = Some s' \<Longrightarrow> rs_inv s'"
proof (cases l)
  case AsyncRun
  assume "rs_inv s" "rs_do l s = Some s'"
  with AsyncRun show ?thesis by (auto simp: rs_inv_def split: if_splits)
next
  case (Check c)
  assume "rs_inv s" "rs_do l s = Some s'"
  with Check rs_inv_lock [of s c "if rs_paused s then Checked else Running"] show ?thesis
    by (auto simp: under_way_def split: if_splits)
next
  case (Block c)
  assume inv: "rs_inv s" "rs_do l s = Some s'"
  then have "rs_lock s = Some (ByCall c)" using Block by (simp add: rs_inv_def split: if_splits)
  with inv Block rs_inv_lock [of s c Blocked] show ?thesis by (simp add: under_way_def split: if_splits)
next
  case (Return c)
  assume inv: "rs_inv s" "rs_do l s = Some s'"
  then have "rs_lock s = Some (ByCall c)" using Return by (simp add: rs_inv_def split: if_splits)
  with inv Return rs_inv_lock [of s c Unlocked] show ?thesis by (simp add: under_way_def split: if_splits)
next
  case StopResume
  assume inv: "rs_inv s" "rs_do l s = Some s'"
  with StopResume show ?thesis by (auto simp: rs_inv_def rs_resume_def stop_holds_def split: if_splits)
next
  case StopCheck
  assume inv: "rs_inv s" "rs_do l s = Some s'"
  with StopCheck rs_inv_stop [of s "Some ByStop" "if rs_num s = 0 then StopReady else StopChecked"] show ?thesis
    by (auto simp: stop_holds_def split: if_splits)
next
  case StopBlock
  assume inv: "rs_inv s" "rs_do l s = Some s'"
  then have "rs_lock s = Some ByStop" using StopBlock by (simp add: rs_inv_def stop_holds_def split: if_splits)
  with inv StopBlock rs_inv_stop [of s None StopBlocked] show ?thesis
    by (auto simp: stop_holds_def split: if_splits)
next
  case StopSpurious
  assume inv: "rs_inv s" "rs_do l s = Some s'"
  with StopSpurious show ?thesis by (auto simp: rs_inv_def stop_holds_def split: if_splits)
next
  case StopClose
  assume inv: "rs_inv s" "rs_do l s = Some s'"
  with StopClose show ?thesis by (auto simp: rs_inv_def stop_holds_def split: if_splits)
next
  case StopReturn
  assume inv: "rs_inv s" "rs_do l s = Some s'"
  with StopReturn show ?thesis by (auto simp: rs_inv_def stop_holds_def no_calls_iff split: if_splits)
qed (auto simp: rs_inv_enter rs_inv_exit rs_inv_wake rs_inv_notify split: if_splits)

lemma rs_reach_inv: "rs_reach ls s \<Longrightarrow> rs_inv s"
proof (induction rule: rs_reach.induct)
  case rs_start
  show ?case by (simp add: rs_inv_def RpcService0_def under_way_def stop_holds_def)
next
  case (rs_step ls s l s')
  then show ?case using rs_inv_do by blast
qed

text \<open>
  C21. The handlers exclude each other: whatever the order in which calls arrive, sleep, wake up
  and return, and whenever the service is paused, resumed and stopped, at most one call is
  inside the bound functions, and none while \<open>stop\<close> shuts the server down.
\<close>

theorem rpc_one_handler:
  assumes "rs_reach ls s" "rs_pc s c = Running"
  shows "{d. rs_pc s d = Running} = {c} \<and> rs_stop s \<noteq> ShuttingDown \<and> rs_stop s \<noteq> Stopped"
proof -
  have inv: "rs_inv s" using assms(1) by (rule rs_reach_inv)
  then have lock: "rs_lock s = Some (ByCall d)" if "rs_pc s d = Running" for d
    using that by (simp add: rs_inv_def)
  have "d = c" if "rs_pc s d = Running" for d using lock [OF that] lock [OF assms(2)] by simp
  then have "{d. rs_pc s d = Running} = {c}" using assms(2) by blast
  moreover have "\<not> stop_holds (rs_stop s)" using inv lock [OF assms(2)] by (simp add: rs_inv_def)
  moreover have "c \<in> under_way s" using assms(2) by (simp add: under_way_def)
  moreover have "rs_stop s = Stopped \<longrightarrow> under_way s = {}" using inv by (simp add: rs_inv_def)
  ultimately show ?thesis unfolding stop_holds_def by blast
qed

theorem rpc_one_handler_witness:
  "\<exists>s. rs_reach [AsyncRun, Arrive 1, Arrive 2, Check 1] s \<and> {d. rs_pc s d = Running} = {1}"
proof -
  obtain s where s: "rs_replay [AsyncRun, Arrive 1, Arrive 2, Check 1] RpcService0 = Some s" "rs_pc s 1 = Running"
    by (simp add: RpcService0_def rs_move_def rs_preRpc_def)
  have reach: "rs_reach [AsyncRun, Arrive 1, Arrive 2, Check 1] s"
    using rs_replay_reach [OF rs_start s(1)] by simp
  with rpc_one_handler [OF this s(2)] show ?thesis by blast
qed

text \<open>When \<open>stop\<close> has found the count to be zero, a call can only be on its way to the mutex.\<close>

definition past_wait :: "stop_phase \<Rightarrow> bool" where
  "past_wait p \<longleftrightarrow> p = StopReady \<or> p = ShuttingDown \<or> p = Stopped"

definition drained :: "RpcService \<Rightarrow> bool" where
  "drained s \<longleftrightarrow> (past_wait (rs_stop s) \<longrightarrow> (\<forall>c. rs_pc s c = Absent \<or> rs_pc s c = Entered \<or> rs_pc s c = Finished))"

definition outside :: "call_pc \<Rightarrow> bool" where
  "outside pc \<longleftrightarrow> pc = Absent \<or> pc = Entered \<or> pc = Finished"

lemma drained_iff: "drained s \<longleftrightarrow> (past_wait (rs_stop s) \<longrightarrow> (\<forall>c. outside (rs_pc s c)))"
  by (simp add: drained_def outside_def)

lemma outside_do: "rs_do l s = Some s' \<Longrightarrow> l \<noteq> Check c \<Longrightarrow> outside (rs_pc s c) \<Longrightarrow> outside (rs_pc s' c)"
  by (cases l) (auto simp: outside_def rs_pause_def rs_resume_def rs_notify_all_def rs_preRpc_def rs_postRpc_def
      split: if_splits)

lemma past_wait_do: "rs_do l s = Some s' \<Longrightarrow> l \<noteq> StopCheck \<Longrightarrow> past_wait (rs_stop s') = past_wait (rs_stop s)"
  by (cases l) (auto simp: past_wait_def rs_pause_def rs_resume_def rs_notify_all_def rs_preRpc_def rs_postRpc_def
      split: if_splits)

lemma check_not_drained: "rs_inv s \<Longrightarrow> rs_do (Check c) s = Some s' \<Longrightarrow> \<not> past_wait (rs_stop s)"
proof
  assume inv: "rs_inv s" and run: "rs_do (Check c) s = Some s'" and p: "past_wait (rs_stop s)"
  have "rs_lock s = None" "rs_pc s c = Entered \<or> rs_pc s c = Woken" using run by (simp_all split: if_splits)
  then have "c \<in> under_way s" "rs_lock s \<noteq> Some ByStop" by (auto simp: under_way_def)
  with inv p show False by (auto simp: rs_inv_def past_wait_def stop_holds_def)
qed

lemma drained_do:
  assumes inv: "rs_inv s" and d: "drained s" and run: "rs_do l s = Some s'"
  shows "drained s'"
proof (cases "l = StopCheck")
  case True
  have "rs_num s = 0 \<Longrightarrow> under_way s = {}" using inv by (auto simp: rs_inv_def)
  with run True show ?thesis by (auto simp: drained_def past_wait_def under_way_def split: if_splits)
next
  case False
  show ?thesis
    unfolding drained_iff
  proof (intro impI allI)
    fix c assume "past_wait (rs_stop s')"
    then have p: "past_wait (rs_stop s)" using past_wait_do [OF run False] by simp
    then have "outside (rs_pc s c)" using d by (simp add: drained_iff)
    moreover have "l \<noteq> Check c" using check_not_drained [OF inv] run p by blast
    ultimately show "outside (rs_pc s' c)" using outside_do [OF run] by blast
  qed
qed

lemma rs_reach_drained: "rs_reach ls s \<Longrightarrow> drained s"
proof (induction rule: rs_reach.induct)
  case rs_start
  show ?case by (simp add: drained_def past_wait_def RpcService0_def)
next
  case (rs_step ls s l s')
  then show ?case using drained_do rs_reach_inv by blast
qed

lemma past_wait_run: "rs_replay ls s = Some s' \<Longrightarrow> past_wait (rs_stop s) \<Longrightarrow> past_wait (rs_stop s')"
proof (induction ls arbitrary: s)
  case (Cons l ls)
  from Cons.prems(1) obtain s1 where s1: "rs_do l s = Some s1" "rs_replay ls s1 = Some s'"
    by (auto simp: Option.bind_eq_Some_conv)
  have "l \<noteq> StopCheck" using s1(1) Cons.prems(2) by (auto simp: past_wait_def split: if_splits)
  with past_wait_do [OF s1(1)] Cons.prems(2) Cons.IH [OF s1(2)] show ?case by simp
qed simp

text \<open>
  C30. \<open>stop\<close> waits until every call has left: from the moment on at which it goes past the wait for
  the count, no call sleeps, is inside a bound function, or is on its way out, in whatever order calls
  arrive and whatever happens afterwards. A call that arrives later stays in front of the mutex.
\<close>

theorem rpc_stop_quiet:
  assumes "rs_reach ls s" "rs_stop s = StopReady" "rs_replay ls' s = Some s'"
  shows "rs_pc s' c = Absent \<or> rs_pc s' c = Entered \<or> rs_pc s' c = Finished"
proof -
  have "drained s'" using rs_replay_reach [OF assms(1,3)] by (rule rs_reach_drained)
  moreover have "past_wait (rs_stop s')" using past_wait_run [OF assms(3)] assms(2) by (simp add: past_wait_def)
  ultimately show ?thesis by (simp add: drained_def)
qed

theorem rpc_stop_quiet_witness:
  "\<exists>s s'. rs_reach [AsyncRun, Arrive 1, StopResume, Check 1, Return 1, Leave 1, StopCheck] s \<and>
     rs_replay [Arrive 2, StopClose, Resume, Notify] s = Some s' \<and> rs_pc s' 1 = Finished \<and>
     (rs_pc s' 2 = Absent \<or> rs_pc s' 2 = Entered \<or> rs_pc s' 2 = Finished)"
proof -
  obtain s s' where s: "rs_replay [AsyncRun, Arrive 1, StopResume, Check 1, Return 1, Leave 1, StopCheck] RpcService0 = Some s"
    "rs_stop s = StopReady" "rs_replay [Arrive 2, StopClose, Resume, Notify] s = Some s'" "rs_pc s' 1 = Finished"
    by (simp add: RpcService0_def rs_move_def rs_resume_def rs_preRpc_def rs_postRpc_def rs_notify_all_def)
  have reach: "rs_reach [AsyncRun, Arrive 1, StopResume, Check 1, Return 1, Leave 1, StopCheck] s"
    using rs_replay_reach [OF rs_start s(1)] by simp
  from reach s(3,4) rpc_stop_quiet [OF reach s(2,3), of 2] show ?thesis by blast
qed

section \<open>What the wrapper does not exclude\<close>

definition stuck :: "nat \<Rightarrow> RpcService \<Rightarrow> bool" where
  "stuck c s \<longleftrightarrow> rs_inv s \<and> (rs_stop s = StopReady \<or> rs_stop s = ShuttingDown) \<and> rs_pc s c = Entered"

lemma stuck_step:
  assumes "stuck c s" "rs_do l s = Some s'"
  shows "stuck c s'"
proof -
  from assms(1) have inv: "rs_inv s" and phase: "rs_stop s = StopReady \<or> rs_stop s = ShuttingDown"
    and pc: "rs_pc s c = Entered" by (simp_all add: stuck_def)
  have lock: "rs_lock s = Some ByStop" using inv phase by (auto simp: rs_inv_def stop_holds_def)
  have idle: "rs_pc s d \<noteq> Checked \<and> rs_pc s d \<noteq> Running" for d
    using inv lock by (fastforce simp: rs_inv_def)
  have "\<not> no_calls s" using pc by (auto simp: no_calls_def intro!: exI [of _ c])
  with assms(2) phase pc lock idle have "(rs_stop s' = StopReady \<or> rs_stop s' = ShuttingDown) \<and> rs_pc s' c = Entered"
    by (cases l) (auto simp: rs_pause_def rs_resume_def rs_notify_all_def rs_preRpc_def rs_postRpc_def
      split: if_splits)
  with rs_inv_do [OF inv assms(2)] show ?thesis by (simp add: stuck_def)
qed

lemma stuck_run: "rs_replay ls s = Some s' \<Longrightarrow> stuck c s \<Longrightarrow> stuck c s'"
  by (induction ls arbitrary: s) (auto simp: Option.bind_eq_Some_conv dest: stuck_step)

text \<open>
  C40. \<open>stop\<close> can wait for ever: it shuts the server down with the mutex held, and a call that
  gRPC has accepted after the count was found to be zero waits for that mutex, while \<open>Shutdown\<close>
  waits for the call. From such a state neither ever gets on, whatever steps follow.
\<close>

theorem rpc_stop_deadlock:
  assumes "rs_reach ls s" "rs_stop s = StopReady" "rs_pc s c = Entered" "rs_replay ls' s = Some s'"
  shows "rs_stop s' \<noteq> Stopped \<and> rs_pc s' c = Entered"
proof -
  have "stuck c s" using rs_reach_inv [OF assms(1)] assms(2,3) by (simp add: stuck_def)
  with assms(4) have "stuck c s'" by (rule stuck_run)
  then show ?thesis by (auto simp: stuck_def)
qed

theorem rpc_stop_deadlock_witness:
  "\<exists>s s'. rs_reach [AsyncRun, StopResume, StopCheck, Arrive 1] s \<and> rs_replay [StopClose, Notify] s = Some s' \<and>
     rs_stop s' \<noteq> Stopped \<and> rs_pc s' 1 = Entered"
proof -
  obtain s where s: "rs_replay [AsyncRun, StopResume, StopCheck, Arrive 1] RpcService0 = Some s" "rs_stop s = StopReady"
    "rs_pc s 1 = Entered" "rs_replay [StopClose, Notify] s \<noteq> None"
    by (simp add: RpcService0_def rs_move_def rs_resume_def rs_preRpc_def)
  have reach: "rs_reach [AsyncRun, StopResume, StopCheck, Arrive 1] s"
    using rs_replay_reach [OF rs_start s(1)] by simp
  obtain s' where s': "rs_replay [StopClose, Notify] s = Some s'" using s(4) by auto
  from reach s' rpc_stop_deadlock [OF reach s(2,3) s'] show ?thesis by blast
qed

text \<open>
  \<open>pause\<close> returns while a handler is still running: it neither takes the mutex nor waits
  for the calls under way, so a transformation, which pauses the service first, can run
  together with a handler of the identity that it leaves.
\<close>

theorem rpc_pause_running:
  "\<exists>ls s. rs_reach ls s \<and> rs_paused s \<and> rs_pc s 1 = Running"
proof -
  obtain s where s: "rs_replay [AsyncRun, Arrive 1, Check 1, Pause] RpcService0 = Some s" "rs_paused s" "rs_pc s 1 = Running"
    by (simp add: RpcService0_def rs_move_def rs_pause_def rs_preRpc_def)
  then show ?thesis using rs_replay_reach [OF rs_start s(1)] by auto
qed

text \<open>The steps that the service takes by itself, those of callers and of the system left out.\<close>

fun internal :: "rs_label \<Rightarrow> bool" where
  "internal AsyncRun = False"
| "internal (Arrive c) = False"
| "internal Pause = False"
| "internal Resume = False"
| "internal (Spurious c) = False"
| "internal StopSpurious = False"
| "internal StopResume = False"
| "internal l = True"

text \<open>
  A wake-up can be lost: \<open>resume\<close> clears \<open>paused\<close> and notifies without the mutex, and if it
  does so between a call's look at \<open>paused\<close> and its falling asleep, that call sleeps on although
  the service is not paused, no notification is due and no step of the service can wake it.
\<close>

theorem rpc_lost_wakeup:
  "\<exists>ls s. rs_reach ls s \<and> \<not> rs_paused s \<and> rs_pc s 1 = Blocked \<and>
    (\<forall>l. internal l \<longrightarrow> rs_do l s = None)"
proof -
  let ?ls = "[AsyncRun, Pause, Arrive 1, Check 1, Resume, Notify, Block 1]"
  let ?s = "RpcService0\<lparr>rs_serving := True, rs_num := 1, rs_pc := (\<lambda>_. Absent)(1 := Blocked)\<rparr>"
  have "rs_replay ?ls RpcService0 = Some ?s"
    by (simp add: RpcService0_def rs_move_def rs_pause_def rs_resume_def rs_notify_all_def rs_preRpc_def fun_eq_iff)
  then have "rs_reach ?ls ?s" using rs_replay_reach [OF rs_start] by simp
  moreover have "rs_do l ?s = None" if "internal l" for l
    using that by (cases l) (simp_all add: RpcService0_def)
  ultimately show ?thesis
    by (intro exI [of _ ?ls] exI [of _ ?s]) (simp add: RpcService0_def)
qed

text \<open>
  \<open>stop\<close> can miss its wake-up in the same way: the last call under way counts itself out and
  notifies between the look at the count and the falling asleep, and \<open>stop\<close> sleeps on with
  no call left that could wake it.
\<close>

theorem rpc_stop_lost_wakeup:
  "\<exists>ls s. rs_reach ls s \<and> rs_stop s = StopBlocked \<and> rs_num s = 0 \<and> no_calls s \<and>
    (\<forall>l. internal l \<longrightarrow> rs_do l s = None)"
proof -
  let ?ls = "[AsyncRun, Arrive 1, Check 1, Return 1, StopResume, Notify, StopCheck, Leave 1, Notify, StopBlock]"
  let ?s = "RpcService0\<lparr>rs_serving := True, rs_pc := (\<lambda>_. Absent)(1 := Finished), rs_stop := StopBlocked\<rparr>"
  have "rs_replay ?ls RpcService0 = Some ?s"
    by (simp add: RpcService0_def rs_move_def rs_pause_def rs_resume_def rs_notify_all_def rs_preRpc_def
        rs_postRpc_def fun_eq_iff)
  then have "rs_reach ?ls ?s" using rs_replay_reach [OF rs_start] by simp
  moreover have "rs_do l ?s = None" if "internal l" for l
    using that by (cases l) (simp_all add: RpcService0_def)
  ultimately show ?thesis
    by (intro exI [of _ ?ls] exI [of _ ?s]) (simp add: RpcService0_def no_calls_def)
qed

end
