(* ===== verification/Configuration.thy ===== *)
theory Configuration
  imports Quintet_Types
begin

text \<open>
  Configuration and logging: \<open>ServerInfo::load\<close> and \<open>save\<close> (\<open>ServerInfo.cpp\<close>), and the log sinks
  of \<open>service/log/Global.cpp\<close>.

  The property tree of Boost is a parameter: \<open>put\<close>, \<open>getv\<close> and \<open>children\<close> stand for its member
  functions, on paths that are already split at the dots, and the locale \<open>property_tree\<close> states
  what their documentation promises. Reading and writing the JSON file is taken as exact, so a
  file is a tree. \<open>None\<close> is an exception (a missing node, a value that does not parse).
\<close>

section \<open>The property tree\<close>

type_synonym path = "string list"

text \<open>Setting a key in a list of children: the first child of that key, or a new last one.\<close>

fun put_assoc :: "'k \<Rightarrow> 'v \<Rightarrow> ('k \<times> 'v) list \<Rightarrow> ('k \<times> 'v) list" where
  "put_assoc k v [] = [(k, v)]"
| "put_assoc k v (p # ps) = (if fst p = k then (k, v) # ps else p # put_assoc k v ps)"

locale property_tree =
  fixes put :: "path \<Rightarrow> string \<Rightarrow> 't \<Rightarrow> 't"
    and getv :: "path \<Rightarrow> 't \<Rightarrow> string option"
    and children :: "path \<Rightarrow> 't \<Rightarrow> (string \<times> string) list option"
    and empty_tree :: 't
  assumes getv_put: "getv p (put p v t) = Some v"
    and getv_put_other: "take (length p) q \<noteq> p \<Longrightarrow> getv p (put q v t) = getv p t"
    and children_put: "children p (put (p @ [k]) v t) =
      Some (put_assoc k v (case children p t of None \<Rightarrow> [] | Some cs \<Rightarrow> cs))"
    and children_put_other: "butlast q \<noteq> p \<Longrightarrow> q \<noteq> [] \<Longrightarrow> children p (put q v t) = children p t"
    and children_empty: "p \<noteq> [] \<Longrightarrow> children p empty_tree = None"
begin

lemma children_puts_same_key:
  "vs \<noteq> [] \<Longrightarrow> children p t = None \<or> (\<exists>w. children p t = Some [(k, w)]) \<Longrightarrow>
     children p (fold (\<lambda>v. put (p @ [k]) v) vs t) = Some [(k, last vs)]"
proof (induction vs arbitrary: t)
  case (Cons v vs)
  have one: "children p (put (p @ [k]) v t) = Some [(k, v)]"
    using Cons.prems(2) by (auto simp: children_put)
  show ?case
  proof (cases "vs = []")
    case False
    with Cons.IH [of "put (p @ [k]) v t"] one show ?thesis by simp
  qed (simp add: one)
qed simp

lemma getv_puts: "take (length p) q \<noteq> p \<Longrightarrow> getv p (fold (\<lambda>v. put q v) vs t) = getv p t"
  by (induction vs arbitrary: t) (simp_all add: getv_put_other)

end

section \<open>Reading and writing values\<close>

definition read_word :: "string \<Rightarrow> (string \<times> string) option" where
  "read_word s = (let s = dropWhile is_space s; w = takeWhile (\<lambda>c. \<not> is_space c) s in
     if w = [] then None else Some (w, dropWhile (\<lambda>c. \<not> is_space c) s))"

definition read_serverId :: "string \<Rightarrow> ServerId option" where
  "read_serverId s = (case read_word s of None \<Rightarrow> None
     | Some (a, s) \<Rightarrow> (case read_number 65536 s of None \<Rightarrow> None
       | Some (p, s) \<Rightarrow> if dropWhile is_space s = [] then Some \<lparr>addr = a, port = of_nat p\<rparr> else None))"

definition write_serverId :: "ServerId \<Rightarrow> string" where
  "write_serverId srv = addr srv @ '' '' @ to_string (unat (port srv))"

definition read_timeout :: "string \<Rightarrow> nat option" where
  "read_timeout s = (case read_number (2 ^ 64) s of None \<Rightarrow> None
     | Some (n, s) \<Rightarrow> if dropWhile is_space s = [] then Some n else None)"

section \<open>ServerInfo\<close>

fun read_servers :: "(string \<times> string) list \<Rightarrow> ServerId list option" where
  "read_servers [] = Some []"
| "read_servers (c # cs) = (case read_serverId (snd c) of None \<Rightarrow> None
     | Some srv \<Rightarrow> map_option ((#) srv) (read_servers cs))"

definition serverInfo_load :: "(path \<Rightarrow> 't \<Rightarrow> string option) \<Rightarrow> (path \<Rightarrow> 't \<Rightarrow> (string \<times> string) list option)
    \<Rightarrow> 't \<Rightarrow> ServerInfo \<Rightarrow> ServerInfo option" where
  "serverInfo_load getv children tree cfg =
     (case Option.bind (getv [''local'', ''address''] tree) read_serverId of None \<Rightarrow> None
      | Some loc \<Rightarrow> (case Option.bind (getv [''electionTimeout''] tree) read_timeout of None \<Rightarrow> None
        | Some timeout \<Rightarrow> (case Option.bind (children [''serverList''] tree) read_servers of None \<Rightarrow> None
          | Some srvs \<Rightarrow> Some \<lparr>local = loc, srvList = srvList cfg @ srvs, electionTimeout = timeout\<rparr>)))"

definition serverInfo_save :: "(path \<Rightarrow> string \<Rightarrow> 't \<Rightarrow> 't) \<Rightarrow> 't \<Rightarrow> ServerInfo \<Rightarrow> 't" where
  "serverInfo_save put empty_tree cfg = (let
     tree = put [''local'', ''address''] (write_serverId (local cfg)) empty_tree;
     tree = put [''electionTimeout''] (to_string (electionTimeout cfg)) tree
     in fold (\<lambda>srv. put [''serverList'', ''serverId''] (write_serverId srv)) (srvList cfg) tree)"

section \<open>A tree that keeps the promises\<close>

text \<open>The nodes with a value, by their paths.\<close>

definition pt_getv :: "path \<Rightarrow> (path \<times> string) list \<Rightarrow> string option" where
  "pt_getv p t = map_of t p"

definition pt_children :: "path \<Rightarrow> (path \<times> string) list \<Rightarrow> (string \<times> string) list option" where
  "pt_children p t = (let cs = map (\<lambda>(q, v). (last q, v)) (filter (\<lambda>(q, v). q \<noteq> [] \<and> butlast q = p) t)
     in if cs = [] then None else Some cs)"

lemma map_of_put_assoc: "map_of (put_assoc k v ps) = (map_of ps)(k \<mapsto> v)"
  by (induction ps) (auto simp: fun_eq_iff)

lemma children_put_assoc:
  "map (\<lambda>(q, v). (last q, v)) (filter (\<lambda>(q, v). q \<noteq> [] \<and> butlast q = p) (put_assoc (p @ [k]) v t)) =
     put_assoc k v (map (\<lambda>(q, v). (last q, v)) (filter (\<lambda>(q, v). q \<noteq> [] \<and> butlast q = p) t))"
proof (induction t)
  case (Cons x t)
  obtain q w where x: "x = (q, w)" by fastforce
  have "q = p @ [k] \<longleftrightarrow> q \<noteq> [] \<and> butlast q = p \<and> last q = k"
    by (auto dest: append_butlast_last_id)
  with Cons x show ?case by auto
qed simp

lemma put_assoc_nonempty [simp]: "put_assoc k v ps \<noteq> []"
  by (cases ps) auto

lemma filter_put_assoc_other:
  "\<not> P (q, v) \<Longrightarrow> (\<And>w. P (q, w) \<longleftrightarrow> P (q, v)) \<Longrightarrow> filter P (put_assoc q v t) = filter P t"
  by (induction t) auto

interpretation pt: property_tree put_assoc pt_getv pt_children "[]"
proof unfold_locales
  show "pt_getv p (put_assoc p v t) = Some v" for p v t
    by (simp add: pt_getv_def map_of_put_assoc)
  show "take (length p) q \<noteq> p \<Longrightarrow> pt_getv p (put_assoc q v t) = pt_getv p t" for p q v t
    by (auto simp: pt_getv_def map_of_put_assoc)
  show "pt_children p (put_assoc (p @ [k]) v t) =
      Some (put_assoc k v (case pt_children p t of None \<Rightarrow> [] | Some cs \<Rightarrow> cs))" for p k v t
    by (simp add: pt_children_def children_put_assoc Let_def)
  show "butlast q \<noteq> p \<Longrightarrow> q \<noteq> [] \<Longrightarrow> pt_children p (put_assoc q v t) = pt_children p t" for p q v t
    by (simp add: pt_children_def filter_put_assoc_other)
  show "p \<noteq> [] \<Longrightarrow> pt_children p [] = None" for p
    by (simp add: pt_children_def)
qed

section \<open>Written values read back\<close>

definition word_address :: "ServerId \<Rightarrow> bool" where
  "word_address srv \<longleftrightarrow> addr srv \<noteq> [] \<and> (\<forall>c \<in> set (addr srv). \<not> is_space c)"

lemma read_written:
  assumes "word_address srv"
  shows "read_serverId (write_serverId srv) = Some srv"
proof -
  from assms have a: "addr srv \<noteq> []" "\<And>c. c \<in> set (addr srv) \<Longrightarrow> \<not> is_space c"
    by (simp_all add: word_address_def)
  let ?rest = "'' '' @ to_string (unat (port srv))"
  have "dropWhile is_space (addr srv @ ?rest) = addr srv @ ?rest"
    using a by (cases "addr srv") auto
  moreover have "takeWhile (\<lambda>c. \<not> is_space c) (addr srv @ ?rest) = addr srv"
    "dropWhile (\<lambda>c. \<not> is_space c) (addr srv @ ?rest) = ?rest"
    using a(2) by (simp_all add: takeWhile_append2 dropWhile_append2) (simp_all add: is_space_def)
  ultimately have "read_word (addr srv @ ?rest) = Some (addr srv, ?rest)"
    using a(1) by (simp add: read_word_def Let_def)
  moreover have "unat (port srv) < 65536" using unsigned_less [of "port srv"] by simp
  ultimately show ?thesis
    unfolding read_serverId_def write_serverId_def
    by (simp add: read_number_to_string(2) [simplified])
qed

text \<open>
  The address that is written for a server id reads back as that id, provided its address
  is a word: not empty and free of white space.
\<close>

theorem read_write_serverId:
  assumes "word_address srv"
  shows "read_serverId (write_serverId srv) = Some srv"
  using assms by (rule read_written)

theorem read_write_serverId_witness:
  "read_serverId (write_serverId \<lparr>addr = ''127.0.0.1'', port = 50010\<rparr>) = Some \<lparr>addr = ''127.0.0.1'', port = 50010\<rparr>"
  by (rule read_write_serverId) (auto simp: word_address_def is_space_def)

context property_tree
begin

lemma load_save:
  assumes "\<And>srv. srv = local cfg \<or> srv \<in> set (srvList cfg) \<Longrightarrow> read_serverId (write_serverId srv) = Some srv"
    and "srvList cfg \<noteq> []" "electionTimeout cfg < 2 ^ 64"
  shows "serverInfo_load getv children (serverInfo_save put empty_tree cfg) cfg0 =
    Some \<lparr>local = local cfg, srvList = srvList cfg0 @ [last (srvList cfg)],
      electionTimeout = electionTimeout cfg\<rparr>"
proof -
  let ?t0 = "put [''electionTimeout''] (to_string (electionTimeout cfg))
    (put [''local'', ''address''] (write_serverId (local cfg)) empty_tree)"
  let ?vs = "map write_serverId (srvList cfg)"
  have tree: "serverInfo_save put empty_tree cfg =
      fold (\<lambda>v. put ([''serverList''] @ [''serverId'']) v) ?vs ?t0"
    by (simp add: serverInfo_save_def Let_def fold_map comp_def)
  have "children [''serverList''] ?t0 = None"
    by (simp add: children_put_other children_empty)
  then have "children [''serverList''] (serverInfo_save put empty_tree cfg) = Some [(''serverId'', last ?vs)]"
    unfolding tree using assms(2) by (intro children_puts_same_key) simp_all
  moreover have "getv [''local'', ''address''] (serverInfo_save put empty_tree cfg) = Some (write_serverId (local cfg))"
    "getv [''electionTimeout''] (serverInfo_save put empty_tree cfg) = Some (to_string (electionTimeout cfg))"
    unfolding tree by (simp_all add: getv_puts getv_put getv_put_other)
  moreover have "read_timeout (to_string (electionTimeout cfg)) = Some (electionTimeout cfg)"
    using assms(3) by (simp add: read_timeout_def read_number_to_string)
  moreover have "read_serverId (last ?vs) = Some (last (srvList cfg))"
    using assms(1,2) by (simp add: last_map)
  ultimately show ?thesis using assms(1) by (simp add: serverInfo_load_def)
qed

end

text \<open>
  \<open>save\<close> keeps only the last server of the list: every server is put at the same path, so
  that loading the file that was saved gives the own address, the timeout, and one server.
\<close>

theorem save_keeps_last_server:
  assumes "property_tree put getv children empty_tree"
    and "word_address (local cfg)" "\<forall>srv \<in> set (srvList cfg). word_address srv"
    and "srvList cfg \<noteq> []" "electionTimeout cfg < 2 ^ 64"
  shows "serverInfo_load getv children (serverInfo_save put empty_tree cfg) cfg0 =
    Some \<lparr>local = local cfg, srvList = srvList cfg0 @ [last (srvList cfg)],
      electionTimeout = electionTimeout cfg\<rparr>"
  using assms by (intro property_tree.load_save) (auto simp: read_written)

theorem save_keeps_last_server_witness:
  "serverInfo_load pt_getv pt_children (serverInfo_save put_assoc [] \<lparr>local = \<lparr>addr = ''a'', port = 1\<rparr>,
      srvList = [\<lparr>addr = ''a'', port = 1\<rparr>, \<lparr>addr = ''b'', port = 2\<rparr>], electionTimeout = 150\<rparr>)
     \<lparr>local = NullServerId, srvList = [], electionTimeout = 0\<rparr> =
   Some \<lparr>local = \<lparr>addr = ''a'', port = 1\<rparr>, srvList = [\<lparr>addr = ''b'', port = 2\<rparr>], electionTimeout = 150\<rparr>"
  using save_keeps_last_server [OF pt.property_tree_axioms, of "\<lparr>local = \<lparr>addr = ''a'', port = 1\<rparr>,
      srvList = [\<lparr>addr = ''a'', port = 1\<rparr>, \<lparr>addr = ''b'', port = 2\<rparr>], electionTimeout = 150\<rparr>"
      "\<lparr>local = NullServerId, srvList = [], electionTimeout = 0\<rparr>"]
  by (simp add: word_address_def is_space_def)

section \<open>Log sinks\<close>

text \<open>
  A log record with the attributes the sinks look at; a sink writes to one file and takes the
  records whose attribute \<open>ServerId\<close> is its own id.
\<close>

record LogRecord =
  lr_serverId :: "string option"
  lr_part :: "string option"
  lr_identity :: "nat option"
  lr_timeStamp :: string
  lr_message :: string

record Sink =
  sk_file :: string
  sk_rotation :: nat
  sk_id :: string

definition makeGlobalSink :: "string list \<Rightarrow> string \<Rightarrow> Sink list" where
  "makeGlobalSink idList prefix = (let fileNames = map (\<lambda>i. prefix @ i @ ''_%3N'' @ ''.log'') idList in
     map (\<lambda>idx. \<lparr>sk_file = fileNames ! idx, sk_rotation = 5 * 1024 * 1024, sk_id = idList ! idx\<rparr>)
       [0..<length idList])"

definition sink_accepts :: "Sink \<Rightarrow> LogRecord \<Rightarrow> bool" where
  "sink_accepts sink r \<longleftrightarrow> lr_serverId r = Some (sk_id sink)"

definition pad :: "nat \<Rightarrow> string \<Rightarrow> string" where
  "pad w s = replicate (w - length s) (CHR '' '') @ s"

definition sink_format :: "LogRecord \<Rightarrow> string" where
  "sink_format r = ''['' @ lr_timeStamp r @ ''] '' @
     (case lr_part r of Some part \<Rightarrow> ''['' @ pad 11 part @ ''] '' | None \<Rightarrow> ''['' @ pad 11 '' '' @ ''] '') @
     (case lr_identity r of Some i \<Rightarrow> ''[(Identity)'' @ to_string i @ ''] '' | None \<Rightarrow> ''[ ] '') @
     lr_message r"

record Initializer =
  in_prefix :: string
  in_idList :: "string list"

definition Initializer0 :: Initializer where
  "Initializer0 = \<lparr>in_prefix = ''./'', in_idList = []\<rparr>"

definition addId :: "string \<Rightarrow> Initializer \<Rightarrow> Initializer" where
  "addId i ini = ini\<lparr>in_idList := in_idList ini @ [i]\<rparr>"

definition setPrefix :: "string \<Rightarrow> Initializer \<Rightarrow> Initializer" where
  "setPrefix prefix ini = ini\<lparr>in_prefix := prefix\<rparr>"

definition initializer_init :: "Initializer \<Rightarrow> Sink list \<Rightarrow> Sink list" where
  "initializer_init ini core_sinks = core_sinks @ makeGlobalSink (in_idList ini) (in_prefix ini)"

lemma makeGlobalSink_alt:
  "makeGlobalSink idList prefix =
     map (\<lambda>i. \<lparr>sk_file = prefix @ i @ ''_%3N.log'', sk_rotation = 5242880, sk_id = i\<rparr>) idList"
  by (rule nth_equalityI) (simp_all add: makeGlobalSink_def Let_def)

text \<open>
  Each server logs to a file of its own: after \<open>init\<close> with distinct ids, a record is written
  to the one file that is named after the server it came from, and to none when that server was
  not registered.
\<close>

theorem log_routing:
  assumes "distinct (in_idList ini)"
  shows "map sk_file (filter (\<lambda>sink. sink_accepts sink r) (initializer_init ini [])) =
    (case lr_serverId r of None \<Rightarrow> []
     | Some i \<Rightarrow> if i \<in> set (in_idList ini) then [in_prefix ini @ i @ ''_%3N.log''] else [])"
proof -
  have one: "filter (\<lambda>j. i = j) xs = (if i \<in> set xs then [i] else [])" if "distinct xs" for i :: string and xs
    using that by (induction xs) (auto simp: filter_empty_conv)
  show ?thesis
    using one [OF assms]
    by (auto simp: initializer_init_def makeGlobalSink_alt sink_accepts_def filter_map comp_def
        split: option.splits)
qed

theorem log_routing_witness:
  "map sk_file (filter (\<lambda>sink. sink_accepts sink \<lparr>lr_serverId = Some ''b:2'', lr_part = None, lr_identity = None,
      lr_timeStamp = ''now'', lr_message = ''hi''\<rparr>)
      (initializer_init (addId ''b:2'' (addId ''a:1'' Initializer0)) [])) = [''./b:2_%3N.log'']"
  using log_routing [of "addId ''b:2'' (addId ''a:1'' Initializer0)" "\<lparr>lr_serverId = Some ''b:2'', lr_part = None,
      lr_identity = None, lr_timeStamp = ''now'', lr_message = ''hi''\<rparr>"]
  by (simp add: addId_def Initializer0_def)

end
