(* ===== verification/Raft_Api.thy ===== *)
theory Raft_Api
  imports Raft_Server Rpc_Service Rpc_Gate Configuration
begin

text \<open>
  The public members of a server (\<open>Raft.h\<close>, \<open>Raft.cpp\<close>) and its debug context
  (\<open>RaftDebugContext.h\<close>): a configured server is a \<open>Raft\<close> whose handlers are bound in its RPC
  service, which listens on the port of the configuration. \<open>None\<close> is an exception, a failed
  assertion or the use of a null pointer.

  \<open>setDebugContext\<close> replaces the hooks that \<open>transform\<close> and the leader consult; a hook without a
  result has no effect on the model and is left out. The artificial latency is drawn from an
  interval (\<open>rpcSleep\<close>) and only delays an RPC.
\<close>

section \<open>The debug context\<close>

record RaftDebugContext =
  dc_beforeTransform :: "ServerIdentityNo \<Rightarrow> ServerIdentityNo \<Rightarrow> ServerIdentityNo"
  dc_rpcLatencyLb :: "64 word"
  dc_rpcLatencyUb :: "64 word"
  dc_heartBeatEnabled :: bool

definition RaftDebugContext0 :: RaftDebugContext where
  "RaftDebugContext0 = \<lparr>dc_beforeTransform = (\<lambda>from to. to), dc_rpcLatencyLb = 0, dc_rpcLatencyUb = 0,
     dc_heartBeatEnabled = True\<rparr>"

definition setBeforeTransform :: "(ServerIdentityNo \<Rightarrow> ServerIdentityNo \<Rightarrow> ServerIdentityNo)
    \<Rightarrow> RaftDebugContext \<Rightarrow> RaftDebugContext" where
  "setBeforeTransform f ctx = ctx\<lparr>dc_beforeTransform := f\<rparr>"

definition setHeartBeatEnabled :: "bool \<Rightarrow> RaftDebugContext \<Rightarrow> RaftDebugContext" where
  "setHeartBeatEnabled f ctx = ctx\<lparr>dc_heartBeatEnabled := f\<rparr>"

section \<open>The server object\<close>

record RaftImpl =
  ri_raft :: Raft
  ri_rpc :: "Raft RaftRpcImpl"
  ri_gate :: RpcService
  ri_debug :: RaftDebugContext
  ri_rpcLatencyLb :: "64 word"
  ri_rpcLatencyUb :: "64 word"

definition RaftImpl0 :: RaftImpl where
  "RaftImpl0 = \<lparr>ri_raft = configure \<lparr>local = NullServerId, srvList = [], electionTimeout = 0\<rparr>,
     ri_rpc = RaftRpcImpl0, ri_gate = RpcService0, ri_debug = RaftDebugContext0,
     ri_rpcLatencyLb = 0, ri_rpcLatencyUb = 0\<rparr>"

definition initRpcService :: "(string \<Rightarrow> bool) \<Rightarrow> RaftImpl \<Rightarrow> RaftImpl option" where
  "initRpcService BuildAndStart ri = (let
     rpc = bindRequestVote raft_requestVote (ri_rpc ri);
     rpc = bindAppendEntries raft_appendEntries rpc;
     rpc = bindAddLog raft_addLog rpc
     in map_option (\<lambda>gate. ri\<lparr>ri_rpc := rpc, ri_gate := gate\<rparr>)
       (rs_asyncRun BuildAndStart (port (local (sv_info (rf_server (ri_raft ri))))) (ri_gate ri)))"

text \<open>\<open>configure\<close> of a new object: the file is loaded into its (default) configuration.\<close>

definition raft_Configure :: "(path \<Rightarrow> 't \<Rightarrow> string option) \<Rightarrow> (path \<Rightarrow> 't \<Rightarrow> (string \<times> string) list option)
    \<Rightarrow> (string \<Rightarrow> bool) \<Rightarrow> 't \<Rightarrow> RaftImpl \<Rightarrow> RaftImpl option" where
  "raft_Configure getv children BuildAndStart tree ri =
     Option.bind (serverInfo_load getv children tree (sv_info (rf_server (ri_raft ri))))
       (\<lambda>cfg. initRpcService BuildAndStart (ri\<lparr>ri_raft := configure cfg\<rparr>))"

definition raft_AsyncRun :: "RaftImpl \<Rightarrow> RaftImpl" where
  "raft_AsyncRun ri = ri\<lparr>ri_raft := asyncRun (ri_raft ri)\<rparr>"

definition raft_Local :: "RaftImpl \<Rightarrow> ServerId" where
  "raft_Local ri = local (sv_info (rf_server (ri_raft ri)))"

definition getInfo :: "RaftImpl \<Rightarrow> ServerInfo" where
  "getInfo ri = sv_info (rf_server (ri_raft ri))"

definition getState :: "RaftImpl \<Rightarrow> ServerState" where
  "getState ri = sv_state (rf_server (ri_raft ri))"

definition getCurrentTerm :: "RaftImpl \<Rightarrow> raft_term" where
  "getCurrentTerm ri = get_currentTerm (sv_state (rf_server (ri_raft ri)))"

definition setRpcLatency :: "64 word \<Rightarrow> 64 word \<Rightarrow> RaftImpl \<Rightarrow> RaftImpl" where
  "setRpcLatency lb ub ri = ri\<lparr>ri_rpcLatencyLb := lb, ri_rpcLatencyUb := ub\<rparr>"

definition setDebugContext :: "RaftDebugContext \<Rightarrow> RaftImpl \<Rightarrow> RaftImpl" where
  "setDebugContext ctx ri = ri\<lparr>ri_debug := ctx\<rparr>"

definition forceHeartBeat :: "RaftImpl \<Rightarrow> RaftImpl option" where
  "forceHeartBeat ri = map_option (\<lambda>(_, h). ri\<lparr>ri_raft := (ri_raft ri)\<lparr>rf_server :=
     (rf_server (ri_raft ri))\<lparr>sv_heartBeat := h\<rparr>\<rparr>\<rparr>) (hb_start True False (sv_heartBeat (rf_server (ri_raft ri))))"

text \<open>The event queue runs its next transformation, with the hooks of the debug context.\<close>

definition raft_transformNext :: "nat \<Rightarrow> RaftImpl \<Rightarrow> RaftImpl option" where
  "raft_transformNext timeout ri = map_option (\<lambda>rf. ri\<lparr>ri_raft := rf\<rparr>)
     (raft_event (dc_beforeTransform (ri_debug ri)) (dc_heartBeatEnabled (ri_debug ri)) timeout (ri_raft ri))"

text \<open>A RequestVote message comes in over the service; so do the other two.\<close>

definition raft_serveVote :: "PbRequestVoteMessage \<Rightarrow> RaftImpl \<Rightarrow> (PbReply \<times> RaftImpl) option" where
  "raft_serveVote request ri = map_option (\<lambda>(r, rf). (r, ri\<lparr>ri_raft := rf\<rparr>))
     (serve_RequestVote (ri_rpc ri) request PbReply0 (ri_raft ri))"

definition raft_serveEntries :: "PbAppendEntriesMessage \<Rightarrow> RaftImpl \<Rightarrow> (PbReply \<times> RaftImpl) option" where
  "raft_serveEntries request ri = map_option (\<lambda>(r, rf). (r, ri\<lparr>ri_raft := rf\<rparr>))
     (serve_AppendEntries (ri_rpc ri) request PbReply0 (ri_raft ri))"

definition raft_serveLog :: "PbAddLogMessage \<Rightarrow> RaftImpl \<Rightarrow> (PbAddLogReply \<times> RaftImpl) option" where
  "raft_serveLog request ri = map_option (\<lambda>(r, rf). (r, ri\<lparr>ri_raft := rf\<rparr>))
     (serve_AddLog (ri_rpc ri) request PbAddLogReply0 (ri_raft ri))"

section \<open>A configured server\<close>

text \<open>The functions of the server are bound.\<close>

definition bound_to_raft :: "RaftImpl \<Rightarrow> bool" where
  "bound_to_raft ri \<longleftrightarrow> rr_appendEntries (ri_rpc ri) = Some raft_appendEntries \<and>
     rr_requestVote (ri_rpc ri) = Some raft_requestVote \<and> rr_addLog (ri_rpc ri) = Some raft_addLog"

lemma raft_Configure_Some:
  assumes "raft_Configure getv children BuildAndStart tree ri = Some ri'"
  obtains cfg where "serverInfo_load getv children tree (getInfo ri) = Some cfg" "bound_to_raft ri'"
    "ri_raft ri' = configure cfg" "BuildAndStart (listen_address (port (local cfg)))"
    "ri_gate ri' = (ri_gate ri)\<lparr>rs_serving := True\<rparr>" "ri_debug ri' = ri_debug ri"
  using assms
  by (auto simp: raft_Configure_def initRpcService_def Let_def rs_asyncRun_def getInfo_def bound_to_raft_def
      bindAppendEntries_def bindRequestVote_def bindAddLog_def configure_def Option.bind_eq_Some_conv split: if_splits)

lemma raft_Configure_listens:
  "raft_Configure getv children BuildAndStart tree ri = Some ri' \<Longrightarrow> rs_serving (ri_gate ri')"
  by (erule raft_Configure_Some) simp

section \<open>Only identities that exist are waited for\<close>

abbreviation pending :: "Server \<Rightarrow> ServerIdentityNo set" where
  "pending sv \<equiv> set (eq_events (sv_eventQueue sv))"

text \<open>What every RPC leaves of the configuration and of the event queue.\<close>

definition call_frame :: "Server \<Rightarrow> Server \<Rightarrow> bool" where
  "call_frame sv sv' \<longleftrightarrow> sv_info sv' = sv_info sv \<and> pending sv' \<subseteq> insert Follower (pending sv)"

lemma call_frame_refl [simp]: "call_frame sv sv"
  by (auto simp: call_frame_def)

lemma call_frame_trans: "call_frame a b \<Longrightarrow> call_frame b c \<Longrightarrow> call_frame a c"
  by (auto simp: call_frame_def)

lemma call_frame_same:
  "sv_info sv' = sv_info sv \<Longrightarrow> sv_eventQueue sv' = sv_eventQueue sv \<Longrightarrow> call_frame sv sv'"
  by (auto simp: call_frame_def)

lemma call_frame_notify: "call_frame sv (sv_notify Follower t sv)"
  by (auto simp: call_frame_def sv_notify_events)

lemma call_frame_restart: "sv_restart sv = Some sv' \<Longrightarrow> call_frame sv sv'"
  by (auto simp: sv_restart_def intro: call_frame_same)

lemma call_frame_apply: "applyReadyEntries sv = Some sv' \<Longrightarrow> call_frame sv sv'"
  by (auto simp: applyReadyEntries_def Let_def intro: call_frame_same split: if_splits)

lemma call_frame_state: "call_frame (sv\<lparr>sv_state := s\<rparr>) sv' \<longleftrightarrow> call_frame sv sv'"
  by (simp add: call_frame_def)

lemma call_frame_check: "call_frame sv (snd (checkRpcTerm t i sv))"
  using call_frame_notify [of "sv\<lparr>sv_state := (sv_state sv)\<lparr>currentTerm := t\<rparr>\<rparr>" t]
  by (auto simp: checkRpcTerm_def Let_def call_frame_state intro: call_frame_same)

lemma call_frame_requestVote:
  assumes "defaultRPCRequestVote msg i sv = Some (r, sv')"
  shows "call_frame sv sv'"
proof -
  let ?sv = "snd (checkRpcTerm (rv_term msg) i sv)"
  obtain sv1 where 1: "requestVote_body msg i ?sv = Some (r, sv1)" "applyReadyEntries sv1 = Some sv'"
    using assms by (auto simp: defaultRPCRequestVote_def Option.bind_eq_Some_conv)
  have "call_frame ?sv sv1"
    using 1(1) call_frame_notify [of "?sv\<lparr>sv_state := (sv_state ?sv)\<lparr>votedFor := rv_candidateId msg,
      currentTerm := rv_term msg\<rparr>\<rparr>" "rv_term msg"]
    by (auto simp: requestVote_body_def Let_def Option.bind_eq_Some_conv call_frame_state
        intro: call_frame_same split: if_splits dest!: call_frame_restart)
  with call_frame_check call_frame_apply [OF 1(2)] show ?thesis by (blast intro: call_frame_trans)
qed

lemma call_frame_appendEntries:
  assumes "defaultRPCAppendEntries msg i sv = Some (r, sv')"
  shows "call_frame sv sv'"
proof -
  let ?sv = "snd (checkRpcTerm (ae_term msg) i sv)"
  obtain sv1 where 1: "appendEntries_body msg ?sv = Some (r, sv1)" "applyReadyEntries sv1 = Some sv'"
    using assms by (auto simp: defaultRPCAppendEntries_def Option.bind_eq_Some_conv)
  have "call_frame ?sv sv1"
    using 1(1) by (auto simp: appendEntries_body_def Let_def Option.bind_eq_Some_conv
        intro: call_frame_same split: if_splits)
  with call_frame_check call_frame_apply [OF 1(2)] show ?thesis by (blast intro: call_frame_trans)
qed

lemma call_frame_follower: "follower_appendEntries msg sv = Some (r, sv') \<Longrightarrow> call_frame sv sv'"
  by (auto simp: follower_appendEntries_def Let_def Option.bind_eq_Some_conv split: if_splits
      dest!: call_frame_restart call_frame_appendEntries intro: call_frame_trans)

lemma call_frame_candidate: "candidate_appendEntries msg sv = Some (r, sv') \<Longrightarrow> call_frame sv sv'"
  by (auto simp: candidate_appendEntries_def Let_def split: if_splits
      dest!: call_frame_appendEntries intro: call_frame_trans call_frame_notify)

lemma call_frame_raft:
  assumes "raft_call c rf = Some rf'"
  shows "call_frame (rf_server rf) (rf_server rf')"
proof (cases c)
  case (CallAppendEntries m)
  obtain r where "raft_appendEntries m rf = Some (r, rf')" using assms CallAppendEntries by auto
  then show ?thesis
    by (auto simp: set_server_def set_leader_def leader_appendEntries_def bogus_appendEntries_def
        Option.bind_eq_Some_conv split: ServerIdentityNo.splits
        dest!: call_frame_appendEntries call_frame_follower call_frame_candidate)
next
  case (CallRequestVote m)
  obtain r where "raft_requestVote m rf = Some (r, rf')" using assms CallRequestVote by auto
  then show ?thesis
    by (auto simp: set_server_def set_leader_def candidate_requestVote_def follower_requestVote_def
        leader_requestVote_def bogus_requestVote_def Option.bind_eq_Some_conv split: ServerIdentityNo.splits
        dest!: call_frame_requestVote)
next
  case (CallAddLog m)
  with assms show ?thesis
    by (auto simp: addLog_same leader_addLog_def bogus_addLog_def Let_def intro: call_frame_same
        split: ServerIdentityNo.splits if_splits prod.splits)
qed

section \<open>A configured server never fails\<close>

text \<open>
  Each handler, each transformation and the rest of a vote thread after its call is one step; the
  threads of a leader are those of \<open>Leader_Threads\<close>, so that the expiry of a leader's timer, which
  only starts them, changes nothing here. \<open>StopServer\<close> is the first part of \<open>stop\<close>: it closes the
  service and queues the transformation to \<open>Down\<close>; the queue is then run by \<open>NextTransform\<close>.
\<close>

datatype api_step = RunServer | StopServer | NextTransform nat | TimerExpires | VoteReturns nat RpcResult
  | ServeVote PbRequestVoteMessage | ServeEntries PbAppendEntriesMessage | ServeLog PbAddLogMessage

definition raft_timerExpires :: "RaftImpl \<Rightarrow> RaftImpl" where
  "raft_timerExpires ri = (case raft_timeout (ri_raft ri) of None \<Rightarrow> ri | Some rf \<Rightarrow> ri\<lparr>ri_raft := rf\<rparr>)"

definition raft_beginStop :: "RaftImpl \<Rightarrow> RaftImpl" where
  "raft_beginStop ri = ri\<lparr>ri_gate := (ri_gate ri)\<lparr>rs_serving := False\<rparr>,
     ri_raft := triggerTransformation Down (ri_raft ri)\<rparr>"

definition raft_voteReturns :: "nat \<Rightarrow> RpcResult \<Rightarrow> RaftImpl \<Rightarrow> RaftImpl" where
  "raft_voteReturns k result ri = (let rf = ri_raft ri; qs = requests (rf_candidate rf) in
     if length qs \<le> k \<or> rq_done (qs ! k) then ri
     else (case vote_thread (rq_msg (qs ! k)) result (rf_server rf, rf_candidate rf) of (sv, c) \<Rightarrow>
       ri\<lparr>ri_raft := rf\<lparr>rf_server := sv, rf_candidate := finish_request k c\<rparr>\<rparr>))"

fun api_do :: "api_step \<Rightarrow> RaftImpl \<Rightarrow> RaftImpl option" where
  "api_do RunServer ri = Some (raft_AsyncRun ri)"
| "api_do StopServer ri = Some (raft_beginStop ri)"
| "api_do (NextTransform timeout) ri = raft_transformNext timeout ri"
| "api_do TimerExpires ri = Some (raft_timerExpires ri)"
| "api_do (VoteReturns k result) ri = Some (raft_voteReturns k result ri)"
| "api_do (ServeVote m) ri = map_option snd (raft_serveVote m ri)"
| "api_do (ServeEntries m) ri = map_option snd (raft_serveEntries m ri)"
| "api_do (ServeLog m) ri = map_option snd (raft_serveLog m ri)"

fun api_run :: "api_step list \<Rightarrow> RaftImpl \<Rightarrow> RaftImpl option" where
  "api_run [] ri = Some ri"
| "api_run (l # ls) ri = Option.bind (api_do l ri) (api_run ls)"

text \<open>The random timeouts are positive.\<close>

fun drawn :: "api_step \<Rightarrow> bool" where
  "drawn (NextTransform timeout) \<longleftrightarrow> 0 < timeout"
| "drawn _ \<longleftrightarrow> True"

definition api_ok :: "RaftImpl \<Rightarrow> bool" where
  "api_ok ri \<longleftrightarrow> bound_to_raft ri \<and> raft_ok (ri_raft ri) \<and> Error \<notin> pending (rf_server (ri_raft ri)) \<and>
     2 \<le> electionTimeout (getInfo ri) \<and> (\<forall>from to. to \<noteq> Error \<longrightarrow> dc_beforeTransform (ri_debug ri) from to \<noteq> Error)"

lemma api_ok_call:
  assumes "api_ok ri" "raft_call c (ri_raft ri) = Some rf"
  shows "api_ok (ri\<lparr>ri_raft := rf\<rparr>)"
  using assms raft_rpc_total_ok [of "ri_raft ri" c] call_frame_raft [OF assms(2)]
  by (auto simp: api_ok_def bound_to_raft_def getInfo_def call_frame_def)

lemma api_serve:
  assumes "api_ok ri"
  shows "\<exists>rf. api_do (ServeVote v) ri = Some (ri\<lparr>ri_raft := rf\<rparr>) \<and>
      raft_call (CallRequestVote (convertRequestVoteMessage_common v)) (ri_raft ri) = Some rf"
    "\<exists>rf. api_do (ServeEntries e) ri = Some (ri\<lparr>ri_raft := rf\<rparr>) \<and>
      raft_call (CallAppendEntries (convertAppendEntriesMessage_common e)) (ri_raft ri) = Some rf"
    "\<exists>rf. api_do (ServeLog l) ri = Some (ri\<lparr>ri_raft := rf\<rparr>) \<and>
      raft_call (CallAddLog (convertAddLogMessage_common l)) (ri_raft ri) = Some rf"
  using assms raft_rpc_total_ok [of "ri_raft ri" "CallRequestVote (convertRequestVoteMessage_common v)"]
    raft_rpc_total_ok [of "ri_raft ri" "CallAppendEntries (convertAppendEntriesMessage_common e)"]
    raft_rpc_total_ok [of "ri_raft ri" "CallAddLog (convertAddLogMessage_common l)"]
  by (auto simp: api_ok_def bound_to_raft_def raft_serveVote_def serve_RequestVote_def rpc_RequestVote_def
      raft_serveEntries_def serve_AppendEntries_def rpc_AppendEntries_def raft_serveLog_def serve_AddLog_def
      rpc_AddLog_def simp del: raft_requestVote.simps raft_appendEntries.simps raft_addLog.simps)

lemma api_transform:
  assumes "api_ok ri" "0 < timeout"
  shows "\<exists>ri'. api_do (NextTransform timeout) ri = Some ri' \<and> api_ok ri'"
proof -
  let ?rf = "ri_raft ri" and ?before = "dc_beforeTransform (ri_debug ri)"
  from assms(1) have ok: "raft_ok ?rf" "2 \<le> electionTimeout (sv_info (rf_server ?rf))" "Error \<notin> pending (rf_server ?rf)"
    and hook: "\<And>from to. to \<noteq> Error \<Longrightarrow> ?before from to \<noteq> Error"
    by (simp_all add: api_ok_def getInfo_def)
  show ?thesis
  proof (cases "eq_events (sv_eventQueue (rf_server ?rf))")
    case Nil
    with assms(1) show ?thesis by (simp add: raft_transformNext_def raft_event_empty)
  next
    case (Cons target rest)
    with ok(3) have "target \<noteq> Error" by auto
    then have "?before (rf_identity ?rf) target \<noteq> Error" by (rule hook)
    from raft_event_result [OF ok(1) Cons, of ?before timeout "dc_heartBeatEnabled (ri_debug ri)", OF this assms(2) ok(2)]
    obtain rf where rf: "raft_event ?before (dc_heartBeatEnabled (ri_debug ri)) timeout ?rf = Some rf" "raft_ok rf"
      "sv_info (rf_server rf) = sv_info (rf_server ?rf)"
      "eq_events (sv_eventQueue (rf_server rf)) = rest @ entry_events (?before (rf_identity ?rf) target) (rf_server ?rf)"
      by blast
    have "Error \<notin> pending (rf_server rf)" using ok(3) Cons rf(4) by (auto simp: entry_events_def)
    with assms(1) rf show ?thesis by (simp add: raft_transformNext_def api_ok_def bound_to_raft_def getInfo_def)
  qed
qed

lemma api_timer: "api_ok ri \<Longrightarrow> api_ok (raft_timerExpires ri)"
proof (cases "raft_timeout (ri_raft ri)")
  case (Some rf)
  assume ok: "api_ok ri"
  with Some raft_ok_notify [of "ri_raft ri"] have "raft_ok rf"
    "sv_info (rf_server rf) = sv_info (rf_server (ri_raft ri))" "Error \<notin> pending (rf_server rf)"
    by (auto simp: api_ok_def raft_timeout_def follower_timeout_def candidate_timeout_def sv_notify_events
        split: option.splits HeartBeatFunc.splits)
  with ok Some show ?thesis by (simp add: raft_timerExpires_def api_ok_def bound_to_raft_def getInfo_def)
qed (simp add: raft_timerExpires_def)

lemma api_vote:
  assumes "api_ok ri"
  shows "api_ok (raft_voteReturns k result ri)"
proof -
  let ?rf = "ri_raft ri" and ?q = "requests (rf_candidate (ri_raft ri)) ! k"
  obtain sv c where vt: "vote_thread (rq_msg ?q) result (rf_server ?rf, rf_candidate ?rf) = (sv, c)" by fastforce
  from assms have ok: "raft_ok ?rf" "Error \<notin> pending (rf_server ?rf)" by (simp_all add: api_ok_def)
  have "raft_ok (?rf\<lparr>rf_server := sv, rf_candidate := finish_request k c\<rparr>)" "sv_info sv = sv_info (rf_server ?rf)"
    using raft_ok_vote_thread [OF ok(1) vt] by blast+
  moreover have "Error \<notin> pending sv"
    using vote_thread_effect [OF vt] ok(2) by (auto simp: sv_notify_events)
  ultimately show ?thesis using assms
    by (auto simp: raft_voteReturns_def vt Let_def api_ok_def bound_to_raft_def getInfo_def)
qed

lemma api_stop: "api_ok ri \<Longrightarrow> api_ok (raft_beginStop ri)"
proof -
  assume ok: "api_ok ri"
  then have "raft_ok (triggerTransformation Down (ri_raft ri))" by (simp add: api_ok_def raft_ok_trigger)
  with ok show ?thesis
    by (simp add: raft_beginStop_def api_ok_def bound_to_raft_def getInfo_def triggerTransformation_def)
qed

lemma api_start: "api_ok ri \<Longrightarrow> api_ok (raft_AsyncRun ri)"
proof -
  assume ok: "api_ok ri"
  then have "raft_ok (asyncRun (ri_raft ri))" by (simp add: asyncRun_def api_ok_def raft_ok_trigger)
  with ok show ?thesis
    by (simp add: raft_AsyncRun_def api_ok_def bound_to_raft_def getInfo_def asyncRun_def triggerTransformation_def)
qed

lemma api_do_ok: "api_ok ri \<Longrightarrow> drawn l \<Longrightarrow> \<exists>ri'. api_do l ri = Some ri' \<and> api_ok ri'"
proof (cases l)
  case (NextTransform timeout)
  assume "api_ok ri" "drawn l"
  with NextTransform show ?thesis using api_transform [of ri timeout] by simp
next
  case (ServeVote m)
  assume "api_ok ri"
  with api_serve(1) [of ri m] api_ok_call ServeVote show ?thesis by blast
next
  case (ServeEntries m)
  assume "api_ok ri"
  with api_serve(2) [of ri m] api_ok_call ServeEntries show ?thesis by blast
next
  case (ServeLog m)
  assume "api_ok ri"
  with api_serve(3) [of ri m] api_ok_call ServeLog show ?thesis by blast
qed (auto simp: api_start api_timer api_vote api_stop)

lemma api_run_ok: "api_ok ri \<Longrightarrow> list_all drawn ls \<Longrightarrow> \<exists>ri'. api_run ls ri = Some ri' \<and> api_ok ri'"
proof (induction ls arbitrary: ri)
  case (Cons l ls)
  obtain ri1 where "api_do l ri = Some ri1" "api_ok ri1" using api_do_ok [of ri l] Cons.prems by auto
  with Cons.IH [of ri1] Cons.prems show ?case by simp
qed simp

text \<open>
  C25. A configured server does not fail. Taken as single steps are its handlers, the expiry of its
  election timer, the rest of a vote thread after its call, the beginning of its stop, and its
  transformations; the threads of a leader are left out, and so are the locks. In whatever order
  these steps come, each returns, and the server is in order afterwards and never in the error
  identity. The configured timeout has to be at least 2, the drawn ones positive, and the hook
  \<open>beforeTransform\<close> may not choose the error identity.
\<close>

theorem server_never_fails:
  assumes "raft_Configure getv children BuildAndStart tree RaftImpl0 = Some ri"
    and "2 \<le> electionTimeout (getInfo ri)" "list_all drawn ls"
    and "\<And>from to. to \<noteq> Error \<Longrightarrow> dc_beforeTransform ctx from to \<noteq> Error"
  shows "\<exists>ri'. api_run ls (setDebugContext ctx ri) = Some ri' \<and> raft_ok (ri_raft ri') \<and>
    rf_identity (ri_raft ri') \<noteq> Error"
proof -
  obtain cfg where "bound_to_raft ri" "ri_raft ri = configure cfg" using assms(1) by (rule raft_Configure_Some)
  moreover have "eq_events (sv_eventQueue (rf_server (configure cfg))) = []"
    by (simp add: configure_def EventQueue0_def eq_events_def)
  ultimately have "api_ok (setDebugContext ctx ri)" using assms(2,4) raft_ok_configure [of cfg]
    by (simp add: api_ok_def setDebugContext_def getInfo_def bound_to_raft_def)
  then obtain ri' where "api_run ls (setDebugContext ctx ri) = Some ri'" "api_ok ri'"
    using api_run_ok [of "setDebugContext ctx ri" ls] assms(3) by blast
  then show ?thesis by (auto simp: api_ok_def raft_ok_def)
qed

definition sample_config :: ServerInfo where
  "sample_config = \<lparr>local = sample_id ''a'', srvList = [sample_id ''a''], electionTimeout = 150\<rparr>"

definition sample_tree :: "(path \<times> string) list" where
  "sample_tree = serverInfo_save put_assoc [] sample_config"

lemma sample_tree_loads:
  "serverInfo_load pt_getv pt_children sample_tree \<lparr>local = NullServerId, srvList = [], electionTimeout = 0\<rparr> =
     Some sample_config"
proof -
  have "read_serverId (write_serverId (sample_id ''a'')) = Some (sample_id ''a'')"
    by (rule read_written) (simp add: word_address_def is_space_def sample_id_def)
  with pt.load_save [of sample_config "\<lparr>local = NullServerId, srvList = [], electionTimeout = 0\<rparr>"] show ?thesis
    by (simp add: sample_tree_def sample_config_def)
qed

theorem server_never_fails_witness:
  "\<exists>ri ri'. raft_Configure pt_getv pt_children (\<lambda>_. True) sample_tree RaftImpl0 = Some ri \<and>
     api_run [RunServer, NextTransform 170, TimerExpires, ServeVote PbRequestVoteMessage0, NextTransform 200,
         VoteReturns 0 RpcError, StopServer, NextTransform 210, NextTransform 220]
       (setDebugContext RaftDebugContext0 ri) = Some ri' \<and> raft_ok (ri_raft ri')"
proof -
  obtain ri where ri: "raft_Configure pt_getv pt_children (\<lambda>_. True) sample_tree RaftImpl0 = Some ri"
    "electionTimeout (getInfo ri) = 150"
    using sample_tree_loads
    by (simp add: raft_Configure_def RaftImpl0_def configure_def initRpcService_def rs_asyncRun_def Let_def getInfo_def
        sample_config_def)
  from server_never_fails [OF ri(1), of "[RunServer, NextTransform 170, TimerExpires, ServeVote PbRequestVoteMessage0,
      NextTransform 200, VoteReturns 0 RpcError, StopServer, NextTransform 210, NextTransform 220]" RaftDebugContext0] ri show ?thesis
    by (auto simp: RaftDebugContext0_def)
qed

text \<open>
  Until its first transformation has run, a configured server is down: it listens, and refuses
  every call.
\<close>

lemma configured_refuses:
  assumes "raft_Configure getv children BuildAndStart tree RaftImpl0 = Some ri"
  shows "rs_serving (ri_gate ri)" "raft_serveVote v ri = Some (PbReply_CopyFrom (convertReply_pb (InvalidTerm, False)) PbReply0, ri)"
proof -
  show "rs_serving (ri_gate ri)" using assms by (rule raft_Configure_listens)
  obtain cfg where "bound_to_raft ri" "ri_raft ri = configure cfg" using assms by (rule raft_Configure_Some)
  then show "raft_serveVote v ri = Some (PbReply_CopyFrom (convertReply_pb (InvalidTerm, False)) PbReply0, ri)"
    by (simp add: raft_serveVote_def serve_RequestVote_def rpc_RequestVote_def bound_to_raft_def configure_def)
qed

section \<open>Forcing a heart beat\<close>

text \<open>
  The header warns that \<open>forceHeartBeat\<close> shuts a running heart beat down. It does not: while a
  beat holds the mutex the call has no effect at all, and the beat goes on.
\<close>

theorem forceHeartBeat_ignored:
  assumes "hb_locked (sv_heartBeat (rf_server (ri_raft ri)))" "0 < hb_period (sv_heartBeat (rf_server (ri_raft ri)))"
  shows "forceHeartBeat ri = Some ri"
  using assms by (simp add: forceHeartBeat_def hb_start_def)

text \<open>
  A leader whose heart beat is disabled can be forced once; the beat then returns by itself, and
  forcing it again either fails the assertion that the handle is free, or has no effect,
  depending on when the closure with the mutex is destroyed.
\<close>

theorem forceHeartBeat_once:
  assumes "forceHeartBeat ri = Some ri'" "h = beat_return early (sv_heartBeat (rf_server (ri_raft ri')))"
    and "hb_th (sv_heartBeat (rf_server (ri_raft ri))) = None" "\<not> hb_locked (sv_heartBeat (rf_server (ri_raft ri)))"
  shows "hb_start True False h = (if early then None else Some (False, h))"
proof -
  have forced: "hb_start True False (beat_return early h1) = (if early then None else Some (False, beat_return early h1))"
    if "hb_start True False h0 = Some (b, h1)" "hb_th h0 = None" "\<not> hb_locked h0" for h0 h1 b
    using that by (auto simp: hb_start_def beat_return_def split: if_splits option.splits)
  obtain b where "hb_start True False (sv_heartBeat (rf_server (ri_raft ri))) = Some (b, sv_heartBeat (rf_server (ri_raft ri')))"
    using assms(1) by (auto simp: forceHeartBeat_def)
  from forced [OF this assms(3,4)] assms(2) show ?thesis by simp
qed

end
