(* ===== verification/Rpc_Clients.thy ===== *)
theory Rpc_Clients
  imports Rpc_Client
begin

text \<open>
  The deprecated client for many servers (\<open>service/rpc/RpcClients.cpp\<close>): one stub per server,
  one completion queue and one thread for all of them. A stub is the address its channel was
  made for; a call to a server without a stub throws (\<open>None\<close>). Both kinds of calls share the
  queue, so a call under way is a message of either kind.
\<close>

type_synonym clients_request = "PbAppendEntriesMessage + PbRequestVoteMessage"

record RpcClients =
  cs_stubs :: "ServerId \<Rightarrow> string option"
  cs_client :: "(clients_request, Reply) RpcClient"

definition RpcClients0 :: RpcClients where
  "RpcClients0 = \<lparr>cs_stubs = (\<lambda>_. None), cs_client = RpcClient0\<lparr>rc_running := False\<rparr>\<rparr>"

definition channel_target :: "ServerId \<Rightarrow> string" where
  "channel_target srv = addr srv @ '':'' @ to_string (unat (port srv))"

definition createStubs :: "ServerId list \<Rightarrow> (ServerId \<Rightarrow> string option) \<Rightarrow> ServerId \<Rightarrow> string option" where
  "createStubs srvs stubs = fold (\<lambda>srv m. if m srv = None then m(srv \<mapsto> channel_target srv) else m) srvs stubs"

definition reset_stub :: "ServerId \<Rightarrow> (ServerId \<Rightarrow> string option) \<Rightarrow> (ServerId \<Rightarrow> string option) option" where
  "reset_stub srv stubs = (case stubs srv of None \<Rightarrow> None | Some _ \<Rightarrow> Some (stubs(srv \<mapsto> channel_target srv)))"

text \<open>The call, the address it goes to, and the tag of its promise.\<close>

definition stub_call :: "ServerId \<Rightarrow> ('m \<Rightarrow> clients_request) \<Rightarrow> 'm \<Rightarrow> RpcClients
    \<Rightarrow> (string \<times> nat \<times> RpcClients) option" where
  "stub_call target convert msg cs = (case cs_stubs cs target of None \<Rightarrow> None
     | Some channel \<Rightarrow> (case asyncCall convert msg (cs_client cs) of
         (tag, c) \<Rightarrow> Some (channel, tag, cs\<lparr>cs_client := c\<rparr>)))"

definition clients_asyncCallRpcAppendEntries ::
  "ServerId \<Rightarrow> AppendEntriesMessage \<Rightarrow> RpcClients \<Rightarrow> (string \<times> nat \<times> RpcClients) option" where
  "clients_asyncCallRpcAppendEntries target msg cs =
     stub_call target (\<lambda>m. Inl (convertAppendEntriesMessage_pb m)) msg cs"

definition clients_asyncCallRequestVote ::
  "ServerId \<Rightarrow> RequestVoteMessage \<Rightarrow> RpcClients \<Rightarrow> (string \<times> nat \<times> RpcClients) option" where
  "clients_asyncCallRequestVote target msg cs =
     stub_call target (\<lambda>m. Inr (convertRequestVoteMessage_pb m)) msg cs"

definition clients_createStubs :: "ServerId list \<Rightarrow> RpcClients \<Rightarrow> RpcClients" where
  "clients_createStubs srvs cs = cs\<lparr>cs_stubs := createStubs srvs (cs_stubs cs)\<rparr>"

definition clients_reset :: "ServerId \<Rightarrow> RpcClients \<Rightarrow> RpcClients option" where
  "clients_reset srv cs = map_option (\<lambda>stubs. cs\<lparr>cs_stubs := stubs\<rparr>) (reset_stub srv (cs_stubs cs))"

definition clients_asyncRun :: "RpcClients \<Rightarrow> RpcClients" where
  "clients_asyncRun cs = cs\<lparr>cs_client := (cs_client cs)\<lparr>rc_running := True\<rparr>\<rparr>"

definition clients_run1 :: "nat \<times> status \<times> PbReply \<Rightarrow> RpcClients \<Rightarrow> RpcClients" where
  "clients_run1 x cs = cs\<lparr>cs_client := run1 read_reply x (cs_client cs)\<rparr>"

definition clients_stop :: "(nat \<times> status \<times> PbReply) list \<Rightarrow> RpcClients \<Rightarrow> RpcClients option" where
  "clients_stop completions cs =
     map_option (\<lambda>c. cs\<lparr>cs_client := c\<rparr>) (client_stop read_reply completions (cs_client cs))"

text \<open>The blocking calls: the outcome once \<open>completions\<close> have come in.\<close>

definition clients_get :: "(nat \<times> status \<times> PbReply) list \<Rightarrow> string \<times> nat \<times> RpcClients
    \<Rightarrow> Reply outcome option \<times> RpcClients" where
  "clients_get completions = (\<lambda>(channel, tag, cs). case blocking_call read_reply completions (tag, cs_client cs) of
     (r, c) \<Rightarrow> (r, cs\<lparr>cs_client := c\<rparr>))"

definition clients_callRpcAppendEntries :: "ServerId \<Rightarrow> AppendEntriesMessage \<Rightarrow> (nat \<times> status \<times> PbReply) list
    \<Rightarrow> RpcClients \<Rightarrow> (Reply outcome option \<times> RpcClients) option" where
  "clients_callRpcAppendEntries target msg completions cs =
     map_option (clients_get completions) (clients_asyncCallRpcAppendEntries target msg cs)"

definition clients_callRpcRequestVote :: "ServerId \<Rightarrow> RequestVoteMessage \<Rightarrow> (nat \<times> status \<times> PbReply) list
    \<Rightarrow> RpcClients \<Rightarrow> (Reply outcome option \<times> RpcClients) option" where
  "clients_callRpcRequestVote target msg completions cs =
     map_option (clients_get completions) (clients_asyncCallRequestVote target msg cs)"

section \<open>Stubs\<close>

text \<open>
  The deprecated client makes a stub for each server it is given and for no other, once:
  the channel of a server leads to that server, and a call to a server it was not given
  throws.
\<close>

theorem createStubs_lookup:
  "createStubs srvs (\<lambda>_. None) target = (if target \<in> set srvs then Some (channel_target target) else None)"
proof -
  have "createStubs srvs stubs target = (if stubs target \<noteq> None then stubs target
      else if target \<in> set srvs then Some (channel_target target) else None)" for stubs
    by (induction srvs arbitrary: stubs) (auto simp: createStubs_def)
  then show ?thesis by simp
qed

text \<open>
  A call goes to the server it is made for, with a fresh promise, whatever stubs were made
  before and have been reset since.
\<close>

theorem clients_call_target:
  assumes "cs_stubs cs = createStubs srvs (\<lambda>_. None)" "clients_reset again cs = Some cs'"
  shows "clients_asyncCallRequestVote target msg cs' \<noteq> None \<longleftrightarrow> target \<in> set srvs"
    and "clients_asyncCallRequestVote target msg cs' = Some (channel, tag, cs'') \<Longrightarrow>
      channel = channel_target target \<and> tag = rc_fresh (cs_client cs) \<and>
      rc_calls (cs_client cs'') = rc_calls (cs_client cs) @ [(tag, Inr (convertRequestVoteMessage_pb msg))]"
proof -
  have stubs: "cs_stubs cs' target = (if target \<in> set srvs then Some (channel_target target) else None)"
    and same: "cs_client cs' = cs_client cs"
    using assms by (auto simp: clients_reset_def reset_stub_def createStubs_lookup split: option.splits if_splits)
  show "clients_asyncCallRequestVote target msg cs' \<noteq> None \<longleftrightarrow> target \<in> set srvs"
    using stubs by (simp add: clients_asyncCallRequestVote_def stub_call_def asyncCall_def)
  show "clients_asyncCallRequestVote target msg cs' = Some (channel, tag, cs'') \<Longrightarrow>
      channel = channel_target target \<and> tag = rc_fresh (cs_client cs) \<and>
      rc_calls (cs_client cs'') = rc_calls (cs_client cs) @ [(tag, Inr (convertRequestVoteMessage_pb msg))]"
    using stubs same
    by (auto simp: clients_asyncCallRequestVote_def stub_call_def asyncCall_def split: option.splits if_splits)
qed

end
