(* ===== verification/Client_Objects.thy ===== *)
theory Client_Objects
  imports Rpc_Clients "HOL-Library.Monad_Syntax"
begin

text \<open>
  The lives of the client objects (\<open>RaftClient.cpp\<close>, \<open>service/rpc/RpcClient.cpp\<close> and
  \<open>service/rpc/RpcClients.cpp\<close>): constructors, calls through the pointer to the implementation,
  the move and the destructors. An object is its \<open>pImpl\<close>; \<open>None\<close> for a call is the use of the null
  pointer. A destructor stops the client, and the destructor of the implementation stops it again.
\<close>

section \<open>Objects with a channel and a loop\<close>

text \<open>The stub is the address its channel was made for.\<close>

record ('q, 'r) ClientImpl =
  ci_stub :: string
  ci_client :: "('q, 'r) RpcClient"

definition impl_stop :: "('p \<Rightarrow> 'r) \<Rightarrow> (nat \<times> status \<times> 'p) list \<Rightarrow> ('q, 'r) ClientImpl \<Rightarrow> ('q, 'r) ClientImpl option" where
  "impl_stop read completions im = map_option (\<lambda>c. im\<lparr>ci_client := c\<rparr>) (client_stop read completions (ci_client im))"

definition impl_delete :: "('p \<Rightarrow> 'r) \<Rightarrow> (nat \<times> status \<times> 'p) list \<Rightarrow> ('q, 'r) ClientImpl \<Rightarrow> ('q, 'r) ClientImpl option" where
  "impl_delete read completions im = impl_stop read completions im"

definition object_call :: "(('q, 'r) RpcClient \<Rightarrow> nat \<times> ('q, 'r) RpcClient) \<Rightarrow> ('q, 'r) ClientImpl option
    \<Rightarrow> (nat \<times> ('q, 'r) ClientImpl option) option" where
  "object_call call obj = map_option (\<lambda>im. case call (ci_client im) of
     (tag, c) \<Rightarrow> (tag, Some (im\<lparr>ci_client := c\<rparr>))) obj"

text \<open>The completion thread of a client that has not been moved from.\<close>

definition object_loop :: "('p \<Rightarrow> 'r) \<Rightarrow> nat \<times> status \<times> 'p \<Rightarrow> ('q, 'r) ClientImpl option \<Rightarrow> ('q, 'r) ClientImpl option" where
  "object_loop read x = map_option (\<lambda>im. im\<lparr>ci_client := run1 read x (ci_client im)\<rparr>)"

section \<open>The client of a server\<close>

type_synonym RaftClient = "(PbAddLogMessage, AddLogReply) ClientImpl option"

definition RaftClient_channel :: "string \<Rightarrow> RaftClient" where
  "RaftClient_channel channel = Some \<lparr>ci_stub = channel, ci_client = RpcClient0\<rparr>"

definition RaftClient_target :: "ServerId \<Rightarrow> RaftClient" where
  "RaftClient_target target = Some \<lparr>ci_stub = toString '':'' target, ci_client = RpcClient0\<rparr>"

definition RaftClient_move :: "RaftClient \<Rightarrow> RaftClient \<times> RaftClient" where
  "RaftClient_move obj = (obj, None)"

definition RaftClient_asyncCallRpcAddLog :: "AddLogMessage \<Rightarrow> RaftClient \<Rightarrow> (nat \<times> RaftClient) option" where
  "RaftClient_asyncCallRpcAddLog msg = object_call (asyncCallRpcAddLog msg)"

definition RaftClient_loop :: "nat \<times> status \<times> PbAddLogReply \<Rightarrow> RaftClient \<Rightarrow> RaftClient" where
  "RaftClient_loop = object_loop convertAddLogReply_common"

definition RaftClient_destroy :: "(nat \<times> status \<times> PbAddLogReply) list \<Rightarrow> RaftClient
    \<Rightarrow> (PbAddLogMessage, AddLogReply) ClientImpl option" where
  "RaftClient_destroy completions obj = do {
     im \<leftarrow> obj;
     im \<leftarrow> impl_stop convertAddLogReply_common completions im;
     impl_delete convertAddLogReply_common [] im
   }"

section \<open>The client between servers\<close>

type_synonym PeerClient = "(PbAppendEntriesMessage + PbRequestVoteMessage, Reply) ClientImpl option"

definition RpcClient_channel :: "string \<Rightarrow> PeerClient" where
  "RpcClient_channel channel = Some \<lparr>ci_stub = channel, ci_client = RpcClient0\<rparr>"

definition RpcClient_asyncCallRpcAppendEntries :: "AppendEntriesMessage \<Rightarrow> PeerClient \<Rightarrow> (nat \<times> PeerClient) option" where
  "RpcClient_asyncCallRpcAppendEntries msg = object_call (asyncCall (\<lambda>m. Inl (convertAppendEntriesMessage_pb m)) msg)"

definition RpcClient_asyncCallRpcRequestVote :: "RequestVoteMessage \<Rightarrow> PeerClient \<Rightarrow> (nat \<times> PeerClient) option" where
  "RpcClient_asyncCallRpcRequestVote msg = object_call (asyncCall (\<lambda>m. Inr (convertRequestVoteMessage_pb m)) msg)"

definition RpcClient_destroy :: "(nat \<times> status \<times> PbReply) list \<Rightarrow> PeerClient
    \<Rightarrow> (PbAppendEntriesMessage + PbRequestVoteMessage, Reply) ClientImpl option" where
  "RpcClient_destroy completions obj = do {
     im \<leftarrow> obj;
     im \<leftarrow> impl_stop read_reply completions im;
     impl_delete read_reply [] im
   }"

section \<open>The client of many servers\<close>

definition RpcClients_createStubs :: "ServerId list \<Rightarrow> RpcClients option \<Rightarrow> RpcClients option" where
  "RpcClients_createStubs srvs = map_option (clients_createStubs srvs)"

definition RpcClients_asyncRun :: "RpcClients option \<Rightarrow> RpcClients option" where
  "RpcClients_asyncRun = map_option clients_asyncRun"

definition RpcClients_stop :: "(nat \<times> status \<times> PbReply) list \<Rightarrow> RpcClients option \<Rightarrow> RpcClients option" where
  "RpcClients_stop completions obj = Option.bind obj (clients_stop completions)"

definition RpcClients_reset :: "ServerId \<Rightarrow> RpcClients option \<Rightarrow> RpcClients option" where
  "RpcClients_reset srv obj = Option.bind obj (clients_reset srv)"

definition RpcClients_asyncCallRpcAppendEntries :: "ServerId \<Rightarrow> AppendEntriesMessage \<Rightarrow> RpcClients option
    \<Rightarrow> (string \<times> nat \<times> RpcClients) option" where
  "RpcClients_asyncCallRpcAppendEntries target msg obj = Option.bind obj (clients_asyncCallRpcAppendEntries target msg)"

definition RpcClients_asyncCallRpcRequestVote :: "ServerId \<Rightarrow> RequestVoteMessage \<Rightarrow> RpcClients option
    \<Rightarrow> (string \<times> nat \<times> RpcClients) option" where
  "RpcClients_asyncCallRpcRequestVote target msg obj = Option.bind obj (clients_asyncCallRequestVote target msg)"

definition RpcClients_destroy :: "(nat \<times> status \<times> PbReply) list \<Rightarrow> RpcClients option \<Rightarrow> RpcClients option" where
  "RpcClients_destroy completions obj = RpcClients_stop completions obj"

section \<open>A client from its construction to its destruction\<close>

text \<open>Calls that are made, and calls that complete.\<close>

fun RaftClient_life :: "(AddLogMessage, PbAddLogReply) client_op list \<Rightarrow> RaftClient \<Rightarrow> RaftClient" where
  "RaftClient_life [] obj = obj"
| "RaftClient_life (MakeCall msg # ops) obj =
     RaftClient_life ops (Option.bind (RaftClient_asyncCallRpcAddLog msg obj) snd)"
| "RaftClient_life (Complete tag st reply # ops) obj = RaftClient_life ops (RaftClient_loop (tag, st, reply) obj)"

lemma RaftClient_life_run:
  "RaftClient_life ops (Some im) = Some (im\<lparr>ci_client :=
     client_run convertAddLogMessage_pb convertAddLogReply_common ops (ci_client im)\<rparr>)"
  by (induction ops "Some im :: RaftClient" arbitrary: im rule: RaftClient_life.induct)
    (auto simp: client_run_def RaftClient_asyncCallRpcAddLog_def object_call_def asyncCallRpcAddLog_def
      RaftClient_loop_def object_loop_def split: prod.splits)

lemma impl_delete_stopped: "\<not> rc_running (ci_client im) \<Longrightarrow> impl_delete read [] im = Some im"
  by (simp add: impl_delete_def impl_stop_def client_stop_def)

lemma client_stop_stopped: "client_stop read completions c = Some c' \<Longrightarrow> \<not> rc_running c'"
  by (auto simp: client_stop_def Let_def split: if_splits)

text \<open>
  A client is made for a server, used, and destroyed: its channel leads to that server, and the
  destructor, which stops the loop twice, returns exactly when the first stop does, with every
  promise as the loop has left it. It returns when the calls under way complete, and at once after a
  call has failed.
\<close>

theorem RaftClient_lifetime:
  fixes target :: ServerId and ops :: "(AddLogMessage, PbAddLogReply) client_op list"
  defines "c \<equiv> client_run convertAddLogMessage_pb convertAddLogReply_common ops RpcClient0"
  shows "RaftClient_destroy completions (RaftClient_life ops (RaftClient_target target)) =
      map_option (\<lambda>c'. \<lparr>ci_stub = toString '':'' target, ci_client = c'\<rparr>)
        (client_stop convertAddLogReply_common completions c)"
    and "\<not> rc_running c \<or> list_all (\<lambda>(tag, st, reply). st = StatusOk) completions \<and>
        fst ` set (rc_calls c) = fst ` set completions \<Longrightarrow>
      RaftClient_destroy completions (RaftClient_life ops (RaftClient_target target)) \<noteq> None"
proof -
  let ?read = convertAddLogReply_common
  show eq: "RaftClient_destroy completions (RaftClient_life ops (RaftClient_target target)) =
      map_option (\<lambda>c'. \<lparr>ci_stub = toString '':'' target, ci_client = c'\<rparr>) (client_stop ?read completions c)"
  proof (cases "client_stop ?read completions c")
    case (Some c')
    with client_stop_stopped [OF Some] show ?thesis
      by (simp add: RaftClient_target_def RaftClient_life_run RaftClient_destroy_def impl_stop_def c_def [symmetric]
          impl_delete_stopped)
  qed (simp add: RaftClient_target_def RaftClient_life_run RaftClient_destroy_def impl_stop_def c_def [symmetric])
  assume ok: "\<not> rc_running c \<or> list_all (\<lambda>(tag, st, reply). st = StatusOk) completions \<and>
    fst ` set (rc_calls c) = fst ` set completions"
  have "client_stop ?read completions c \<noteq> None"
  proof (cases "rc_running c")
    case True
    with ok have *: "list_all (\<lambda>(tag, st, reply). st = StatusOk) completions"
      "filter (\<lambda>p. fst p \<notin> fst ` set completions) (rc_calls c) = []" by (auto simp: filter_empty_conv)
    from drain_ok [OF True *(1), of ?read] *(2) show ?thesis by (simp add: client_stop_def Let_def)
  next
    case False
    with client_stop_abandons [OF False, of ?read completions] show ?thesis by auto
  qed
  with eq show "RaftClient_destroy completions (RaftClient_life ops (RaftClient_target target)) \<noteq> None" by simp
qed

text \<open>An object that has been moved from cannot be called and not even be destroyed.\<close>

lemma RaftClient_moved_from:
  "RaftClient_asyncCallRpcAddLog msg (snd (RaftClient_move obj)) = None \<and>
   RaftClient_destroy completions (snd (RaftClient_move obj)) = None"
  by (simp add: RaftClient_move_def RaftClient_asyncCallRpcAddLog_def object_call_def RaftClient_destroy_def)

end
