(* ===== verification/Random_Draws.thy ===== *)
theory Random_Draws
  imports Cluster
begin

text \<open>
  The random numbers (\<open>misc/Rand.cpp\<close>): the timeouts that followers and candidates draw, and the
  artificial latency of the RPCs. The distribution of the standard library is a parameter with its
  law: for bounds in order the number is between them. Bounds out of order are an undefined
  behaviour, \<open>None\<close>. The other theories take the numbers drawn as arguments; this one shows which
  they can be.
\<close>

section \<open>Drawing a number\<close>

locale uniform_int_distribution =
  fixes distribution :: "int \<Rightarrow> int \<Rightarrow> int"
  assumes in_bounds: "a \<le> b \<Longrightarrow> a \<le> distribution a b \<and> distribution a b \<le> b"

definition intRand :: "(int \<Rightarrow> int \<Rightarrow> int) \<Rightarrow> 64 word \<Rightarrow> 64 word \<Rightarrow> 64 word option" where
  "intRand distribution lb ub = (if sint lb \<le> sint ub
     then Some (word_of_int (distribution (sint lb) (sint ub))) else None)"

text \<open>A generator that takes its number from a seed.\<close>

definition seeded :: "int \<Rightarrow> int \<Rightarrow> int \<Rightarrow> int" where
  "seeded seed a b = a + seed mod (b - a + 1)"

interpretation gen: uniform_int_distribution "seeded seed" for seed
proof
  fix a b :: int assume "a \<le> b"
  then show "a \<le> seeded seed a b \<and> seeded seed a b \<le> b"
    using pos_mod_bound [of "b - a + 1" seed] pos_mod_sign [of "b - a + 1" seed] by (simp add: seeded_def)
qed

lemma sint_small: "uint (w :: 64 word) < 2 ^ 63 \<Longrightarrow> sint w = uint w"
  unfolding sint_uint by (intro signed_take_bit_int_eq_self) (simp_all add: order.trans [OF _ uint_ge_0])

lemma sint_big:
  assumes "2 ^ 63 \<le> uint (w :: 64 word)"
  shows "sint w = uint w - 2 ^ 64"
proof -
  have "uint w < 2 ^ 64" using uint_lt2p [of w] by simp
  then have "(uint w + 2 ^ 63 - 2 ^ 64) mod 2 ^ 64 = uint w + 2 ^ 63 - 2 ^ 64"
    using assms by (intro mod_pos_pos_trivial) simp_all
  then have "(uint w + 2 ^ 63) mod 2 ^ 64 = uint w + 2 ^ 63 - 2 ^ 64" by (simp only: minus_mod_self2)
  then show ?thesis using int_word_sint [of "uint w", where 'a = 64] by simp
qed

context uniform_int_distribution begin

text \<open>Numbers below $2^{63}$ are drawn between their bounds.\<close>

lemma intRand_in_bounds:
  assumes "uint lb \<le> uint ub" "uint ub < 2 ^ 63"
  obtains x where "intRand distribution lb ub = Some x" "uint lb \<le> uint x" "uint x \<le> uint ub"
proof -
  have s: "sint lb = uint lb" "sint ub = uint ub" using assms by (simp_all add: sint_small)
  let ?d = "distribution (uint lb) (uint ub)"
  have d: "uint lb \<le> ?d" "?d \<le> uint ub" using in_bounds [OF assms(1)] by simp_all
  moreover have "(2 :: int) ^ 63 < 2 ^ 64" by simp
  ultimately have "0 \<le> ?d" "?d < 2 ^ 64" using assms(2) uint_ge_0 [of lb] by linarith+
  then have "uint (word_of_int ?d :: 64 word) = ?d" by (simp add: uint_word_of_int_eq take_bit_int_eq_self)
  with d assms(1) s that [of "word_of_int ?d"] show thesis by (simp add: intRand_def)
qed

end

section \<open>Election timeouts\<close>

text \<open>What \<open>init\<close> of a follower and of a candidate draws; the product wraps around.\<close>

definition draw_timeout :: "(int \<Rightarrow> int \<Rightarrow> int) \<Rightarrow> ServerInfo \<Rightarrow> nat option" where
  "draw_timeout distribution cfg = (let et = of_nat (electionTimeout cfg) :: 64 word in
     map_option unat (intRand distribution et (et * 2)))"

lemma uint_of_timeout: "n < 2 ^ 64 \<Longrightarrow> uint (of_nat n :: 64 word) = int n"
  by (simp add: unsigned_of_nat take_bit_nat_eq_self)

lemma draw_timeout_bounds:
  assumes "uniform_int_distribution distribution" "electionTimeout cfg < 2 ^ 62"
  obtains t where "draw_timeout distribution cfg = Some t" "electionTimeout cfg \<le> t" "t \<le> 2 * electionTimeout cfg"
proof -
  let ?et = "of_nat (electionTimeout cfg) :: 64 word"
  have et: "uint ?et = int (electionTimeout cfg)"
    using assms(2) by (intro uint_of_timeout) simp
  have "2 * int (electionTimeout cfg) < 2 ^ 63" using assms(2) by simp
  then have 2: "uint (?et * 2) = 2 * int (electionTimeout cfg)"
    by (simp add: uint_word_ariths(3) et)
  then have le: "uint ?et \<le> uint (?et * 2)" "uint (?et * 2) < 2 ^ 63"
    using et \<open>2 * int (electionTimeout cfg) < 2 ^ 63\<close> by linarith+
  obtain x where x: "intRand distribution ?et (?et * 2) = Some x" "uint ?et \<le> uint x" "uint x \<le> uint (?et * 2)"
    using uniform_int_distribution.intRand_in_bounds [OF assms(1) le] .
  show thesis
  proof (rule that)
    show "draw_timeout distribution cfg = Some (nat (uint x))" by (simp add: draw_timeout_def Let_def x(1))
    show "electionTimeout cfg \<le> nat (uint x)" "nat (uint x) \<le> 2 * electionTimeout cfg"
      using x(2,3) unfolding et 2 by linarith+
  qed
qed

lemma draw_timeout_overflow:
  assumes "2 ^ 62 \<le> electionTimeout cfg" "electionTimeout cfg < 2 ^ 63"
  shows "draw_timeout distribution cfg = None"
proof -
  let ?et = "of_nat (electionTimeout cfg) :: 64 word"
  have et: "uint ?et = int (electionTimeout cfg)" using assms(2) by (intro uint_of_timeout) simp
  have "2 ^ 63 \<le> 2 * int (electionTimeout cfg)" "2 * int (electionTimeout cfg) < 2 ^ 64" using assms by simp_all
  moreover from this have "uint (?et * 2) = 2 * int (electionTimeout cfg)"
    by (simp add: uint_word_ariths(3) et)
  ultimately have "sint (?et * 2) < 0" "sint ?et \<ge> 0" using assms(2) et sint_big [of "?et * 2"] sint_small [of ?et] by simp_all
  then show ?thesis by (simp add: draw_timeout_def intRand_def Let_def)
qed

text \<open>
  C18. The configured election timeout may be any 64-bit number. From 2 and below $2^{62}$ the timeout
  that is drawn lies between it and its double, so that the next transformation of a server that is
  in order, to any but the error identity, returns with it; from $2^{62}$ to $2^{63}$ the upper bound
  is negative as a signed number and drawing is undefined.
\<close>

theorem election_timeout_drawn:
  assumes "uniform_int_distribution distribution" "raft_ok rf" "2 \<le> electionTimeout (rf_info rf)"
    and "eq_events (sv_eventQueue (rf_server rf)) = target # rest" "target \<noteq> Error"
    and "electionTimeout (rf_info rf) < 2 ^ 63"
  shows "if electionTimeout (rf_info rf) < 2 ^ 62
    then \<exists>t rf'. draw_timeout distribution (rf_info rf) = Some t \<and> electionTimeout (rf_info rf) \<le> t \<and>
      t \<le> 2 * electionTimeout (rf_info rf) \<and>
      raft_event (\<lambda>from to. to) True t rf = Some rf' \<and> raft_ok rf' \<and> rf_identity rf' = target
    else draw_timeout distribution (rf_info rf) = None"
proof (cases "electionTimeout (rf_info rf) < 2 ^ 62")
  case True
  then obtain t where t: "draw_timeout distribution (rf_info rf) = Some t" "electionTimeout (rf_info rf) \<le> t"
    "t \<le> 2 * electionTimeout (rf_info rf)" using draw_timeout_bounds [OF assms(1)] by blast
  with raft_event_result [OF assms(2,4), of "\<lambda>from to. to" t True] assms(3,5) True show ?thesis by auto
next
  case False
  then have "2 ^ 62 \<le> electionTimeout (rf_info rf)" by (rule leI)
  with False draw_timeout_overflow [OF _ assms(6)] show ?thesis by (metis)
qed

section \<open>The artificial latency\<close>

text \<open>What \<open>rpcSleep\<close> sleeps for: nothing, or a number of milliseconds that is drawn.\<close>

definition draw_latency :: "(int \<Rightarrow> int \<Rightarrow> int) \<Rightarrow> 64 word \<Rightarrow> 64 word \<Rightarrow> 64 word option" where
  "draw_latency distribution latencyLb latencyUb = (case rpcSleep latencyLb latencyUb of
     None \<Rightarrow> Some 0 | Some (lb, ub) \<Rightarrow> intRand distribution (word_of_int lb) (word_of_int ub))"

text \<open>The latency lies between its bounds, in whichever order they are set.\<close>

lemma latency_drawn:
  assumes "uniform_int_distribution distribution" "uint a < 2 ^ 63" "uint b < 2 ^ 63"
  shows "\<exists>d. draw_latency distribution a b = Some d \<and> min (uint a) (uint b) \<le> uint d \<and> uint d \<le> max (uint a) (uint b)"
proof -
  let ?lb = "if b < a then b else a" and ?ub = "if b < a then a else b"
  have le: "uint ?lb \<le> uint ?ub" "uint ?ub < 2 ^ 63" using assms(2,3) by (auto simp: word_less_alt)
  have bounds: "min (uint a) (uint b) = uint ?lb" "max (uint a) (uint b) = uint ?ub"
    by (auto simp: word_less_alt)
  obtain x where x: "intRand distribution ?lb ?ub = Some x" "uint ?lb \<le> uint x" "uint x \<le> uint ?ub"
    using uniform_int_distribution.intRand_in_bounds [OF assms(1) le] .
  show ?thesis
  proof (cases "0 < ?ub")
    case True
    then have "draw_latency distribution a b = intRand distribution ?lb ?ub"
      by (auto simp: draw_latency_def rpcSleep_def)
    with x bounds show ?thesis by simp
  next
    case False
    then have "?ub = 0" by (metis word_neq_0_conv)
    moreover from this le(1) have "uint ?lb = 0" by (simp add: order.antisym)
    ultimately have "draw_latency distribution a b = Some 0" "uint ?ub = 0" by (auto simp: draw_latency_def rpcSleep_def)
    with bounds \<open>uint ?lb = 0\<close> show ?thesis by simp
  qed
qed

theorem election_timeout_drawn_witness:
  "\<exists>t rf'. draw_timeout (seeded 77) \<lparr>local = sample_id ''a'', srvList = three, electionTimeout = 100\<rparr> = Some t \<and>
     100 \<le> t \<and> t \<le> 200 \<and>
     raft_event (\<lambda>from to. to) True t (asyncRun (configure \<lparr>local = sample_id ''a'', srvList = three, electionTimeout = 100\<rparr>)) =
       Some rf' \<and> rf_identity rf' = Follower"
proof -
  let ?cfg = "\<lparr>local = sample_id ''a'', srvList = three, electionTimeout = 100\<rparr>"
  let ?rf = "asyncRun (configure ?cfg)"
  have "raft_ok ?rf" by (simp add: asyncRun_def raft_ok_trigger raft_ok_configure)
  moreover have "rf_info ?rf = ?cfg" "eq_events (sv_eventQueue (rf_server ?rf)) = [Follower]"
    by (simp_all add: asyncRun_def triggerTransformation_def configure_def) (simp add: EventQueue0_def eq_events_def)
  ultimately show ?thesis
    using election_timeout_drawn [OF gen.uniform_int_distribution_axioms, of ?rf Follower "[]" 77] by auto
qed

end
