(* ===== verification/Loggers.thy ===== *)
theory Loggers
  imports Configuration Quintet_Types
begin

text \<open>
  The loggers of a server: the attributes that \<open>Raft::Impl::configure\<close>, \<open>ServerService.cpp\<close>, the
  constructors of the identities and the \<open>configLogger\<close> of the services give them, and the files in
  which their records end (\<open>Configuration\<close>). A logger of Boost.Log is a parameter with its
  documented law: adding an attribute has no effect when its name is taken.
\<close>

section \<open>Attributes\<close>

text \<open>A constant, or the number of the current identity, which the server sets.\<close>

datatype attribute = TextAttr string | IdentityAttr

locale attribute_set =
  fixes add_attribute :: "string \<Rightarrow> attribute \<Rightarrow> 'l \<Rightarrow> 'l" and attr_of :: "'l \<Rightarrow> string \<Rightarrow> attribute option"
    and no_attrs :: 'l
  assumes attr_of_fresh: "attr_of no_attrs n = None"
    and attr_of_add: "attr_of (add_attribute n a l) m =
      (if m = n \<and> attr_of l n = None then Some a else attr_of l m)"

text \<open>The loggers of a server, and the value of \<open>curIdentityAttr\<close>.\<close>

record 'l Loggers =
  lg_raft :: 'l
  lg_service :: 'l
  lg_heartBeat :: 'l
  lg_rpc :: 'l
  lg_eventQueue :: 'l
  lg_curIdentity :: nat

definition Loggers0 :: "'l \<Rightarrow> 'l Loggers" where
  "Loggers0 l = \<lparr>lg_raft = l, lg_service = l, lg_heartBeat = l, lg_rpc = l, lg_eventQueue = l,
     lg_curIdentity = identity_ord Down\<rparr>"

section \<open>Who adds which attribute\<close>

definition hb_configLogger :: "(string \<Rightarrow> attribute \<Rightarrow> 'l \<Rightarrow> 'l) \<Rightarrow> string \<Rightarrow> 'l Loggers \<Rightarrow> 'l Loggers" where
  "hb_configLogger add_attribute i lg = lg\<lparr>lg_heartBeat :=
     add_attribute ''Part'' (TextAttr ''HBC'') (add_attribute ''ServerId'' (TextAttr i) (lg_heartBeat lg))\<rparr>"

definition service_configLogger :: "(string \<Rightarrow> attribute \<Rightarrow> 'l \<Rightarrow> 'l) \<Rightarrow> string \<Rightarrow> 'l Loggers \<Rightarrow> 'l Loggers" where
  "service_configLogger add_attribute i lg = (let lg = hb_configLogger add_attribute i lg in
     lg\<lparr>lg_service := add_attribute ''ServerId'' (TextAttr i) (lg_service lg)\<rparr>)"

definition initServerService_logger :: "(string \<Rightarrow> attribute \<Rightarrow> 'l \<Rightarrow> 'l) \<Rightarrow> string \<Rightarrow> 'l Loggers \<Rightarrow> 'l Loggers" where
  "initServerService_logger add_attribute i lg = (let lg = service_configLogger add_attribute i lg in
     lg\<lparr>lg_service := add_attribute ''Identity'' IdentityAttr (lg_service lg)\<rparr>)"

text \<open>The constructors of the follower, the candidate and the leader name their part alike.\<close>

definition follower_logger :: "(string \<Rightarrow> attribute \<Rightarrow> 'l \<Rightarrow> 'l) \<Rightarrow> 'l Loggers \<Rightarrow> 'l Loggers" where
  "follower_logger add_attribute lg = lg\<lparr>lg_service := add_attribute ''Part'' (TextAttr ''Identity'') (lg_service lg)\<rparr>"

definition candidate_logger :: "(string \<Rightarrow> attribute \<Rightarrow> 'l \<Rightarrow> 'l) \<Rightarrow> 'l Loggers \<Rightarrow> 'l Loggers" where
  "candidate_logger add_attribute lg = lg\<lparr>lg_service := add_attribute ''Part'' (TextAttr ''Identity'') (lg_service lg)\<rparr>"

definition leader_logger :: "(string \<Rightarrow> attribute \<Rightarrow> 'l \<Rightarrow> 'l) \<Rightarrow> 'l Loggers \<Rightarrow> 'l Loggers" where
  "leader_logger add_attribute lg = lg\<lparr>lg_service := add_attribute ''Part'' (TextAttr ''Identity'') (lg_service lg)\<rparr>"

definition configure_loggers :: "(string \<Rightarrow> attribute \<Rightarrow> 'l \<Rightarrow> 'l) \<Rightarrow> ServerInfo \<Rightarrow> 'l Loggers \<Rightarrow> 'l Loggers" where
  "configure_loggers add_attribute cfg lg = (let i = toString '':'' (local cfg);
     lg = lg\<lparr>lg_raft := add_attribute ''Identity'' IdentityAttr (add_attribute ''Part'' (TextAttr ''Raft'')
       (add_attribute ''ServerId'' (TextAttr i) (lg_raft lg)))\<rparr>;
     lg = initServerService_logger add_attribute i lg
     in (leader_logger add_attribute (candidate_logger add_attribute (follower_logger add_attribute lg)))
       \<lparr>lg_curIdentity := identity_ord Down\<rparr>)"

text \<open>Two services have a \<open>configLogger\<close> that no code calls.\<close>

definition rpc_configLogger :: "(string \<Rightarrow> attribute \<Rightarrow> 'l \<Rightarrow> 'l) \<Rightarrow> string \<Rightarrow> 'l Loggers \<Rightarrow> 'l Loggers" where
  "rpc_configLogger add_attribute i lg = lg\<lparr>lg_rpc :=
     add_attribute ''Part'' (TextAttr ''RpcService'') (add_attribute ''ServerId'' (TextAttr i) (lg_rpc lg))\<rparr>"

definition eq_configLogger :: "(string \<Rightarrow> attribute \<Rightarrow> 'l \<Rightarrow> 'l) \<Rightarrow> string \<Rightarrow> 'l Loggers \<Rightarrow> 'l Loggers" where
  "eq_configLogger add_attribute i lg = lg\<lparr>lg_eventQueue :=
     add_attribute ''Part'' (TextAttr ''EQ'') (add_attribute ''ServerId'' (TextAttr i) (lg_eventQueue lg))\<rparr>"

text \<open>\<open>transform\<close> tells the loggers the identity it enters.\<close>

definition identity_entered :: "ServerIdentityNo \<Rightarrow> 'l Loggers \<Rightarrow> 'l Loggers" where
  "identity_entered target lg = lg\<lparr>lg_curIdentity := identity_ord target\<rparr>"

section \<open>Records\<close>

text \<open>What a logger writes: its attributes, with the time stamp that Boost.Log adds everywhere.\<close>

definition text_attr :: "attribute option \<Rightarrow> string option" where
  "text_attr a = (case a of Some (TextAttr t) \<Rightarrow> Some t | _ \<Rightarrow> None)"

definition make_record :: "('l \<Rightarrow> string \<Rightarrow> attribute option) \<Rightarrow> nat \<Rightarrow> 'l \<Rightarrow> string \<Rightarrow> string \<Rightarrow> LogRecord" where
  "make_record attr_of identity l time msg = \<lparr>lr_serverId = text_attr (attr_of l ''ServerId''),
     lr_part = text_attr (attr_of l ''Part''),
     lr_identity = (if attr_of l ''Identity'' = Some IdentityAttr then Some identity else None),
     lr_timeStamp = time, lr_message = msg\<rparr>"

context attribute_set begin

lemma configured:
  assumes "lg = configure_loggers add_attribute cfg (Loggers0 no_attrs)"
  shows "attr_of (lg_raft lg) ''ServerId'' = Some (TextAttr (toString '':'' (local cfg)))"
    "attr_of (lg_raft lg) ''Part'' = Some (TextAttr ''Raft'')" "attr_of (lg_raft lg) ''Identity'' = Some IdentityAttr"
    "attr_of (lg_service lg) ''ServerId'' = Some (TextAttr (toString '':'' (local cfg)))"
    "attr_of (lg_service lg) ''Part'' = Some (TextAttr ''Identity'')" "attr_of (lg_service lg) ''Identity'' = Some IdentityAttr"
    "attr_of (lg_heartBeat lg) ''ServerId'' = Some (TextAttr (toString '':'' (local cfg)))"
    "attr_of (lg_heartBeat lg) ''Part'' = Some (TextAttr ''HBC'')" "attr_of (lg_heartBeat lg) ''Identity'' = None"
    "attr_of (lg_rpc lg) n = None" "attr_of (lg_eventQueue lg) n = None"
  by (simp_all add: assms configure_loggers_def Loggers0_def initServerService_logger_def service_configLogger_def
      hb_configLogger_def follower_logger_def candidate_logger_def leader_logger_def Let_def attr_of_add attr_of_fresh)

end

definition add_once :: "string \<Rightarrow> attribute \<Rightarrow> (string \<rightharpoonup> attribute) \<Rightarrow> (string \<rightharpoonup> attribute)" where
  "add_once n a l = (if l n = None then l(n \<mapsto> a) else l)"

interpretation attrs: attribute_set add_once "\<lambda>l. l" "\<lambda>_. None"
  by unfold_locales (auto simp: add_once_def)

text \<open>The files a logger writes to.\<close>

definition files_of :: "('l \<Rightarrow> string \<Rightarrow> attribute option) \<Rightarrow> Initializer \<Rightarrow> 'l Loggers \<Rightarrow> ('l Loggers \<Rightarrow> 'l) \<Rightarrow> string list" where
  "files_of attr_of ini lg part = map sk_file (filter (\<lambda>sink. sink_accepts sink
     (make_record attr_of (lg_curIdentity lg) (part lg) [] [])) (initializer_init ini []))"

text \<open>
  What a configured server logs: the records of the server, its identities and its heart beat go
  to the one file of that server, those of the RPC service and of the event queue to no file, as
  nothing calls their \<open>configLogger\<close>. The records of the server and of its identities show
  the identity entered last.
\<close>

theorem server_log_files:
  assumes "attribute_set add_attribute attr_of no_attrs" "distinct (in_idList ini)"
    and "toString '':'' (local cfg) \<in> set (in_idList ini)"
  shows "let lg = identity_entered target (configure_loggers add_attribute cfg (Loggers0 no_attrs));
      own = [in_prefix ini @ toString '':'' (local cfg) @ ''_%3N.log'']
    in files_of attr_of ini lg lg_raft = own \<and> files_of attr_of ini lg lg_service = own \<and>
      files_of attr_of ini lg lg_heartBeat = own \<and>
      files_of attr_of ini lg lg_rpc = [] \<and> files_of attr_of ini lg lg_eventQueue = [] \<and>
      lr_identity (make_record attr_of (lg_curIdentity lg) (lg_service lg) time msg) = Some (identity_ord target)"
proof -
  note c = attribute_set.configured [OF assms(1) refl, of cfg]
  show ?thesis
    unfolding Let_def files_of_def log_routing [OF assms(2)]
    using assms(3) by (simp add: make_record_def identity_entered_def text_attr_def c)
qed

theorem server_log_files_witness:
  "files_of (\<lambda>l. l) (addId ''a:1'' Initializer0) (identity_entered Leader
     (configure_loggers add_once \<lparr>local = \<lparr>addr = ''a'', port = 1\<rparr>, srvList = [], electionTimeout = 0\<rparr>
       (Loggers0 (\<lambda>_. None)))) lg_service = [''./a:1_%3N.log'']"
proof -
  have "toString '':'' \<lparr>addr = ''a'', port = 1\<rparr> = ''a:1''" by code_simp
  then show ?thesis
    using server_log_files [OF attrs.attribute_set_axioms, of "addId ''a:1'' Initializer0"
        "\<lparr>local = \<lparr>addr = ''a'', port = 1\<rparr>, srvList = [], electionTimeout = 0\<rparr>" Leader]
    by (simp add: addId_def Initializer0_def Let_def)
qed

end
