(* ===== verification/Pseudo_Raft.thy ===== *)
theory Pseudo_Raft
  imports Identity_Leader
begin

text \<open>
  The stand-in for a server (\<open>PseudoRaft.h\<close>): a single process that queues each request and hands
  it to the application after a while, without a log and without other servers. It agrees with a
  server that is alone in what its application sees: the requests in order, with the id of the
  server. An exception in the worker of the queue ends the program, \<open>None\<close>.
\<close>

section \<open>State and operations\<close>

text \<open>An event is the closure of \<open>AddLog\<close>, with what it captures by value.\<close>

record 'app PseudoRaft =
  ps_id :: ServerId
  ps_q :: "(string \<times> string \<times> prm_idx) EventQueue"
  ps_apply :: "(BasicLogEntry \<Rightarrow> 'app \<Rightarrow> 'app) option"

definition PseudoRaft0 :: "'app PseudoRaft" where
  "PseudoRaft0 = \<lparr>ps_id = NullServerId, ps_q = EventQueue0, ps_apply = None\<rparr>"

definition ps_Local :: "'app PseudoRaft \<Rightarrow> ServerId" where
  "ps_Local ps = ps_id ps"

definition ps_BindApply :: "(BasicLogEntry \<Rightarrow> 'app \<Rightarrow> 'app) \<Rightarrow> 'app PseudoRaft \<Rightarrow> 'app PseudoRaft" where
  "ps_BindApply f ps = ps\<lparr>ps_apply := Some f\<rparr>"

definition ps_AsyncRun :: "'app PseudoRaft \<Rightarrow> 'app PseudoRaft" where
  "ps_AsyncRun ps = ps"

definition ps_Stop :: "'app PseudoRaft \<Rightarrow> 'app PseudoRaft" where
  "ps_Stop ps = ps"

definition ps_AddLog :: "string \<Rightarrow> string \<Rightarrow> prm_idx \<Rightarrow> 'app PseudoRaft \<Rightarrow> 'app PseudoRaft" where
  "ps_AddLog opName args prmIdx ps = ps\<lparr>ps_q := addEvent (opName, args, prmIdx) (ps_q ps)\<rparr>"

text \<open>The worker runs its next event, if it has one.\<close>

definition ps_event :: "'app PseudoRaft \<times> 'app \<Rightarrow> ('app PseudoRaft \<times> 'app) option" where
  "ps_event = (\<lambda>(ps, app). case eq_exec1 (ps_q ps) of
       None \<Rightarrow> Some (ps, app)
     | Some ((opName, args, prmIdx), q) \<Rightarrow> (let log = \<lparr>be_opName = opName, be_args = args, be_prmIdx = prmIdx,
           be_srvId = ps_id ps\<rparr>
         in map_option (\<lambda>apply. (ps\<lparr>ps_q := q\<rparr>, apply log app)) (ps_apply ps)))"

fun ps_events :: "nat \<Rightarrow> 'app PseudoRaft \<times> 'app \<Rightarrow> ('app PseudoRaft \<times> 'app) option" where
  "ps_events 0 st = Some st"
| "ps_events (Suc n) st = Option.bind (ps_event st) (ps_events n)"

section \<open>Requests reach the application in order\<close>

definition ps_addLogs :: "(string \<times> string \<times> prm_idx) list \<Rightarrow> 'app PseudoRaft \<Rightarrow> 'app PseudoRaft" where
  "ps_addLogs rs ps = fold (\<lambda>(opName, args, prmIdx). ps_AddLog opName args prmIdx) rs ps"

definition ps_entry :: "ServerId \<Rightarrow> string \<times> string \<times> prm_idx \<Rightarrow> BasicLogEntry" where
  "ps_entry i = (\<lambda>(opName, args, prmIdx). \<lparr>be_opName = opName, be_args = args, be_prmIdx = prmIdx, be_srvId = i\<rparr>)"

lemma ps_addLogs_alt: "ps_addLogs rs ps = ps\<lparr>ps_q := fold addEvent rs (ps_q ps)\<rparr>"
  by (induction rs arbitrary: ps) (auto simp: ps_addLogs_def ps_AddLog_def)

lemma ps_events_drain:
  assumes "ps_apply ps = Some f" "eq_idle (ps_q ps)" "eq_events (ps_q ps) = rs"
  shows "\<exists>ps'. ps_events (length rs) (ps, app) = Some (ps', fold f (map (ps_entry (ps_id ps)) rs) app) \<and>
    eq_events (ps_q ps') = [] \<and> ps_id ps' = ps_id ps"
  using assms
proof (induction rs arbitrary: ps app)
  case (Cons r rs)
  obtain q where q: "eq_exec1 (ps_q ps) = Some (r, q)" "eq_events q = rs" "eq_idle q"
    using Cons.prems(2,3) by (rule eq_exec1_events)
  then have "ps_event (ps, app) = Some (ps\<lparr>ps_q := q\<rparr>, f (ps_entry (ps_id ps) r) app)"
    using Cons.prems(1) by (auto simp: ps_event_def ps_entry_def Let_def split: prod.splits)
  with Cons.IH [of "ps\<lparr>ps_q := q\<rparr>" "f (ps_entry (ps_id ps) r) app"] q Cons.prems(1) show ?case by simp
qed (auto simp: exI [of _ ps])

text \<open>What a server that leads alone puts on its log for the same requests.\<close>

definition own_request :: "ServerId \<Rightarrow> string \<times> string \<times> prm_idx \<Rightarrow> AddLogMessage" where
  "own_request i = (\<lambda>(opName, args, prmIdx). \<lparr>al_opName = opName, al_args = args, al_prmIdx = prmIdx, al_srvId = i\<rparr>)"

lemma addLogs_applied:
  assumes "distinct (map (\<lambda>(opName, args, prmIdx). prmIdx) rs)"
    and "\<forall>r \<in> set rs. (i, snd (snd r)) \<notin> requestKey ` set (log_of st)"
  shows "map basicEntry (log_of (addLogs (map (own_request i) rs) st)) =
    map basicEntry (log_of st) @ map (ps_entry i) rs"
  using assms
proof (induction rs arbitrary: st)
  case (Cons r rs)
  obtain opName args prmIdx where r: "r = (opName, args, prmIdx)" by (cases r)
  let ?st = "snd (leader_addLog (own_request i r) st)"
  have log: "log_of ?st = log_of st @ [newEntry (own_request i r) (fst st)]"
    using Cons.prems(2) by (simp add: leader_addLog_log r own_request_def)
  then have "map basicEntry (log_of ?st) = map basicEntry (log_of st) @ [ps_entry i r]"
    by (simp add: newEntry_def basicEntry_def own_request_def ps_entry_def r)
  moreover have "\<forall>r \<in> set rs. (i, snd (snd r)) \<notin> requestKey ` set (log_of ?st)"
    using Cons.prems log by (force simp: r own_request_def)
  ultimately show ?case using Cons.IH [of ?st] Cons.prems(1) by (simp add: addLogs_def)
qed (simp add: addLogs_def)

text \<open>
  The stand-in and a real server that leads with an empty log agree: after the same requests,
  with promises of their own, the application of the stand-in has applied, in order, exactly the
  entries that the log of the real server holds behind its sentinel, and its queue is empty.
\<close>

theorem pseudo_raft_agrees:
  assumes "ps_apply ps = Some f" "eq_idle (ps_q ps)" "eq_events (ps_q ps) = []"
    and "distinct (map (\<lambda>(opName, args, prmIdx). prmIdx) rs)" "log_of st = [LogEntry0]" "ps_id ps \<noteq> NullServerId"
  shows "\<exists>ps'. ps_events (length rs) (ps_addLogs rs ps, app) =
      Some (ps', fold f (map basicEntry (tl (log_of (addLogs (map (own_request (ps_Local ps)) rs) st)))) app) \<and>
    eq_events (ps_q ps') = []"
proof -
  let ?i = "ps_id ps"
  have "\<forall>r \<in> set rs. (?i, snd (snd r)) \<notin> requestKey ` set (log_of st)"
    using assms(5,6) by (simp add: requestKey_def LogEntry0_def NullServerId_def)
  from addLogs_applied [OF assms(4) this]
  have "map basicEntry (tl (log_of (addLogs (map (own_request ?i) rs) st))) = map (ps_entry ?i) rs"
    using assms(5) by (simp add: map_tl)
  moreover have "ps_apply (ps_addLogs rs ps) = Some f" "eq_idle (ps_q (ps_addLogs rs ps))"
    "eq_events (ps_q (ps_addLogs rs ps)) = rs" "ps_id (ps_addLogs rs ps) = ?i"
    using assms(1-3) by (simp_all add: ps_addLogs_alt eq.ready_push_all eq.items_push_all)
  ultimately show ?thesis using ps_events_drain [of "ps_addLogs rs ps" f rs app] by (auto simp: ps_Local_def)
qed

theorem pseudo_raft_agrees_witness:
  "\<exists>ps'. ps_events 2 (ps_addLogs [(''op'', ''x'', 4), (''op'', ''y'', 5)]
       (ps_BindApply (\<lambda>e app. app @ [be_prmIdx e]) (PseudoRaft0\<lparr>ps_id := sample_id ''a''\<rparr>)), []) = Some (ps', [4, 5]) \<and>
     eq_events (ps_q ps') = []"
proof -
  let ?ps = "ps_BindApply (\<lambda>e app. app @ [be_prmIdx e]) (PseudoRaft0\<lparr>ps_id := sample_id ''a''\<rparr>)"
  let ?rs = "[(''op'', ''x'', 4), (''op'', ''y'', 5)] :: (string \<times> string \<times> prm_idx) list"
  let ?st = "(sample_server\<lparr>sv_state := (sv_state sample_server)\<lparr>entries := [LogEntry0]\<rparr>\<rparr>, LeaderImpl0)"
  have "\<exists>ps'. ps_events (length ?rs) (ps_addLogs ?rs ?ps, []) =
      Some (ps', fold (\<lambda>e app. app @ [be_prmIdx e]) (map basicEntry (tl (log_of (addLogs (map (own_request (ps_Local ?ps)) ?rs) ?st)))) []) \<and>
    eq_events (ps_q ps') = []"
    by (rule pseudo_raft_agrees)
      (simp_all add: ps_BindApply_def PseudoRaft0_def EventQueue0_def eq_idle_def eq_events_def sample_id_def NullServerId_def)
  moreover have "fold (\<lambda>e app. app @ [be_prmIdx e]) (map basicEntry (tl (log_of (addLogs (map (own_request (ps_Local ?ps)) ?rs) ?st)))) [] = [4, 5]"
    by (simp add: addLogs_def leader_addLog_log newEntry_def own_request_def requestKey_def LogEntry0_def basicEntry_def
        ps_Local_def ps_BindApply_def sample_id_def)
  moreover have "length ?rs = 2" by simp
  ultimately show ?thesis by metis
qed

text \<open>A request without an apply function ends the program.\<close>

lemma pseudo_raft_unbound:
  "eq_idle (ps_q ps) \<Longrightarrow> eq_events (ps_q ps) \<noteq> [] \<Longrightarrow> ps_apply ps = None \<Longrightarrow> ps_event (ps, app) = None"
  by (cases "eq_exec1 (ps_q ps)") (auto simp: ps_event_def Let_def eq_exec1_None eq_events_def)

end
