(* ===== verification/Guarded_Server.thy ===== *)
theory Guarded_Server
  imports Raft_Server Rpc_Gate
begin

text \<open>
  A server behind its RPC service: the handlers of \<open>Raft.cpp\<close> inside the wrapper of
  \<open>RpcService.cpp\<close> (\<open>Rpc_Gate\<close>), interleaved with the transformations, which pause the service,
  leave one identity, enter the next and resume.

  The other theories take a handler and a transformation as one step each. Here a handler is two,
  the look at \<open>currentIdentity\<close> and the rest, and a transformation is five. The pause does not wait
  for a handler that is running. When none is, and the timers and threads of the server keep out
  of a transformation (the flag \<open>exclusive\<close>), the server behaves as the other theories say; when
  one is, it can act for an identity that the server has left.
\<close>

section \<open>A server with atomic operations\<close>

datatype rpc_request = EntriesCall AppendEntriesMessage | VoteCall RequestVoteMessage | LogCall AddLogMessage

type_synonym rpc_reply = "Reply + AddLogReply"

fun raft_handle :: "rpc_request \<Rightarrow> Raft \<Rightarrow> (rpc_reply \<times> Raft) option" where
  "raft_handle (EntriesCall m) rf = map_option (\<lambda>(r, rf'). (Inl r, rf')) (raft_appendEntries m rf)"
| "raft_handle (VoteCall m) rf = map_option (\<lambda>(r, rf'). (Inl r, rf')) (raft_requestVote m rf)"
| "raft_handle (LogCall m) rf = map_option (\<lambda>(r, rf'). (Inr r, rf')) (raft_addLog m rf)"

text \<open>An RPC, a transformation, a timer, a thread of a leader or of a candidate, a trigger.\<close>

datatype raft_op = Request rpc_request | Event nat | Timer | Push ServerId "RpcResult list"
  | VoteReply RequestVoteMessage RpcResult | Trigger ServerIdentityNo

fun raft_op_do :: "raft_op \<Rightarrow> Raft \<Rightarrow> Raft option" where
  "raft_op_do (Request req) rf = map_option snd (raft_handle req rf)"
| "raft_op_do (Event timeout) rf = raft_event (\<lambda>from to. to) True timeout rf"
| "raft_op_do Timer rf = raft_timeout rf"
| "raft_op_do (Push target results) rf = (if rf_identity rf \<noteq> Leader then None
     else map_option (\<lambda>(sv, ld). rf\<lparr>rf_server := sv, rf_leader := ld\<rparr>)
       (tryAppendEntries target results (rf_server rf, rf_leader rf)))"
| "raft_op_do (VoteReply msg result) rf = (if rf_identity rf \<noteq> Candidate then None
     else (case vote_thread msg result (rf_server rf, rf_candidate rf) of
       (sv, c) \<Rightarrow> Some (rf\<lparr>rf_server := sv, rf_candidate := c\<rparr>)))"
| "raft_op_do (Trigger target) rf = Some (triggerTransformation target rf)"

inductive raft_reach :: "ServerInfo \<Rightarrow> Raft \<Rightarrow> bool" for cfg where
  raft_start: "raft_reach cfg (configure cfg)"
| raft_step: "raft_reach cfg rf \<Longrightarrow> raft_op_do op rf = Some rf' \<Longrightarrow> raft_reach cfg rf'"

section \<open>A server whose handlers and transformations overlap\<close>

datatype transform_pc = Waiting | Leaving ServerIdentityNo | Entering ServerIdentityNo
  | Initializing ServerIdentityNo | Resuming

record Guarded =
  gd_gate :: RpcService
  gd_raft :: Raft
  gd_request :: "nat \<Rightarrow> rpc_request option"
  gd_found :: "nat \<Rightarrow> ServerIdentityNo option"
  gd_reply :: "nat \<Rightarrow> rpc_reply option"
  gd_pc :: transform_pc

definition Guarded0 :: "ServerInfo \<Rightarrow> Guarded" where
  "Guarded0 cfg = \<lparr>gd_gate = RpcService0, gd_raft = configure cfg, gd_request = (\<lambda>_. None), gd_found = (\<lambda>_. None),
     gd_reply = (\<lambda>_. None), gd_pc = Waiting\<rparr>"

text \<open>The handler of the identity that was found, on the server as it is now.\<close>

definition handle_on :: "ServerIdentityNo \<Rightarrow> rpc_request \<Rightarrow> Raft \<Rightarrow> (rpc_reply \<times> Raft) option" where
  "handle_on i req rf = map_option (\<lambda>(r, rf'). (r, rf'\<lparr>rf_identity := rf_identity rf\<rparr>))
     (raft_handle req (rf\<lparr>rf_identity := i\<rparr>))"

datatype gd_label = Gate rs_label | Call nat rpc_request | Dispatch nat | Handle nat
  | PauseFor | LeaveOld | EnterNew | InitNew nat | ResumeAfter | Background raft_op

fun own_label :: "rs_label \<Rightarrow> bool" where
  "own_label (Arrive c) = False"
| "own_label (Return c) = False"
| "own_label Pause = False"
| "own_label Resume = False"
| "own_label l = True"

fun background :: "raft_op \<Rightarrow> bool" where
  "background (Request req) = False"
| "background (Event timeout) = False"
| "background op = True"

definition gd_with :: "rs_label \<Rightarrow> Guarded \<Rightarrow> Guarded option" where
  "gd_with l s = map_option (\<lambda>g. s\<lparr>gd_gate := g\<rparr>) (rs_do l (gd_gate s))"

fun gd_do :: "gd_label \<Rightarrow> Guarded \<Rightarrow> Guarded option" where
  "gd_do (Gate l) s = (if own_label l then gd_with l s else None)"
| "gd_do (Call c req) s = map_option (\<lambda>s. s\<lparr>gd_request := (gd_request s)(c \<mapsto> req)\<rparr>) (gd_with (Arrive c) s)"
| "gd_do (Dispatch c) s = (if rs_pc (gd_gate s) c = Running \<and> gd_found s c = None
     then Some (s\<lparr>gd_found := (gd_found s)(c \<mapsto> rf_identity (gd_raft s))\<rparr>) else None)"
| "gd_do (Handle c) s = do {
     i \<leftarrow> gd_found s c;
     req \<leftarrow> gd_request s c;
     (r, rf) \<leftarrow> handle_on i req (gd_raft s);
     gd_with (Return c) (s\<lparr>gd_raft := rf, gd_found := (gd_found s)(c := None), gd_reply := (gd_reply s)(c \<mapsto> r)\<rparr>)
   }"
| "gd_do PauseFor s = (case gd_pc s of
     Waiting \<Rightarrow> (case eq_exec1 (sv_eventQueue (rf_server (gd_raft s))) of None \<Rightarrow> None
       | Some (target, evq) \<Rightarrow> gd_with Pause (s\<lparr>gd_raft := (gd_raft s)\<lparr>rf_server :=
           (rf_server (gd_raft s))\<lparr>sv_eventQueue := evq\<rparr>, rf_paused := True\<rparr>, gd_pc := Leaving target\<rparr>))
   | _ \<Rightarrow> None)"
| "gd_do LeaveOld s = (case gd_pc s of
     Leaving target \<Rightarrow> map_option (\<lambda>rf. s\<lparr>gd_raft := rf, gd_pc := Entering target\<rparr>)
       (leave_identity (rf_identity (gd_raft s)) (gd_raft s))
   | _ \<Rightarrow> None)"
| "gd_do EnterNew s = (case gd_pc s of
     Entering target \<Rightarrow> Some (s\<lparr>gd_raft := (gd_raft s)\<lparr>rf_identity := target\<rparr>, gd_pc := Initializing target\<rparr>)
   | _ \<Rightarrow> None)"
| "gd_do (InitNew timeout) s = (case gd_pc s of
     Initializing target \<Rightarrow> map_option (\<lambda>rf. s\<lparr>gd_raft := rf, gd_pc := Resuming\<rparr>)
       (init_identity True timeout target (gd_raft s))
   | _ \<Rightarrow> None)"
| "gd_do ResumeAfter s = (case gd_pc s of
     Resuming \<Rightarrow> gd_with Resume (s\<lparr>gd_raft := (gd_raft s)\<lparr>rf_paused := False\<rparr>, gd_pc := Waiting\<rparr>)
   | _ \<Rightarrow> None)"
| "gd_do (Background op) s = (if background op
     then map_option (\<lambda>rf. s\<lparr>gd_raft := rf\<rparr>) (raft_op_do op (gd_raft s)) else None)"

text \<open>
  What the service does not see to: that no handler is running when a transformation starts, and that
  the timers and threads of the server, and its stop, wait for the end of a transformation. Calls
  arrive at any time; that they do not run is for the pause to see to.
\<close>

fun alone :: "gd_label \<Rightarrow> Guarded \<Rightarrow> bool" where
  "alone PauseFor s = (\<forall>c. rs_pc (gd_gate s) c \<noteq> Running)"
| "alone (Gate k) s = (k = StopResume \<longrightarrow> gd_pc s = Waiting)"
| "alone (Background op) s = (gd_pc s = Waiting)"
| "alone l s = True"

inductive gd_reach :: "bool \<Rightarrow> ServerInfo \<Rightarrow> Guarded \<Rightarrow> bool" for exclusive cfg where
  gd_start: "gd_reach exclusive cfg (Guarded0 cfg)"
| gd_step: "gd_reach exclusive cfg s \<Longrightarrow> (exclusive \<longrightarrow> alone l s) \<Longrightarrow> gd_do l s = Some s' \<Longrightarrow>
    gd_reach exclusive cfg s'"

fun gd_replay :: "gd_label list \<Rightarrow> Guarded \<Rightarrow> Guarded option" where
  "gd_replay [] s = Some s"
| "gd_replay (l # ls) s = Option.bind (gd_do l s) (gd_replay ls)"

lemma gd_replay_reach: "gd_reach False cfg s \<Longrightarrow> gd_replay ls s = Some s' \<Longrightarrow> gd_reach False cfg s'"
  by (induction ls arbitrary: s) (auto simp: Option.bind_eq_Some_conv intro: gd_step simp del: gd_do.simps)

section \<open>At most one handler has looked at the identity\<close>

lemma gd_with_Some: "gd_with l s = Some s' \<longleftrightarrow> (\<exists>g. rs_do l (gd_gate s) = Some g \<and> s' = s\<lparr>gd_gate := g\<rparr>)"
  by (auto simp: gd_with_def)

lemma gd_do_gate:
  assumes "gd_do l s = Some s'"
  shows "gd_gate s' = gd_gate s \<or> (\<exists>k. rs_do k (gd_gate s) = Some (gd_gate s') \<and>
    (\<forall>c. gd_found s' c \<noteq> None \<longrightarrow> k \<noteq> Return c))"
  using assms
  by (cases l) (auto simp: gd_with_Some Option.bind_eq_Some_conv simp del: raft_op_do.simps rs_do.simps
      split: if_splits transform_pc.splits option.splits prod.splits)

lemma gd_reach_gate: "gd_reach exclusive cfg s \<Longrightarrow> \<exists>ls. rs_reach ls (gd_gate s)"
proof (induction rule: gd_reach.induct)
  case gd_start
  have "gd_gate (Guarded0 cfg) = RpcService0" by (simp add: Guarded0_def)
  with rs_start show ?case by metis
next
  case (gd_step s l s')
  with gd_do_gate [OF gd_step.hyps(3)] show ?case by (metis rs_step)
qed

lemma rs_do_running:
  "rs_do k g = Some g' \<Longrightarrow> rs_pc g c = Running \<Longrightarrow> k \<noteq> Return c \<Longrightarrow> rs_pc g' c = Running"
  by (cases k) (auto simp: rs_preRpc_def rs_postRpc_def rs_pause_def rs_resume_def rs_notify_all_def split: if_splits)

lemma found_running:
  "gd_reach exclusive cfg s \<Longrightarrow> gd_found s c \<noteq> None \<Longrightarrow> rs_pc (gd_gate s) c = Running"
proof (induction arbitrary: c rule: gd_reach.induct)
  case (gd_step s l s')
  show ?case
  proof (cases "gd_found s c = None")
    case True
    with gd_step.prems gd_step.hyps(3) show ?thesis
      by (cases l) (auto simp: gd_with_Some Option.bind_eq_Some_conv simp del: raft_op_do.simps rs_do.simps
          split: if_splits transform_pc.splits option.splits prod.splits)
  next
    case False
    with gd_step.IH have "rs_pc (gd_gate s) c = Running" .
    with gd_do_gate [OF gd_step.hyps(3)] gd_step.prems rs_do_running show ?thesis by metis
  qed
qed (simp add: Guarded0_def)

lemma running_once:
  "gd_reach exclusive cfg s \<Longrightarrow> rs_pc (gd_gate s) c = Running \<Longrightarrow> rs_pc (gd_gate s) d = Running \<Longrightarrow> c = d"
  using gd_reach_gate rs_reach_inv unfolding rs_inv_def by (metis holder.inject option.inject)

section \<open>The pause keeps handlers out\<close>

definition kept_out :: "Guarded \<Rightarrow> bool" where
  "kept_out s \<longleftrightarrow> gd_pc s = Waiting \<or> rs_paused (gd_gate s) \<and> (\<forall>c. rs_pc (gd_gate s) c \<noteq> Running)"

lemma rs_do_paused:
  assumes "rs_do k g = Some g'" "rs_paused g" "\<forall>c. rs_pc g c \<noteq> Running" "k \<noteq> Resume" "k \<noteq> StopResume"
  shows "rs_paused g' \<and> (\<forall>c. rs_pc g' c \<noteq> Running)"
  using assms by (cases k) (auto simp: rs_preRpc_def rs_postRpc_def rs_pause_def rs_notify_all_def rs_move_def split: if_splits)

lemma kept_out_step:
  assumes kept: "kept_out s" and alone: "alone l s" and step: "gd_do l s = Some s'"
  shows "kept_out s'"
proof (cases l)
  case (Gate k)
  with step have k: "own_label k" "rs_do k (gd_gate s) = Some (gd_gate s')" "gd_pc s' = gd_pc s"
    by (auto simp: gd_with_Some split: if_splits)
  show ?thesis
  proof (cases "gd_pc s = Waiting")
    case False
    with Gate alone k(1) have "k \<noteq> Resume" "k \<noteq> StopResume" by auto
    with rs_do_paused [OF k(2)] kept False k(3) show ?thesis by (simp add: kept_out_def)
  qed (use k(3) in \<open>simp add: kept_out_def\<close>)
next
  case (Call c req)
  with step have "rs_do (Arrive c) (gd_gate s) = Some (gd_gate s')" "gd_pc s' = gd_pc s" by (auto simp: gd_with_Some simp del: rs_do.simps)
  with rs_do_paused [of "Arrive c"] kept show ?thesis by (auto simp: kept_out_def)
next
  case (Handle c)
  with step have "rs_do (Return c) (gd_gate s) = Some (gd_gate s')" "gd_pc s' = gd_pc s"
    by (auto simp: gd_with_Some Option.bind_eq_Some_conv simp del: rs_do.simps)
  with rs_do_paused [of "Return c"] kept show ?thesis by (auto simp: kept_out_def)
next
  case PauseFor
  with step have "gd_gate s' = rs_pause (gd_gate s)" by (auto simp: gd_with_Some split: transform_pc.splits option.splits)
  with PauseFor alone show ?thesis by (auto simp: kept_out_def rs_pause_def)
qed (use kept step in \<open>auto simp: kept_out_def gd_with_Some simp del: raft_op_do.simps
    split: if_splits transform_pc.splits\<close>)

lemma kept_out_reach: "gd_reach True cfg s \<Longrightarrow> kept_out s"
proof (induction rule: gd_reach.induct)
  case gd_start
  show ?case by (simp add: kept_out_def Guarded0_def)
next
  case (gd_step s l s')
  then show ?case using kept_out_step by blast
qed

section \<open>Exclusive handlers and transformations are atomic\<close>

definition begun :: "ServerIdentityNo EventQueue \<Rightarrow> Raft \<Rightarrow> Raft" where
  "begun q rf = rf\<lparr>rf_server := (rf_server rf)\<lparr>sv_eventQueue := q\<rparr>, rf_paused := True\<rparr>"

text \<open>How far the transformation has come that \<open>rf0\<close> has started.\<close>

fun in_transformation :: "transform_pc \<Rightarrow> Raft \<Rightarrow> Raft \<Rightarrow> bool" where
  "in_transformation Waiting rf0 rf = (rf = rf0)"
| "in_transformation (Leaving target) rf0 rf =
     (\<exists>q. eq_exec1 (sv_eventQueue (rf_server rf0)) = Some (target, q) \<and> rf = begun q rf0)"
| "in_transformation (Entering target) rf0 rf =
     (\<exists>q. eq_exec1 (sv_eventQueue (rf_server rf0)) = Some (target, q) \<and>
       leave_identity (rf_identity rf0) (begun q rf0) = Some rf)"
| "in_transformation (Initializing target) rf0 rf =
     (\<exists>q rf1. eq_exec1 (sv_eventQueue (rf_server rf0)) = Some (target, q) \<and>
       leave_identity (rf_identity rf0) (begun q rf0) = Some rf1 \<and> rf = rf1\<lparr>rf_identity := target\<rparr>)"
| "in_transformation Resuming rf0 rf =
     (\<exists>timeout. raft_event (\<lambda>from to. to) True timeout rf0 = Some (rf\<lparr>rf_paused := False\<rparr>))"

lemma begun_identity [simp]: "rf_identity (begun q rf) = rf_identity rf"
  by (simp add: begun_def)

lemma raft_handle_identity: "raft_handle req rf = Some (r, rf') \<Longrightarrow> rf_identity rf' = rf_identity rf"
  by (cases req) (auto simp: set_server_def set_leader_def split: ServerIdentityNo.splits prod.splits)

lemma handle_on_current: "handle_on (rf_identity rf) req rf = raft_handle req rf"
  by (cases "raft_handle req rf") (auto simp: handle_on_def dest!: raft_handle_identity)

lemma raft_op_identity: "background op \<Longrightarrow> raft_op_do op rf = Some rf' \<Longrightarrow> rf_identity rf' = rf_identity rf"
  by (cases op) (auto simp: raft_timeout_def triggerTransformation_def split: if_splits prod.splits option.splits)

definition atomic_at :: "ServerInfo \<Rightarrow> Guarded \<Rightarrow> bool" where
  "atomic_at cfg s \<longleftrightarrow> (\<exists>rf0. raft_reach cfg rf0 \<and> in_transformation (gd_pc s) rf0 (gd_raft s)) \<and>
     (\<forall>c i. gd_found s c = Some i \<longrightarrow> gd_pc s = Waiting \<and> i = rf_identity (gd_raft s))"

lemma atomic_at_step:
  assumes reach: "gd_reach True cfg s" and at: "atomic_at cfg s" and alone: "alone l s" and step: "gd_do l s = Some s'"
  shows "atomic_at cfg s'"
proof -
  obtain rf0 where rf0: "raft_reach cfg rf0" "in_transformation (gd_pc s) rf0 (gd_raft s)"
    and found: "\<And>c i. gd_found s c = Some i \<Longrightarrow> gd_pc s = Waiting \<and> i = rf_identity (gd_raft s)"
    using at by (auto simp: atomic_at_def)
  have none: "gd_found s c = None" if "gd_pc s \<noteq> Waiting" for c
    using found that by (cases "gd_found s c") auto
  note kept = kept_out_reach [OF reach]
  show ?thesis
  proof (cases l)
    case (Gate k)
    with step have "gd_raft s' = gd_raft s" "gd_pc s' = gd_pc s" "gd_found s' = gd_found s"
      by (auto simp: gd_with_Some split: if_splits)
    with at show ?thesis by (simp add: atomic_at_def)
  next
    case (Call c req)
    with step have "gd_raft s' = gd_raft s" "gd_pc s' = gd_pc s" "gd_found s' = gd_found s"
      by (auto simp: gd_with_Some)
    with at show ?thesis by (simp add: atomic_at_def)
  next
    case (Dispatch c)
    with step have c: "rs_pc (gd_gate s) c = Running"
      "s' = s\<lparr>gd_found := (gd_found s)(c \<mapsto> rf_identity (gd_raft s))\<rparr>" by (simp_all split: if_splits)
    then have "gd_pc s = Waiting" using kept by (auto simp: kept_out_def)
    with c(2) rf0 found show ?thesis by (auto simp: atomic_at_def)
  next
    case (Handle c)
    with step obtain i req r rf where h: "gd_found s c = Some i" "handle_on i req (gd_raft s) = Some (r, rf)"
      and s': "gd_raft s' = rf" "gd_pc s' = gd_pc s" "gd_found s' = (gd_found s)(c := None)"
      by (auto simp: gd_with_Some Option.bind_eq_Some_conv)
    from found [OF h(1)] have w: "gd_pc s = Waiting" "i = rf_identity (gd_raft s)" by auto
    then have "raft_op_do (Request req) (gd_raft s) = Some rf" using h(2) by (simp add: handle_on_current)
    moreover have "raft_reach cfg (gd_raft s)" using rf0 w(1) by simp
    ultimately have "raft_reach cfg rf" by (blast intro: raft_step)
    moreover have "gd_found s' d = None" for d
    proof (cases "d = c")
      case False
      have "gd_found s d = None"
        using running_once [OF reach found_running [OF reach, of c] found_running [OF reach, of d]] h(1) False
        by (cases "gd_found s d") auto
      with s' show ?thesis by simp
    qed (simp add: s')
    ultimately show ?thesis using s' w(1) by (auto simp: atomic_at_def)
  next
    case PauseFor
    with step rf0(2) obtain target q where "gd_pc s = Waiting" "gd_pc s' = Leaving target" "gd_found s' = gd_found s"
      "eq_exec1 (sv_eventQueue (rf_server (gd_raft s))) = Some (target, q)" "gd_raft s' = begun q (gd_raft s)"
      by (auto simp: gd_with_Some begun_def split: transform_pc.splits option.splits)
    moreover have "gd_found s c = None" for c using found_running [OF reach, of c] alone PauseFor by (cases "gd_found s c") auto
    ultimately show ?thesis using rf0 by (auto simp: atomic_at_def)
  next
    case LeaveOld
    with step rf0(2) obtain target where "gd_pc s = Leaving target" "gd_pc s' = Entering target" "gd_found s' = gd_found s"
      "leave_identity (rf_identity (gd_raft s)) (gd_raft s) = Some (gd_raft s')"
      by (auto split: transform_pc.splits)
    with rf0 none show ?thesis by (auto simp: atomic_at_def)
  next
    case EnterNew
    with step rf0(2) obtain target where "gd_pc s = Entering target" "gd_pc s' = Initializing target" "gd_found s' = gd_found s"
      "gd_raft s' = (gd_raft s)\<lparr>rf_identity := target\<rparr>"
      by (auto split: transform_pc.splits)
    with rf0 none show ?thesis by (auto simp: atomic_at_def)
  next
    case (InitNew timeout)
    with step obtain target where t: "gd_pc s = Initializing target" "gd_pc s' = Resuming" "gd_found s' = gd_found s"
      "init_identity True timeout target (gd_raft s) = Some (gd_raft s')"
      by (auto split: transform_pc.splits)
    with rf0(2) obtain q rf1 where "eq_exec1 (sv_eventQueue (rf_server rf0)) = Some (target, q)"
      "leave_identity (rf_identity rf0) (begun q rf0) = Some rf1" "gd_raft s = rf1\<lparr>rf_identity := target\<rparr>" by auto
    with t(4) have "raft_event (\<lambda>from to. to) True timeout rf0 = Some ((gd_raft s')\<lparr>rf_paused := False\<rparr>)"
      by (simp add: raft_event_def transform_def begun_def Let_def)
    with t rf0(1) none show ?thesis by (auto simp: atomic_at_def)
  next
    case ResumeAfter
    with step have r: "gd_pc s = Resuming" "gd_pc s' = Waiting" "gd_found s' = gd_found s"
      "gd_raft s' = (gd_raft s)\<lparr>rf_paused := False\<rparr>"
      by (auto simp: gd_with_Some split: transform_pc.splits)
    with rf0(2) obtain timeout where "raft_op_do (Event timeout) rf0 = Some (gd_raft s')" by auto
    with rf0(1) have "raft_reach cfg (gd_raft s')" by (rule raft_step)
    with r none show ?thesis by (fastforce simp: atomic_at_def)
  next
    case (Background op)
    with step alone have b: "background op" "gd_pc s = Waiting" "gd_pc s' = Waiting" "gd_found s' = gd_found s"
      "raft_op_do op (gd_raft s) = Some (gd_raft s')" by (auto split: if_splits)
    with rf0 have "raft_reach cfg (gd_raft s')" by (auto intro: raft_step)
    with b raft_op_identity [OF b(1,5)] found show ?thesis by (auto simp: atomic_at_def)
  qed
qed

lemma atomic_at_reach: "gd_reach True cfg s \<Longrightarrow> atomic_at cfg s"
proof (induction rule: gd_reach.induct)
  case gd_start
  show ?case by (auto simp: atomic_at_def Guarded0_def intro: raft_start)
next
  case (gd_step s l s')
  then have "alone l s" by simp
  with gd_step show ?case by (metis atomic_at_step)
qed

text \<open>
  C26. The pause of the service makes transformations atomic towards the handlers: in every interleaving
  in which a transformation starts with no handler running, and the timers and threads of the server
  and its stop wait for its end, no handler looks at the identity during a transformation, however
  calls arrive, so the state between two transformations is one that a server with atomic operations
  reaches, and one handler at most has looked at the identity, which is still the current one. (A
  handler is two steps, the look at the identity and the rest.)
\<close>

theorem handlers_atomic:
  assumes "gd_reach True cfg s"
  shows "(gd_pc s = Waiting \<longrightarrow> raft_reach cfg (gd_raft s)) \<and>
    (\<forall>c i. gd_found s c = Some i \<longrightarrow> gd_pc s = Waiting \<and> i = rf_identity (gd_raft s) \<and>
      (\<forall>d. d \<noteq> c \<longrightarrow> gd_found s d = None))"
proof -
  note at = atomic_at_reach [OF assms]
  have "gd_found s d = None" if "gd_found s c = Some i" "d \<noteq> c" for c d i
    using running_once [OF assms found_running [OF assms, of c] found_running [OF assms, of d]] that
    by (cases "gd_found s d") auto
  with at show ?thesis by (auto simp: atomic_at_def)
qed

section \<open>Handlers that outlive their identity\<close>

text \<open>The end of the gRPC server is not looked at by the runs below.\<close>

lemma no_calls_code [code]: "no_calls s = Code.abort (STR ''no_calls'') (\<lambda>_. no_calls s)"
  by simp

text \<open>A request of a client on its way in a server that becomes leader alone.\<close>

definition alone_cfg :: ServerInfo where
  "alone_cfg = \<lparr>local = sample_id ''a'', srvList = [sample_id ''a'', sample_id ''b'', sample_id ''c''], electionTimeout = 100\<rparr>"

definition transforms :: "gd_label list" where
  "transforms = [PauseFor, LeaveOld, EnterNew, InitNew 150, ResumeAfter, Gate Notify]"

definition leads_run :: "gd_label list" where
  "leads_run = [Gate AsyncRun, Background (Trigger Follower)] @ transforms @ [Background Timer] @ transforms @
     [Background (VoteReply \<lparr>rv_term = 1, rv_candidateId = sample_id ''a'', rv_lastLogIdx = 0, rv_lastLogTerm = 0\<rparr>
       (Replied (1, True)))] @ transforms @
     [Call 1 (LogCall (sample_request 7)), Gate (Check 1)]"

definition outlived_run :: "gd_label list" where
  "outlived_run = leads_run @ [Dispatch 1, Background (Push (sample_id ''b'') [Replied (5, False)])] @ transforms @ [Handle 1]"

text \<open>
  C38. The pause of the service does not wait for a handler that is running: the AddLog handler of a
  leader can go on after the server has learnt of a later term and become a follower. It acknowledges
  the request as leader, and puts an entry of the later term, which this server does not lead, on
  the log of a follower.
\<close>

theorem handler_outlives_leader:
  "\<exists>s. gd_reach False alone_cfg s \<and> rf_identity (gd_raft s) = Follower \<and>
     currentTerm (sv_state (rf_server (gd_raft s))) = 5 \<and>
     map (\<lambda>e. (le_term e, le_prmIdx e)) (entries (sv_state (rf_server (gd_raft s)))) = [(0, 0), (5, 7)] \<and>
     gd_reply s 1 = Some (Inr \<lparr>ar_success = True, ar_leaderId = sample_id ''a''\<rparr>)"
proof -
  have "case gd_replay outlived_run (Guarded0 alone_cfg) of None \<Rightarrow> False | Some s \<Rightarrow>
     rf_identity (gd_raft s) = Follower \<and> currentTerm (sv_state (rf_server (gd_raft s))) = 5 \<and>
     map (\<lambda>e. (le_term e, le_prmIdx e)) (entries (sv_state (rf_server (gd_raft s)))) = [(0, 0), (5, 7)] \<and>
     gd_reply s 1 = Some (Inr \<lparr>ar_success = True, ar_leaderId = sample_id ''a''\<rparr>)"
    by code_simp
  then show ?thesis using gd_replay_reach [OF gd_start] by (fastforce split: option.splits)
qed

text \<open>The first part of that run keeps handlers and transformations apart.\<close>

fun waits :: "gd_label list \<Rightarrow> Guarded \<Rightarrow> Guarded option" where
  "waits [] s = Some s"
| "waits (l # ls) s = (if (case l of Gate k \<Rightarrow> k = AsyncRun \<or> k = Notify | Background op \<Rightarrow> gd_pc s = Waiting | _ \<Rightarrow> True)
     then Option.bind (gd_do l s) (waits ls) else None)"

lemma idle_kept:
  assumes "gd_do l s = Some s'" "\<forall>k. l = Gate k \<longrightarrow> k = AsyncRun \<or> k = Notify" "\<forall>c. rs_pc (gd_gate s) c \<noteq> Running"
  shows "\<forall>c. rs_pc (gd_gate s') c \<noteq> Running"
  using assms
  by (cases l) (auto simp: gd_with_Some Option.bind_eq_Some_conv rs_preRpc_def rs_move_def rs_pause_def rs_resume_def
      rs_notify_all_def simp del: raft_op_do.simps split: if_splits transform_pc.splits option.splits prod.splits)

lemma waits_reach:
  "gd_reach True cfg s \<Longrightarrow> \<forall>c. rs_pc (gd_gate s) c \<noteq> Running \<Longrightarrow> waits ls s = Some s' \<Longrightarrow> gd_reach True cfg s'"
proof (induction ls arbitrary: s)
  case (Cons l ls)
  from Cons.prems(3) obtain s1 where s1: "gd_do l s = Some s1" "waits ls s1 = Some s'"
    and ok: "\<forall>k. l = Gate k \<longrightarrow> k = AsyncRun \<or> k = Notify" "\<forall>op. l = Background op \<longrightarrow> gd_pc s = Waiting"
    by (auto simp: Option.bind_eq_Some_conv simp del: gd_do.simps split: if_splits gd_label.splits)
  have "alone l s" using ok Cons.prems(2) by (cases l) auto
  with Cons.prems(1) s1(1) have "gd_reach True cfg s1" by (metis gd_step)
  with Cons.IH idle_kept [OF s1(1) ok(1) Cons.prems(2)] s1(2) show ?case by blast
qed simp

theorem handlers_atomic_witness:
  "\<exists>s. gd_reach True alone_cfg s \<and> gd_found s 1 = Some Leader \<and> raft_reach alone_cfg (gd_raft s) \<and> gd_found s 2 = None"
proof -
  have "case waits (butlast leads_run) (Guarded0 alone_cfg) of None \<Rightarrow> False | Some s \<Rightarrow>
      (case gd_replay [Gate (Check 1), Dispatch 1] s of None \<Rightarrow> False | Some s' \<Rightarrow>
        gd_found s' 1 = Some Leader \<and> gd_pc s' = Waiting)"
    by code_simp
  then obtain s s' where s: "waits (butlast leads_run) (Guarded0 alone_cfg) = Some s"
    "gd_replay [Gate (Check 1), Dispatch 1] s = Some s'" "gd_found s' 1 = Some Leader" "gd_pc s' = Waiting"
    by (auto split: option.splits)
  then obtain s1 where s1: "gd_do (Gate (Check 1)) s = Some s1" "gd_do (Dispatch 1) s1 = Some s'"
    by (auto simp: Option.bind_eq_Some_conv simp del: gd_do.simps)
  have "\<forall>c. rs_pc (gd_gate (Guarded0 alone_cfg)) c \<noteq> Running" by (simp add: Guarded0_def RpcService0_def)
  from waits_reach [OF gd_start this s(1)] have "gd_reach True alone_cfg s" .
  moreover have "alone (Gate (Check 1)) s" "alone (Dispatch 1) s1" by simp_all
  ultimately have g: "gd_reach True alone_cfg s'" using s1 by (metis gd_step)
  have "\<forall>d. d \<noteq> 1 \<longrightarrow> gd_found s' d = None" using handlers_atomic [OF g] s(3) by blast
  moreover have "raft_reach alone_cfg (gd_raft s')" using handlers_atomic [OF g] s(4) by simp
  moreover have "(2 :: nat) \<noteq> 1" by simp
  ultimately show ?thesis using g s(3) by blast
qed

text \<open>In the server with atomic operations a request puts an entry on the log of a leader only.\<close>

lemma request_leader_only:
  assumes "raft_op_do (Request (LogCall m)) rf = Some rf'" "entries (sv_state (rf_server rf')) \<noteq> entries (sv_state (rf_server rf))"
  shows "rf_identity rf = Leader"
  using assms by (cases "rf_identity rf")
    (auto simp: follower_addLog_def candidate_addLog_def bogus_addLog_def defaultAddLog_def)

end
