(* ===== verification/Vote_Locks.thy ===== *)
theory Vote_Locks
  imports Identities
begin

text \<open>
  The RequestVote handler of a follower (\<open>identity/IdentityBaseImpl.cpp\<close>) and its election timer
  (\<open>identity/IdentityFollower.cpp\<close>, \<open>service/HeartBeatController.cpp\<close>) at the level of their locks.
  The handler has one step per stretch of code between two points where it can wait: for the
  mutex of the term, for the mutexes of the term and of the vote, and for the end of the timer
  thread in \<open>restart\<close>, whose interruption ends the sleep of that thread and nothing else. The timer
  thread reads the term under its mutex and notifies the transformer.

  Without the timer's interference the handler is the one of \<open>Identity_Base\<close>. In the case of a
  greater term \<open>restart\<close> waits for the timer thread with the mutex of the term held.
\<close>

section \<open>State and steps\<close>

datatype handler_pc = Called | TermChecked | Compared | BothLocked | JoiningLocked | SameTerm | JoiningVote
  | Applying Reply | Answered Reply

datatype timer_pc = Sleeping | Expired | TermRead raft_term | TimerReturned

record VoteLocks =
  vk_sv :: Server
  vk_termHeld :: bool
  vk_voteHeld :: bool
  vk_handler :: handler_pc
  vk_timer :: timer_pc
  vk_interrupted :: bool

definition VoteLocks0 :: "Server \<Rightarrow> VoteLocks" where
  "VoteLocks0 sv = \<lparr>vk_sv = sv, vk_termHeld = False, vk_voteHeld = False, vk_handler = Called, vk_timer = Sleeping,
     vk_interrupted = False\<rparr>"

text \<open>The join returns; a new timer is started.\<close>

definition vk_joined :: "VoteLocks \<Rightarrow> VoteLocks option" where
  "vk_joined s = (if vk_timer s \<noteq> TimerReturned then None
     else map_option (\<lambda>sv. s\<lparr>vk_sv := sv, vk_timer := Sleeping, vk_interrupted := False, vk_termHeld := False,
         vk_voteHeld := False, vk_handler := Applying (currentTerm (sv_state sv), True)\<rparr>) (sv_restart (vk_sv s)))"

datatype vk_label = HandlerStep | TimerExpires | TimerInterrupted | TimerReads | TimerNotifies

definition vk_handle :: "RequestVoteMessage \<Rightarrow> VoteLocks \<Rightarrow> VoteLocks option" where
  "vk_handle msg s = (let sv = vk_sv s; st = sv_state sv in case vk_handler s of
     Called \<Rightarrow> if vk_termHeld s then None
       else Some (s\<lparr>vk_sv := snd (checkRpcTerm (rv_term msg) Follower sv), vk_handler := TermChecked\<rparr>)
   | TermChecked \<Rightarrow> if vk_termHeld s then None
       else Some (s\<lparr>vk_handler := (if rv_term msg < currentTerm st then Applying (currentTerm st, False) else Compared)\<rparr>)
   | Compared \<Rightarrow> if vk_termHeld s \<or> vk_voteHeld s then None
       else Some (s\<lparr>vk_termHeld := True, vk_voteHeld := True, vk_handler := BothLocked\<rparr>)
   | BothLocked \<Rightarrow> if currentTerm st < rv_term msg
       then Some (s\<lparr>vk_sv := sv\<lparr>sv_state := st\<lparr>votedFor := rv_candidateId msg, currentTerm := rv_term msg\<rparr>\<rparr>,
         vk_interrupted := True, vk_handler := JoiningLocked\<rparr>)
       else Some (s\<lparr>vk_termHeld := False, vk_voteHeld := False, vk_handler := SameTerm\<rparr>)
   | SameTerm \<Rightarrow> if vk_voteHeld s then None
       else (case (if votedFor st = NullServerId \<or> votedFor st = rv_candidateId msg
               then upToDate (entries st) (rv_lastLogIdx msg) (rv_lastLogTerm msg) else Some False) of
           None \<Rightarrow> None
         | Some ok \<Rightarrow> if ok
             then Some (s\<lparr>vk_sv := sv\<lparr>sv_state := st\<lparr>votedFor := rv_candidateId msg\<rparr>\<rparr>, vk_voteHeld := True,
               vk_interrupted := True, vk_handler := JoiningVote\<rparr>)
             else Some (s\<lparr>vk_handler := Applying (currentTerm st, False)\<rparr>))
   | JoiningLocked \<Rightarrow> vk_joined s
   | JoiningVote \<Rightarrow> vk_joined s
   | Applying r \<Rightarrow> map_option (\<lambda>sv. s\<lparr>vk_sv := sv, vk_handler := Answered r\<rparr>) (applyReadyEntries sv)
   | Answered r \<Rightarrow> None)"

fun vk_do :: "RequestVoteMessage \<Rightarrow> vk_label \<Rightarrow> VoteLocks \<Rightarrow> VoteLocks option" where
  "vk_do msg HandlerStep s = vk_handle msg s"
| "vk_do msg TimerExpires s = (if vk_timer s = Sleeping \<and> \<not> vk_interrupted s
     then Some (s\<lparr>vk_timer := Expired\<rparr>) else None)"
| "vk_do msg TimerInterrupted s = (if vk_timer s = Sleeping \<and> vk_interrupted s
     then Some (s\<lparr>vk_timer := TimerReturned\<rparr>) else None)"
| "vk_do msg TimerReads s = (if vk_timer s = Expired \<and> \<not> vk_termHeld s
     then Some (s\<lparr>vk_timer := TermRead (get_currentTerm (sv_state (vk_sv s)))\<rparr>) else None)"
| "vk_do msg TimerNotifies s = (case vk_timer s of
     TermRead t \<Rightarrow> Some (s\<lparr>vk_sv := sv_notify Candidate t (vk_sv s), vk_timer := TimerReturned\<rparr>)
   | _ \<Rightarrow> None)"

inductive vk_reach :: "RequestVoteMessage \<Rightarrow> Server \<Rightarrow> VoteLocks \<Rightarrow> bool" for msg sv where
  vk_start: "vk_reach msg sv (VoteLocks0 sv)"
| vk_step: "vk_reach msg sv s \<Longrightarrow> vk_do msg l s = Some s' \<Longrightarrow> vk_reach msg sv s'"

section \<open>The handler that returns\<close>

abbreviation vk_state :: "VoteLocks \<Rightarrow> ServerState" where
  "vk_state s \<equiv> sv_state (vk_sv s)"

text \<open>What the handler has done to the state, at each of its points.\<close>

definition vk_held :: "handler_pc \<Rightarrow> bool \<times> bool" where
  "vk_held pc = (pc = BothLocked \<or> pc = JoiningLocked, pc = BothLocked \<or> pc = JoiningLocked \<or> pc = JoiningVote)"

fun vk_progress :: "RequestVoteMessage \<Rightarrow> ServerState \<Rightarrow> handler_pc \<Rightarrow> ServerState \<Rightarrow> bool" where
  "vk_progress msg s0 Called s = (s = s0)"
| "vk_progress msg s0 TermChecked s = (s = s0\<lparr>currentTerm := min (currentTerm s0) (rv_term msg)\<rparr>)"
| "vk_progress msg s0 Compared s = (s = s0\<lparr>currentTerm := min (currentTerm s0) (rv_term msg)\<rparr>)"
| "vk_progress msg s0 BothLocked s = (s = s0\<lparr>currentTerm := min (currentTerm s0) (rv_term msg)\<rparr>)"
| "vk_progress msg s0 SameTerm s = (rv_term msg \<le> currentTerm s0 \<and> s = s0\<lparr>currentTerm := rv_term msg\<rparr>)"
| "vk_progress msg s0 JoiningLocked s = (currentTerm s0 < rv_term msg \<and> s = votedState msg s0)"
| "vk_progress msg s0 JoiningVote s = (grantsVote msg s0 \<and> s = votedState msg s0)"
| "vk_progress msg s0 (Applying r) s = (r = (rv_term msg, grantsVote msg s0) \<and> s = votedState msg s0)"
| "vk_progress msg s0 (Answered r) s = (r = (rv_term msg, grantsVote msg s0) \<and> s = votedState msg s0)"

definition vk_inv :: "RequestVoteMessage \<Rightarrow> Server \<Rightarrow> VoteLocks \<Rightarrow> bool" where
  "vk_inv msg sv0 s \<longleftrightarrow> sv_ok (vk_sv s) \<and> vk_progress msg (sv_state sv0) (vk_handler s) (vk_state s) \<and>
     (vk_termHeld s, vk_voteHeld s) = vk_held (vk_handler s) \<and>
     (vk_interrupted s \<longleftrightarrow> vk_handler s = JoiningLocked \<or> vk_handler s = JoiningVote)"

lemma sv_ok_state: "sv_ok sv \<Longrightarrow> sv_ok (sv\<lparr>sv_state := (sv_state sv)\<lparr>votedFor := v, currentTerm := t\<rparr>\<rparr>)"
  by (simp add: sv_ok_def)

lemma vk_joined_Some:
  assumes "sv_ok (vk_sv s)" "vk_timer s = TimerReturned"
  shows "\<exists>sv. vk_joined s = Some (s\<lparr>vk_sv := sv, vk_timer := Sleeping, vk_interrupted := False, vk_termHeld := False,
      vk_voteHeld := False, vk_handler := Applying (currentTerm (vk_state s), True)\<rparr>) \<and>
    sv_ok sv \<and> sv_state sv = vk_state s"
proof -
  obtain h where "sv_restart (vk_sv s) = Some ((vk_sv s)\<lparr>sv_heartBeat := h\<rparr>)" "hb_inv h" "hb_bound h"
    using assms(1) sv_restart_ok [of "vk_sv s"] by (auto simp: sv_ok_def)
  with assms show ?thesis by (auto simp: vk_joined_def sv_ok_def)
qed

lemma apply_nothing: "sv_ok sv \<Longrightarrow> applyReadyEntries sv = Some sv"
  by (simp add: applyReadyEntries_def sv_ok_def Let_def)

lemma vk_inv_handle:
  assumes inv: "vk_inv msg sv0 s" and ok: "sv_ok sv0" and step: "vk_handle msg s = Some s'"
  shows "vk_inv msg sv0 s'"
proof -
  let ?s0 = "sv_state sv0"
  from inv have sv: "sv_ok (vk_sv s)" and pr: "vk_progress msg ?s0 (vk_handler s) (vk_state s)"
    and held: "(vk_termHeld s, vk_voteHeld s) = vk_held (vk_handler s)"
    and int: "vk_interrupted s \<longleftrightarrow> vk_handler s = JoiningLocked \<or> vk_handler s = JoiningVote" by (simp_all add: vk_inv_def)
  have e0: "entries ?s0 \<noteq> []" using ok by (simp add: sv_ok_def)
  show ?thesis
  proof (cases "vk_handler s")
    case Called
    with step sv pr held int show ?thesis
      by (auto simp: vk_handle_def vk_inv_def vk_held_def Let_def checkRpcTerm_def sv_ok_def min_def split: if_splits)
  next
    case TermChecked
    with step sv pr held int show ?thesis by (auto simp: vk_handle_def vk_inv_def vk_held_def Let_def split: if_splits)
  next
    case Compared
    with step sv pr held int show ?thesis by (auto simp: vk_handle_def vk_inv_def vk_held_def Let_def split: if_splits)
  next
    case BothLocked
    with pr have st: "vk_state s = ?s0\<lparr>currentTerm := min (currentTerm ?s0) (rv_term msg)\<rparr>" by simp
    show ?thesis
    proof (cases "currentTerm (vk_state s) < rv_term msg")
      case True
      then have up: "currentTerm ?s0 < rv_term msg" using st by (auto simp: min_def split: if_splits)
      with step BothLocked True st sv held int show ?thesis
        by (auto simp: vk_handle_def vk_inv_def vk_held_def Let_def sv_ok_def grantsVote_def votedState_def)
    next
      case False
      then have up: "rv_term msg \<le> currentTerm ?s0" using st by (auto simp: min_def split: if_splits)
      with step BothLocked False st sv held int show ?thesis
        by (auto simp: vk_handle_def vk_inv_def vk_held_def Let_def min_absorb2)
    qed
  next
    case SameTerm
    with pr have st: "rv_term msg \<le> currentTerm ?s0" "vk_state s = ?s0\<lparr>currentTerm := rv_term msg\<rparr>" by simp_all
    let ?ok = "(votedFor ?s0 = NullServerId \<or> votedFor ?s0 = rv_candidateId msg) \<and> logUpToDate (entries ?s0) msg"
    have ok: "grantsVote msg ?s0 \<longleftrightarrow> ?ok" using st(1) by (auto simp: grantsVote_def)
    have "s' = (if ?ok then s\<lparr>vk_sv := (vk_sv s)\<lparr>sv_state := (vk_state s)\<lparr>votedFor := rv_candidateId msg\<rparr>\<rparr>, vk_voteHeld := True,
        vk_interrupted := True, vk_handler := JoiningVote\<rparr> else s\<lparr>vk_handler := Applying (rv_term msg, False)\<rparr>)"
      using step SameTerm st(2) upToDate_alt [OF e0, of msg]
      by (auto simp: vk_handle_def Let_def split: if_splits)
    with sv SameTerm st ok held int show ?thesis
      by (auto simp: vk_inv_def vk_held_def sv_ok_def votedState_def)
  next
    case JoiningLocked
    with step have "vk_timer s = TimerReturned" by (simp add: vk_handle_def Let_def vk_joined_def split: if_splits)
    from vk_joined_Some [OF sv this] step JoiningLocked pr show ?thesis
      by (auto simp: vk_handle_def vk_inv_def vk_held_def Let_def votedState_def grantsVote_def)
  next
    case JoiningVote
    with step have "vk_timer s = TimerReturned" by (simp add: vk_handle_def Let_def vk_joined_def split: if_splits)
    from vk_joined_Some [OF sv this] step JoiningVote pr show ?thesis
      by (auto simp: vk_handle_def vk_inv_def vk_held_def Let_def votedState_def)
  next
    case (Applying r)
    with step sv pr held int show ?thesis
      by (auto simp: vk_handle_def vk_inv_def vk_held_def Let_def apply_nothing)
  next
    case (Answered r)
    with step show ?thesis by (simp add: vk_handle_def Let_def)
  qed
qed

lemma vk_reach_inv: "vk_reach msg sv0 s \<Longrightarrow> sv_ok sv0 \<Longrightarrow> vk_inv msg sv0 s"
proof (induction rule: vk_reach.induct)
  case vk_start
  then show ?case by (simp add: vk_inv_def VoteLocks0_def vk_held_def)
next
  case (vk_step s l s')
  then show ?case
    using vk_inv_handle [of msg sv0 s s']
    by (cases l) (auto simp: vk_inv_def sv_ok_notify split: if_splits timer_pc.splits)
qed

text \<open>
  C27. The handler with its locks is the handler of \<open>Identity_Base\<close>: whatever the timer does in
  between, when it replies, its reply is the one that handler gives on the state at the time of the
  call, and it leaves the same state.
\<close>

theorem vote_handler_refines:
  assumes "vk_reach msg sv s" "sv_ok sv" "vk_handler s = Answered r"
  shows "\<exists>sv'. follower_requestVote msg sv = Some (r, sv') \<and> sv_state (vk_sv s) = sv_state sv'"
proof -
  have "vk_inv msg sv s" using assms(1,2) by (rule vk_reach_inv)
  with assms(3) have "r = (rv_term msg, grantsVote msg (sv_state sv))" "vk_state s = votedState msg (sv_state sv)"
    by (simp_all add: vk_inv_def)
  with requestVote_returns [OF assms(2), of msg Follower] show ?thesis by (auto simp: follower_requestVote_def)
qed

section \<open>The handler that waits for ever\<close>

text \<open>
  C28. When the handler and the timer can neither go on, the handler has replied and the timer has
  returned, or they are in a deadlock: the handler has adopted the greater term of the message and
  waits for the end of the timer thread with the mutex of the term held, and the timer thread, whose
  time has run out, waits for that mutex.
\<close>

theorem vote_stuck:
  assumes "vk_reach msg sv s" "sv_ok sv" "\<forall>l. vk_do msg l s = None"
  shows "(\<exists>r. vk_handler s = Answered r) \<and> vk_timer s = TimerReturned \<or>
    vk_handler s = JoiningLocked \<and> vk_timer s = Expired \<and> currentTerm (sv_state sv) < rv_term msg"
proof -
  have inv: "vk_inv msg sv s" using assms(1,2) by (rule vk_reach_inv)
  then have ok: "sv_ok (vk_sv s)" and held: "(vk_termHeld s, vk_voteHeld s) = vk_held (vk_handler s)"
    and int: "vk_interrupted s \<longleftrightarrow> vk_handler s = JoiningLocked \<or> vk_handler s = JoiningVote"
    and pr: "vk_progress msg (sv_state sv) (vk_handler s) (vk_state s)" by (simp_all add: vk_inv_def)
  have none: "vk_handle msg s = None" "vk_do msg TimerExpires s = None" "vk_do msg TimerInterrupted s = None"
    "vk_do msg TimerReads s = None" "vk_do msg TimerNotifies s = None"
    using assms(3) [rule_format, of HandlerStep] assms(3) by (simp, blast+)
  have timer: "vk_timer s = TimerReturned \<or> vk_timer s = Expired \<and> vk_termHeld s"
    using none(2-5) by (cases "vk_timer s") (auto split: if_splits)
  have e: "entries (vk_state s) \<noteq> []" using ok by (simp add: sv_ok_def)
  show ?thesis
  proof (cases "vk_handler s")
    case SameTerm
    with none(1) held upToDate_alt [OF e, of msg] show ?thesis
      by (auto simp: vk_handle_def vk_held_def Let_def split: if_splits)
  next
    case JoiningLocked
    have "vk_timer s \<noteq> TimerReturned"
      using none(1) JoiningLocked vk_joined_Some [OF ok] by (auto simp: vk_handle_def Let_def)
    with timer have "vk_timer s = Expired" by blast
    moreover have "currentTerm (sv_state sv) < rv_term msg" using pr JoiningLocked by simp
    ultimately show ?thesis using JoiningLocked by blast
  next
    case JoiningVote
    with none(1) timer held vk_joined_Some [OF ok] show ?thesis
      by (auto simp: vk_handle_def vk_held_def Let_def)
  next
    case (Applying r)
    with none(1) apply_nothing [OF ok] show ?thesis by (simp add: vk_handle_def Let_def)
  next
    case (Answered r)
    with timer held show ?thesis by (auto simp: vk_held_def)
  qed (use none(1) held in \<open>auto simp: vk_handle_def vk_held_def Let_def split: if_splits\<close>)
qed

lemma vk_replay_reach:
  "vk_reach msg sv s \<Longrightarrow> foldl (\<lambda>s l. Option.bind s (vk_do msg l)) (Some s) ls = Some s' \<Longrightarrow> vk_reach msg sv s'"
proof (induction ls arbitrary: s)
  case (Cons l ls)
  have none: "foldl (\<lambda>s l. Option.bind s (vk_do msg l)) None ls = None" for ls by (induction ls) simp_all
  from Cons.prems(2) none obtain s1 where "vk_do msg l s = Some s1"
    "foldl (\<lambda>s l. Option.bind s (vk_do msg l)) (Some s1) ls = Some s'" by (cases "vk_do msg l s") auto
  with Cons.IH vk_step [OF Cons.prems(1)] show ?case by blast
qed simp

text \<open>
  C37. The deadlock is real: from every follower in order, a vote request of a greater term and an
  election timer that runs out just before the term is adopted reach it, and nothing but the end
  of the process ends it: the request is never answered.
\<close>

theorem vote_timer_deadlock:
  assumes "sv_ok sv" "currentTerm (sv_state sv) < rv_term msg"
  shows "\<exists>s. vk_reach msg sv s \<and> vk_handler s = JoiningLocked \<and> vk_timer s = Expired \<and>
    (\<forall>l. vk_do msg l s = None)"
proof -
  let ?st = "(sv_state sv)\<lparr>votedFor := rv_candidateId msg, currentTerm := rv_term msg\<rparr>"
  let ?s = "\<lparr>vk_sv = sv\<lparr>sv_state := ?st\<rparr>, vk_termHeld = True, vk_voteHeld = True, vk_handler = JoiningLocked,
    vk_timer = Expired, vk_interrupted = True\<rparr>"
  have no: "(rv_term msg < currentTerm (sv_state sv)) = False" using assms(2) by (simp add: less_imp_le)
  have "foldl (\<lambda>s l. Option.bind s (vk_do msg l)) (Some (VoteLocks0 sv))
      [TimerExpires, HandlerStep, HandlerStep, HandlerStep, HandlerStep] = Some ?s"
    using assms(2) no by (simp add: vk_handle_def VoteLocks0_def checkRpcTerm_fresh Let_def)
  then have "vk_reach msg sv ?s" by (rule vk_replay_reach [OF vk_start])
  moreover have "vk_do msg l ?s = None" for l
    by (cases l) (simp_all add: vk_handle_def vk_joined_def Let_def)
  ultimately show ?thesis by (intro exI [of _ ?s]) simp
qed

theorem vote_timer_deadlock_witness:
  "\<exists>s. vk_reach (sample_vote 2 ''b'') sample_server s \<and> vk_handler s = JoiningLocked \<and> vk_timer s = Expired \<and>
     (\<forall>l. vk_do (sample_vote 2 ''b'') l s = None)"
  using vote_timer_deadlock [OF sample_server_ok, of "sample_vote 2 ''b''"] by (simp add: sample_server_def sample_defs)

theorem vote_stuck_witness:
  "\<exists>s. vk_reach (sample_vote 1 ''b'') sample_server s \<and> (\<exists>r. vk_handler s = Answered r) \<and> vk_timer s = TimerReturned"
proof -
  let ?msg = "sample_vote 1 ''b''"
  define run where "run = foldl (\<lambda>s l. Option.bind s (vk_do ?msg l)) (Some (VoteLocks0 sample_server))
    ([TimerExpires, TimerReads, TimerNotifies] @ replicate 7 HandlerStep @ [TimerExpires, TimerReads, TimerNotifies])"
  have "case run of None \<Rightarrow> False | Some s \<Rightarrow> vk_timer s = TimerReturned \<and> vk_handle ?msg s = None"
    unfolding run_def by code_simp
  then obtain s where s: "run = Some s" "vk_timer s = TimerReturned" "vk_handle ?msg s = None"
    by (auto split: option.splits)
  have reach: "vk_reach ?msg sample_server s" using s(1) vk_replay_reach [OF vk_start] unfolding run_def by blast
  have "vk_do ?msg l s = None" for l using s(2,3) by (cases l) simp_all
  with vote_stuck [OF reach sample_server_ok] s(2) reach show ?thesis by auto
qed

theorem vote_handler_refines_witness:
  "\<exists>s sv'. vk_reach (sample_vote 1 ''b'') sample_server s \<and> vk_handler s = Answered (1, True) \<and>
     follower_requestVote (sample_vote 1 ''b'') sample_server = Some ((1, True), sv') \<and> sv_state (vk_sv s) = sv_state sv'"
proof -
  let ?msg = "sample_vote 1 ''b''"
  define run where "run = foldl (\<lambda>s l. Option.bind s (vk_do ?msg l)) (Some (VoteLocks0 sample_server))
    ([TimerExpires, TimerReads, TimerNotifies] @ replicate 7 HandlerStep)"
  have "case run of None \<Rightarrow> False | Some s \<Rightarrow> vk_handler s = Answered (1, True)"
    unfolding run_def by code_simp
  then obtain s where s: "run = Some s" "vk_handler s = Answered (1, True)" by (auto split: option.splits)
  have "vk_reach ?msg sample_server s" using s(1) vk_replay_reach [OF vk_start] unfolding run_def by blast
  with vote_handler_refines [OF this sample_server_ok s(2)] s(2) show ?thesis by blast
qed

end
