(* ===== verification/Spec2Isabelle.thy ===== *)
theory Spec2Isabelle
  imports State_Machine_Safety Leader_Threads Wire_Calls Call_Path File_IO Raft_Api Client_Objects
    Random_Draws Loggers Pseudo_Raft Guarded_Server Vote_Locks
begin

text \<open>
  A model of quintet, a C++ library that replicates the calls of an application over a cluster
  of servers with the Raft protocol, and the theorems about it.

  \<^bold>\<open>The program.\<close> An application binds operations to an \<open>Interface\<close> and calls them. A call is
  serialized (\<open>Serialization.h\<close>) and brought by a thread of its own to the server that leads
  (\<open>Interface.cpp\<close>, \<open>RaftClient.cpp\<close>). A server (\<open>Raft.cpp\<close>) owns the replicated state, four
  identities (down, follower, candidate, leader) that answer the RPCs in turn, and the services
  the identities share: a heart beat controller (timers), an identity transformer (a gate in
  front of changes of identity), an event queue that runs the changes one at a time, and a queue
  of committed entries that feeds the application. Servers talk over gRPC: \<open>RpcService.cpp\<close>
  serves, \<open>RpcClient.cpp\<close> calls, \<open>Conversion.cpp\<close> maps the messages to the generated classes of
  \<open>RaftRpc.pb.cc\<close>. \<open>FileIO\<close> keeps variables in files; \<open>ServerInfo.cpp\<close> and \<open>Global.cpp\<close> read
  the configuration and set up logging.

  \<^bold>\<open>Theories and sources.\<close> Paths are below \<open>src/src\<close> and \<open>src/include/quintet\<close>.
  \<^item> \<open>Quintet_Prelude\<close>: lists, vectors, decimal numbers, majorities. \<open>Quintet_Types\<close>: the
    data (\<open>QuintetDefs.h\<close>, \<open>RaftDefs.h\<close>, \<open>RpcDefs.h\<close>, \<open>ServerState.h\<close>, \<open>ServerInfo.h\<close>).
  \<^item> Services: \<open>Event_Queue\<close> (\<open>misc/EventQueue.cpp\<close>), \<open>Transformer\<close>
    (\<open>service/IdentityTransformer.cpp\<close>), \<open>Heart_Beat\<close> (\<open>service/HeartBeatController.cpp\<close>).
  \<^item> Identities: \<open>Append_Log\<close> and \<open>Identity_Base\<close> (\<open>identity/IdentityBaseImpl.cpp\<close>: the merge
    of logs, the default handlers), \<open>Identities\<close> (follower, candidate, bogus), \<open>Identity_Leader\<close>
    (\<open>identity/IdentityLeader.cpp\<close>: requests, \<open>tryAppendEntries\<close> and its parts as functions),
    \<open>Leader_Threads\<close> (its heart beat, threads, locks and \<open>leave\<close> as a transition system),
    \<open>Replication\<close> (a leader with the followers that answer it).
  \<^item> Servers: \<open>Raft_Server\<close> (\<open>Raft.cpp\<close>: dispatch, transformations, start and stop), \<open>Raft_Api\<close>
    (its public members, with \<open>RaftDebugContext.h\<close>), \<open>Guarded_Server\<close> (handlers and
    transformations of one server, interleaved), \<open>Vote_Locks\<close> (a vote and the election timer at
    the level of their locks), \<open>Cluster\<close> (several servers and a network), \<open>Log_Matching\<close> (the
    logs of a cluster whose AppendEntries messages its leaders have built), \<open>Pseudo_Raft\<close>
    (\<open>PseudoRaft.h\<close>, the stand-in for a server).
  \<^item> Commitment: \<open>Commit_Cluster\<close> (the cluster with the answers that its leaders count, and with
    three checks that the code leaves out as flags), \<open>Leader_Completeness\<close> (what a majority has
    taken, about histories only), \<open>Commit_Invariant\<close>, \<open>Commit_Steps\<close> and \<open>Commit_Entries\<close> (the
    invariant, and one lemma per step that keeps it), \<open>Applied_Entries\<close> (what a step applies),
    \<open>State_Machine_Safety\<close>.
  \<^item> RPC: \<open>Pb_Messages\<close>, \<open>Pb_Wire\<close> and \<open>Pb_Codec\<close> (\<open>service/rpc/RaftRpc.pb.cc\<close>: the message
    classes, serializers and parsers), \<open>Conversion\<close>, \<open>Rpc_Service\<close> and \<open>Rpc_Gate\<close>
    (\<open>RpcService.cpp\<close>: handlers; the wrapper with pause and stop), \<open>Rpc_Client\<close> and \<open>Rpc_Clients\<close>
    (\<open>RpcClient.cpp\<close>, \<open>RaftClient.cpp\<close>, \<open>RpcClients.cpp\<close>), \<open>Client_Objects\<close> (their construction,
    moves and destruction), \<open>Wire_Calls\<close> (a call with its bytes).
  \<^item> Application side: \<open>Serialization\<close>, \<open>Client_Interface\<close> (\<open>Interface.h\<close>, \<open>Interface.cpp\<close>,
    \<open>misc/Thread.cpp\<close>), \<open>Call_Path\<close> (a call from its arguments to its promise).
  \<^item> Environment: \<open>File_IO\<close> (\<open>misc/FileIO.h\<close>, \<open>FileIO.cpp\<close>), \<open>Configuration\<close>
    (\<open>ServerInfo.cpp\<close>, \<open>service/log/Global.cpp\<close>), \<open>Loggers\<close> (the loggers a server configures),
    \<open>Random_Draws\<close> (\<open>misc/Rand.cpp\<close> and the timeouts drawn with it).

  \<^bold>\<open>State and operations.\<close> A class is a record with its members as fields, an operation a
  function on it; \<open>None\<close> is an exception, a failed assertion or an access out of range. The
  \<open>Server\<close> record is what the identities refer to (state, configuration, services); \<open>Raft\<close> adds
  the identity and the members of the identities. \<open>Term\<close> and \<open>PrmIdx\<close> are 64-bit words, a \<open>Port\<close> a
  16-bit word; an \<open>Index\<close> is a natural number, because the code only compares it with sizes of
  vectors, and \<open>Conversion\<close> writes out its 64-bit form. Threads are step relations with one
  step per stretch of code between two points where other threads are seen (\<open>Event_Queue\<close>,
  \<open>Rpc_Gate\<close>, \<open>Leader_Threads\<close>, \<open>Cluster\<close>). What the code takes from outside (random timeouts,
  results and order of calls, hooks of the tests) is an argument.

  \<^bold>\<open>Interfaces.\<close> \<open>fifo\<close> (a queue of events, by \<open>EventQueue\<close>), \<open>term_gate\<close> (by \<open>notify\<close>),
  \<open>identity\<close> (the handlers of an identity return and keep the invariant; by all four), \<open>message\<close>
  and \<open>codec\<close> (the seven message classes and their conversions), \<open>protobuf\<close>, \<open>property_tree\<close> and
  \<open>text_archive\<close> (documented laws of the libraries; interpreted on the wire format of protocol
  buffers, on association lists and on length-prefixed tokens), \<open>attribute_set\<close> (the loggers of
  Boost.Log, by maps) and \<open>uniform_int_distribution\<close> (by a seeded generator).

  \<^bold>\<open>What is shown.\<close>
  \<^item> The handlers: what they do on every branch, that they return, what they keep of the log and
    of the commit index, and that entries are applied once and in order.
  \<^item> Elections: one winner per term when messages arrive in the order of terms; two winners and
    two leaders of one term when they do not, or when a queued transformation comes late.
  \<^item> Replication: the leader commits only what a majority holds, in every interleaving in which
    no request is logged while a call is in flight, and commits what no follower holds otherwise;
    its loop ends, repairs the log of a live follower, and a majority of live followers is enough
    to commit and apply all requests; \<open>leave\<close> can always be completed and leaves no thread.
  \<^item> Logs of a cluster, with messages in the order of terms, queued transformations run before
    anything else, and no AppendEntries for a leader: entries of one term at one index have one
    log before them, on all servers; leaders only append; a term has one leader; a request is in
    a log once; and the loop of a leader repairs every live follower, as the hypothesis
    \<open>logMatching\<close> of \<open>Replication\<close> holds in every such state. They fail when a leader is handed
    the message of another leader.
  \<^item> Commitment, on schedules restricted further to those that three checks of Raft, which the
    code leaves out, would let pass (the comparison of logs in a vote for a greater term,
    commitment only with an entry of the leader's own term, and the adoption of the term of
    AppendEntries): all servers apply one sequence of requests, leaders have what was committed
    in earlier terms, and no step takes a committed entry back; without any one of the checks two
    servers apply different requests as their first.
  \<^item> The server: every RPC, timer, vote thread and transformation, taken as a single step, returns
    and keeps the invariant.
  \<^item> Below the steps: the pause keeps every handler out of a transformation that starts with none
    running, and a handler of the leader may otherwise answer after its leader is gone; the locks
    of a vote refine the handler, and a vote and a firing election timer may wait for each other
    for ever.
  \<^item> RPC: conversions and bytes are round trips for messages within the bounds of the wire,
    parsers end, one handler runs at a time, past the wait of \<open>stop\<close> for the count no call is
    inside, and the schedules in which \<open>stop\<close> does not return.
  \<^item> Calls: each promise is set once with the result of its entry, and servers that apply the same
    entries agree in the results.
  \<^item> Files: a vector in a file is a stack of values, when a zero byte happens to stand behind the
    buffers; the records of a server are in its files. Timeouts are drawn between their bounds.
  Theorems of the kind error state what the code does where it departs from its documentation.

  \<^bold>\<open>Bounds and fuel.\<close> \<open>merge_loop\<close> has the length of its input plus one as fuel, every turn reads
  at least a byte; \<open>repair\<close> has the \<open>nextIdx\<close> of the follower,
  which every refusal lowers; \<open>ta_loop\<close> recurses over the results of its calls, of which it uses
  at most \<open>nextIdx + 2\<close>. The loops of threads are steps of relations and need no fuel.

  \<^bold>\<open>Abstractions.\<close> In \<open>Identity_Base\<close> to \<open>Cluster\<close> a handler is one step, since the RPC service
  runs one at a time; \<open>Rpc_Gate\<close> shows this, and that a pause does not wait for a running handler;
  \<open>Guarded_Server\<close> and \<open>Vote_Locks\<close> show when the one step is what the threads do.
  The flags \<open>ordered\<close> of \<open>Cluster\<close>, \<open>takeover\<close> of \<open>Log_Matching\<close> and \<open>quiet\<close> of \<open>Leader_Threads\<close>
  are assumptions on schedules, as is \<open>prompt\<close> of \<open>Log_Matching\<close> (a queued transformation runs
  first); what happens without them is the subject of theorems too, as for \<open>exclusive\<close> of
  \<open>Guarded_Server\<close>: there a transformation starts with no handler running, and timers, threads and
  the stop wait for its end, while it is the pause of the code that keeps later handlers out. The
  flags of \<open>Commit_Cluster\<close> are no part of the code: they keep the schedules in which a missing
  check would have passed; its leaders count answers that followers have given to them in their
  term, and no request is logged while a call is in flight. Its sets of logs and votes only record
  the past. gRPC, protocol buffers and Boost are parameters: gRPC brings the bytes of a message of
  no more than \<open>limit\<close> bytes to the other side or ends a call with an error, and its \<open>Shutdown\<close>
  returns when the calls that it has accepted are finished (the condition of \<open>StopReturn\<close> in
  \<open>Rpc_Gate\<close>). \<open>leave\<close> of the leader waits for the apply queue: in \<open>Leader_Threads\<close> with the worker
  of that queue, while \<open>leader_leave\<close>, as one step, is the state after the wait. A file that is cut
  off inside an element makes \<open>getVector\<close> loop on uninitialised data, \<open>None\<close> in \<open>read_elems\<close>.

  \<^bold>\<open>Not modelled.\<close> The generated gRPC stubs (they only call gRPC); descriptors, reflection,
  arenas and cached sizes of the message classes; macros and headers that only include others or
  declare what the theories model; the members of \<open>RpcService\<close> and of the identities that only
  forward to their implementation; the sinks of Boost.Log behind \<open>Global.cpp\<close>; tests and examples.
\<close>

end
